(* ===== verification/Prelude.thy ===== *)
theory Prelude
  imports Main "HOL-Library.Word"
begin

text \<open>
  Shared vocabulary of the development: machine words and their memory representation, C error
  codes, \<^verbatim>\<open>size_t\<close> arithmetic, and the raw memory operations the buffers are built on.

  Conventions used by every theory:
  \<^item> \<^verbatim>\<open>uint8_t\<close>, \<^verbatim>\<open>uint16_t\<close>, \<^verbatim>\<open>uint32_t\<close> and \<^verbatim>\<open>uint64_t\<close> are words of their width.
  \<^item> An \<^verbatim>\<open>int\<close> error code is an \<open>int\<close> with the values of Linux \<^verbatim>\<open>errno.h\<close>; \<^verbatim>\<open>err |= e\<close> is the bitwise
    \<open>or\<close> of the two codes, as in the sources.
  \<^item> \<open>FAULT\<close> is a code of the model only: it marks an access outside a memory block, which C
    leaves undefined.  It is \<open>-1\<close>, so it absorbs every later \<^verbatim>\<open>|=\<close> and cannot be lost.
  \<^item> The host is little-endian, so \<^verbatim>\<open>htons\<close> and its relatives reverse the bytes.
  \<^item> A pointer argument whose NULL test only rejects a misuse of the interface is a value here;
    pointers for which NULL is a meaningful input are of an option type.
\<close>

unbundle bit_operations_syntax

named_theorems wire_simps \<open>memory representations of words and byte-order conversion\<close>
named_theorems wf_intros \<open>operations keep the well-formedness invariants\<close>

type_synonym byte = "8 word"
type_synonym errno = int

section \<open>Error codes\<close>

abbreviation FAULT :: errno where "FAULT \<equiv> -1"
abbreviation ENOENT :: errno where "ENOENT \<equiv> 2"
abbreviation ENOMEM :: errno where "ENOMEM \<equiv> 12"
abbreviation EINVAL :: errno where "EINVAL \<equiv> 22"
abbreviation ERANGE :: errno where "ERANGE \<equiv> 34"
abbreviation ENOSYS :: errno where "ENOSYS \<equiv> 38"
abbreviation EPROTO :: errno where "EPROTO \<equiv> 71"
abbreviation EBADMSG :: errno where "EBADMSG \<equiv> 74"
abbreviation EOVERFLOW :: errno where "EOVERFLOW \<equiv> 75"
abbreviation EAFNOSUPPORT :: errno where "EAFNOSUPPORT \<equiv> 97"

lemma or_errno_0 [simp]: "(0::int) OR e = e" "e OR (0::int) = e"
  by simp_all

lemma fault_absorbs: "FAULT OR e = FAULT" "e OR FAULT = FAULT"
  by simp_all

section \<open>\<^verbatim>\<open>size_t\<close> arithmetic\<close>

text \<open>Additions that can leave the 64-bit range are written with the wrap-around.\<close>

definition szadd :: "nat \<Rightarrow> nat \<Rightarrow> nat" where
  "szadd a b = (a + b) mod 2 ^ 64"

definition szsub :: "nat \<Rightarrow> nat \<Rightarrow> nat" where
  "szsub a b = (a + 2 ^ 64 - b) mod 2 ^ 64"

lemma szadd_eq [simp]: "a + b < 2 ^ 64 \<Longrightarrow> szadd a b = a + b"
  by (simp add: szadd_def)

lemma szsub_eq [simp]: "b \<le> a \<Longrightarrow> a < 2 ^ 64 \<Longrightarrow> szsub a b = a - b"
proof -
  assume "b \<le> a" "a < 2 ^ 64"
  then have "a + 2 ^ 64 - b = (a - b) + 2 ^ 64" by simp
  then show ?thesis using \<open>a < 2 ^ 64\<close> unfolding szsub_def
    by (simp only: mod_add_self2) (simp add: less_imp_diff_less)
qed

section \<open>Words in memory\<close>

text \<open>The bytes of a word at increasing addresses on a little-endian host, and back.\<close>

definition le16 :: "16 word \<Rightarrow> byte list" where
  "le16 v = [ucast v, ucast (drop_bit 8 v)]"

definition le32 :: "32 word \<Rightarrow> byte list" where
  "le32 v = le16 (ucast v) @ le16 (ucast (drop_bit 16 v))"

definition le64 :: "64 word \<Rightarrow> byte list" where
  "le64 v = le32 (ucast v) @ le32 (ucast (drop_bit 32 v))"

definition unle16 :: "byte list \<Rightarrow> 16 word" where
  "unle16 bs = (case bs of [a, b] \<Rightarrow> ucast a OR push_bit 8 (ucast b) | _ \<Rightarrow> 0)"

definition unle32 :: "byte list \<Rightarrow> 32 word" where
  "unle32 bs = ucast (unle16 (take 2 bs)) OR push_bit 16 (ucast (unle16 (drop 2 bs)))"

definition unle64 :: "byte list \<Rightarrow> 64 word" where
  "unle64 bs = ucast (unle32 (take 4 bs)) OR push_bit 32 (ucast (unle32 (drop 4 bs)))"

lemma length_le [simp]: "length (le16 a) = 2" "length (le32 b) = 4" "length (le64 c) = 8"
  by (simp_all add: le16_def le32_def le64_def)

lemma word_halves16: "ucast (ucast v :: byte) OR push_bit 8 (ucast (ucast (drop_bit 8 v) :: byte)) = (v :: 16 word)"
  by (auto simp: bit_simps intro!: bit_word_eqI)

lemma word_halves32:
  "ucast (ucast v :: 16 word) OR push_bit 16 (ucast (ucast (drop_bit 16 v) :: 16 word)) = (v :: 32 word)"
  by (auto simp: bit_simps intro!: bit_word_eqI)

lemma word_halves64:
  "ucast (ucast v :: 32 word) OR push_bit 32 (ucast (ucast (drop_bit 32 v) :: 32 word)) = (v :: 64 word)"
  by (auto simp: bit_simps intro!: bit_word_eqI)

lemma unle16_le16 [simp]: "unle16 (le16 v) = v"
  by (simp add: unle16_def le16_def word_halves16)

lemma unle32_le32 [simp]: "unle32 (le32 v) = v"
  by (simp add: unle32_def le32_def word_halves32)

lemma unle64_le64 [simp]: "unle64 (le64 v) = v"
  by (simp add: unle64_def le64_def word_halves64)

text \<open>
  Network byte order.  \<^verbatim>\<open>htons\<close>, \<^verbatim>\<open>htonl\<close> and \<^verbatim>\<open>sys_htonll\<close> swap the bytes of each half and the
  halves; each is its own inverse, so \<^verbatim>\<open>ntohs\<close> and its relatives are the same maps.
\<close>

definition htons :: "16 word \<Rightarrow> 16 word" where
  "htons v = push_bit 8 v OR drop_bit 8 v"

definition htonl :: "32 word \<Rightarrow> 32 word" where
  "htonl v = push_bit 16 (ucast (htons (ucast v))) OR ucast (htons (ucast (drop_bit 16 v)))"

definition sys_htonll :: "64 word \<Rightarrow> 64 word" where
  "sys_htonll v = push_bit 32 (ucast (htonl (ucast v))) OR ucast (htonl (ucast (drop_bit 32 v)))"

abbreviation ntohs :: "16 word \<Rightarrow> 16 word" where "ntohs \<equiv> htons"
abbreviation ntohl :: "32 word \<Rightarrow> 32 word" where "ntohl \<equiv> htonl"
abbreviation sys_ntohll :: "64 word \<Rightarrow> 64 word" where "sys_ntohll \<equiv> sys_htonll"

text \<open>The bytes of a word in network order.\<close>

definition be16 :: "16 word \<Rightarrow> byte list" where
  "be16 v = [ucast (drop_bit 8 v), ucast v]"

definition be32 :: "32 word \<Rightarrow> byte list" where
  "be32 v = be16 (ucast (drop_bit 16 v)) @ be16 (ucast v)"

definition be64 :: "64 word \<Rightarrow> byte list" where
  "be64 v = be32 (ucast (drop_bit 32 v)) @ be32 (ucast v)"

lemma length_be [simp]: "length (be16 a) = 2" "length (be32 b) = 4" "length (be64 c) = 8"
  by (simp_all add: be16_def be32_def be64_def)

lemma htons_htons [simp]: "htons (htons v) = v"
  by (auto simp: htons_def bit_simps intro!: bit_word_eqI)

lemma not_bit_beyond: "LENGTH('a) \<le> n \<Longrightarrow> \<not> bit (w :: 'a::len word) n"
  using bit_imp_le_length [of w n] by auto

lemma byte_eqI:
  assumes "bit a 0 = bit b 0" "bit a 1 = bit b 1" "bit a 2 = bit b 2" "bit a 3 = bit b 3"
    "bit a 4 = bit b 4" "bit a 5 = bit b 5" "bit a 6 = bit b 6" "bit a 7 = bit b 7"
  shows "a = (b :: byte)"
proof (rule bit_word_eqI)
  fix n assume "n < LENGTH(8)"
  then consider "n = 0" | "n = 1" | "n = 2" | "n = 3" | "n = 4" | "n = 5" | "n = 6" | "n = 7"
    by (simp, arith)
  then show "bit a n = bit b n" using assms by cases auto
qed

lemma and_1_bit: "(x AND 1 \<noteq> 0) = bit (x :: 'a::len word) 0"
  by (simp add: and_one_eq mod_2_eq_odd bit_0)

lemma bit_below:
  fixes w :: "'a::len word"
  assumes "uint w < 2 ^ k" "bit w n"
  shows "n < k"
proof -
  have "take_bit k (uint w) = uint w" using assms(1) by (simp add: take_bit_int_eq_self)
  moreover have "bit (uint w) n" using assms(2) by (simp add: bit_uint_iff bit_imp_le_length)
  ultimately show "n < k" by (metis bit_take_bit_iff)
qed

lemma unat_of_nat_small: "k \<le> unat (w :: 'a::len word) \<Longrightarrow> unat (of_nat k :: 'a word) = k"
  by (rule unat_of_nat [THEN trans], rule mod_less) (erule le_less_trans, rule unsigned_less)

lemma unat_minus_of_nat:
  "k \<le> unat (w :: 'a::len word) \<Longrightarrow> unat (w - of_nat k) = unat w - k"
  by (simp add: unat_sub word_le_nat_alt unat_of_nat_small)

lemma swap_halves32:
  fixes a b :: "16 word"
  shows "ucast (push_bit 16 (ucast a) OR ucast b :: 32 word) = b"
    and "ucast (drop_bit 16 (push_bit 16 (ucast a) OR ucast b :: 32 word)) = a"
  by (auto simp: bit_simps not_bit_beyond intro!: bit_word_eqI)

lemma swap_halves64:
  fixes a b :: "32 word"
  shows "ucast (push_bit 32 (ucast a) OR ucast b :: 64 word) = b"
    and "ucast (drop_bit 32 (push_bit 32 (ucast a) OR ucast b :: 64 word)) = a"
  by (auto simp: bit_simps not_bit_beyond intro!: bit_word_eqI)

lemma htonl_htonl [simp]: "htonl (htonl v) = v"
  unfolding htonl_def swap_halves32 htons_htons by (subst or.commute) (rule word_halves32)

lemma sys_htonll_htonll [simp]: "sys_htonll (sys_htonll v) = v"
  unfolding sys_htonll_def swap_halves64 htonl_htonl by (subst or.commute) (rule word_halves64)

lemma le16_htons [simp, wire_simps]: "le16 (htons v) = be16 v"
  by (auto simp: le16_def be16_def htons_def bit_simps intro!: bit_word_eqI)

lemma le32_htonl [simp, wire_simps]: "le32 (htonl v) = be32 v"
  unfolding le32_def htonl_def swap_halves32 le16_htons be32_def ..

lemma le64_htonll [simp, wire_simps]: "le64 (sys_htonll v) = be64 v"
  unfolding le64_def sys_htonll_def swap_halves64 le32_htonl be64_def ..

lemma htons_unle16_be16 [simp, wire_simps]: "htons (unle16 (be16 v)) = v"
  by (simp flip: le16_htons)

lemma htonl_unle32_be32 [simp, wire_simps]: "htonl (unle32 (be32 v)) = v"
  by (simp flip: le32_htonl)

lemma htonll_unle64_be64 [simp, wire_simps]: "sys_htonll (unle64 (be64 v)) = v"
  by (simp flip: le64_htonll)

end
