(* ===== verification/Mem.thy ===== *)
theory Mem
  imports Prelude
begin

text \<open>
  Reference-counted memory objects (\<^verbatim>\<open>src/mem/mem.c\<close>).  A heap maps addresses to memory objects;
  each object has its reference count, the size recorded in its header, its bytes and whether it
  has a destructor.  \<^verbatim>\<open>malloc\<close> and \<^verbatim>\<open>realloc\<close> are the parameter \<open>al\<close>: for a requested size
  it says whether the C library grants it and what the fresh bytes hold.  The debug bookkeeping
  (\<^verbatim>\<open>MEM_DEBUG\<close>: statistics, magic numbers, the list of live blocks) is not modelled.
\<close>

section \<open>Contents of fresh blocks\<close>

type_synonym alloc = "nat \<Rightarrow> (nat \<Rightarrow> byte) option"

definition MEM_SIZE_MAX :: nat where
  "MEM_SIZE_MAX = 2 ^ 32 - 1"

definition mem_ok :: "alloc \<Rightarrow> bool" where
  "mem_ok al \<longleftrightarrow> (\<forall>n. al n \<noteq> None)"

definition mem_alloc :: "alloc \<Rightarrow> nat \<Rightarrow> byte list option" where
  "mem_alloc al n =
     (if n > MEM_SIZE_MAX then None
      else case al n of None \<Rightarrow> None | Some f \<Rightarrow> Some (map f [0..<n]))"

definition mem_zalloc :: "alloc \<Rightarrow> nat \<Rightarrow> byte list option" where
  "mem_zalloc al n =
     (case mem_alloc al n of None \<Rightarrow> None | Some p \<Rightarrow> Some (replicate n 0))"

text \<open>C \<^verbatim>\<open>realloc\<close>: the old bytes up to the smaller size, fresh bytes after them.\<close>

definition c_realloc :: "alloc \<Rightarrow> byte list \<Rightarrow> nat \<Rightarrow> byte list option" where
  "c_realloc al old n =
     (case al n of None \<Rightarrow> None | Some f \<Rightarrow> Some (take n old @ map f [length old..<n]))"

lemma length_mem_alloc: "mem_alloc al n = Some b \<Longrightarrow> length b = n"
  by (auto simp: mem_alloc_def split: if_splits option.splits)

lemma mem_alloc_total: "mem_ok al \<Longrightarrow> n \<le> MEM_SIZE_MAX \<Longrightarrow> \<exists>b. mem_alloc al n = Some b"
  by (auto simp: mem_alloc_def mem_ok_def split: option.splits)

lemma length_c_realloc: "c_realloc al old n = Some b \<Longrightarrow> length b = n"
  by (auto simp: c_realloc_def split: option.splits)

section \<open>Reading and writing inside a block\<close>

text \<open>\<^verbatim>\<open>memcpy\<close> into and out of a block; \<open>None\<close> is an access outside the block.\<close>

definition mem_write :: "byte list \<Rightarrow> nat \<Rightarrow> byte list \<Rightarrow> byte list option" where
  "mem_write b off bs =
     (if off + length bs \<le> length b
      then Some (take off b @ bs @ drop (off + length bs) b) else None)"

definition mem_read :: "byte list \<Rightarrow> nat \<Rightarrow> nat \<Rightarrow> byte list option" where
  "mem_read b off n = (if off + n \<le> length b then Some (take n (drop off b)) else None)"

lemma length_mem_write: "mem_write b off bs = Some b' \<Longrightarrow> length b' = length b"
  by (auto simp: mem_write_def split: if_splits)

lemma mem_write_frame:
  assumes "mem_write b off bs = Some b'" "i < off \<or> off + length bs \<le> i" "i < length b"
  shows "b' ! i = b ! i"
  using assms by (auto simp: mem_write_def nth_append split: if_splits)

lemma mem_write_hit:
  assumes "mem_write b off bs = Some b'"
  shows "take (length bs) (drop off b') = bs"
  using assms by (auto simp: mem_write_def split: if_splits)

lemma mem_read_write: "mem_write b off bs = Some b' \<Longrightarrow> mem_read b' off (length bs) = Some bs"
  by (auto simp: mem_read_def length_mem_write mem_write_hit)
     (auto simp: mem_write_def split: if_splits)

section \<open>Memory objects\<close>

record mem =
  nrefs :: "32 word"
  m_size :: nat
  m_data :: "byte list"
  m_dh :: bool

type_synonym heap = "nat \<Rightarrow> mem option"

text \<open>
  \<open>fresh\<close> is the address the C library returns for a new block.  \<open>dhf\<close> stands for the
  destructors: what the destructor of the object at an address does to the heap.  It may change
  the object, take new references to it, and allocate, change and free other objects.  The result
  \<open>None\<close> of an operation is an access to memory that is not allocated.
\<close>

type_synonym destroy_h = "nat \<Rightarrow> heap \<Rightarrow> heap option"

definition mem_alloc_obj :: "alloc \<Rightarrow> nat \<Rightarrow> heap \<Rightarrow> nat \<Rightarrow> bool \<Rightarrow> nat option \<times> heap" where
  "mem_alloc_obj al fresh h n dh =
     (case mem_alloc al n of
        None \<Rightarrow> (None, h)
      | Some b \<Rightarrow> (Some fresh, h(fresh \<mapsto> \<lparr>nrefs = 1, m_size = n, m_data = b, m_dh = dh\<rparr>)))"

definition mem_destructor :: "heap \<Rightarrow> nat \<Rightarrow> bool \<Rightarrow> heap option" where
  "mem_destructor h p dh = (case h p of None \<Rightarrow> None | Some m \<Rightarrow> Some (h(p \<mapsto> m\<lparr>m_dh := dh\<rparr>)))"

definition mem_ref :: "heap \<Rightarrow> nat \<Rightarrow> heap option" where
  "mem_ref h p =
     (case h p of None \<Rightarrow> None | Some m \<Rightarrow> Some (h(p \<mapsto> m\<lparr>nrefs := nrefs m + 1\<rparr>)))"

definition mem_deref :: "destroy_h \<Rightarrow> heap \<Rightarrow> nat \<Rightarrow> heap option" where
  "mem_deref dhf h p =
     (case h p of
        None \<Rightarrow> None
      | Some m \<Rightarrow>
          let h1 = h(p \<mapsto> m\<lparr>nrefs := nrefs m - 1\<rparr>) in
          if nrefs m > 1 then Some h1
          else
            case (if m_dh m then dhf p h1 else Some h1) of
              None \<Rightarrow> None
            | Some h2 \<Rightarrow>
                (case h2 p of
                   None \<Rightarrow> None
                 | Some m2 \<Rightarrow> if nrefs m2 > 0 then Some h2 else Some (h2(p := None))))"

definition mem_nrefs :: "heap \<Rightarrow> nat \<Rightarrow> 32 word option" where
  "mem_nrefs h p = map_option nrefs (h p)"

definition mem_realloc ::
  "alloc \<Rightarrow> nat \<Rightarrow> destroy_h \<Rightarrow> heap \<Rightarrow> nat \<Rightarrow> nat \<Rightarrow> errno \<times> nat option \<times> heap" where
  "mem_realloc al fresh dhf h p n =
     (if n > MEM_SIZE_MAX then (0, None, h)
      else case h p of
        None \<Rightarrow> (FAULT, None, h)
      | Some m \<Rightarrow>
          if nrefs m > 1 then
            (case mem_alloc_obj al fresh h n (m_dh m) of
               (None, h1) \<Rightarrow> (0, None, h1)
             | (Some q, h1) \<Rightarrow>
                 (case h1 q of
                    None \<Rightarrow> (FAULT, None, h1)
                  | Some m2 \<Rightarrow>
                      (case mem_write (m_data m2) 0 (take (m_size m) (m_data m)) of
                         None \<Rightarrow> (FAULT, None, h1)
                       | Some b \<Rightarrow>
                           (case mem_deref dhf (h1(q \<mapsto> m2\<lparr>m_data := b\<rparr>)) p of
                              None \<Rightarrow> (FAULT, None, h1)
                            | Some h2 \<Rightarrow> (0, Some q, h2)))))
          else
            (case c_realloc al (m_data m) n of
               None \<Rightarrow> (0, None, h)
             | Some b \<Rightarrow> (0, Some p, h(p \<mapsto> m\<lparr>m_size := n, m_data := b\<rparr>))))"

definition mem_reallocarray_size :: "nat \<Rightarrow> nat \<Rightarrow> nat option" where
  "mem_reallocarray_size nmemb membsize =
     (if membsize \<noteq> 0 \<and> nmemb > MEM_SIZE_MAX div membsize then None
      else Some (nmemb * membsize mod 2 ^ 64))"

text \<open>The guard of \<^verbatim>\<open>mem_reallocarray\<close> keeps the product inside the allocatable range.\<close>

lemma mem_reallocarray_size_exact:
  assumes "mem_reallocarray_size nmemb membsize = Some t"
  shows "t = nmemb * membsize \<and> t \<le> MEM_SIZE_MAX"
proof (cases "membsize = 0")
  case False
  with assms have "nmemb \<le> MEM_SIZE_MAX div membsize"
    by (auto simp: mem_reallocarray_size_def split: if_splits)
  then have "nmemb * membsize \<le> MEM_SIZE_MAX"
    using False by (simp add: less_eq_div_iff_mult_less_eq)
  with assms show ?thesis
    by (auto simp: mem_reallocarray_size_def MEM_SIZE_MAX_def split: if_splits)
qed (use assms in \<open>auto simp: mem_reallocarray_size_def\<close>)

section \<open>Reference counting\<close>

text \<open>The invariant: the header's size is the block's, and a live object is referenced.\<close>

definition obj_ok :: "mem \<Rightarrow> bool" where
  "obj_ok m \<longleftrightarrow> m_size m = length (m_data m) \<and> nrefs m > 0 \<and> m_size m \<le> MEM_SIZE_MAX"

definition heap_ok :: "heap \<Rightarrow> bool" where
  "heap_ok h \<longleftrightarrow> (\<forall>p m. h p = Some m \<longrightarrow> obj_ok m)"

lemma new_obj_ok:
  "mem_alloc al n = Some b \<Longrightarrow> obj_ok \<lparr>nrefs = 1, m_size = n, m_data = b, m_dh = dh\<rparr>"
  by (auto simp: obj_ok_def mem_alloc_def split: if_splits option.splits)

lemma mem_alloc_obj_ok [wf_intros]:
  "heap_ok h \<Longrightarrow> heap_ok (snd (mem_alloc_obj al fresh h n dh))"
  using new_obj_ok by (auto simp: heap_ok_def mem_alloc_obj_def split: option.splits)

lemma mem_ref_deref:
  assumes "h p = Some m" "nrefs m > 0" "nrefs m < max_word"
  shows "Option.bind (mem_ref h p) (\<lambda>h1. mem_deref dhf h1 p) = Some h"
proof -
  have "nrefs m + 1 > 1"
    using assms(2,3) by unat_arith
  with assms(1) show ?thesis
    by (auto simp: mem_deref_def mem_ref_def)
qed

text \<open>Dropping \<open>k\<close> references, one after the other.\<close>

primrec mem_derefs :: "destroy_h \<Rightarrow> nat \<Rightarrow> nat \<Rightarrow> heap \<Rightarrow> heap option" where
  "mem_derefs dhf p 0 h = Some h"
| "mem_derefs dhf p (Suc k) h = Option.bind (mem_derefs dhf p k h) (\<lambda>h1. mem_deref dhf h1 p)"

lemma mem_derefs_shared:
  assumes "h p = Some m" "k < unat (nrefs m)"
  shows "mem_derefs dhf p k h = Some (h(p \<mapsto> m\<lparr>nrefs := nrefs m - of_nat k\<rparr>))"
  using assms(2)
proof (induction k)
  case (Suc k)
  have "unat (nrefs m - of_nat k) = unat (nrefs m) - k"
    using Suc.prems by (simp add: unat_minus_of_nat)
  then have "nrefs m - of_nat k > 1"
    using Suc.prems by (simp add: word_less_nat_alt)
  with Suc show ?case
    by (auto simp: mem_deref_def algebra_simps)
qed (use assms(1) in \<open>simp add: fun_upd_idem\<close>)

text \<open>
  C33. Life of an object with \<open>n\<close> references.  Dropping fewer than \<open>n\<close> of them only counts: the
  object keeps its bytes, no other object changes and its destructor does not run.  Dropping the last one
  runs the destructor, if there is one, once and with a count of zero.  Whatever the destructor
  does to the bytes of the object and to other objects, the object is freed afterwards exactly when
  its count is still zero, and dropping one more reference is then an access to freed memory; when
  the destructor took references, the object lives on with those references.
\<close>

theorem mem_lifetime:
  assumes "h p = Some m" "nrefs m > 0"
    and destroyed: "(if m_dh m then dhf p (h(p \<mapsto> m\<lparr>nrefs := 0\<rparr>)) else Some (h(p \<mapsto> m\<lparr>nrefs := 0\<rparr>))) = Some g"
    and "g p = Some m2"
  shows "(\<forall>k < unat (nrefs m). mem_derefs dhf p k h = Some (h(p \<mapsto> m\<lparr>nrefs := nrefs m - of_nat k\<rparr>))) \<and>
    mem_derefs dhf p (unat (nrefs m)) h = Some (if nrefs m2 = 0 then g(p := None) else g) \<and>
    (mem_derefs dhf p (Suc (unat (nrefs m))) h = None \<longleftrightarrow> nrefs m2 = 0 \<or> mem_deref dhf g p = None)"
proof -
  obtain k where k: "unat (nrefs m) = Suc k"
    using assms(2) by (metis less_irrefl not0_implies_Suc unat_eq_zero)
  have "unat (nrefs m - of_nat k) = 1"
    using k by (simp add: unat_minus_of_nat)
  then have "nrefs m - of_nat k = 1"
    by (metis unat_1 word_unat_eq_iff)
  then have last: "mem_derefs dhf p (Suc k) h = Some (if nrefs m2 = 0 then g(p := None) else g)"
    using mem_derefs_shared [of h p m k, OF assms(1)] k assms(3,4)
    by (auto simp: mem_deref_def word_neq_0_conv)
  then have "mem_derefs dhf p (Suc (Suc k)) h = (if nrefs m2 = 0 then None else mem_deref dhf g p)"
    by (simp add: mem_deref_def)
  with last show ?thesis
    using mem_derefs_shared [of h p m, OF assms(1)] k by (auto simp del: mem_derefs.simps)
qed

text \<open>
  A destructor that overwrites its object, as one that unlinks it from a list, and one that takes a
  reference, as that of a SIP request that is still open.
\<close>

theorem mem_lifetime_witness:
  "mem_derefs (\<lambda>p h. Some (h(p \<mapsto> \<lparr>nrefs = 0, m_size = 1, m_data = [0], m_dh = True\<rparr>))) 5 2
     [5 \<mapsto> \<lparr>nrefs = 2, m_size = 1, m_data = [7], m_dh = True\<rparr>] = Some Map.empty \<and>
   mem_derefs (\<lambda>p h. mem_ref h p) 5 2 [5 \<mapsto> \<lparr>nrefs = 2, m_size = 1, m_data = [7], m_dh = True\<rparr>] =
     Some [5 \<mapsto> \<lparr>nrefs = 1, m_size = 1, m_data = [7], m_dh = True\<rparr>]"
proof -
  let ?m = "\<lparr>nrefs = 2, m_size = 1, m_data = [7], m_dh = True\<rparr>"
  let ?d = "\<lambda>p h. Some (h(p \<mapsto> \<lparr>nrefs = 0, m_size = 1, m_data = [0], m_dh = True\<rparr>)) :: heap option"
  have m: "unat (nrefs ?m) = 2" by simp
  show ?thesis
    using mem_lifetime [of "[5 \<mapsto> ?m]" 5 ?m ?d "[5 \<mapsto> \<lparr>nrefs = 0, m_size = 1, m_data = [0], m_dh = True\<rparr>]"]
      mem_lifetime [of "[5 \<mapsto> ?m]" 5 ?m "\<lambda>p h. mem_ref h p" "[5 \<mapsto> ?m\<lparr>nrefs := 1\<rparr>]"]
    unfolding m by (simp add: mem_ref_def del: mem_derefs.simps)
qed

section \<open>Reallocation\<close>

lemma mem_alloc_obj_cases:
  obtains "mem_alloc_obj al fresh h n dh = (None, h)"
  | b where "mem_alloc al n = Some b"
      "mem_alloc_obj al fresh h n dh =
         (Some fresh, h(fresh \<mapsto> \<lparr>nrefs = 1, m_size = n, m_data = b, m_dh = dh\<rparr>))"
  by (cases "mem_alloc al n") (auto simp: mem_alloc_obj_def)

text \<open>
  Reallocating an object that is not shared, or that grows, accesses no memory outside the
  blocks, and the object it returns has the new size and starts with the old bytes.
\<close>

theorem mem_realloc_keeps_prefix:
  assumes "h p = Some m" "obj_ok m" "h fresh = None"
    and "nrefs m = 1 \<or> m_size m \<le> n"
    and "mem_realloc al fresh dhf h p n = (e, Some q, h')"
  shows "e = 0 \<and> (\<exists>m'. h' q = Some m' \<and> m_size m' = n \<and> length (m_data m') = n \<and>
           take (min n (m_size m)) (m_data m') = take (min n (m_size m)) (m_data m))"
proof (cases "nrefs m > 1")
  case False
  with assms show ?thesis
    by (auto simp: mem_realloc_def obj_ok_def c_realloc_def split: if_splits option.splits)
next
  case True
  then have n: "m_size m \<le> n" "m_size m = length (m_data m)"
    using assms(2,4) by (auto simp: obj_ok_def)
  from True assms obtain b where b: "mem_alloc al n = Some b"
    and obj: "mem_alloc_obj al fresh h n (m_dh m) =
         (Some fresh, h(fresh \<mapsto> \<lparr>nrefs = 1, m_size = n, m_data = b, m_dh = m_dh m\<rparr>))"
    by (cases rule: mem_alloc_obj_cases [of al fresh h n "m_dh m"])
       (auto simp: mem_realloc_def split: if_splits)
  have lb: "length b = n" using b by (rule length_mem_alloc)
  have "p \<noteq> fresh" using assms(1,3) by auto
  with True assms(1,5) obj n lb show ?thesis
    by (auto simp: mem_realloc_def mem_write_def mem_deref_def Let_def split: if_splits)
qed

theorem mem_realloc_keeps_prefix_witness:
  "fst (mem_realloc (\<lambda>n. Some (\<lambda>i. 9)) 6 (\<lambda>p h. Some h) [5 \<mapsto> \<lparr>nrefs = 2, m_size = 1, m_data = [7], m_dh = False\<rparr>] 5 2) = 0"
  using mem_realloc_keeps_prefix [of "[5 \<mapsto> \<lparr>nrefs = 2, m_size = 1, m_data = [7], m_dh = False\<rparr>]" 5
      "\<lparr>nrefs = 2, m_size = 1, m_data = [7], m_dh = False\<rparr>" 6 2 "\<lambda>n. Some (\<lambda>i. 9)" "\<lambda>p h. Some h"]
  by (simp add: obj_ok_def mem_realloc_def mem_alloc_obj_def mem_alloc_def mem_write_def mem_deref_def MEM_SIZE_MAX_def)

text \<open>
  C34. Shrinking a shared object writes outside the new block: \<^verbatim>\<open>mem_realloc\<close> copies the old size
  into a block of the new, smaller size.
\<close>

theorem mem_realloc_shared_shrink_faults:
  assumes "h p = Some m" "obj_ok m" "nrefs m > 1" "n < m_size m" "mem_ok al"
  shows "fst (mem_realloc al fresh dhf h p n) = FAULT"
proof -
  have n: "n \<le> MEM_SIZE_MAX" using assms(2,4) by (auto simp: obj_ok_def)
  obtain b where b: "mem_alloc al n = Some b"
    using mem_alloc_total [OF assms(5) n] by auto
  have lb: "length b = n" using b by (rule length_mem_alloc)
  show ?thesis
    using assms(1-4) n b lb
    by (auto simp: mem_realloc_def mem_alloc_obj_def mem_write_def obj_ok_def)
qed

theorem mem_realloc_shared_shrink_faults_witness:
  "fst (mem_realloc (\<lambda>n. Some (\<lambda>i. 9)) 6 (\<lambda>p h. Some h) [5 \<mapsto> \<lparr>nrefs = 2, m_size = 2, m_data = [7, 8], m_dh = False\<rparr>] 5 1) = FAULT"
  using mem_realloc_shared_shrink_faults [of "[5 \<mapsto> \<lparr>nrefs = 2, m_size = 2, m_data = [7, 8], m_dh = False\<rparr>]" 5
      "\<lparr>nrefs = 2, m_size = 2, m_data = [7, 8], m_dh = False\<rparr>" 1 "\<lambda>n. Some (\<lambda>i. 9)" 6 "\<lambda>p h. Some h"]
  by (simp add: obj_ok_def mem_ok_def MEM_SIZE_MAX_def)

end
