(* ===== verification/Mbuf.thy ===== *)
theory Mbuf
  imports Mem
begin

text \<open>
  Linear memory buffers (\<^verbatim>\<open>src/mbuf/mbuf.c\<close>, \<^verbatim>\<open>include/re/re_mbuf.h\<close>).  A buffer is its block of bytes,
  the block's size, the read/write position and the end of the data.  A NULL block is the empty
  byte list.  \<open>mb_shared\<close> records that another buffer holds a reference to the same block
  (\<^verbatim>\<open>mbuf_alloc_ref\<close>); the shared bytes are read, never written, through both.

  Every encoder and decoder of the library works on such buffers, so this theory also provides
  the vocabulary their theorems are stated in: \<open>mb_left\<close>, the bytes from the position to
  the end; \<open>written\<close>, the effect of a successful write; \<open>emits\<close>, the contract of an encoder;
  and the locale \<open>mbuf_codec\<close>, from which every encode/decode round trip is derived.
\<close>

section \<open>State\<close>

record mbuf =
  mb_buf :: "byte list"
  mb_size :: nat
  mb_pos :: nat
  mb_end :: nat
  mb_shared :: bool

definition DEFAULT_SIZE :: nat where
  "DEFAULT_SIZE = 512"

section \<open>Inline accessors\<close>

definition mbuf_get_left :: "mbuf \<Rightarrow> nat" where
  "mbuf_get_left mb = (if mb_end mb > mb_pos mb then mb_end mb - mb_pos mb else 0)"

definition mbuf_get_space :: "mbuf \<Rightarrow> nat" where
  "mbuf_get_space mb = (if mb_size mb > mb_pos mb then mb_size mb - mb_pos mb else 0)"

definition mbuf_set_pos :: "mbuf \<Rightarrow> nat \<Rightarrow> mbuf" where
  "mbuf_set_pos mb p = mb\<lparr>mb_pos := p\<rparr>"

definition mbuf_set_end :: "mbuf \<Rightarrow> nat \<Rightarrow> mbuf" where
  "mbuf_set_end mb e = mb\<lparr>mb_end := e\<rparr>"

definition mbuf_advance :: "mbuf \<Rightarrow> int \<Rightarrow> mbuf" where
  "mbuf_advance mb n = mb\<lparr>mb_pos := nat ((int (mb_pos mb) + n) mod 2 ^ 64)\<rparr>"

definition mbuf_rewind :: "mbuf \<Rightarrow> mbuf" where
  "mbuf_rewind mb = mb\<lparr>mb_pos := 0, mb_end := 0\<rparr>"

definition mbuf_skip_to_end :: "mbuf \<Rightarrow> mbuf" where
  "mbuf_skip_to_end mb = mb\<lparr>mb_pos := mb_end mb\<rparr>"

section \<open>Allocation\<close>

definition mbuf_init :: mbuf where
  "mbuf_init = \<lparr>mb_buf = [], mb_size = 0, mb_pos = 0, mb_end = 0, mb_shared = False\<rparr>"

definition mbuf_reset :: "mbuf \<Rightarrow> mbuf" where
  "mbuf_reset mb = mbuf_init"

text \<open>
  Growing or shrinking the block.  The block is private or shared; for a shared block
  \<^verbatim>\<open>mem_realloc\<close> allocates a new one and copies the old size into it.
\<close>

definition mbuf_resize :: "alloc \<Rightarrow> mbuf \<Rightarrow> nat \<Rightarrow> errno \<times> mbuf" where
  "mbuf_resize al mb n =
     (if n > MEM_SIZE_MAX then (ENOMEM, mb)
      else if mb_shared mb \<and> mb_buf mb \<noteq> [] then
        (case mem_alloc al n of
           None \<Rightarrow> (ENOMEM, mb)
         | Some b \<Rightarrow>
             (case mem_write b 0 (mb_buf mb) of
                None \<Rightarrow> (FAULT, mb)
              | Some b' \<Rightarrow> (0, mb\<lparr>mb_buf := b', mb_size := n, mb_shared := False\<rparr>)))
      else
        (case (if mb_buf mb = [] then mem_alloc al n else c_realloc al (mb_buf mb) n) of
           None \<Rightarrow> (ENOMEM, mb)
         | Some b \<Rightarrow> (0, mb\<lparr>mb_buf := b, mb_size := n, mb_shared := False\<rparr>)))"

definition mbuf_alloc :: "alloc \<Rightarrow> nat \<Rightarrow> mbuf option" where
  "mbuf_alloc al n =
     (case mbuf_resize al mbuf_init (if n \<noteq> 0 then n else DEFAULT_SIZE) of
        (err, mb) \<Rightarrow> if err \<noteq> 0 then None else Some mb)"

definition mbuf_dup :: "alloc \<Rightarrow> mbuf \<Rightarrow> mbuf option" where
  "mbuf_dup al mbd =
     (case mbuf_alloc al (mb_size mbd) of
        None \<Rightarrow> None
      | Some mb \<Rightarrow>
          (case mem_write (mb_buf mb) 0 (take (mb_size mbd) (mb_buf mbd)) of
             None \<Rightarrow> None
           | Some b \<Rightarrow> Some (mb\<lparr>mb_buf := b, mb_size := mb_size mbd, mb_pos := mb_pos mbd,
                                mb_end := mb_end mbd\<rparr>)))"

text \<open>The new buffer and the referenced one, both now sharing the block.\<close>

definition mbuf_alloc_ref :: "mbuf \<Rightarrow> mbuf \<times> mbuf" where
  "mbuf_alloc_ref mbr =
     (\<lparr>mb_buf = mb_buf mbr, mb_size = mb_size mbr, mb_pos = mb_pos mbr, mb_end = mb_end mbr,
       mb_shared = True\<rparr>, mbr\<lparr>mb_shared := True\<rparr>)"

definition mbuf_trim :: "alloc \<Rightarrow> mbuf \<Rightarrow> errno \<times> mbuf" where
  "mbuf_trim al mb =
     (if mb_end mb = 0 \<or> mb_end mb = mb_size mb then (0, mb)
      else mbuf_resize al mb (mb_end mb))"

section \<open>Writing\<close>

definition mbuf_write_mem :: "alloc \<Rightarrow> mbuf \<Rightarrow> byte list \<Rightarrow> errno \<times> mbuf" where
  "mbuf_write_mem al mb bs =
     (let rsize = szadd (mb_pos mb) (length bs);
          dsize = (if mb_size mb \<noteq> 0 then mb_size mb * 2 mod 2 ^ 64 else DEFAULT_SIZE);
          (err, mb1) = (if rsize > mb_size mb then mbuf_resize al mb (max rsize dsize)
                        else (0, mb))
      in if err \<noteq> 0 then (err, mb1)
         else case mem_write (mb_buf mb1) (mb_pos mb1) bs of
           None \<Rightarrow> (FAULT, mb1)
         | Some b \<Rightarrow>
             let p = szadd (mb_pos mb1) (length bs)
             in (0, mb1\<lparr>mb_buf := b, mb_pos := p, mb_end := max (mb_end mb1) p\<rparr>))"

definition mbuf_write_u8 :: "alloc \<Rightarrow> mbuf \<Rightarrow> byte \<Rightarrow> errno \<times> mbuf" where
  "mbuf_write_u8 al mb v = mbuf_write_mem al mb [v]"

definition mbuf_write_u16 :: "alloc \<Rightarrow> mbuf \<Rightarrow> 16 word \<Rightarrow> errno \<times> mbuf" where
  "mbuf_write_u16 al mb v = mbuf_write_mem al mb (le16 v)"

definition mbuf_write_u32 :: "alloc \<Rightarrow> mbuf \<Rightarrow> 32 word \<Rightarrow> errno \<times> mbuf" where
  "mbuf_write_u32 al mb v = mbuf_write_mem al mb (le32 v)"

definition mbuf_write_u64 :: "alloc \<Rightarrow> mbuf \<Rightarrow> 64 word \<Rightarrow> errno \<times> mbuf" where
  "mbuf_write_u64 al mb v = mbuf_write_mem al mb (le64 v)"

text \<open>An \<^verbatim>\<open>intptr_t\<close> is 64 bits wide.\<close>

definition mbuf_write_ptr :: "alloc \<Rightarrow> mbuf \<Rightarrow> 64 word \<Rightarrow> errno \<times> mbuf" where
  "mbuf_write_ptr al mb v = mbuf_write_mem al mb (le64 v)"

text \<open>A NUL-terminated string is the list of its bytes before the terminator.\<close>

definition mbuf_write_str :: "alloc \<Rightarrow> mbuf \<Rightarrow> byte list option \<Rightarrow> errno \<times> mbuf" where
  "mbuf_write_str al mb str =
     (case str of None \<Rightarrow> (EINVAL, mb) | Some s \<Rightarrow> mbuf_write_mem al mb s)"

definition mbuf_write_pl :: "alloc \<Rightarrow> mbuf \<Rightarrow> byte list option \<Rightarrow> errno \<times> mbuf" where
  "mbuf_write_pl al mb pl =
     (case pl of None \<Rightarrow> (EINVAL, mb) | Some s \<Rightarrow> mbuf_write_mem al mb s)"

text \<open>
  \<^verbatim>\<open>pl\<close> and \<^verbatim>\<open>skip\<close> point into the same text \<open>txt\<close>: each is an offset and a length.
\<close>

definition mbuf_write_pl_skip ::
  "alloc \<Rightarrow> mbuf \<Rightarrow> byte list \<Rightarrow> nat \<times> nat \<Rightarrow> nat \<times> nat \<Rightarrow> errno \<times> mbuf" where
  "mbuf_write_pl_skip al mb txt pl skip =
     (let (pp, plen) = pl; (sp, slen) = skip in
      if pp > sp \<or> sp + slen > pp + plen then (ERANGE, mb)
      else
        (case mbuf_write_mem al mb (take (sp - pp) (drop pp txt)) of
           (err, mb1) \<Rightarrow>
             if err \<noteq> 0 then (err, mb1)
             else mbuf_write_mem al mb1
                    (take (pp + plen - (sp + slen)) (drop (sp + slen) txt))))"

definition mbuf_fill :: "alloc \<Rightarrow> mbuf \<Rightarrow> byte \<Rightarrow> nat \<Rightarrow> errno \<times> mbuf" where
  "mbuf_fill al mb c n =
     (if n = 0 then (EINVAL, mb)
      else
        let rsize = szadd (mb_pos mb) n;
            dsize = (if mb_size mb \<noteq> 0 then mb_size mb * 2 mod 2 ^ 64 else DEFAULT_SIZE);
            (err, mb1) = (if rsize > mb_size mb then mbuf_resize al mb (max rsize dsize)
                          else (0, mb))
        in if err \<noteq> 0 then (err, mb1)
           else case mem_write (mb_buf mb1) (mb_pos mb1) (replicate n c) of
             None \<Rightarrow> (FAULT, mb1)
           | Some b \<Rightarrow>
               let p = szadd (mb_pos mb1) n
               in (0, mb1\<lparr>mb_buf := b, mb_pos := p, mb_end := max (mb_end mb1) p\<rparr>))"

text \<open>
  Moving the data between position and end by a signed offset.  The two range tests are on
  \<^verbatim>\<open>ssize_t\<close>, which holds every position of an allocatable block.
\<close>

definition mbuf_shift :: "alloc \<Rightarrow> mbuf \<Rightarrow> int \<Rightarrow> errno \<times> mbuf" where
  "mbuf_shift al mb shift =
     (if int (mb_pos mb) + shift < 0 \<or> int (mb_end mb) + shift < 0 then (ERANGE, mb)
      else
        let rsize = nat (int (mb_end mb) + shift);
            (err, mb1) = (if rsize > mb_size mb then mbuf_resize al mb rsize else (0, mb))
        in if err \<noteq> 0 then (err, mb1)
           else case mem_read (mb_buf mb1) (mb_pos mb1) (mbuf_get_left mb1) of
             None \<Rightarrow> (FAULT, mb1)
           | Some d \<Rightarrow>
               (case mem_write (mb_buf mb1) (nat (int (mb_pos mb1) + shift)) d of
                  None \<Rightarrow> (FAULT, mb1)
                | Some b \<Rightarrow> (0, mb1\<lparr>mb_buf := b, mb_pos := nat (int (mb_pos mb1) + shift),
                                    mb_end := nat (int (mb_end mb1) + shift)\<rparr>)))"

definition mbuf_set_posend :: "mbuf \<Rightarrow> nat \<Rightarrow> nat \<Rightarrow> mbuf" where
  "mbuf_set_posend mb p e =
     (if p > e then mb
      else if e > mb_size mb then mb
      else mb\<lparr>mb_pos := p, mb_end := e\<rparr>)"

section \<open>Reading\<close>

definition mbuf_read_mem :: "mbuf \<Rightarrow> nat \<Rightarrow> errno \<times> byte list \<times> mbuf" where
  "mbuf_read_mem mb n =
     (if n > mbuf_get_left mb then (EOVERFLOW, [], mb)
      else case mem_read (mb_buf mb) (mb_pos mb) n of
        None \<Rightarrow> (FAULT, [], mb)
      | Some bs \<Rightarrow> (0, bs, mb\<lparr>mb_pos := szadd (mb_pos mb) n\<rparr>))"

definition mbuf_read_u8 :: "mbuf \<Rightarrow> byte \<times> mbuf" where
  "mbuf_read_u8 mb =
     (case mbuf_read_mem mb 1 of
        (err, bs, mb1) \<Rightarrow> (if err = 0 then hd bs else 0, mb1))"

definition mbuf_read_u16 :: "mbuf \<Rightarrow> 16 word \<times> mbuf" where
  "mbuf_read_u16 mb =
     (case mbuf_read_mem mb 2 of
        (err, bs, mb1) \<Rightarrow> (if err = 0 then unle16 bs else 0, mb1))"

definition mbuf_read_u32 :: "mbuf \<Rightarrow> 32 word \<times> mbuf" where
  "mbuf_read_u32 mb =
     (case mbuf_read_mem mb 4 of
        (err, bs, mb1) \<Rightarrow> (if err = 0 then unle32 bs else 0, mb1))"

definition mbuf_read_u64 :: "mbuf \<Rightarrow> 64 word \<times> mbuf" where
  "mbuf_read_u64 mb =
     (case mbuf_read_mem mb 8 of
        (err, bs, mb1) \<Rightarrow> (if err = 0 then unle64 bs else 0, mb1))"

definition mbuf_read_ptr :: "mbuf \<Rightarrow> 64 word \<times> mbuf" where
  "mbuf_read_ptr mb =
     (case mbuf_read_mem mb 8 of
        (err, bs, mb1) \<Rightarrow> (if err = 0 then unle64 bs else 0, mb1))"

text \<open>The bytes stored into the caller's array, the terminator included when one was read.\<close>

fun mbuf_read_str :: "mbuf \<Rightarrow> nat \<Rightarrow> byte list \<times> mbuf" where
  "mbuf_read_str mb 0 = ([], mb)"
| "mbuf_read_str mb (Suc n) =
     (case mbuf_read_u8 mb of
        (c, mb1) \<Rightarrow>
          if c = 0 then ([c], mb1)
          else (case mbuf_read_str mb1 n of (s, mb2) \<Rightarrow> (c # s, mb2)))"

definition mbuf_strdup :: "alloc \<Rightarrow> mbuf \<Rightarrow> nat \<Rightarrow> errno \<times> byte list \<times> mbuf" where
  "mbuf_strdup al mb len =
     (case mem_alloc al (szadd len 1) of
        None \<Rightarrow> (ENOMEM, [], mb)
      | Some str \<Rightarrow> mbuf_read_mem mb len)"

section \<open>Invariant\<close>

text \<open>
  The block is as long as the recorded size, the data ends inside it, and it is allocatable.  The
  position is free: encoders move it past the end before they write there.
\<close>

definition mbuf_wf :: "mbuf \<Rightarrow> bool" where
  "mbuf_wf mb \<longleftrightarrow> length (mb_buf mb) = mb_size mb \<and> mb_end mb \<le> mb_size mb \<and>
                  mb_size mb \<le> MEM_SIZE_MAX"

lemma mbuf_wf_set_pos [simp]: "mbuf_wf (mb\<lparr>mb_pos := p\<rparr>) = mbuf_wf mb"
  by (simp add: mbuf_wf_def)

lemma mbuf_init_sel [simp]: "mb_pos mbuf_init = 0" "mb_end mbuf_init = 0" "mb_size mbuf_init = 0"
  by (simp_all add: mbuf_init_def)

lemma mbuf_wf_init [wf_intros]: "mbuf_wf mbuf_init"
  by (simp add: mbuf_wf_def mbuf_init_def)

lemma mbuf_resize_cases:
  assumes "mbuf_wf mb" "mb_shared mb \<longrightarrow> mb_size mb \<le> n"
  obtains "mbuf_resize al mb n = (ENOMEM, mb)" "mem_ok al \<Longrightarrow> MEM_SIZE_MAX < n"
  | b where "mbuf_resize al mb n = (0, mb\<lparr>mb_buf := b, mb_size := n, mb_shared := False\<rparr>)"
      "length b = n" "take (min n (mb_size mb)) b = take (min n (mb_size mb)) (mb_buf mb)"
      "n \<le> MEM_SIZE_MAX"
proof (cases "n > MEM_SIZE_MAX")
  case True
  then show ?thesis by (intro that(1)) (simp_all add: mbuf_resize_def)
next
  case n: False
  have lb: "length (mb_buf mb) = mb_size mb" using assms(1) by (simp add: mbuf_wf_def)
  show ?thesis
  proof (cases "al n")
    case None
    then show ?thesis
      by (intro that(1))
         (auto simp: mbuf_resize_def mem_alloc_def c_realloc_def mem_ok_def dest: spec [of _ n])
  next
    case (Some f)
    show ?thesis
    proof (cases "mb_shared mb \<and> mb_buf mb \<noteq> []")
      case True
      then show ?thesis using n Some assms(2) lb
        by (intro that(2) [where b = "mb_buf mb @ drop (mb_size mb) (map f [0..<n])"])
           (auto simp: mbuf_resize_def mem_alloc_def mem_write_def)
    next
      case False
      then show ?thesis using n Some lb
        by (intro that(2) [where b = "take n (mb_buf mb) @ map f [mb_size mb..<n]"])
           (auto simp: mbuf_resize_def mem_alloc_def c_realloc_def)
    qed
  qed
qed

lemma mbuf_alloc_wf [wf_intros]: "mbuf_alloc al n = Some mb \<Longrightarrow> mbuf_wf mb"
  by (cases rule: mbuf_resize_cases [of mbuf_init "if n \<noteq> 0 then n else DEFAULT_SIZE" al])
     (auto simp: mbuf_alloc_def mbuf_wf_def mbuf_init_def split: if_splits)

lemma mbuf_set_posend_wf [wf_intros]: "mbuf_wf mb \<Longrightarrow> mbuf_wf (mbuf_set_posend mb p e)"
  by (auto simp: mbuf_wf_def mbuf_set_posend_def)

section \<open>The bytes left to read\<close>

definition mb_left :: "mbuf \<Rightarrow> byte list" where
  "mb_left mb = take (mb_end mb - mb_pos mb) (drop (mb_pos mb) (mb_buf mb))"

lemma length_mb_left: "mbuf_wf mb \<Longrightarrow> length (mb_left mb) = mbuf_get_left mb"
  by (auto simp: mb_left_def mbuf_get_left_def mbuf_wf_def)

lemma mbuf_get_left_len: "mbuf_wf mb \<Longrightarrow> mbuf_get_left mb = length (mb_left mb)"
  by (simp add: length_mb_left)

text \<open>Moving the position forward by \<open>n\<close>, without wrap-around.\<close>

definition mb_adv :: "mbuf \<Rightarrow> nat \<Rightarrow> mbuf" where
  "mb_adv mb n = mb\<lparr>mb_pos := mb_pos mb + n\<rparr>"

lemma mb_adv_simps [simp]:
  "mb_left (mb_adv mb n) = drop n (mb_left mb)"
  "mbuf_get_left (mb_adv mb n) = mbuf_get_left mb - n"
  "mbuf_wf (mb_adv mb n) = mbuf_wf mb"
  "mb_pos (mb_adv mb n) = mb_pos mb + n"
  "mb_end (mb_adv mb n) = mb_end mb"
  "mb_size (mb_adv mb n) = mb_size mb"
  "mb_buf (mb_adv mb n) = mb_buf mb"
  "mb_adv (mb_adv mb n) m = mb_adv mb (n + m)"
  "mb_adv mb 0 = mb"
  by (auto simp: mb_adv_def mb_left_def drop_take add.commute mbuf_get_left_def mbuf_wf_def
                 add.assoc add.left_commute)

lemma mb_pos_lt: "mbuf_wf mb \<Longrightarrow> n \<le> length (mb_left mb) \<Longrightarrow> 0 < n \<Longrightarrow> mb_pos mb + n < 2 ^ 64"
  by (auto simp: mb_left_def mbuf_wf_def MEM_SIZE_MAX_def)

lemma mb_adv_szadd:
  "mbuf_wf mb \<Longrightarrow> n \<le> length (mb_left mb) \<Longrightarrow> 0 < n \<Longrightarrow>
   mb\<lparr>mb_pos := szadd (mb_pos mb) n\<rparr> = mb_adv mb n"
  using mb_pos_lt [of mb n] by (simp add: mb_adv_def)

lemma mbuf_advance_adv:
  "mb_pos mb + n < 2 ^ 64 \<Longrightarrow> mbuf_advance mb (int n) = mb_adv mb n"
  by (simp add: mbuf_advance_def mb_adv_def flip: of_nat_add)

text \<open>Reading is a function of the bytes left, and never leaves the block.\<close>

lemma mbuf_read_mem_left:
  assumes "mbuf_wf mb" "0 < n"
  shows "mbuf_read_mem mb n =
    (if n \<le> length (mb_left mb)
     then (0, take n (mb_left mb), mb_adv mb n) else (EOVERFLOW, [], mb))"
proof (cases "n \<le> length (mb_left mb)")
  case True
  have "mb_pos mb + n < 2 ^ 64" using mb_pos_lt [OF assms(1) True assms(2)] .
  moreover have "n \<le> mb_end mb - mb_pos mb" "mb_end mb \<le> length (mb_buf mb)"
    using True assms(1) by (auto simp: mb_left_def mbuf_wf_def)
  ultimately show ?thesis
    using True assms length_mb_left [OF assms(1)]
    by (auto simp: mbuf_read_mem_def mem_read_def mb_left_def min_absorb1 mb_adv_def)
next
  case False
  then show ?thesis using length_mb_left [OF assms(1)] by (simp add: mbuf_read_mem_def)
qed

lemma mbuf_read_u8_left:
  assumes "mbuf_wf mb" "mb_left mb = c # r"
  shows "mbuf_read_u8 mb = (c, mb_adv mb 1)"
  using assms by (simp add: mbuf_read_u8_def mbuf_read_mem_left)

lemma mbuf_read_u16_left:
  assumes "mbuf_wf mb" "2 \<le> length (mb_left mb)"
  shows "mbuf_read_u16 mb = (unle16 (take 2 (mb_left mb)), mb_adv mb 2)"
  using assms by (simp add: mbuf_read_u16_def mbuf_read_mem_left)

lemma mbuf_read_u32_left:
  assumes "mbuf_wf mb" "4 \<le> length (mb_left mb)"
  shows "mbuf_read_u32 mb = (unle32 (take 4 (mb_left mb)), mb_adv mb 4)"
  using assms by (simp add: mbuf_read_u32_def mbuf_read_mem_left)

lemma mbuf_read_u64_left:
  assumes "mbuf_wf mb" "8 \<le> length (mb_left mb)"
  shows "mbuf_read_u64 mb = (unle64 (take 8 (mb_left mb)), mb_adv mb 8)"
  using assms by (simp add: mbuf_read_u64_def mbuf_read_mem_left)

lemmas mbuf_read_left = mbuf_read_mem_left mbuf_read_u8_left mbuf_read_u16_left
  mbuf_read_u32_left mbuf_read_u64_left mbuf_get_left_len

section \<open>The effect of writing\<close>

text \<open>
  \<open>written mb bs mb'\<close>: \<open>mb'\<close> is \<open>mb\<close> after writing \<open>bs\<close> at its position.  The position has
  advanced, the end is at least the position, the bytes are there, and every other byte of the
  old block is as it was.
\<close>

definition written :: "mbuf \<Rightarrow> byte list \<Rightarrow> mbuf \<Rightarrow> bool" where
  "written mb bs mb' \<longleftrightarrow>
     mbuf_wf mb' \<and> mb_size mb \<le> mb_size mb' \<and> mb_pos mb' = mb_pos mb + length bs \<and>
     mb_end mb' = max (mb_end mb) (mb_pos mb') \<and>
     take (length bs) (drop (mb_pos mb) (mb_buf mb')) = bs \<and>
     (\<forall>i < mb_size mb. (i < mb_pos mb \<or> mb_pos mb + length bs \<le> i) \<longrightarrow>
        mb_buf mb' ! i = mb_buf mb ! i)"

lemma written_wf: "written mb bs mb' \<Longrightarrow> mbuf_wf mb'"
  and written_pos: "written mb bs mb' \<Longrightarrow> mb_pos mb' = mb_pos mb + length bs"
  and written_end: "written mb bs mb' \<Longrightarrow> mb_end mb' = max (mb_end mb) (mb_pos mb + length bs)"
  by (simp_all add: written_def)

lemma written_nth:
  assumes "written mb bs mb'" "i < length bs"
  shows "mb_buf mb' ! (mb_pos mb + i) = bs ! i"
proof -
  have l: "mb_pos mb + length bs \<le> length (mb_buf mb')"
    using assms(1) by (auto simp: written_def mbuf_wf_def)
  have "bs ! i = take (length bs) (drop (mb_pos mb) (mb_buf mb')) ! i"
    using assms(1) by (simp add: written_def)
  then show ?thesis using l assms(2) by simp
qed

lemma written_iff_nth:
  "written mb bs mb' \<longleftrightarrow>
     mbuf_wf mb' \<and> mb_size mb \<le> mb_size mb' \<and> mb_pos mb' = mb_pos mb + length bs \<and>
     mb_end mb' = max (mb_end mb) (mb_pos mb') \<and>
     (\<forall>i < length bs. mb_buf mb' ! (mb_pos mb + i) = bs ! i) \<and>
     (\<forall>i < mb_size mb. (i < mb_pos mb \<or> mb_pos mb + length bs \<le> i) \<longrightarrow>
        mb_buf mb' ! i = mb_buf mb ! i)" (is "_ \<longleftrightarrow> ?R")
proof
  assume "written mb bs mb'"
  then show ?R using written_nth [OF \<open>written mb bs mb'\<close>] by (auto simp: written_def)
next
  assume r: ?R
  then have "mb_pos mb + length bs \<le> length (mb_buf mb')" by (auto simp: mbuf_wf_def)
  then have "take (length bs) (drop (mb_pos mb) (mb_buf mb')) = bs"
    using r by (intro nth_equalityI) auto
  then show "written mb bs mb'" using r by (auto simp: written_def)
qed

lemma written_Nil [simp]: "mbuf_wf mb \<Longrightarrow> mb_pos mb \<le> mb_end mb \<Longrightarrow> written mb [] mb"
  by (auto simp: written_def)

lemma written_trans:
  assumes "written mb xs mb1" "written mb1 ys mb2"
  shows "written mb (xs @ ys) mb2"
proof -
  note a = assms [unfolded written_iff_nth]
  have "mb_buf mb2 ! (mb_pos mb + i) = (xs @ ys) ! i" if "i < length (xs @ ys)" for i
  proof (cases "i < length xs")
    case True
    have "mb_pos mb + i < mb_size mb1" using a(1) True by (auto simp: mbuf_wf_def)
    then have "mb_buf mb2 ! (mb_pos mb + i) = mb_buf mb1 ! (mb_pos mb + i)"
      using a True by auto
    then show ?thesis using a(1) True by (simp add: nth_append)
  next
    case False
    then have "i - length xs < length ys" using that by auto
    with a(2) have "mb_buf mb2 ! (mb_pos mb1 + (i - length xs)) = ys ! (i - length xs)"
      by blast
    then show ?thesis using a(1) False by (simp add: nth_append)
  qed
  then show ?thesis using a by (auto simp: written_iff_nth)
qed

lemma written_left:
  assumes "written mb bs mb'"
  shows "mb_left (mb'\<lparr>mb_pos := mb_pos mb\<rparr>) =
         bs @ take (mb_end mb' - mb_pos mb') (drop (mb_pos mb') (mb_buf mb'))"
proof -
  have e: "mb_end mb' - mb_pos mb = length bs + (mb_end mb' - mb_pos mb')"
    using assms by (auto simp: written_def)
  have "take (length bs) (drop (mb_pos mb) (mb_buf mb')) = bs" "mb_pos mb' = length bs + mb_pos mb"
    using assms by (auto simp: written_def)
  moreover have "mb_left (mb'\<lparr>mb_pos := mb_pos mb\<rparr>) =
      take (mb_end mb' - mb_pos mb) (drop (mb_pos mb) (mb_buf mb'))"
    by (simp add: mb_left_def)
  ultimately show ?thesis
    by (simp only: e take_add drop_drop)
qed

section \<open>Encoders\<close>

text \<open>\<^verbatim>\<open>err |= f(mb)\<close> after a first write, as the encoders are written.\<close>

definition err_or :: "errno \<times> mbuf \<Rightarrow> (mbuf \<Rightarrow> errno \<times> mbuf) \<Rightarrow> errno \<times> mbuf" where
  "err_or r f = (case r of (err, mb) \<Rightarrow> (case f mb of (err', mb') \<Rightarrow> (err OR err', mb')))"

text \<open>\<^verbatim>\<open>err = f(mb); if (err) return err;\<close>.\<close>

definition err_bind :: "errno \<times> mbuf \<Rightarrow> (mbuf \<Rightarrow> errno \<times> mbuf) \<Rightarrow> errno \<times> mbuf" where
  "err_bind r f = (case r of (err, mb) \<Rightarrow> if err \<noteq> 0 then (err, mb) else f mb)"

text \<open>
  The contract of an encoder that emits \<open>bs\<close>: it writes exactly \<open>bs\<close> and returns 0, or the
  allocator failed, it returns \<^verbatim>\<open>ENOMEM\<close> and the buffer is still well-formed.  In particular it
  never accesses memory outside the block.
\<close>

definition emits :: "alloc \<Rightarrow> mbuf \<Rightarrow> byte list \<Rightarrow> errno \<times> mbuf \<Rightarrow> bool" where
  "emits al mb bs r \<longleftrightarrow>
     (fst r = 0 \<and> written mb bs (snd r)) \<or>
     (\<not> mem_ok al \<and> fst r = ENOMEM \<and> mbuf_wf (snd r) \<and> mb_pos (snd r) \<le> mb_pos mb + length bs)"

lemma emits_wf: "emits al mb bs r \<Longrightarrow> mbuf_wf (snd r) \<and> mb_pos (snd r) \<le> mb_pos mb + length bs"
  by (auto simp: emits_def written_def)

lemma emits_ok: "emits al mb bs r \<Longrightarrow> mem_ok al \<Longrightarrow> fst r = 0 \<and> written mb bs (snd r)"
  by (auto simp: emits_def)

lemma mbuf_write_mem_emits:
  assumes "mbuf_wf mb" "mb_pos mb + length bs < 2 ^ 31"
  shows "emits al mb bs (mbuf_write_mem al mb bs)"
proof -
  let ?n = "mb_pos mb + length bs"
  have rs: "szadd (mb_pos mb) (length bs) = ?n" using assms(2) by simp
  show ?thesis
  proof (cases "?n > mb_size mb")
    case False
    then have "mb_pos mb + length bs \<le> length (mb_buf mb)" using assms(1) by (simp add: mbuf_wf_def)
    then show ?thesis
      using assms False rs
      by (auto simp: emits_def mbuf_write_mem_def mem_write_def written_iff_nth mbuf_wf_def
                     nth_append Let_def)
  next
    case True
    let ?d = "if mb_size mb \<noteq> 0 then mb_size mb * 2 mod 2 ^ 64 else DEFAULT_SIZE"
    have d: "max ?n ?d \<le> MEM_SIZE_MAX"
      using assms(2) True by (auto simp: MEM_SIZE_MAX_def DEFAULT_SIZE_def)
    have sh: "mb_shared mb \<longrightarrow> mb_size mb \<le> max ?n ?d" using True by (simp add: le_max_iff_disj)
    show ?thesis
    proof (cases rule: mbuf_resize_cases [OF assms(1) sh, where al = al])
      case 1
      have "\<not> mem_ok al" using 1(2) d by auto
      then show ?thesis using 1(1) True rs assms(1)
        by (auto simp: emits_def mbuf_write_mem_def Let_def)
    next
      case (2 b)
      have m: "min (max ?n ?d) (mb_size mb) = mb_size mb" using True by simp
      have eq: "take (mb_size mb) b = mb_buf mb"
        using 2(3) assms(1) unfolding m by (simp add: mbuf_wf_def)
      have old: "b ! i = mb_buf mb ! i" if "i < mb_size mb" for i
        using arg_cong [OF eq, of "\<lambda>l. l ! i"] that by simp
      have fit: "mb_pos mb + length bs \<le> length b" using 2(2) by simp
      have w: "mbuf_write_mem al mb bs =
          (0, mb\<lparr>mb_buf := take (mb_pos mb) b @ bs @ drop ?n b, mb_size := max ?n ?d,
                 mb_shared := False, mb_pos := ?n, mb_end := max (mb_end mb) ?n\<rparr>)"
        using 2(1) True rs fit by (simp add: mbuf_write_mem_def mem_write_def Let_def)
      show ?thesis
        unfolding w emits_def written_iff_nth mbuf_wf_def
        using 2(2,4) fit old assms(1) True by (auto simp: nth_append mbuf_wf_def)
    qed
  qed
qed

lemma emits_err_or:
  assumes "emits al mb xs r"
    and "\<And>mb1. mbuf_wf mb1 \<Longrightarrow> mb_pos mb1 \<le> mb_pos mb + length xs \<Longrightarrow> emits al mb1 ys (f mb1)"
  shows "emits al mb (xs @ ys) (err_or r f)"
proof -
  obtain e mb1 where r: "r = (e, mb1)" by (cases r)
  obtain e' mb2 where f: "f mb1 = (e', mb2)" by (cases "f mb1")
  have "emits al mb1 ys (f mb1)"
    using assms(2) emits_wf [OF assms(1)] by (simp add: r)
  with assms(1) written_trans [of mb xs mb1 ys mb2] show ?thesis
    by (auto simp: emits_def err_or_def r f dest: written_pos written_wf)
qed

lemma emits_err_bind:
  assumes "emits al mb xs r"
    and "\<And>mb1. mbuf_wf mb1 \<Longrightarrow> mb_pos mb1 \<le> mb_pos mb + length xs \<Longrightarrow> emits al mb1 ys (f mb1)"
  shows "emits al mb (xs @ ys) (err_bind r f)"
proof -
  obtain e mb1 where r: "r = (e, mb1)" by (cases r)
  obtain e' mb2 where f: "f mb1 = (e', mb2)" by (cases "f mb1")
  have "emits al mb1 ys (f mb1)"
    using assms(2) emits_wf [OF assms(1)] by (simp add: r)
  with assms(1) written_trans [of mb xs mb1 ys mb2] show ?thesis
    by (auto simp: emits_def err_bind_def r f dest: written_pos written_wf)
qed

lemma mbuf_write_uN_emits:
  assumes "mbuf_wf mb"
  shows "mb_pos mb + 1 < 2 ^ 31 \<Longrightarrow> emits al mb [a] (mbuf_write_u8 al mb a)"
    and "mb_pos mb + 2 < 2 ^ 31 \<Longrightarrow> emits al mb (be16 b) (mbuf_write_u16 al mb (htons b))"
    and "mb_pos mb + 4 < 2 ^ 31 \<Longrightarrow> emits al mb (be32 c) (mbuf_write_u32 al mb (htonl c))"
    and "mb_pos mb + 8 < 2 ^ 31 \<Longrightarrow> emits al mb (be64 d) (mbuf_write_u64 al mb (sys_htonll d))"
  using assms
  by (simp_all add: mbuf_write_u8_def mbuf_write_u16_def mbuf_write_u32_def mbuf_write_u64_def
                    mbuf_write_mem_emits)

text \<open>Writing the elements of a list one after the other, as the encoding loops do.\<close>

fun err_each :: "(mbuf \<Rightarrow> 'a \<Rightarrow> errno \<times> mbuf) \<Rightarrow> 'a list \<Rightarrow> errno \<times> mbuf \<Rightarrow> errno \<times> mbuf" where
  "err_each f [] r = r"
| "err_each f (x # xs) r = err_each f xs (err_or r (\<lambda>mb. f mb x))"

lemma emits_err_each:
  assumes "emits al mb bs r"
    and "\<And>mb1 x. x \<in> set xs \<Longrightarrow> mbuf_wf mb1 \<Longrightarrow>
           mb_pos mb1 + length (enc x) \<le> mb_pos mb + length bs + length (concat (map enc xs)) \<Longrightarrow>
           emits al mb1 (enc x) (f mb1 x)"
  shows "emits al mb (bs @ concat (map enc xs)) (err_each f xs r)"
  using assms
proof (induction xs arbitrary: r bs)
  case (Cons x xs)
  have "emits al mb (bs @ enc x) (err_or r (\<lambda>mb. f mb x))"
    using Cons.prems by (intro emits_err_or) auto
  then have "emits al mb ((bs @ enc x) @ concat (map enc xs))
               (err_each f xs (err_or r (\<lambda>mb. f mb x)))"
    by (rule Cons.IH) (use Cons.prems(2) in auto)
  then show ?case by simp
qed simp

section \<open>Appending to the data\<close>

text \<open>All the data of a buffer, from its first byte to its end.\<close>

definition mb_data :: "mbuf \<Rightarrow> byte list" where
  "mb_data mb = take (mb_end mb) (mb_buf mb)"

lemma mb_left_data: "mb_left mb = drop (mb_pos mb) (mb_data mb)"
  by (simp add: mb_left_def mb_data_def drop_take)

lemma length_mb_data: "mbuf_wf mb \<Longrightarrow> length (mb_data mb) = mb_end mb"
  by (simp add: mb_data_def mbuf_wf_def)

lemma mb_data_sel [simp]:
  "mb_data (mb\<lparr>mb_pos := p\<rparr>) = mb_data mb"
  "e \<le> mb_end mb \<Longrightarrow> mb_data (mb\<lparr>mb_end := e\<rparr>) = take e (mb_data mb)"
  "mb_data (mb_adv mb n) = mb_data mb"
  by (simp_all add: mb_data_def mb_adv_def min_absorb1)

lemma mbuf_wf_set_end: "mbuf_wf mb \<Longrightarrow> e \<le> mb_end mb \<Longrightarrow> mbuf_wf (mb\<lparr>mb_end := e\<rparr>)"
  by (simp add: mbuf_wf_def)

lemma written_append:
  assumes "written mb bs mb'" "mb_pos mb = mb_end mb" "mbuf_wf mb"
  shows "mb_data mb' = mb_data mb @ bs" "mb_end mb' = mb_end mb + length bs"
proof -
  note w = assms(1) [unfolded written_iff_nth]
  show e: "mb_end mb' = mb_end mb + length bs" using w assms(2) by auto
  show "mb_data mb' = mb_data mb @ bs"
  proof (rule nth_equalityI)
    have "mbuf_wf mb'" using w by simp
    then show l: "length (mb_data mb') = length (mb_data mb @ bs)"
      using e assms(3) by (simp add: length_mb_data)
    fix i assume "i < length (mb_data mb')"
    then have i: "i < mb_end mb + length bs" using l assms(3) by (simp add: length_mb_data)
    show "mb_data mb' ! i = (mb_data mb @ bs) ! i"
    proof (cases "i < mb_end mb")
      case True
      then have "mb_buf mb' ! i = mb_buf mb ! i" using w assms(2,3) by (auto simp: mbuf_wf_def)
      then show ?thesis using True e assms(3) length_mb_data [OF assms(3)]
        by (simp add: nth_append) (simp add: mb_data_def)
    next
      case False
      then have "mb_buf mb' ! i = bs ! (i - mb_end mb)"
        using w assms(2) i by (metis add_diff_inverse_nat nat_add_left_cancel_less)
      then show ?thesis using False i e length_mb_data [OF assms(3)]
        by (simp add: nth_append) (simp add: mb_data_def)
    qed
  qed
qed

lemma mbuf_append:
  assumes "mem_ok al" "mbuf_wf mb" "mb_end mb + length bs < 2 ^ 31"
  obtains mb' where "mbuf_write_mem al (mb\<lparr>mb_pos := mb_end mb\<rparr>) bs = (0, mb')" "mbuf_wf mb'"
    "mb_data mb' = mb_data mb @ bs" "mb_pos mb' = mb_end mb + length bs"
    "mb_end mb' = mb_end mb + length bs"
proof -
  let ?mb = "mb\<lparr>mb_pos := mb_end mb\<rparr>"
  have "emits al ?mb bs (mbuf_write_mem al ?mb bs)"
    using assms(2,3) by (intro mbuf_write_mem_emits) simp_all
  then obtain mb' where r: "mbuf_write_mem al ?mb bs = (0, mb')" "written ?mb bs mb'"
    using emits_ok [OF _ assms(1)] by (metis prod.collapse)
  then show ?thesis
    using written_append [OF r(2)] assms(2) that [of mb'] written_pos [OF r(2)] written_wf [OF r(2)]
    by simp
qed

lemma mem_read_data:
  "mbuf_wf mb \<Longrightarrow> p + n \<le> mb_end mb \<Longrightarrow> mem_read (mb_buf mb) p n = Some (take n (drop p (mb_data mb)))"
  by (auto simp: mem_read_def mbuf_wf_def mb_data_def drop_take min_def)

section \<open>Codecs\<close>

text \<open>
  The interface an encoder/decoder pair promises: \<open>enc\<close> emits the wire format \<open>wire x\<close> of a
  value \<open>x\<close> that is \<open>ok\<close>, and \<open>dec\<close> reads \<open>x\<close> back from a buffer whose remaining bytes start with
  \<open>wire x\<close>, advancing the position past it.  What the clients need, that a value survives
  being written, rewound to and read, is proved once from these two laws.
\<close>

locale mbuf_codec =
  fixes enc :: "alloc \<Rightarrow> mbuf \<Rightarrow> 'a \<Rightarrow> errno \<times> mbuf"
    and dec :: "mbuf \<Rightarrow> errno \<times> 'a \<times> mbuf"
    and wire :: "'a \<Rightarrow> byte list"
    and ok :: "'a \<Rightarrow> bool"
  assumes enc_emits: "mbuf_wf mb \<Longrightarrow> ok x \<Longrightarrow> mb_pos mb + length (wire x) < 2 ^ 31 \<Longrightarrow>
      emits al mb (wire x) (enc al mb x)"
    and dec_reads: "mbuf_wf mb \<Longrightarrow> ok x \<Longrightarrow> mb_left mb = wire x @ rest \<Longrightarrow>
      dec mb = (0, x, mb_adv mb (length (wire x)))"
begin

lemma roundtrip:
  assumes "mbuf_wf mb" "ok x" "mb_pos mb + length (wire x) < 2 ^ 31"
    and "enc al mb x = (0, mb')"
  shows "mbuf_wf mb'" "mb_pos mb' = mb_pos mb + length (wire x)"
    and "dec (mb'\<lparr>mb_pos := mb_pos mb\<rparr>) = (0, x, mb')"
proof -
  have w: "written mb (wire x) mb'"
    using enc_emits [OF assms(1-3), of al] assms(4) by (auto simp: emits_def)
  then show "mbuf_wf mb'" "mb_pos mb' = mb_pos mb + length (wire x)"
    by (auto simp: written_def)
  then show "dec (mb'\<lparr>mb_pos := mb_pos mb\<rparr>) = (0, x, mb')"
    using dec_reads [OF _ assms(2), of "mb'\<lparr>mb_pos := mb_pos mb\<rparr>"] written_left [OF w]
    by (simp add: mb_adv_def)
qed

lemma enc_safe:
  assumes "mbuf_wf mb" "ok x" "mb_pos mb + length (wire x) < 2 ^ 31"
  shows "fst (enc al mb x) \<in> {0, ENOMEM}" "mbuf_wf (snd (enc al mb x))"
    and "mem_ok al \<Longrightarrow> fst (enc al mb x) = 0"
  using enc_emits [OF assms, of al] by (auto simp: emits_def written_def)

end

section \<open>Correctness of the buffer operations\<close>

text \<open>
  Writing a block of bytes and reading it back from the old position returns the same bytes,
  leaves the position after them, keeps everything else in the buffer, and never accesses memory
  outside the block; with a working allocator it cannot fail.
\<close>

theorem mbuf_write_read:
  assumes "mbuf_wf mb" "bs \<noteq> []" "mb_pos mb + length bs < 2 ^ 31"
    and "mbuf_write_mem al mb bs = (err, mb')"
  shows "mbuf_wf mb' \<and> err \<in> {0, ENOMEM} \<and> (mem_ok al \<longrightarrow> err = 0) \<and>
    (err = 0 \<longrightarrow>
       mbuf_read_mem (mb'\<lparr>mb_pos := mb_pos mb\<rparr>) (length bs) = (0, bs, mb') \<and>
       (\<forall>i < mb_size mb. (i < mb_pos mb \<or> mb_pos mb + length bs \<le> i) \<longrightarrow>
          mb_buf mb' ! i = mb_buf mb ! i))"
proof -
  have e: "emits al mb bs (err, mb')"
    using mbuf_write_mem_emits [OF assms(1,3), of al] assms(4) by simp
  have "mbuf_read_mem (mb'\<lparr>mb_pos := mb_pos mb\<rparr>) (length bs) = (0, bs, mb')" if w: "written mb bs mb'"
  proof -
    have "mbuf_wf (mb'\<lparr>mb_pos := mb_pos mb\<rparr>)" "mb_pos mb' = mb_pos mb + length bs"
      using w by (simp_all add: written_def)
    then show ?thesis
      using mbuf_read_mem_left [of "mb'\<lparr>mb_pos := mb_pos mb\<rparr>" "length bs"] written_left [OF w]
        assms(2) by (simp add: mb_adv_def)
  qed
  with e show ?thesis by (auto simp: emits_def written_def)
qed

theorem mbuf_write_read_witness:
  "mbuf_wf mbuf_init \<and> (let (err, mb') = mbuf_write_mem (\<lambda>n. Some (\<lambda>i. 0)) mbuf_init [1, 2, 3]
     in mbuf_read_mem (mb'\<lparr>mb_pos := 0\<rparr>) 3 = (0, [1, 2, 3], mb'))"
proof -
  let ?al = "\<lambda>n::nat. Some (\<lambda>i::nat. 0 :: byte)"
  obtain err mb' where r: "mbuf_write_mem ?al mbuf_init [1, 2, 3] = (err, mb')"
    by (cases "mbuf_write_mem ?al mbuf_init [1, 2, 3]")
  have "mem_ok ?al" by (simp add: mem_ok_def)
  with mbuf_write_read [OF mbuf_wf_init, of "[1, 2, 3]" ?al err mb'] r show ?thesis
    by (simp add: mbuf_wf_init numeral_3_eq_3)
qed

lemma mbuf_fill_eq_write:
  "0 < n \<Longrightarrow> mbuf_fill al mb c n = mbuf_write_mem al mb (replicate n c)"
  unfolding mbuf_fill_def mbuf_write_mem_def length_replicate by simp

text \<open>The block after making room up to \<open>n\<close>: the data is unchanged.\<close>

lemma mbuf_grow:
  assumes "mbuf_wf mb" "n < 2 ^ 31"
  obtains "(if n > mb_size mb then mbuf_resize al mb n else (0, mb)) = (ENOMEM, mb)"
      "\<not> mem_ok al"
  | mb1 where "(if n > mb_size mb then mbuf_resize al mb n else (0, mb)) = (0, mb1)"
      "mbuf_wf mb1" "n \<le> mb_size mb1" "mb_pos mb1 = mb_pos mb" "mb_end mb1 = mb_end mb"
      "take (mb_end mb) (mb_buf mb1) = take (mb_end mb) (mb_buf mb)"
proof (cases "n > mb_size mb")
  case gt: True
  have wf: "length (mb_buf mb) = mb_size mb" "mb_end mb \<le> mb_size mb"
    using assms(1) by (auto simp: mbuf_wf_def)
  have sh: "mb_shared mb \<longrightarrow> mb_size mb \<le> n" using gt by simp
  show ?thesis
  proof (cases rule: mbuf_resize_cases [OF assms(1) sh, where al = al])
    case 1
    then show ?thesis using gt assms(2) by (intro that(1)) (auto simp: MEM_SIZE_MAX_def)
  next
    case (2 b)
    have t: "take (mb_size mb) b = mb_buf mb" using 2(3) gt wf by (simp add: min_absorb2)
    have "take (mb_end mb) (take (mb_size mb) b) = take (mb_end mb) b"
      using wf by (simp add: min_absorb1)
    then have "take (mb_end mb) b = take (mb_end mb) (mb_buf mb)" using t by simp
    then show ?thesis
      using 2 gt wf
      by (intro that(2) [of "mb\<lparr>mb_buf := b, mb_size := n, mb_shared := False\<rparr>"])
         (auto simp: mbuf_wf_def)
  qed
qed (use assms(1) that(2) in auto)

text \<open>\<^verbatim>\<open>memmove\<close> inside the grown block.\<close>

lemma mbuf_move_data:
  fixes mb :: mbuf
  assumes "mbuf_wf mb" "mb_pos mb \<le> mb_end mb" "p + (mb_end mb - mb_pos mb) \<le> mb_size mb"
    and "d = mb_left mb" "r = p + (mb_end mb - mb_pos mb)"
  shows "mem_read (mb_buf mb) (mb_pos mb) (mbuf_get_left mb) = Some d"
    and "\<exists>b. mem_write (mb_buf mb) p d = Some b \<and>
           mbuf_wf (mb\<lparr>mb_buf := b, mb_pos := p, mb_end := r\<rparr>) \<and>
           mb_left (mb\<lparr>mb_buf := b, mb_pos := p, mb_end := r\<rparr>) = d"
proof -
  have wf: "length (mb_buf mb) = mb_size mb" "mb_end mb \<le> mb_size mb"
    using assms(1) by (auto simp: mbuf_wf_def)
  have gl: "mbuf_get_left mb = mb_end mb - mb_pos mb"
    using assms(2) by (auto simp: mbuf_get_left_def)
  show "mem_read (mb_buf mb) (mb_pos mb) (mbuf_get_left mb) = Some d"
    using wf assms(2,4) by (simp add: gl mem_read_def mb_left_def)
  have ld: "length d = mb_end mb - mb_pos mb" using wf assms(4) by (simp add: mb_left_def)
  show "\<exists>b. mem_write (mb_buf mb) p d = Some b \<and>
           mbuf_wf (mb\<lparr>mb_buf := b, mb_pos := p, mb_end := r\<rparr>) \<and>
           mb_left (mb\<lparr>mb_buf := b, mb_pos := p, mb_end := r\<rparr>) = d"
    using wf assms(1,3,5) ld by (simp add: mem_write_def mbuf_wf_def mb_left_def)
qed

text \<open>
  Shifting moves the bytes between position and end, whole and in order, by the offset, in
  either direction, growing the block when needed; it is refused exactly when the position would
  become negative, and it never accesses memory outside the block.
\<close>

theorem mbuf_shift_moves:
  assumes "mbuf_wf mb" "mb_pos mb \<le> mb_end mb" "int (mb_end mb) + shift < 2 ^ 31"
    and "mbuf_shift al mb shift = (err, mb')"
  shows "err \<in> {0, ERANGE, ENOMEM} \<and> (err = ERANGE \<longleftrightarrow> int (mb_pos mb) + shift < 0) \<and>
    (err = ENOMEM \<longrightarrow> \<not> mem_ok al) \<and>
    (err = 0 \<longrightarrow> mbuf_wf mb' \<and> mb_left mb' = mb_left mb \<and>
                 int (mb_pos mb') = int (mb_pos mb) + shift)"
proof (cases "int (mb_pos mb) + shift < 0")
  case True
  then show ?thesis using assms(4) by (auto simp: mbuf_shift_def)
next
  case False
  let ?r = "nat (int (mb_end mb) + shift)"
  let ?p = "nat (int (mb_pos mb) + shift)"
  have rng: "\<not> int (mb_end mb) + shift < 0" "?r < 2 ^ 31" using False assms(2,3) by auto
  show ?thesis
  proof (cases rule: mbuf_grow [OF assms(1) rng(2), where al = al])
    case 1
    then have "mbuf_shift al mb shift = (ENOMEM, mb)"
      using False rng by (simp add: mbuf_shift_def Let_def)
    then show ?thesis using 1(2) assms(4) False by simp
  next
    case (2 mb1)
    have left: "mb_left mb1 = mb_left mb"
      using 2(4-6) by (simp add: mb_left_def flip: drop_take)
    have r: "?r = ?p + (mb_end mb1 - mb_pos mb1)" using False assms(2) 2(4,5) by auto
    have p: "mb_pos mb1 \<le> mb_end mb1" "?p + (mb_end mb1 - mb_pos mb1) \<le> mb_size mb1"
      using 2(3-5) assms(2) r by auto
    obtain b where b: "mem_write (mb_buf mb1) ?p (mb_left mb) = Some b"
      "mbuf_wf (mb1\<lparr>mb_buf := b, mb_pos := ?p, mb_end := ?r\<rparr>)"
      "mb_left (mb1\<lparr>mb_buf := b, mb_pos := ?p, mb_end := ?r\<rparr>) = mb_left mb"
      using mbuf_move_data(2) [OF 2(2) p left [symmetric] r] by blast
    have "mbuf_shift al mb shift = (0, mb1\<lparr>mb_buf := b, mb_pos := ?p, mb_end := ?r\<rparr>)"
      using False rng 2(1,4,5) b(1) mbuf_move_data(1) [OF 2(2) p left [symmetric] r]
      by (simp add: mbuf_shift_def Let_def)
    then show ?thesis using assms(4) b False by auto
  qed
qed

theorem mbuf_shift_moves_witness:
  "mb_left (snd (mbuf_shift (\<lambda>n. None)
     \<lparr>mb_buf = [1, 2, 3, 4], mb_size = 4, mb_pos = 1, mb_end = 3, mb_shared = False\<rparr> 1)) = [2, 3]"
proof -
  let ?mb = "\<lparr>mb_buf = [1, 2, 3, 4], mb_size = 4, mb_pos = 1, mb_end = 3, mb_shared = False\<rparr>"
  obtain err mb' where r: "mbuf_shift (\<lambda>n. None) ?mb 1 = (err, mb')"
    by (cases "mbuf_shift (\<lambda>n. None) ?mb 1")
  have "err = 0"
    using r by (simp add: mbuf_shift_def mem_read_def mem_write_def mbuf_get_left_def)
  moreover have "mbuf_wf ?mb" by (simp add: mbuf_wf_def MEM_SIZE_MAX_def)
  ultimately have "mb_left mb' = mb_left ?mb"
    using mbuf_shift_moves [of ?mb 1 "\<lambda>n. None" err mb'] r by simp
  then show ?thesis unfolding r by (simp add: mb_left_def)
qed

text \<open>
  Writing a text without a section of it (as done to strip a parameter from a header) emits
  what precedes the section followed by what follows it.
\<close>

theorem mbuf_write_pl_skip_emits:
  assumes "mbuf_wf mb" "mb_pos mb + length (pre @ post) < 2 ^ 31"
  shows "emits al mb (pre @ post)
    (mbuf_write_pl_skip al mb (junk @ pre @ skip @ post @ rest)
       (length junk, length (pre @ skip @ post)) (length (junk @ pre), length skip))"
proof -
  let ?w = "mbuf_write_mem al mb pre"
  have "emits al mb (pre @ post) (err_bind ?w (\<lambda>mb1. mbuf_write_mem al mb1 post))"
    using assms by (intro emits_err_bind mbuf_write_mem_emits) auto
  then show ?thesis
    by (auto simp: mbuf_write_pl_skip_def err_bind_def split: prod.splits)
qed

theorem mbuf_write_pl_skip_emits_witness:
  "emits (\<lambda>n. Some (\<lambda>i. 0)) mbuf_init [1, 4]
     (mbuf_write_pl_skip (\<lambda>n. Some (\<lambda>i. 0)) mbuf_init [0, 1, 2, 3, 4, 5] (1, 4) (2, 2))"
proof -
  have n: "(2::nat) = Suc (Suc 0)" "(4::nat) = Suc (Suc (Suc (Suc 0)))" by simp_all
  have "mb_pos mbuf_init + length ([1, 4] :: byte list) < 2 ^ 31" by simp
  then show ?thesis
    using mbuf_write_pl_skip_emits [OF mbuf_wf_init,
      of "[1]" "[4]" "\<lambda>n. Some (\<lambda>i. 0)" "[0]" "[2, 3]" "[5]"]
    by (simp only: n list.size append.simps add_0_left add_Suc One_nat_def)
qed

end
