(* ===== verification/Rtp.thy ===== *)
theory Rtp
  imports Mbuf "HOL-Library.Signed_Division"
begin

text \<open>
  RTP (\<^verbatim>\<open>src/rtp/rtp.c\<close>, \<^verbatim>\<open>src/rtp/source.c\<close>, \<^verbatim>\<open>src/rtp/ntp.c\<close>): the header codec, the socket's
  send side, and the receiver's sequence-number and loss bookkeeping of RFC 3550 appendix A.
\<close>

section \<open>Header\<close>

record rtp_header =
  h_ver :: byte
  h_pad :: bool
  h_ext :: bool
  h_cc :: byte
  h_m :: bool
  h_pt :: byte
  h_seq :: "16 word"
  h_ts :: "32 word"
  h_ts_arrive :: "64 word"
  h_ssrc :: "32 word"
  h_csrc :: "32 word list"
  h_xtype :: "16 word"
  h_xlen :: "16 word"

definition RTP_VERSION :: byte where "RTP_VERSION = 2"
definition RTP_HEADER_SIZE :: nat where "RTP_HEADER_SIZE = 12"

definition rtp_byte0 :: "rtp_header \<Rightarrow> byte" where
  "rtp_byte0 hdr = push_bit 6 (h_ver hdr AND 2) OR push_bit 5 (of_bool (h_pad hdr)) OR
                   push_bit 4 (of_bool (h_ext hdr)) OR (h_cc hdr AND 15)"

definition rtp_byte1 :: "rtp_header \<Rightarrow> byte" where
  "rtp_byte1 hdr = push_bit 7 (of_bool (h_m hdr)) OR (h_pt hdr AND 127)"

text \<open>Reading past the 16 entries of \<^verbatim>\<open>csrc\<close> is an access outside the header.\<close>

definition rtp_hdr_encode :: "alloc \<Rightarrow> mbuf \<Rightarrow> rtp_header \<Rightarrow> errno \<times> mbuf" where
  "rtp_hdr_encode al mb hdr =
     err_each (\<lambda>mb i. if i < length (h_csrc hdr)
                      then mbuf_write_u32 al mb (htonl (h_csrc hdr ! i)) else (FAULT, mb))
       [0..<unat (h_cc hdr)]
       (err_or (err_or (err_or
          (mbuf_write_mem al mb [rtp_byte0 hdr, rtp_byte1 hdr])
          (\<lambda>mb. mbuf_write_u16 al mb (htons (h_seq hdr))))
          (\<lambda>mb. mbuf_write_u32 al mb (htonl (h_ts hdr))))
          (\<lambda>mb. mbuf_write_u32 al mb (htonl (h_ssrc hdr))))"

text \<open>The CSRC loop of the decoder: \<open>n\<close> words stored from index \<open>i\<close> on.\<close>

fun rtp_read_csrc :: "nat \<Rightarrow> nat \<Rightarrow> 32 word list \<Rightarrow> mbuf \<Rightarrow> 32 word list \<times> mbuf" where
  "rtp_read_csrc i 0 csrc mb = (csrc, mb)"
| "rtp_read_csrc i (Suc n) csrc mb =
     (case mbuf_read_u32 mb of (v, mb1) \<Rightarrow> rtp_read_csrc (Suc i) n (csrc[i := ntohl v]) mb1)"

text \<open>The variable part of the header: contributing sources and extension header.\<close>

definition rtp_hdr_decode_var :: "rtp_header \<Rightarrow> mbuf \<Rightarrow> errno \<times> rtp_header \<times> mbuf" where
  "rtp_hdr_decode_var hdr1 mb4 =
     (if mbuf_get_left mb4 < unat (h_cc hdr1) * 4 then (EBADMSG, hdr1, mb4)
      else
        let (csrc, mb5) = rtp_read_csrc 0 (unat (h_cc hdr1)) (h_csrc hdr1) mb4;
            hdr2 = hdr1\<lparr>h_csrc := csrc\<rparr>
        in if h_ext hdr2 then
             if mbuf_get_left mb5 < 4 then (EBADMSG, hdr2, mb5)
             else
               let (xtype, mb6) = mbuf_read_u16 mb5;
                   (xlen, mb7) = mbuf_read_u16 mb6;
                   hdr3 = hdr2\<lparr>h_xtype := ntohs xtype, h_xlen := ntohs xlen\<rparr>
               in if mbuf_get_left mb7 < unat (h_xlen hdr3) * 4 then (EBADMSG, hdr3, mb7)
                  else (0, hdr3, mb7\<lparr>mb_pos := szadd (mb_pos mb7) (unat (h_xlen hdr3) * 4)\<rparr>)
           else (0, hdr2, mb5))"

definition rtp_hdr_decode :: "rtp_header \<Rightarrow> mbuf \<Rightarrow> errno \<times> rtp_header \<times> mbuf" where
  "rtp_hdr_decode hdr mb =
     (if mbuf_get_left mb < RTP_HEADER_SIZE then (EBADMSG, hdr, mb)
      else case mbuf_read_mem mb 2 of (err, buf, mb1) \<Rightarrow>
      if err \<noteq> 0 then (err, hdr, mb1)
      else
        let b0 = buf ! 0; b1 = buf ! 1;
            (seq, mb2) = mbuf_read_u16 mb1;
            (ts, mb3) = mbuf_read_u32 mb2;
            (ssrc, mb4) = mbuf_read_u32 mb3;
            hdr1 = hdr\<lparr>h_ver := drop_bit 6 b0 AND 3,
                       h_pad := (drop_bit 5 b0 AND 1 \<noteq> 0),
                       h_ext := (drop_bit 4 b0 AND 1 \<noteq> 0),
                       h_cc := b0 AND 15,
                       h_m := (drop_bit 7 b1 AND 1 \<noteq> 0),
                       h_pt := b1 AND 127,
                       h_seq := ntohs seq, h_ts := ntohl ts, h_ssrc := ntohl ssrc\<rparr>
        in rtp_hdr_decode_var hdr1 mb4)"

definition zero_header :: rtp_header where
  "zero_header = \<lparr>h_ver = 0, h_pad = False, h_ext = False, h_cc = 0, h_m = False, h_pt = 0,
     h_seq = 0, h_ts = 0, h_ts_arrive = 0, h_ssrc = 0, h_csrc = replicate 16 0,
     h_xtype = 0, h_xlen = 0\<rparr>"

definition rtp_decode :: "mbuf \<Rightarrow> errno \<times> rtp_header \<times> mbuf" where
  "rtp_decode mb =
     (case rtp_hdr_decode zero_header mb of (err, hdr, mb1) \<Rightarrow>
        if err \<noteq> 0 then (err, hdr, mb1)
        else if RTP_VERSION \<noteq> h_ver hdr then (EBADMSG, hdr, mb1)
        else (0, hdr, mb1))"

section \<open>Round trip\<close>

definition rtp_wire :: "rtp_header \<Rightarrow> byte list" where
  "rtp_wire hdr = [rtp_byte0 hdr, rtp_byte1 hdr] @ be16 (h_seq hdr) @ be32 (h_ts hdr) @
     be32 (h_ssrc hdr) @ concat (map be32 (take (unat (h_cc hdr)) (h_csrc hdr)))"

text \<open>
  The headers the encoder can represent: a version it does not truncate, no extension (the
  extension is written by its own encoder after the header), and the fields within their widths.
\<close>

definition rtp_hdr_ok :: "rtp_header \<Rightarrow> bool" where
  "rtp_hdr_ok hdr \<longleftrightarrow> (h_ver hdr = 0 \<or> h_ver hdr = 2) \<and> \<not> h_ext hdr \<and>
     h_cc hdr AND 15 = h_cc hdr \<and> h_pt hdr AND 127 = h_pt hdr \<and> length (h_csrc hdr) = 16 \<and>
     drop (unat (h_cc hdr)) (h_csrc hdr) = replicate (16 - unat (h_cc hdr)) 0 \<and>
     h_ts_arrive hdr = 0 \<and> h_xtype hdr = 0 \<and> h_xlen hdr = 0"

lemma rtp_byte0_fields:
  assumes "h_ver hdr = 0 \<or> h_ver hdr = 2"
  shows "drop_bit 6 (rtp_byte0 hdr) AND 3 = h_ver hdr"
    and "(drop_bit 5 (rtp_byte0 hdr) AND 1 \<noteq> 0) = h_pad hdr"
    and "(drop_bit 4 (rtp_byte0 hdr) AND 1 \<noteq> 0) = h_ext hdr"
    and "rtp_byte0 hdr AND 15 = h_cc hdr AND 15"
  using assms
  by (auto simp: rtp_byte0_def and_1_bit bit_simps intro!: byte_eqI simp del: bit_0)

lemma rtp_byte1_fields:
  "(drop_bit 7 (rtp_byte1 hdr) AND 1 \<noteq> 0) = h_m hdr"
  "rtp_byte1 hdr AND 127 = h_pt hdr AND 127"
  by (auto simp: rtp_byte1_def and_1_bit bit_simps intro!: byte_eqI simp del: bit_0)

lemma and_15_less: "(c :: byte) AND 15 = c \<Longrightarrow> unat c < 16"
proof -
  assume "c AND 15 = c"
  moreover have "c AND 15 \<le> 15" by (rule word_and_le1)
  ultimately show ?thesis by (simp add: word_le_nat_alt)
qed

lemma length_concat_be32 [simp]: "length (concat (map be32 cs)) = 4 * length cs"
  by (induction cs) auto

lemma rtp_hdr_encode_emits:
  assumes "mbuf_wf mb" "h_cc hdr AND 15 = h_cc hdr \<and> length (h_csrc hdr) = 16"
    and "mb_pos mb + length (rtp_wire hdr) < 2 ^ 31"
  shows "emits al mb (rtp_wire hdr) (rtp_hdr_encode al mb hdr)"
proof -
  let ?cc = "unat (h_cc hdr)" and ?cs = "h_csrc hdr"
  have cc: "?cc < 16" "length ?cs = 16" using assms(2) and_15_less by auto
  have cs: "concat (map be32 (take ?cc ?cs)) = concat (map (\<lambda>i. be32 (?cs ! i)) [0..<?cc])"
  proof -
    have "take ?cc ?cs = map ((!) ?cs) [0..<?cc]" using cc by (intro nth_equalityI) auto
    then show ?thesis by (simp add: comp_def)
  qed
  have bnd: "mb_pos mb + 12 + 4 * ?cc < 2 ^ 31"
    using assms(3) cc by (simp add: rtp_wire_def)
  have pre: "emits al mb (((
      [rtp_byte0 hdr, rtp_byte1 hdr] @ be16 (h_seq hdr)) @ be32 (h_ts hdr)) @ be32 (h_ssrc hdr))
    (err_or (err_or (err_or
          (mbuf_write_mem al mb [rtp_byte0 hdr, rtp_byte1 hdr])
          (\<lambda>mb. mbuf_write_u16 al mb (htons (h_seq hdr))))
          (\<lambda>mb. mbuf_write_u32 al mb (htonl (h_ts hdr))))
          (\<lambda>mb. mbuf_write_u32 al mb (htonl (h_ssrc hdr))))"
    using assms(1) bnd by (intro emits_err_or mbuf_write_mem_emits mbuf_write_uN_emits) auto
  have len: "length (concat (map (\<lambda>i. be32 (?cs ! i)) [0..<?cc])) = 4 * ?cc"
    by (simp flip: cs add: cc less_imp_le)
  have "emits al mb ((((
      [rtp_byte0 hdr, rtp_byte1 hdr] @ be16 (h_seq hdr)) @ be32 (h_ts hdr)) @ be32 (h_ssrc hdr)) @
      concat (map (\<lambda>i. be32 (?cs ! i)) [0..<?cc])) (rtp_hdr_encode al mb hdr)"
    unfolding rtp_hdr_encode_def
    by (rule emits_err_each [OF pre]) (use len cc bnd in \<open>auto intro!: mbuf_write_uN_emits\<close>)
  then show ?thesis by (simp add: rtp_wire_def cs)
qed

lemma rtp_read_csrc_left:
  assumes "mbuf_wf mb" "mb_left mb = concat (map be32 cs) @ rest" "i + length cs \<le> length csrc"
  shows "rtp_read_csrc i (length cs) csrc mb =
    (take i csrc @ cs @ drop (i + length cs) csrc, mb_adv mb (4 * length cs))"
  using assms
proof (induction cs arbitrary: i csrc mb)
  case (Cons c cs)
  let ?mb = "mb_adv mb 4"
  have "mbuf_read_u32 mb = (unle32 (be32 c), ?mb)"
    using Cons.prems(1,2) by (simp add: mbuf_read_u32_left)
  moreover have "rtp_read_csrc (Suc i) (length cs) (csrc[i := c]) ?mb =
      (take (Suc i) (csrc[i := c]) @ cs @ drop (Suc i + length cs) (csrc[i := c]),
       mb_adv ?mb (4 * length cs))"
    using Cons.prems by (intro Cons.IH) auto
  moreover have "take (Suc i) (csrc[i := c]) = take i csrc @ [c]"
    using Cons.prems(3) by (simp add: take_Suc_conv_app_nth)
  ultimately show ?case by simp
qed simp

lemma rtp_hdr_decode_wire:
  assumes "mbuf_wf mb" "rtp_hdr_ok hdr" "mb_left mb = rtp_wire hdr @ rest"
  shows "rtp_hdr_decode zero_header mb =
    (0, hdr, mb_adv mb (length (rtp_wire hdr)))"
proof -
  let ?cc = "unat (h_cc hdr)"
  note ok = assms(2) [unfolded rtp_hdr_ok_def]
  have cc: "?cc < 16" using ok and_15_less by blast
  define cs where "cs = take ?cc (h_csrc hdr)"
  have lcs: "length cs = ?cc" using ok cc by (simp add: cs_def)
  have csrc: "rtp_read_csrc 0 ?cc (replicate 16 0) (mb_adv mb 12) =
      (h_csrc hdr, mb_adv mb (12 + 4 * ?cc))"
  proof -
    have "mb_left (mb_adv mb 12) = concat (map be32 cs) @ rest"
      using assms(3) by (simp add: rtp_wire_def cs_def)
    then have "rtp_read_csrc 0 (length cs) (replicate 16 0) (mb_adv mb 12) =
      (cs @ drop ?cc (replicate 16 0), mb_adv mb (12 + 4 * ?cc))"
      using rtp_read_csrc_left [of "mb_adv mb 12" cs rest 0 "replicate 16 0"]
        assms(1) cc by (simp add: lcs)
    moreover have "cs @ drop ?cc (replicate 16 0) = h_csrc hdr"
      using ok unfolding cs_def drop_replicate by (metis append_take_drop_id)
    ultimately show ?thesis by (simp add: lcs add.assoc)
  qed
  have hdr: "zero_header\<lparr>h_ver := h_ver hdr, h_pad := h_pad hdr, h_ext := False, h_cc := h_cc hdr,
       h_m := h_m hdr, h_pt := h_pt hdr, h_seq := h_seq hdr, h_ts := h_ts hdr,
       h_ssrc := h_ssrc hdr, h_csrc := h_csrc hdr\<rparr> = hdr"
    using ok by (cases hdr) (simp add: zero_header_def)
  show ?thesis
    using assms(1,3) ok csrc hdr lcs [unfolded cs_def]
    by (simp add: rtp_hdr_decode_def rtp_hdr_decode_var_def RTP_HEADER_SIZE_def mbuf_read_left rtp_wire_def
        rtp_byte0_fields rtp_byte1_fields Let_def zero_header_def [THEN arg_cong, of h_csrc])
qed

interpretation rtp_hdr: mbuf_codec rtp_hdr_encode "rtp_hdr_decode zero_header" rtp_wire rtp_hdr_ok
  by unfold_locales
     (simp_all add: rtp_hdr_encode_emits rtp_hdr_decode_wire, simp add: rtp_hdr_ok_def rtp_hdr_encode_emits)

subsection \<open>The decoder as a parser of the bytes left\<close>

fun rtp_csrcs :: "nat \<Rightarrow> nat \<Rightarrow> 32 word list \<Rightarrow> byte list \<Rightarrow> 32 word list" where
  "rtp_csrcs i 0 csrc bs = csrc"
| "rtp_csrcs i (Suc n) csrc bs =
     rtp_csrcs (Suc i) n (csrc[i := ntohl (unle32 (take 4 bs))]) (drop 4 bs)"

definition rtp_fixed :: "rtp_header \<Rightarrow> byte list \<Rightarrow> rtp_header" where
  "rtp_fixed hdr bs = hdr\<lparr>h_ver := drop_bit 6 (bs ! 0) AND 3,
     h_pad := (drop_bit 5 (bs ! 0) AND 1 \<noteq> 0), h_ext := (drop_bit 4 (bs ! 0) AND 1 \<noteq> 0),
     h_cc := bs ! 0 AND 15, h_m := (drop_bit 7 (bs ! 1) AND 1 \<noteq> 0), h_pt := bs ! 1 AND 127,
     h_seq := ntohs (unle16 (take 2 (drop 2 bs))), h_ts := ntohl (unle32 (take 4 (drop 4 bs))),
     h_ssrc := ntohl (unle32 (take 4 (drop 8 bs)))\<rparr>"

text \<open>Error code, header and number of bytes consumed.\<close>

definition rtp_parse_var :: "rtp_header \<Rightarrow> byte list \<Rightarrow> errno \<times> rtp_header \<times> nat" where
  "rtp_parse_var h1 bs =
     (let n = 4 * unat (h_cc h1) in
      if length bs < n then (EBADMSG, h1, 0)
      else
        let h2 = h1\<lparr>h_csrc := rtp_csrcs 0 (unat (h_cc h1)) (h_csrc h1) bs\<rparr> in
        if \<not> h_ext h2 then (0, h2, n)
        else if length bs < n + 4 then (EBADMSG, h2, n)
        else
          let h3 = h2\<lparr>h_xtype := ntohs (unle16 (take 2 (drop n bs))),
                     h_xlen := ntohs (unle16 (take 2 (drop (n + 2) bs)))\<rparr>;
              k = n + 4 + 4 * unat (h_xlen h3)
          in if length bs < k then (EBADMSG, h3, n + 4) else (0, h3, k))"

definition rtp_parse :: "rtp_header \<Rightarrow> byte list \<Rightarrow> errno \<times> rtp_header \<times> nat" where
  "rtp_parse hdr bs =
     (if length bs < 12 then (EBADMSG, hdr, 0)
      else case rtp_parse_var (rtp_fixed hdr bs) (drop 12 bs) of (err, h, n) \<Rightarrow> (err, h, 12 + n))"

lemma rtp_read_csrc_parse:
  "mbuf_wf mb \<Longrightarrow> 4 * n \<le> length (mb_left mb) \<Longrightarrow>
   rtp_read_csrc i n csrc mb = (rtp_csrcs i n csrc (mb_left mb), mb_adv mb (4 * n))"
  by (induction n arbitrary: i csrc mb) (auto simp: mbuf_read_left)

lemma rtp_csrcs_local: "4 * n \<le> length xs \<Longrightarrow> rtp_csrcs i n csrc (xs @ ys) = rtp_csrcs i n csrc xs"
  by (induction n arbitrary: i csrc xs) auto

lemma rtp_hdr_decode_var_parse:
  assumes "mbuf_wf mb"
  shows "rtp_hdr_decode_var h mb =
    (case rtp_parse_var h (mb_left mb) of (err, h', n) \<Rightarrow> (err, h', mb_adv mb n))"
proof (cases "length (mb_left mb) < 4 * unat (h_cc h)")
  case True
  then show ?thesis
    using assms by (simp add: rtp_hdr_decode_var_def rtp_parse_var_def mbuf_read_left mult.commute)
next
  case False
  let ?cc = "unat (h_cc h)"
  have csrc: "rtp_read_csrc 0 ?cc (h_csrc h) mb =
      (rtp_csrcs 0 ?cc (h_csrc h) (mb_left mb), mb_adv mb (4 * ?cc))"
    using False assms by (intro rtp_read_csrc_parse) auto
  have adv: "(mb_adv mb n)\<lparr>mb_pos := szadd (mb_pos mb + n) m\<rparr> = mb_adv mb (n + m)"
    if "n + m \<le> length (mb_left mb)" "0 < n + m" for n m
    using mb_pos_lt [OF assms that] by (simp add: mb_adv_def add.assoc)
  show ?thesis
    using False assms csrc
    by (auto simp: rtp_hdr_decode_var_def rtp_parse_var_def mbuf_read_left Let_def adv mult.commute
        add.commute [of 4] add.assoc simp del: add_2_eq_Suc')
qed

lemma rtp_hdr_decode_parse:
  assumes "mbuf_wf mb"
  shows "rtp_hdr_decode hdr mb =
    (case rtp_parse hdr (mb_left mb) of (err, h, n) \<Rightarrow> (err, h, mb_adv mb n))"
proof (cases "length (mb_left mb) < 12")
  case True
  then show ?thesis
    using assms by (simp add: rtp_hdr_decode_def rtp_parse_def RTP_HEADER_SIZE_def mbuf_read_left)
next
  case False
  then have "rtp_hdr_decode hdr mb = rtp_hdr_decode_var (rtp_fixed hdr (mb_left mb)) (mb_adv mb 12)"
    using assms by (simp add: rtp_hdr_decode_def RTP_HEADER_SIZE_def mbuf_read_left rtp_fixed_def Let_def)
  then show ?thesis
    using False assms
    by (simp add: rtp_parse_def rtp_hdr_decode_var_parse case_prod_beta)
qed

lemma rtp_csrcs_take: "4 * n \<le> m \<Longrightarrow> m \<le> length bs \<Longrightarrow>
  rtp_csrcs i n csrc (take m bs @ ys) = rtp_csrcs i n csrc bs"
  using rtp_csrcs_local [of n "take m bs" i csrc ys] rtp_csrcs_local [of n "take m bs" i csrc "drop m bs"]
  by simp

lemma take_drop_take:
  "a + b \<le> m \<Longrightarrow> m \<le> length bs \<Longrightarrow> take b (drop a (take m bs @ ys)) = take b (drop a bs)"
  by (auto simp: drop_take min_def)

lemma rtp_parse_var_local:
  assumes "rtp_parse_var h bs = (0, h', n)"
  shows "n \<le> length bs \<and> rtp_parse_var h (take n bs @ ys) = (0, h', n)"
proof (cases "h_ext h")
  case True
  define c xl where "c = 4 * unat (h_cc h)" and "xl = ntohs (unle16 (take 2 (drop (c + 2) bs)))"
  have n: "n = c + 4 + 4 * unat xl" "n \<le> length bs"
    and h': "h' = h\<lparr>h_csrc := rtp_csrcs 0 (unat (h_cc h)) (h_csrc h) bs,
        h_xtype := ntohs (unle16 (take 2 (drop c bs))), h_xlen := xl\<rparr>"
    using assms True
    by (auto simp: rtp_parse_var_def Let_def c_def xl_def split: if_splits simp del: add_2_eq_Suc')
  have w: "take 2 (drop c (take n bs @ ys)) = take 2 (drop c bs)"
    "take 2 (drop (c + 2) (take n bs @ ys)) = take 2 (drop (c + 2) bs)"
    "rtp_csrcs 0 (unat (h_cc h)) (h_csrc h) (take n bs @ ys) = rtp_csrcs 0 (unat (h_cc h)) (h_csrc h) bs"
    using n by (simp_all only: c_def, (intro take_drop_take rtp_csrcs_take; simp)+)
  have "n \<le> length (take n bs @ ys)" using n(2) by simp
  then show ?thesis
    unfolding rtp_parse_var_def Let_def c_def [symmetric] w
    using True n h' by (simp add: xl_def)
next
  case False
  then show ?thesis
    using assms by (auto simp: rtp_parse_var_def Let_def rtp_csrcs_take split: if_splits)
qed

lemma rtp_parse_local:
  assumes "rtp_parse h bs = (0, h', n)"
  shows "12 \<le> n \<and> n \<le> length bs \<and> rtp_parse h (take n bs @ ys) = (0, h', n)"
proof -
  obtain m where m: "12 \<le> length bs" "rtp_parse_var (rtp_fixed h bs) (drop 12 bs) = (0, h', m)" "n = 12 + m"
    using assms by (auto simp: rtp_parse_def split: if_splits prod.splits)
  have "n \<le> length bs" using m(1,3) rtp_parse_var_local [OF m(2), of "[]"] by auto
  moreover have "(take n bs @ ys) ! 0 = bs ! 0" "(take n bs @ ys) ! 1 = bs ! 1"
    using m(1,3) by (auto simp: nth_append)
  ultimately have "rtp_fixed h (take n bs @ ys) = rtp_fixed h bs"
    using m(3) take_drop_take [of _ _ n bs ys] unfolding rtp_fixed_def by simp
  moreover have "drop 12 (take n bs @ ys) = take m (drop 12 bs) @ ys"
    using m(1,3) by (simp add: drop_take)
  ultimately show ?thesis
    using m rtp_parse_var_local [OF m(2), of ys] by (auto simp: rtp_parse_def)
qed

lemma rtp_parse_err:
  "rtp_parse h bs = (err, h', n) \<Longrightarrow> err \<in> {0, EBADMSG} \<and> n \<le> length bs"
  by (auto simp: rtp_parse_def rtp_parse_var_def Let_def split: if_splits prod.splits)

text \<open>
  The header decoder is safe on every buffer: it succeeds or reports a bad message, it never
  reads outside the block, it consumes no more than the bytes left, and a successful result
  depends only on the bytes it consumed, whatever follows them.
\<close>

theorem rtp_hdr_decode_safe:
  assumes "mbuf_wf mb" "rtp_hdr_decode h mb = (err, hdr, mb')"
  shows "err \<in> {0, EBADMSG} \<and>
    (\<exists>n \<le> length (mb_left mb). mb' = mb_adv mb n \<and>
       (err = 0 \<longrightarrow> (\<forall>mb2 ys. mbuf_wf mb2 \<and> mb_left mb2 = take n (mb_left mb) @ ys \<longrightarrow>
                      rtp_hdr_decode h mb2 = (0, hdr, mb_adv mb2 n))))"
proof -
  obtain e h' n where p: "rtp_parse h (mb_left mb) = (e, h', n)" by (cases "rtp_parse h (mb_left mb)")
  then have "err = e" "hdr = h'" "mb' = mb_adv mb n"
    using assms by (simp_all add: rtp_hdr_decode_parse)
  then show ?thesis
    using p rtp_parse_err [OF p] rtp_parse_local [of h "mb_left mb" h' n]
    by (auto simp: rtp_hdr_decode_parse)
qed

theorem rtp_hdr_decode_safe_witness:
  "fst (rtp_hdr_decode zero_header
     \<lparr>mb_buf = [0x81, 0, 0, 1, 0, 0, 0, 2, 0, 0, 0, 3, 0, 0], mb_size = 14, mb_pos = 0, mb_end = 14,
      mb_shared = False\<rparr>) = EBADMSG"
proof -
  let ?mb = "\<lparr>mb_buf = [0x81, 0, 0, 1, 0, 0, 0, 2, 0, 0, 0, 3, 0, 0 :: byte], mb_size = 14, mb_pos = 0,
      mb_end = 14, mb_shared = False\<rparr>"
  obtain err hdr mb' where r: "rtp_hdr_decode zero_header ?mb = (err, hdr, mb')"
    by (cases "rtp_hdr_decode zero_header ?mb")
  have wf: "mbuf_wf ?mb" by (simp add: mbuf_wf_def MEM_SIZE_MAX_def)
  have "err \<noteq> 0"
    using r wf by (auto simp: rtp_hdr_decode_parse rtp_parse_def rtp_parse_var_def rtp_fixed_def
        mb_left_def split: prod.splits)
  with rtp_hdr_decode_safe [OF wf r] show ?thesis by (simp add: r)
qed

text \<open>
  C16. An RTP header that the wire format can represent, encoded into a buffer and decoded from
  where it was written, comes back unchanged, up to fifteen contributing sources included.
\<close>

theorem rtp_header_roundtrip:
  assumes "mbuf_wf mb" "rtp_hdr_ok hdr" "mb_pos mb + length (rtp_wire hdr) < 2 ^ 31"
    and "rtp_hdr_encode al mb hdr = (0, mb')"
  shows "rtp_hdr_decode zero_header (mb'\<lparr>mb_pos := mb_pos mb\<rparr>) = (0, hdr, mb')"
  using assms by (rule rtp_hdr.roundtrip(3))

definition sample_header :: rtp_header where
  "sample_header = zero_header\<lparr>h_ver := 2, h_m := True, h_pt := 96, h_seq := 0x1234,
     h_ts := 160, h_ssrc := 0xdeadbeef, h_cc := 1, h_csrc := 7 # replicate 15 0\<rparr>"

lemma sample_header_ok: "rtp_hdr_ok sample_header" "length (rtp_wire sample_header) = 16"
  by (simp_all add: rtp_hdr_ok_def sample_header_def zero_header_def rtp_wire_def)

theorem rtp_header_roundtrip_witness:
  "\<exists>mb'. rtp_hdr_encode (\<lambda>n. Some (\<lambda>i. 0)) mbuf_init sample_header = (0, mb') \<and>
     rtp_hdr_decode zero_header (mb'\<lparr>mb_pos := 0\<rparr>) = (0, sample_header, mb')"
proof -
  let ?al = "\<lambda>n::nat. Some (\<lambda>i::nat. 0 :: byte)"
  have "mem_ok ?al" by (simp add: mem_ok_def)
  then obtain mb' where r: "rtp_hdr_encode ?al mbuf_init sample_header = (0, mb')"
    using rtp_hdr.enc_safe(3) [OF mbuf_wf_init sample_header_ok(1), of ?al] sample_header_ok(2)
    by (cases "rtp_hdr_encode ?al mbuf_init sample_header") simp
  then show ?thesis
    using rtp_header_roundtrip [OF mbuf_wf_init sample_header_ok(1), of ?al mb'] sample_header_ok(2)
    by simp
qed

section \<open>Socket: sending\<close>

record rtp_sock =
  enc_seq :: "16 word"
  enc_ssrc :: "32 word"

text \<open>\<^verbatim>\<open>rand_u16\<close> and \<^verbatim>\<open>rand_u32\<close> supply the start values.\<close>

definition rtp_alloc :: "16 word \<Rightarrow> 32 word \<Rightarrow> rtp_sock" where
  "rtp_alloc r16 r32 = \<lparr>enc_seq = r16 AND 0x7fff, enc_ssrc = r32\<rparr>"

definition rtp_encode_seq ::
  "alloc \<Rightarrow> rtp_sock \<Rightarrow> 16 word \<Rightarrow> bool \<Rightarrow> bool \<Rightarrow> byte \<Rightarrow> 32 word \<Rightarrow> mbuf \<Rightarrow> errno \<times> mbuf" where
  "rtp_encode_seq al rs seq ext marker pt ts mb =
     (if pt AND NOT 0x7f \<noteq> 0 then (EINVAL, mb)
      else rtp_hdr_encode al mb
        (zero_header\<lparr>h_ver := RTP_VERSION, h_pad := False, h_ext := ext, h_cc := 0,
           h_m := marker, h_pt := pt, h_seq := seq, h_ts := ts, h_ssrc := enc_ssrc rs\<rparr>))"

definition rtp_encode ::
  "alloc \<Rightarrow> rtp_sock \<Rightarrow> bool \<Rightarrow> bool \<Rightarrow> byte \<Rightarrow> 32 word \<Rightarrow> mbuf \<Rightarrow> errno \<times> rtp_sock \<times> mbuf" where
  "rtp_encode al rs ext marker pt ts mb =
     (if pt AND NOT 0x7f \<noteq> 0 then (EINVAL, rs, mb)
      else
        let rs1 = rs\<lparr>enc_seq := enc_seq rs + 1\<rparr>;
            (err, mb1) = rtp_hdr_encode al mb
              (zero_header\<lparr>h_ver := RTP_VERSION, h_pad := False, h_ext := ext, h_cc := 0,
                 h_m := marker, h_pt := pt, h_seq := enc_seq rs1, h_ts := ts,
                 h_ssrc := enc_ssrc rs1\<rparr>)
        in (err, rs1, mb1))"

text \<open>
  \<^verbatim>\<open>udp_send\<close> is the parameter \<open>send\<close>; \<open>tx\<close> is \<^verbatim>\<open>rtcp_sess_tx_rtp\<close> acting on the RTCP session, if
  there is one, with the payload size.
\<close>

definition rtp_send ::
  "alloc \<Rightarrow> (byte list \<Rightarrow> errno) \<Rightarrow> (nat \<Rightarrow> 's \<Rightarrow> 's) \<Rightarrow> rtp_sock \<Rightarrow> 's option \<Rightarrow> bool \<Rightarrow> bool \<Rightarrow>
   byte \<Rightarrow> 32 word \<Rightarrow> mbuf \<Rightarrow> errno \<times> rtp_sock \<times> 's option \<times> mbuf" where
  "rtp_send al send tx rs rtcp ext marker pt ts mb =
     (if mb_pos mb < RTP_HEADER_SIZE then (EBADMSG, rs, rtcp, mb)
      else
        let mb1 = mbuf_advance mb (- int RTP_HEADER_SIZE);
            pos = mb_pos mb1;
            (err, rs1, mb2) = rtp_encode al rs ext marker pt ts mb1
        in if err \<noteq> 0 then (err, rs1, rtcp, mb2)
           else
             let rtcp1 = map_option (tx (mbuf_get_left mb2)) rtcp;
                 mb3 = mb2\<lparr>mb_pos := pos\<rparr>
             in (send (mb_left mb3), rs1, rtcp1, mb3))"

definition rtp_resend ::
  "alloc \<Rightarrow> (byte list \<Rightarrow> errno) \<Rightarrow> rtp_sock \<Rightarrow> 16 word \<Rightarrow> bool \<Rightarrow> bool \<Rightarrow>
   byte \<Rightarrow> 32 word \<Rightarrow> mbuf \<Rightarrow> errno \<times> mbuf" where
  "rtp_resend al send rs seq ext marker pt ts mb =
     (if mb_pos mb < RTP_HEADER_SIZE then (EBADMSG, mb)
      else
        let mb1 = mbuf_advance mb (- int RTP_HEADER_SIZE);
            pos = mb_pos mb1;
            (err, mb2) = rtp_encode_seq al rs seq ext marker pt ts mb1
        in if err \<noteq> 0 then (err, mb2)
           else let mb3 = mb2\<lparr>mb_pos := pos\<rparr> in (send (mb_left mb3), mb3))"

definition rtp_sent_header :: "rtp_sock \<Rightarrow> bool \<Rightarrow> bool \<Rightarrow> byte \<Rightarrow> 32 word \<Rightarrow> rtp_header" where
  "rtp_sent_header rs ext marker pt ts =
     zero_header\<lparr>h_ver := 2, h_ext := ext, h_m := marker, h_pt := pt,
       h_seq := enc_seq rs + 1, h_ts := ts, h_ssrc := enc_ssrc rs\<rparr>"

lemma mbuf_advance_back:
  "n \<le> mb_pos mb \<Longrightarrow> mb_pos mb < 2 ^ 64 \<Longrightarrow>
   mbuf_advance mb (- int n) = mb\<lparr>mb_pos := mb_pos mb - n\<rparr>"
  by (simp add: mbuf_advance_def nat_diff_distrib mod_pos_pos_trivial)

text \<open>
  C15. Sending puts exactly one datagram on the wire: the header, with the next sequence number,
  written into the headroom before the payload, followed by the payload unchanged; the RTCP
  session is told the size of the payload alone.
\<close>

theorem rtp_send_packet:
  assumes "mbuf_wf mb" "12 \<le> mb_pos mb" "mb_pos mb \<le> mb_end mb" "mb_pos mb < 2 ^ 31"
    and "pt AND NOT 0x7f = 0" "mem_ok al"
  shows "\<exists>mb'. rtp_send al send tx rs rtcp ext marker pt ts mb =
    (send (rtp_wire (rtp_sent_header rs ext marker pt ts) @ mb_left mb),
     rs\<lparr>enc_seq := enc_seq rs + 1\<rparr>, map_option (tx (length (mb_left mb))) rtcp, mb')"
proof -
  let ?hdr = "rtp_sent_header rs ext marker pt ts"
  let ?mb1 = "mb\<lparr>mb_pos := mb_pos mb - 12\<rparr>"
  have len: "length (rtp_wire ?hdr) = 12" by (simp add: rtp_wire_def rtp_sent_header_def zero_header_def)
  obtain err mb2 where enc: "rtp_hdr_encode al ?mb1 ?hdr = (err, mb2)"
    by (cases "rtp_hdr_encode al ?mb1 ?hdr")
  have "emits al ?mb1 (rtp_wire ?hdr) (err, mb2)"
    using rtp_hdr_encode_emits [of ?mb1 ?hdr al] assms len enc
    by (simp add: rtp_sent_header_def zero_header_def)
  then have e: "err = 0" and w: "written ?mb1 (rtp_wire ?hdr) mb2"
    using emits_ok assms(6) by fastforce+
  have pos: "mb_pos mb2 = mb_pos mb" "mb_end mb2 = mb_end mb"
    using written_pos [OF w] written_end [OF w] assms(2,3) len by simp_all
  have "take (mb_end mb - mb_pos mb) (drop (mb_pos mb) (mb_buf mb2)) = mb_left mb"
    using w assms(1,2) len pos
    by (auto simp: mb_left_def written_iff_nth mbuf_wf_def intro!: nth_equalityI)
  then have left: "mb_left (mb2\<lparr>mb_pos := mb_pos mb - 12\<rparr>) = rtp_wire ?hdr @ mb_left mb"
    and gl: "mbuf_get_left mb2 = length (mb_left mb)"
    using written_left [OF w] pos assms(1) by (simp_all add: length_mb_left mbuf_get_left_def)
  have eq: "zero_header\<lparr>h_ver := RTP_VERSION, h_pad := False, h_ext := ext, h_cc := 0,
      h_m := marker, h_pt := pt, h_seq := enc_seq rs + 1, h_ts := ts, h_ssrc := enc_ssrc rs\<rparr> = ?hdr"
    by (simp add: rtp_sent_header_def zero_header_def RTP_VERSION_def)
  show ?thesis
    using assms(2,4,5) enc e left gl eq mbuf_advance_back [of 12 mb]
    by (simp add: rtp_send_def rtp_encode_def RTP_HEADER_SIZE_def)
qed

theorem rtp_send_packet_witness:
  "\<exists>mb'. rtp_send (\<lambda>n. Some (\<lambda>i. 0)) (\<lambda>d. int (length d)) (\<lambda>n (_::nat). n)
     \<lparr>enc_seq = 41, enc_ssrc = 1\<rparr> (Some 0) False True 8 160
     \<lparr>mb_buf = replicate 12 0 @ [5, 6], mb_size = 14, mb_pos = 12, mb_end = 14, mb_shared = False\<rparr>
   = (14, \<lparr>enc_seq = 42, enc_ssrc = 1\<rparr>, Some 2, mb')"
proof -
  let ?mb = "\<lparr>mb_buf = replicate 12 0 @ [5, 6], mb_size = 14, mb_pos = 12, mb_end = 14,
              mb_shared = False\<rparr>"
  have "mbuf_wf ?mb" by (simp add: mbuf_wf_def MEM_SIZE_MAX_def)
  moreover have "length (rtp_wire (rtp_sent_header \<lparr>enc_seq = 41, enc_ssrc = 1\<rparr> False True 8 160)) = 12"
    by (simp add: rtp_wire_def rtp_sent_header_def zero_header_def)
  ultimately show ?thesis
    using rtp_send_packet [of ?mb 8 "\<lambda>n. Some (\<lambda>i. 0)" "\<lambda>d. int (length d)" "\<lambda>n (_::nat). n"
        "\<lparr>enc_seq = 41, enc_ssrc = 1\<rparr>" "Some 0" False True 160]
    by (simp add: mem_ok_def mb_left_def flip: numeral_2_eq_2)
qed

section \<open>Sources: sequence numbers, loss, jitter\<close>

text \<open>The peer address and the times are opaque here; \<^verbatim>\<open>transit\<close> is a signed 32-bit value.\<close>

record rtp_source =
  s_max_seq :: "16 word"
  s_cycles :: "32 word"
  s_base_seq :: "32 word"
  s_bad_seq :: "32 word"
  s_probation :: "32 word"
  s_received :: "32 word"
  s_expected_prior :: "32 word"
  s_received_prior :: "32 word"
  s_transit :: "32 word"
  s_jitter :: "32 word"
  s_rx_bytes :: "64 word"
  s_sr_recv :: "64 word"
  s_last_sr_hi :: "32 word"
  s_last_sr_lo :: "32 word"
  s_rtp_ts :: "32 word"
  s_last_rtp_ts :: "32 word"
  s_psent :: "32 word"
  s_osent :: "32 word"

definition RTP_SEQ_MOD :: nat where "RTP_SEQ_MOD = 65536"

definition rtp_source_init_seq :: "rtp_source \<Rightarrow> 16 word \<Rightarrow> rtp_source" where
  "rtp_source_init_seq s seq =
     s\<lparr>s_base_seq := ucast seq, s_max_seq := seq, s_bad_seq := of_nat RTP_SEQ_MOD + 1,
       s_cycles := 0, s_received := 0, s_received_prior := 0, s_expected_prior := 0\<rparr>"

definition rtp_source_update_seq :: "rtp_source \<Rightarrow> 16 word \<Rightarrow> int \<times> rtp_source" where
  "rtp_source_update_seq s seq =
     (let udelta = seq - s_max_seq s in
      if s_probation s \<noteq> 0 then
        if unat seq = unat (s_max_seq s) + 1 then
          let s1 = s\<lparr>s_probation := s_probation s - 1, s_max_seq := seq\<rparr> in
          if s_probation s1 = 0 then
            let s2 = rtp_source_init_seq s1 seq in (1, s2\<lparr>s_received := s_received s2 + 1\<rparr>)
          else (0, s1)
        else (0, s\<lparr>s_probation := 2 - 1, s_max_seq := seq\<rparr>)
      else if unat udelta < 3000 then
        let s1 = (if seq < s_max_seq s
                  then s\<lparr>s_cycles := s_cycles s + of_nat RTP_SEQ_MOD\<rparr> else s);
            s2 = s1\<lparr>s_max_seq := seq\<rparr>
        in (1, s2\<lparr>s_received := s_received s2 + 1\<rparr>)
      else if unat udelta \<le> RTP_SEQ_MOD - 100 then
        if ucast seq = s_bad_seq s then
          let s1 = rtp_source_init_seq s seq in (1, s1\<lparr>s_received := s_received s1 + 1\<rparr>)
        else (0, s\<lparr>s_bad_seq := (ucast seq + 1) AND of_nat (RTP_SEQ_MOD - 1)\<rparr>)
      else (1, s\<lparr>s_received := s_received s + 1\<rparr>))"

definition rtp_source_calc_jitter :: "rtp_source \<Rightarrow> 32 word \<Rightarrow> 32 word \<Rightarrow> rtp_source" where
  "rtp_source_calc_jitter s rtp_ts arrival =
     (let transit = arrival - rtp_ts; d = transit - s_transit s in
      if s_transit s = 0 then s\<lparr>s_transit := transit\<rparr>
      else
        let d' = (if sint d < 0 then - d else d)
        in s\<lparr>s_transit := transit,
             s_jitter := s_jitter s + (d' - drop_bit 4 (s_jitter s + 8))\<rparr>)"

definition rtp_source_calc_lost :: "rtp_source \<Rightarrow> int" where
  "rtp_source_calc_lost s =
     (let extended_max = s_cycles s + ucast (s_max_seq s);
          expected = extended_max - s_base_seq s + 1;
          lost = sint (expected - s_received s)
      in if lost > 0x7fffff then 0x7fffff else if lost < - 0x7fffff then - 0x7fffff else lost)"

definition rtp_source_calc_fraction_lost :: "rtp_source \<Rightarrow> byte \<times> rtp_source" where
  "rtp_source_calc_fraction_lost s =
     (let extended_max = s_cycles s + ucast (s_max_seq s);
          expected = extended_max - s_base_seq s + 1;
          expected_interval = expected - s_expected_prior s;
          s1 = s\<lparr>s_expected_prior := expected\<rparr>;
          received_interval = s_received s1 - s_received_prior s1;
          s2 = s1\<lparr>s_received_prior := s_received s1\<rparr>;
          lost_interval = expected_interval - received_interval;
          fraction = (if expected_interval = 0 \<or> sint lost_interval \<le> 0 then 0
                      else word_of_int (sint (push_bit 8 lost_interval) sdiv sint expected_interval))
      in (fraction, s2))"

subsection \<open>Tracking the sender's sequence numbers\<close>

text \<open>
  The sender numbers its packets \<open>n0, n0 + 1, \<dots>\<close> without bound and the wire carries the low
  16 bits.  \<open>tracks s n0 M c\<close>: the source knows the highest number \<open>M\<close> received so far, the first
  number \<open>n0\<close> and the number \<open>c\<close> of packets received.
\<close>

definition tracks :: "rtp_source \<Rightarrow> nat \<Rightarrow> nat \<Rightarrow> nat \<Rightarrow> bool" where
  "tracks s n0 M c \<longleftrightarrow> s_probation s = 0 \<and> s_max_seq s = of_nat M \<and>
     s_cycles s = of_nat (M div 65536 * 65536) \<and> s_base_seq s = of_nat n0 \<and>
     s_received s = of_nat c"

text \<open>A packet may be lost, duplicated or reordered, within the limits the code allows.\<close>

definition in_window :: "nat \<Rightarrow> nat \<Rightarrow> bool" where
  "in_window M n \<longleftrightarrow> n < M + 3000 \<and> M < n + 100"

lemma unat_seq_ahead:
  "M \<le> n \<Longrightarrow> n < M + 65536 \<Longrightarrow> unat ((of_nat n :: 16 word) - of_nat M) = n - M"
proof -
  assume a: "M \<le> n" "n < M + 65536"
  then have eq: "(of_nat n :: 16 word) - of_nat M = of_nat (n - M)" by simp
  show ?thesis unfolding eq unat_of_nat using a by simp
qed

lemma unat_seq_behind:
  "n < M \<Longrightarrow> M < n + 65536 \<Longrightarrow> unat ((of_nat n :: 16 word) - of_nat M) = 65536 - (M - n)"
proof -
  assume a: "n < M" "M < n + 65536"
  have "(of_nat (65536 - (M - n)) :: 16 word) = of_nat (2 ^ 16) - of_nat (M - n)"
    using a by (subst of_nat_diff [symmetric]) simp_all
  also have "\<dots> = of_nat n - of_nat M" using a by (simp add: of_nat_diff)
  finally have eq: "(of_nat n :: 16 word) - of_nat M = of_nat (65536 - (M - n))" ..
  have "65536 - (M - n) < (2::nat) ^ LENGTH(16)" using a by simp
  then show ?thesis unfolding eq unat_of_nat by (rule mod_less)
qed

lemma seq_wraps:
  assumes "M \<le> n" "n < M + 3000"
  shows "((of_nat n :: 16 word) < of_nat M) = (n div 65536 \<noteq> M div 65536)"
    and "n div 65536 \<noteq> M div 65536 \<Longrightarrow> n div 65536 = Suc (M div 65536)"
proof -
  define q r q' r' where d: "q = n div 65536" "r = n mod 65536" "q' = M div 65536" "r' = M mod 65536"
  have "n = 65536 * q + r" "M = 65536 * q' + r'" "r < 65536" "r' < 65536" by (simp_all add: d)
  then have "(r < r') = (q \<noteq> q')" "q \<noteq> q' \<Longrightarrow> q = Suc q'"
    using assms by arith+
  then show "((of_nat n :: 16 word) < of_nat M) = (n div 65536 \<noteq> M div 65536)"
    and "n div 65536 \<noteq> M div 65536 \<Longrightarrow> n div 65536 = Suc (M div 65536)"
    by (simp_all add: d word_less_nat_alt unat_of_nat)
qed

lemma update_seq_tracks:
  assumes "tracks s n0 M c" "in_window M n"
  obtains s' where "rtp_source_update_seq s (of_nat n) = (1, s')"
    "tracks s' n0 (max M n) (Suc c)"
    "s_expected_prior s' = s_expected_prior s" "s_received_prior s' = s_received_prior s"
proof (cases "M \<le> n")
  case True
  have w: "n < M + 3000" using assms(2) by (simp add: in_window_def)
  have u: "unat ((of_nat n :: 16 word) - of_nat M) < 3000"
    using unat_seq_ahead [OF True] w True by simp
  show ?thesis
    using assms(1) True u seq_wraps [OF True w] that
    by (auto simp: rtp_source_update_seq_def tracks_def Let_def RTP_SEQ_MOD_def max_absorb2)
next
  case False
  then have "unat ((of_nat n :: 16 word) - of_nat M) = 65536 - (M - n)"
    using assms(2) by (intro unat_seq_behind) (simp_all add: in_window_def)
  moreover have "0 < M - n" "M - n < 100" using False assms(2) by (simp_all add: in_window_def)
  ultimately have "\<not> unat ((of_nat n :: 16 word) - of_nat M) < 3000"
    "\<not> unat ((of_nat n :: 16 word) - of_nat M) \<le> 65436" by linarith+
  then show ?thesis
    using assms(1) False that [of "s\<lparr>s_received := s_received s + 1\<rparr>"]
    by (simp add: rtp_source_update_seq_def tracks_def Let_def RTP_SEQ_MOD_def max_absorb1)
qed

lemma sint_word_of_int:
  "- (2 ^ 31) \<le> k \<Longrightarrow> k < 2 ^ 31 \<Longrightarrow> sint (word_of_int k :: 32 word) = k"
  by (simp add: signed_of_int signed_take_bit_int_eq_self)

lemma tracks_expected:
  assumes "tracks s n0 M c" "n0 \<le> M"
  shows "s_cycles s + ucast (s_max_seq s) - s_base_seq s + 1 = of_nat (Suc (M - n0))"
proof -
  have "(ucast (of_nat M :: 16 word) :: 32 word) = of_nat (M mod 65536)"
    by (simp add: unsigned_of_nat take_bit_eq_mod)
  then have "s_cycles s + ucast (s_max_seq s) = of_nat (M div 65536 * 65536 + M mod 65536)"
    using assms(1) by (simp only: tracks_def of_nat_add)
  then show ?thesis using assms by (simp add: tracks_def of_nat_diff)
qed

text \<open>Packets of the sender and reports of the receiver, in any order.\<close>

datatype rx_event = Pkt nat | Report

fun rx_run :: "rtp_source \<Rightarrow> rx_event list \<Rightarrow> byte list \<times> rtp_source" where
  "rx_run s [] = ([], s)"
| "rx_run s (Pkt n # evs) = rx_run (snd (rtp_source_update_seq s (of_nat n))) evs"
| "rx_run s (Report # evs) =
     (let (f, s') = rtp_source_calc_fraction_lost s; (fs, s'') = rx_run s' evs in (f # fs, s''))"

text \<open>The same history with unbounded numbers: highest, count, and the report values.\<close>

fun rx_max :: "nat \<Rightarrow> rx_event list \<Rightarrow> nat" where
  "rx_max M [] = M"
| "rx_max M (Pkt n # evs) = rx_max (max M n) evs"
| "rx_max M (Report # evs) = rx_max M evs"

fun rx_count :: "rx_event list \<Rightarrow> nat" where
  "rx_count [] = 0"
| "rx_count (Pkt n # evs) = Suc (rx_count evs)"
| "rx_count (Report # evs) = rx_count evs"

fun rx_admissible :: "nat \<Rightarrow> rx_event list \<Rightarrow> bool" where
  "rx_admissible M [] = True"
| "rx_admissible M (Pkt n # evs) = (in_window M n \<and> rx_admissible (max M n) evs)"
| "rx_admissible M (Report # evs) = rx_admissible M evs"

fun rx_fractions :: "nat \<Rightarrow> nat \<Rightarrow> nat \<Rightarrow> nat \<Rightarrow> nat \<Rightarrow> rx_event list \<Rightarrow> nat list" where
  "rx_fractions n0 M c ep rp [] = []"
| "rx_fractions n0 M c ep rp (Pkt n # evs) = rx_fractions n0 (max M n) (Suc c) ep rp evs"
| "rx_fractions n0 M c ep rp (Report # evs) =
     (let e = Suc (M - n0) - ep; r = c - rp
      in 256 * (e - r) div e # rx_fractions n0 M c (Suc (M - n0)) c evs)"

lemma rx_max_ge: "M \<le> rx_max M evs"
  by (induction M evs rule: rx_max.induct) auto

text \<open>What a report leaves behind, and what was received since.\<close>

definition reported :: "rtp_source \<Rightarrow> nat \<Rightarrow> nat \<Rightarrow> nat \<Rightarrow> nat \<Rightarrow> nat \<Rightarrow> bool" where
  "reported s n0 M c ep rp \<longleftrightarrow> s_expected_prior s = of_nat ep \<and> s_received_prior s = of_nat rp \<and>
     ep \<le> Suc (M - n0) \<and> rp \<le> c \<and> (ep < Suc (M - n0) \<longrightarrow> rp < c)"

lemma calc_fraction_exact:
  assumes t: "tracks s n0 M c" "n0 \<le> M" and r: "reported s n0 M c ep rp"
    and bnd: "M < 2 ^ 23" "c < 2 ^ 23"
  obtains f s' where "rtp_source_calc_fraction_lost s = (f, s')"
    "unat f = 256 * (Suc (M - n0) - ep - (c - rp)) div (Suc (M - n0) - ep)"
    "tracks s' n0 M c" "reported s' n0 M c (Suc (M - n0)) c"
proof -
  define e where "e = int (Suc (M - n0)) - int ep"
  define l where "l = e - (int c - int rp)"
  have ei: "(of_nat (Suc (M - n0)) :: 32 word) - s_expected_prior s = word_of_int e"
    using r by (simp add: reported_def e_def)
  have li: "(word_of_int e :: 32 word) - (s_received s - s_received_prior s) = word_of_int l"
    using r t by (simp add: reported_def tracks_def l_def)
  have b: "0 \<le> e" "e \<le> 2 ^ 23" "- (2 ^ 23) \<le> l" "l \<le> e" "0 < e \<Longrightarrow> l < e"
    using r bnd by (auto simp: reported_def e_def l_def)
  have s: "sint (word_of_int e :: 32 word) = e" "sint (word_of_int l :: 32 word) = l"
    using b by (simp_all add: sint_word_of_int)
  have z: "((word_of_int e :: 32 word) = 0) = (e = 0)" using s(1) by fastforce
  have p: "0 < l \<Longrightarrow> sint (push_bit 8 (word_of_int l :: 32 word)) = 256 * l"
    using b sint_word_of_int [of "256 * l"] by (cases "e = 0") (simp_all add: push_bit_eq_mult mult.commute)
  define f :: byte where "f = (if e = 0 \<or> l \<le> 0 then 0 else word_of_int (256 * l sdiv e))"
  have n: "nat e = Suc (M - n0) - ep" "nat l = Suc (M - n0) - ep - (c - rp)"
    using r by (auto simp: reported_def e_def l_def)
  have "unat f = 256 * nat l div nat e"
  proof (cases "e = 0 \<or> l \<le> 0")
    case False
    then have "256 * l sdiv e = int (256 * nat l div nat e)"
      using b by (simp add: signed_divide_int_def sgn_if zdiv_int)
    moreover have "256 * nat l div nat e < 256"
      using False b by (subst div_less_iff_less_mult) auto
    ultimately show ?thesis
      using False by (simp add: f_def unat_of_nat)
  qed (auto simp: f_def)
  moreover have "rtp_source_calc_fraction_lost s = (f, s\<lparr>s_expected_prior := of_nat (Suc (M - n0)),
      s_received_prior := s_received s\<rparr>)"
    using p unfolding rtp_source_calc_fraction_lost_def Let_def tracks_expected [OF t]
    by (simp add: ei li s z f_def del: of_nat_Suc)
  ultimately show ?thesis
    using that t r n by (simp add: tracks_def reported_def)
qed

lemma rx_run_tracks:
  assumes "tracks s n0 M c" "n0 \<le> M" "reported s n0 M c ep rp" "rx_admissible M evs"
    "rx_max M evs < 2 ^ 23" "c + rx_count evs < 2 ^ 23"
  shows "tracks (snd (rx_run s evs)) n0 (rx_max M evs) (c + rx_count evs) \<and>
    map unat (fst (rx_run s evs)) = rx_fractions n0 M c ep rp evs"
  using assms
proof (induction n0 M c ep rp evs arbitrary: s rule: rx_fractions.induct)
  case (2 n0 M c ep rp n evs)
  obtain s' where s': "rtp_source_update_seq s (of_nat n) = (1, s')" "tracks s' n0 (max M n) (Suc c)"
    "s_expected_prior s' = s_expected_prior s" "s_received_prior s' = s_received_prior s"
    using update_seq_tracks 2 by (metis rx_admissible.simps(2))
  then have "reported s' n0 (max M n) (Suc c) ep rp" using 2 by (auto simp: reported_def)
  then show ?case using 2(1) [of s'] s' 2 by simp
next
  case (3 n0 M c ep rp evs)
  have "M < 2 ^ 23" "c < 2 ^ 23" using 3 rx_max_ge [of M evs] by auto
  then obtain f s' where "rtp_source_calc_fraction_lost s = (f, s')"
    "unat f = 256 * (Suc (M - n0) - ep - (c - rp)) div (Suc (M - n0) - ep)"
    "tracks s' n0 M c" "reported s' n0 M c (Suc (M - n0)) c"
    using calc_fraction_exact 3(2-4) by blast
  then show ?case using 3 by (simp add: case_prod_beta)
qed simp_all

lemma rx_first:
  assumes "s_probation s = 0" "n0 < 65536"
  defines "s1 \<equiv> snd (rtp_source_update_seq (rtp_source_init_seq s (of_nat n0)) (of_nat n0))"
  shows "tracks s1 n0 n0 1 \<and> reported s1 n0 n0 1 0 0"
  using assms(1,2)
  by (simp add: s1_def rtp_source_update_seq_def rtp_source_init_seq_def tracks_def reported_def
      unsigned_of_nat take_bit_eq_mod)

lemma tracks_calc_lost:
  assumes "tracks s n0 M c" "n0 \<le> M" "M < 2 ^ 23" "c < 2 ^ 23" "0 < c"
  shows "rtp_source_calc_lost s = int M - int n0 + 1 - int c"
proof -
  have eq: "(of_nat (Suc (M - n0)) :: 32 word) - s_received s = word_of_int (int M - int n0 + 1 - int c)"
    using assms by (simp add: tracks_def of_nat_diff)
  have sint: "sint (word_of_int (int M - int n0 + 1 - int c) :: 32 word) = int M - int n0 + 1 - int c"
    using assms by (intro sint_word_of_int) simp_all
  show ?thesis
    unfolding rtp_source_calc_lost_def Let_def tracks_expected [OF assms(1,2)] eq sint
    using assms by simp
qed

text \<open>
  C14.  Reception statistics.  A sender numbers its packets from \<open>n0\<close>; packets may be lost, repeated
  or reordered within the limits the code accepts, and reports are sent at any time.  Although only
  16 bits of each number arrive, the source then knows the extended highest number and the number
  of packets, its cumulative loss is expected minus received, and every report carries the exact
  fraction \<open>256 * lost / expected\<close> of the packets since the previous report (0 if more packets came
  than expected), with no wrap-around of the 8-bit result.
\<close>
theorem rtp_source_statistics:
  assumes "s_probation s = 0" "n0 < 65536" "rx_admissible n0 evs"
    "rx_max n0 evs < 2 ^ 23" "Suc (rx_count evs) < 2 ^ 23"
  defines "r \<equiv> rx_run (rtp_source_init_seq s (of_nat n0)) (Pkt n0 # evs)"
  shows "tracks (snd r) n0 (rx_max n0 evs) (Suc (rx_count evs)) \<and>
    rtp_source_calc_lost (snd r) = int (rx_max n0 evs) - int n0 - int (rx_count evs) \<and>
    map unat (fst r) = rx_fractions n0 n0 1 0 0 evs"
proof -
  have t: "tracks (snd r) n0 (rx_max n0 evs) (Suc (rx_count evs)) \<and>
      map unat (fst r) = rx_fractions n0 n0 1 0 0 evs"
    using rx_run_tracks [of _ n0 n0 1 0 0 evs] rx_first [OF assms(1,2)] assms by (simp add: r_def)
  then show ?thesis
    using tracks_calc_lost [of "snd r" n0 "rx_max n0 evs" "Suc (rx_count evs)"] assms
      rx_max_ge [of n0 evs] by simp
qed

definition zero_source :: rtp_source where
  "zero_source = \<lparr>s_max_seq = 0, s_cycles = 0, s_base_seq = 0, s_bad_seq = 0, s_probation = 0,
     s_received = 0, s_expected_prior = 0, s_received_prior = 0, s_transit = 0, s_jitter = 0,
     s_rx_bytes = 0, s_sr_recv = 0, s_last_sr_hi = 0, s_last_sr_lo = 0, s_rtp_ts = 0,
     s_last_rtp_ts = 0, s_psent = 0, s_osent = 0\<rparr>"

text \<open>Four of eight packets across the wrap at 65536 are lost: the second report says one half.\<close>

theorem rtp_source_statistics_witness:
  defines "evs \<equiv> [Report, Pkt 65535, Pkt 65540, Pkt 65537, Pkt 65542, Report]"
  defines "r \<equiv> rx_run (rtp_source_init_seq zero_source (of_nat 65534)) (Pkt 65534 # evs)"
  shows "rtp_source_calc_lost (snd r) = 4 \<and> map unat (fst r) = [0, 128] \<and>
    tracks (snd r) 65534 65542 5"
proof -
  have "s_probation zero_source = 0" by (simp add: zero_source_def)
  moreover have "rx_admissible 65534 evs" "rx_max 65534 evs = 65542" "rx_count evs = 4"
    by (simp_all add: evs_def in_window_def)
  moreover have "rx_fractions 65534 65534 1 0 0 evs = [0, 128]" by (simp add: evs_def)
  ultimately show ?thesis
    using rtp_source_statistics [of zero_source 65534 evs] unfolding r_def by simp
qed

end
