(* ===== verification/Aes.thy ===== *)
theory Aes
  imports Mem
begin

text \<open>
  The cipher and message-authentication contexts (\<^verbatim>\<open>src/aes/openssl/aes.c\<close>,
  \<^verbatim>\<open>src/hmac/openssl/hmac.c\<close>).  The OpenSSL routines they call are not part of the sources: they
  are the fields of the record \<open>evp\<close>, an argument of every definition.  \<open>evp_laws\<close> states the
  documented behaviour that correctness theorems rely on.
\<close>

abbreviation ENOTSUP :: errno where "ENOTSUP \<equiv> 95"
abbreviation EAUTH :: errno where "EAUTH \<equiv> 217"

datatype aes_mode = AES_MODE_CTR | AES_MODE_GCM

text \<open>
  A context of type \<open>'c\<close>.  The flag of the update routines says whether an output buffer is given;
  without one the input is associated data.  The allocation of a context only succeeds or fails.
\<close>

record 'c evp =
  EVP_CIPHER_CTX_new :: bool
  EVP_EncryptInit_ex :: "aes_mode \<Rightarrow> nat \<Rightarrow> byte list \<Rightarrow> byte list option \<Rightarrow> 'c option"
  EVP_CipherInit_iv :: "'c \<Rightarrow> byte list \<Rightarrow> bool \<times> 'c"
  EVP_CipherInit_dir :: "'c \<Rightarrow> bool \<Rightarrow> bool \<times> 'c"
  EVP_EncryptUpdate :: "'c \<Rightarrow> bool \<Rightarrow> byte list \<Rightarrow> bool \<times> byte list \<times> 'c"
  EVP_DecryptUpdate :: "'c \<Rightarrow> bool \<Rightarrow> byte list \<Rightarrow> bool \<times> byte list \<times> 'c"
  EVP_EncryptFinal_ex :: "'c \<Rightarrow> bool \<times> 'c"
  EVP_CTRL_GCM_GET_TAG :: "'c \<Rightarrow> nat \<Rightarrow> bool \<times> byte list"
  EVP_CTRL_GCM_SET_TAG :: "'c \<Rightarrow> byte list \<Rightarrow> bool \<times> 'c"
  EVP_DecryptFinal_ex :: "'c \<Rightarrow> int \<times> 'c"
  HMAC_sha1 :: "byte list \<Rightarrow> byte list \<Rightarrow> byte list option"

record 'c aes =
  ae_ctx :: 'c
  ae_mode :: aes_mode
  ae_encr :: bool

text \<open>The key lengths \<^verbatim>\<open>aes_cipher\<close> knows a cipher for.\<close>

definition aes_cipher :: "aes_mode \<Rightarrow> nat \<Rightarrow> bool" where
  "aes_cipher mode key_bits =
     (case mode of
        AES_MODE_CTR \<Rightarrow> key_bits = 128 \<or> key_bits = 192 \<or> key_bits = 256
      | AES_MODE_GCM \<Rightarrow> key_bits = 128 \<or> key_bits = 256)"

definition set_crypt_dir :: "'c evp \<Rightarrow> 'c aes \<Rightarrow> bool \<Rightarrow> bool \<times> 'c aes" where
  "set_crypt_dir ev aes encr =
     (if ae_encr aes \<noteq> encr then
        (case EVP_CipherInit_dir ev (ae_ctx aes) encr of
           (ok, c) \<Rightarrow> if \<not> ok then (False, aes\<lparr>ae_ctx := c\<rparr>)
                      else (True, aes\<lparr>ae_ctx := c, ae_encr := encr\<rparr>))
      else (True, aes))"

definition aes_alloc ::
  "alloc \<Rightarrow> 'c evp \<Rightarrow> aes_mode \<Rightarrow> byte list \<Rightarrow> nat \<Rightarrow> byte list option \<Rightarrow> errno \<times> 'c aes option" where
  "aes_alloc al ev mode key key_bits iv =
     (if \<not> aes_cipher mode key_bits then (ENOTSUP, None)
      else case mem_zalloc al 16 of
        None \<Rightarrow> (ENOMEM, None)
      | Some _ \<Rightarrow>
          if \<not> EVP_CIPHER_CTX_new ev then (ENOMEM, None)
          else (case EVP_EncryptInit_ex ev mode key_bits key iv of
             None \<Rightarrow> (EPROTO, None)
           | Some c \<Rightarrow> (0, Some \<lparr>ae_ctx = c, ae_mode = mode, ae_encr = True\<rparr>)))"

definition aes_set_iv :: "'c evp \<Rightarrow> 'c aes \<Rightarrow> byte list \<Rightarrow> 'c aes" where
  "aes_set_iv ev aes iv = aes\<lparr>ae_ctx := snd (EVP_CipherInit_iv ev (ae_ctx aes) iv)\<rparr>"

definition aes_encr :: "'c evp \<Rightarrow> 'c aes \<Rightarrow> bool \<Rightarrow> byte list \<Rightarrow> errno \<times> byte list \<times> 'c aes" where
  "aes_encr ev aes out inp =
     (case set_crypt_dir ev aes True of
        (ok, aes1) \<Rightarrow>
          if \<not> ok then (EPROTO, [], aes1)
          else case EVP_EncryptUpdate ev (ae_ctx aes1) out inp of
            (r, bs, c) \<Rightarrow> (if \<not> r then EPROTO else 0, bs, aes1\<lparr>ae_ctx := c\<rparr>))"

definition aes_decr :: "'c evp \<Rightarrow> 'c aes \<Rightarrow> bool \<Rightarrow> byte list \<Rightarrow> errno \<times> byte list \<times> 'c aes" where
  "aes_decr ev aes out inp =
     (case set_crypt_dir ev aes False of
        (ok, aes1) \<Rightarrow>
          if \<not> ok then (EPROTO, [], aes1)
          else case EVP_DecryptUpdate ev (ae_ctx aes1) out inp of
            (r, bs, c) \<Rightarrow> (if \<not> r then EPROTO else 0, bs, aes1\<lparr>ae_ctx := c\<rparr>))"

definition aes_get_authtag :: "'c evp \<Rightarrow> 'c aes \<Rightarrow> nat \<Rightarrow> errno \<times> byte list \<times> 'c aes" where
  "aes_get_authtag ev aes taglen =
     (if taglen = 0 then (EINVAL, [], aes)
      else case ae_mode aes of
        AES_MODE_GCM \<Rightarrow>
          (case EVP_EncryptFinal_ex ev (ae_ctx aes) of
             (ok, c) \<Rightarrow>
               if \<not> ok then (EPROTO, [], aes\<lparr>ae_ctx := c\<rparr>)
               else case EVP_CTRL_GCM_GET_TAG ev c taglen of
                 (r, tag) \<Rightarrow> (if \<not> r then EPROTO else 0, tag, aes\<lparr>ae_ctx := c\<rparr>))
      | AES_MODE_CTR \<Rightarrow> (ENOTSUP, [], aes))"

definition aes_authenticate :: "'c evp \<Rightarrow> 'c aes \<Rightarrow> byte list \<Rightarrow> errno \<times> 'c aes" where
  "aes_authenticate ev aes tag =
     (if tag = [] then (EINVAL, aes)
      else case ae_mode aes of
        AES_MODE_GCM \<Rightarrow>
          (case EVP_CTRL_GCM_SET_TAG ev (ae_ctx aes) tag of
             (ok, c) \<Rightarrow>
               if \<not> ok then (EPROTO, aes\<lparr>ae_ctx := c\<rparr>)
               else case EVP_DecryptFinal_ex ev c of
                 (r, c') \<Rightarrow> (if r \<le> 0 then EAUTH else 0, aes\<lparr>ae_ctx := c'\<rparr>))
      | AES_MODE_CTR \<Rightarrow> (ENOTSUP, aes))"

text \<open>An HMAC context holds its key; the digest is SHA-1, the only one SRTP uses.\<close>

definition SHA_DIGEST_LENGTH :: nat where "SHA_DIGEST_LENGTH = 20"

definition hmac_create :: "alloc \<Rightarrow> byte list \<Rightarrow> errno \<times> byte list option" where
  "hmac_create al key =
     (if key = [] then (EINVAL, None)
      else case mem_zalloc al 24 of
        None \<Rightarrow> (ENOMEM, None)
      | Some _ \<Rightarrow>
          (case mem_zalloc al (length key) of
             None \<Rightarrow> (ENOMEM, None)
           | Some _ \<Rightarrow> (0, Some key)))"

text \<open>The digest is written over an array of zeros; the array is unchanged on error.\<close>

definition hmac_digest :: "'c evp \<Rightarrow> byte list \<Rightarrow> byte list \<Rightarrow> errno \<times> byte list" where
  "hmac_digest ev key d =
     (if d = [] then (EINVAL, replicate SHA_DIGEST_LENGTH 0)
      else case HMAC_sha1 ev key d of
        None \<Rightarrow> (EPROTO, replicate SHA_DIGEST_LENGTH 0)
      | Some md \<Rightarrow> (0, md))"

section \<open>Documented behaviour of the routines called\<close>

text \<open>
  What a context holds: the key, the initialisation vector, the associated data and ciphertext
  seen since it was set, and the expected tag.
\<close>

record view =
  vw_key :: "byte list"
  vw_iv :: "byte list"
  vw_aad :: "byte list"
  vw_data :: "byte list"
  vw_tag :: "byte list"

definition xor_bytes :: "byte list \<Rightarrow> byte list \<Rightarrow> byte list" where
  "xor_bytes = map2 (XOR)"

text \<open>
  \<open>vw\<close> reads a context, \<open>ks key iv n\<close> is a key stream of \<open>n\<close> bytes and \<open>tg\<close> the authentication tag.
  Encryption and decryption both combine the data with the key stream; the last step of a
  decryption compares the tag.
\<close>

definition evp_laws ::
  "'c evp \<Rightarrow> ('c \<Rightarrow> view) \<Rightarrow> (byte list \<Rightarrow> byte list \<Rightarrow> nat \<Rightarrow> byte list) \<Rightarrow> (view \<Rightarrow> byte list) \<Rightarrow> bool" where
  "evp_laws ev vw ks tg \<longleftrightarrow>
     (\<forall>key iv n. length (ks key iv n) = n) \<and> (\<forall>v. length (tg v) = 16) \<and>
     (\<forall>c iv. fst (EVP_CipherInit_iv ev c iv) \<and>
        vw (snd (EVP_CipherInit_iv ev c iv)) = (vw c)\<lparr>vw_iv := iv, vw_aad := [], vw_data := []\<rparr>) \<and>
     (\<forall>c b. vw_aad (vw c) = [] \<and> vw_data (vw c) = [] \<longrightarrow>
        fst (EVP_CipherInit_dir ev c b) \<and> vw (snd (EVP_CipherInit_dir ev c b)) = vw c) \<and>
     (\<forall>c x. \<exists>c'. EVP_EncryptUpdate ev c False x = (True, [], c') \<and>
        vw c' = (vw c)\<lparr>vw_aad := vw_aad (vw c) @ x\<rparr>) \<and>
     (\<forall>c x. \<exists>c'. EVP_DecryptUpdate ev c False x = (True, [], c') \<and>
        vw c' = (vw c)\<lparr>vw_aad := vw_aad (vw c) @ x\<rparr>) \<and>
     (\<forall>c x. vw_data (vw c) = [] \<longrightarrow>
        (\<exists>c' y. EVP_EncryptUpdate ev c True x = (True, y, c') \<and> vw c' = (vw c)\<lparr>vw_data := y\<rparr> \<and>
           y = xor_bytes x (ks (vw_key (vw c)) (vw_iv (vw c)) (length x)))) \<and>
     (\<forall>c x. vw_data (vw c) = [] \<longrightarrow>
        (\<exists>c' y. EVP_DecryptUpdate ev c True x = (True, y, c') \<and> vw c' = (vw c)\<lparr>vw_data := x\<rparr> \<and>
           y = xor_bytes x (ks (vw_key (vw c)) (vw_iv (vw c)) (length x)))) \<and>
     (\<forall>c. fst (EVP_EncryptFinal_ex ev c) \<and> vw (snd (EVP_EncryptFinal_ex ev c)) = vw c) \<and>
     (\<forall>c n. EVP_CTRL_GCM_GET_TAG ev c n = (True, take n (tg ((vw c)\<lparr>vw_tag := []\<rparr>)))) \<and>
     (\<forall>c t. fst (EVP_CTRL_GCM_SET_TAG ev c t) \<and>
        vw (snd (EVP_CTRL_GCM_SET_TAG ev c t)) = (vw c)\<lparr>vw_tag := t\<rparr>) \<and>
     (\<forall>c. 0 < fst (EVP_DecryptFinal_ex ev c) \<longleftrightarrow>
        vw_tag (vw c) = take (length (vw_tag (vw c))) (tg ((vw c)\<lparr>vw_tag := []\<rparr>))) \<and>
     (\<forall>c. vw_key (vw (snd (EVP_DecryptFinal_ex ev c))) = vw_key (vw c)) \<and>
     (\<forall>key d. \<exists>md. HMAC_sha1 ev key d = Some md \<and> length md = SHA_DIGEST_LENGTH)"

lemma length_xor_bytes [simp]: "length (xor_bytes x y) = min (length x) (length y)"
  by (simp add: xor_bytes_def)

lemma xor_bytes_twice: "length x \<le> length k \<Longrightarrow> xor_bytes (xor_bytes x k) k = x"
  by (auto simp: xor_bytes_def xor.assoc intro!: nth_equalityI)

lemma aes_set_iv_view:
  "evp_laws ev vw ks tg \<Longrightarrow>
   vw (ae_ctx (aes_set_iv ev aes iv)) = (vw (ae_ctx aes))\<lparr>vw_iv := iv, vw_aad := [], vw_data := []\<rparr>"
  by (simp add: evp_laws_def aes_set_iv_def)

text \<open>A context can be used in a direction if it has that direction or is fresh.\<close>

definition usable :: "('c \<Rightarrow> view) \<Rightarrow> 'c aes \<Rightarrow> bool \<Rightarrow> bool" where
  "usable vw aes b \<longleftrightarrow> ae_encr aes = b \<or> vw_aad (vw (ae_ctx aes)) = [] \<and> vw_data (vw (ae_ctx aes)) = []"

lemma usable_set_iv: "evp_laws ev vw ks tg \<Longrightarrow> usable vw (aes_set_iv ev aes iv) b"
  by (simp add: usable_def aes_set_iv_view)

lemma ae_mode_set_iv [simp]: "ae_mode (aes_set_iv ev aes iv) = ae_mode aes"
  by (simp add: aes_set_iv_def)

lemma set_crypt_dir_view:
  assumes "evp_laws ev vw ks tg" "usable vw aes b"
  obtains c where "set_crypt_dir ev aes b = (True, aes\<lparr>ae_ctx := c, ae_encr := b\<rparr>)"
    "vw c = vw (ae_ctx aes)"
proof (cases "ae_encr aes = b")
  case True
  then show ?thesis using that [of "ae_ctx aes"] by (simp add: set_crypt_dir_def)
next
  case False
  obtain ok c where c: "EVP_CipherInit_dir ev (ae_ctx aes) b = (ok, c)" by fastforce
  have "\<forall>c b. vw_aad (vw c) = [] \<and> vw_data (vw c) = [] \<longrightarrow>
        fst (EVP_CipherInit_dir ev c b) \<and> vw (snd (EVP_CipherInit_dir ev c b)) = vw c"
    using assms(1) unfolding evp_laws_def by (elim conjE)
  then have "ok \<and> vw c = vw (ae_ctx aes)"
    using False assms(2) c unfolding usable_def by (metis fst_conv snd_conv)
  then show ?thesis using that [of c] False c by (simp add: set_crypt_dir_def)
qed

lemma aes_update_eq:
  "set_crypt_dir ev aes True = (True, aes\<lparr>ae_ctx := c, ae_encr := True\<rparr>) \<Longrightarrow>
   EVP_EncryptUpdate ev c out x = (True, y, c') \<Longrightarrow>
   aes_encr ev aes out x = (0, y, aes\<lparr>ae_ctx := c', ae_encr := True\<rparr>)"
  "set_crypt_dir ev aes False = (True, aes\<lparr>ae_ctx := c, ae_encr := False\<rparr>) \<Longrightarrow>
   EVP_DecryptUpdate ev c out x = (True, y, c') \<Longrightarrow>
   aes_decr ev aes out x = (0, y, aes\<lparr>ae_ctx := c', ae_encr := False\<rparr>)"
  by (simp_all add: aes_encr_def aes_decr_def)

lemma aes_encr_aad_view:
  assumes "evp_laws ev vw ks tg" "usable vw aes True"
  obtains c where "aes_encr ev aes False x = (0, [], aes\<lparr>ae_ctx := c, ae_encr := True\<rparr>)"
    "vw c = (vw (ae_ctx aes))\<lparr>vw_aad := vw_aad (vw (ae_ctx aes)) @ x\<rparr>"
proof -
  have l: "\<forall>c x. \<exists>c'. EVP_EncryptUpdate ev c False x = (True, [], c') \<and>
        vw c' = (vw c)\<lparr>vw_aad := vw_aad (vw c) @ x\<rparr>"
    using assms(1) unfolding evp_laws_def by (elim conjE)
  obtain c where c: "set_crypt_dir ev aes True = (True, aes\<lparr>ae_ctx := c, ae_encr := True\<rparr>)"
    "vw c = vw (ae_ctx aes)" using set_crypt_dir_view [OF assms] .
  obtain c' where "EVP_EncryptUpdate ev c False x = (True, [], c')"
    "vw c' = (vw c)\<lparr>vw_aad := vw_aad (vw c) @ x\<rparr>" using l by blast
  then show ?thesis using that c aes_update_eq(1) by fastforce
qed

lemma aes_decr_aad_view:
  assumes "evp_laws ev vw ks tg" "usable vw aes False"
  obtains c where "aes_decr ev aes False x = (0, [], aes\<lparr>ae_ctx := c, ae_encr := False\<rparr>)"
    "vw c = (vw (ae_ctx aes))\<lparr>vw_aad := vw_aad (vw (ae_ctx aes)) @ x\<rparr>"
proof -
  have l: "\<forall>c x. \<exists>c'. EVP_DecryptUpdate ev c False x = (True, [], c') \<and>
        vw c' = (vw c)\<lparr>vw_aad := vw_aad (vw c) @ x\<rparr>"
    using assms(1) unfolding evp_laws_def by (elim conjE)
  obtain c where c: "set_crypt_dir ev aes False = (True, aes\<lparr>ae_ctx := c, ae_encr := False\<rparr>)"
    "vw c = vw (ae_ctx aes)" using set_crypt_dir_view [OF assms] .
  obtain c' where "EVP_DecryptUpdate ev c False x = (True, [], c')"
    "vw c' = (vw c)\<lparr>vw_aad := vw_aad (vw c) @ x\<rparr>" using l by blast
  then show ?thesis using that c aes_update_eq(2) by fastforce
qed

lemma aes_encr_view:
  assumes "evp_laws ev vw ks tg" "usable vw aes True" "vw_data (vw (ae_ctx aes)) = []"
    and "y = xor_bytes x (ks (vw_key (vw (ae_ctx aes))) (vw_iv (vw (ae_ctx aes))) (length x))"
  obtains c where "aes_encr ev aes True x = (0, y, aes\<lparr>ae_ctx := c, ae_encr := True\<rparr>)"
    "vw c = (vw (ae_ctx aes))\<lparr>vw_data := y\<rparr>"
proof -
  have l: "\<forall>c x. vw_data (vw c) = [] \<longrightarrow>
        (\<exists>c' y. EVP_EncryptUpdate ev c True x = (True, y, c') \<and> vw c' = (vw c)\<lparr>vw_data := y\<rparr> \<and>
           y = xor_bytes x (ks (vw_key (vw c)) (vw_iv (vw c)) (length x)))"
    using assms(1) unfolding evp_laws_def by (elim conjE)
  obtain c where c: "set_crypt_dir ev aes True = (True, aes\<lparr>ae_ctx := c, ae_encr := True\<rparr>)"
    "vw c = vw (ae_ctx aes)" using set_crypt_dir_view [OF assms(1,2)] .
  obtain c' where "EVP_EncryptUpdate ev c True x = (True, y, c')" "vw c' = (vw c)\<lparr>vw_data := y\<rparr>"
    using l c(2) assms(3,4) by metis
  then show ?thesis using that c aes_update_eq(1) by fastforce
qed

lemma aes_decr_view:
  assumes "evp_laws ev vw ks tg" "usable vw aes False" "vw_data (vw (ae_ctx aes)) = []"
    and "y = xor_bytes x (ks (vw_key (vw (ae_ctx aes))) (vw_iv (vw (ae_ctx aes))) (length x))"
  obtains c where "aes_decr ev aes True x = (0, y, aes\<lparr>ae_ctx := c, ae_encr := False\<rparr>)"
    "vw c = (vw (ae_ctx aes))\<lparr>vw_data := x\<rparr>"
proof -
  have l: "\<forall>c x. vw_data (vw c) = [] \<longrightarrow>
        (\<exists>c' y. EVP_DecryptUpdate ev c True x = (True, y, c') \<and> vw c' = (vw c)\<lparr>vw_data := x\<rparr> \<and>
           y = xor_bytes x (ks (vw_key (vw c)) (vw_iv (vw c)) (length x)))"
    using assms(1) unfolding evp_laws_def by (elim conjE)
  obtain c where c: "set_crypt_dir ev aes False = (True, aes\<lparr>ae_ctx := c, ae_encr := False\<rparr>)"
    "vw c = vw (ae_ctx aes)" using set_crypt_dir_view [OF assms(1,2)] .
  obtain c' where "EVP_DecryptUpdate ev c True x = (True, y, c')" "vw c' = (vw c)\<lparr>vw_data := x\<rparr>"
    using l c(2) assms(3,4) by metis
  then show ?thesis using that c aes_update_eq(2) by fastforce
qed

lemma aes_get_authtag_view:
  assumes "evp_laws ev vw ks tg" "ae_mode aes = AES_MODE_GCM"
  obtains c where "aes_get_authtag ev aes 16 = (0, tg ((vw (ae_ctx aes))\<lparr>vw_tag := []\<rparr>), aes\<lparr>ae_ctx := c\<rparr>)"
    "vw c = vw (ae_ctx aes)"
proof -
  have l: "\<forall>c. fst (EVP_EncryptFinal_ex ev c) \<and> vw (snd (EVP_EncryptFinal_ex ev c)) = vw c"
    "\<forall>c n. EVP_CTRL_GCM_GET_TAG ev c n = (True, take n (tg ((vw c)\<lparr>vw_tag := []\<rparr>)))"
    "\<forall>v. length (tg v) = 16"
    using assms(1) unfolding evp_laws_def by - (elim conjE, assumption)+
  obtain ok c where c: "EVP_EncryptFinal_ex ev (ae_ctx aes) = (ok, c)" by fastforce
  have "ok" "vw c = vw (ae_ctx aes)" using l(1) [rule_format, of "ae_ctx aes"] c by simp_all
  then show ?thesis using l(2,3) c assms(2) that [of c] by (simp add: aes_get_authtag_def)
qed

lemma aes_authenticate_view:
  assumes "evp_laws ev vw ks tg" "ae_mode aes = AES_MODE_GCM" "length t = 16"
  obtains c where "aes_authenticate ev aes t =
      (if t = tg ((vw (ae_ctx aes))\<lparr>vw_tag := []\<rparr>) then 0 else EAUTH, aes\<lparr>ae_ctx := c\<rparr>)"
    "vw_key (vw c) = vw_key (vw (ae_ctx aes))"
proof -
  have l: "\<forall>c t. fst (EVP_CTRL_GCM_SET_TAG ev c t) \<and>
        vw (snd (EVP_CTRL_GCM_SET_TAG ev c t)) = (vw c)\<lparr>vw_tag := t\<rparr>"
    "\<forall>c. 0 < fst (EVP_DecryptFinal_ex ev c) \<longleftrightarrow>
        vw_tag (vw c) = take (length (vw_tag (vw c))) (tg ((vw c)\<lparr>vw_tag := []\<rparr>))"
    "\<forall>c. vw_key (vw (snd (EVP_DecryptFinal_ex ev c))) = vw_key (vw c)"
    "\<forall>v. length (tg v) = 16"
    using assms(1) unfolding evp_laws_def by - (elim conjE, assumption)+
  obtain ok c where c: "EVP_CTRL_GCM_SET_TAG ev (ae_ctx aes) t = (ok, c)" by fastforce
  have ok: "ok" "vw c = (vw (ae_ctx aes))\<lparr>vw_tag := t\<rparr>"
    using l(1) [rule_format, of "ae_ctx aes" t] c by simp_all
  obtain r c' where c': "EVP_DecryptFinal_ex ev c = (r, c')" by fastforce
  have "(0 < r) = (t = tg ((vw (ae_ctx aes))\<lparr>vw_tag := []\<rparr>))"
    using l(2) [rule_format, of c] l(4) c' ok assms(3) by simp
  moreover have "vw_key (vw c') = vw_key (vw (ae_ctx aes))"
    using l(3) [rule_format, of c] c' ok by simp
  moreover have "t \<noteq> []" using assms(3) by auto
  ultimately show ?thesis
    using that [of c'] c c' ok assms(2) by (auto simp: aes_authenticate_def not_less)
qed

lemma hmac_digest_ok:
  assumes "evp_laws ev vw ks tg" "d \<noteq> []"
  obtains md where "HMAC_sha1 ev key d = Some md" "hmac_digest ev key d = (0, md)"
    "length md = SHA_DIGEST_LENGTH"
proof -
  have "\<forall>key d. \<exists>md. HMAC_sha1 ev key d = Some md \<and> length md = SHA_DIGEST_LENGTH"
    using assms(1) unfolding evp_laws_def by (elim conjE)
  then obtain md where "HMAC_sha1 ev key d = Some md" "length md = SHA_DIGEST_LENGTH" by blast
  then show ?thesis using that assms(2) by (simp add: hmac_digest_def)
qed

end
