(* ===== verification/Srtp.thy ===== *)
theory Srtp
  imports Rtp Aes
begin

text \<open>
  Secure RTP (\<^verbatim>\<open>src/srtp\<close>): replay protection, packet index determination, key derivation, the
  per-source streams, and the protection and unprotection of RTP and RTCP packets.

  A stream is found by its position in the session's list.  The cipher contexts are part of the
  session state, since every packet sets their initialisation vector.
\<close>

abbreviation ENOSR :: errno where "ENOSR \<equiv> 63"
abbreviation ETIMEDOUT :: errno where "ETIMEDOUT \<equiv> 110"
abbreviation EALREADY :: errno where "EALREADY \<equiv> 114"

section \<open>Replay protection\<close>

record replay =
  rp_bitmap :: "64 word"
  rp_lix :: "64 word"

definition SRTP_WINDOW_SIZE :: nat where "SRTP_WINDOW_SIZE = 64"

definition srtp_replay_init :: replay where
  "srtp_replay_init = \<lparr>rp_bitmap = 0, rp_lix = 0\<rparr>"

definition srtp_replay_check :: "replay \<Rightarrow> 64 word \<Rightarrow> bool \<times> replay" where
  "srtp_replay_check r ix =
     (if ix > rp_lix r then
        let diff = unat (ix - rp_lix r) in
        if diff < SRTP_WINDOW_SIZE
        then (True, \<lparr>rp_bitmap = push_bit diff (rp_bitmap r) OR 1, rp_lix = ix\<rparr>)
        else (True, \<lparr>rp_bitmap = 1, rp_lix = ix\<rparr>)
      else
        let diff = unat (rp_lix r - ix) in
        if diff \<ge> SRTP_WINDOW_SIZE then (False, r)
        else if rp_bitmap r AND push_bit diff 1 \<noteq> 0 then (False, r)
        else (True, r\<lparr>rp_bitmap := rp_bitmap r OR push_bit diff 1\<rparr>))"

section \<open>Indices, vectors and keys\<close>

text \<open>
  The index: \<^verbatim>\<open>v\<close> is a signed 32-bit integer and is sign-extended when it is multiplied.
\<close>

definition srtp_get_index :: "32 word \<Rightarrow> 16 word \<Rightarrow> 16 word \<Rightarrow> 64 word" where
  "srtp_get_index roc s_l seq =
     (let v = (if uint s_l < 32768
               then (if uint seq - uint s_l > 32768 then roc - 1 else roc)
               else (if uint s_l - 32768 > uint seq then roc + 1 else roc))
      in ucast seq + scast v * 65536)"

text \<open>The 16 bytes of \<^verbatim>\<open>union vect128\<close>, read and written as 16- and 32-bit values.\<close>

definition u32_at :: "byte list \<Rightarrow> nat \<Rightarrow> 32 word" where
  "u32_at v i = unle32 (take 4 (drop (4 * i) v))"

definition u16_at :: "byte list \<Rightarrow> nat \<Rightarrow> 16 word" where
  "u16_at v i = unle16 (take 2 (drop (2 * i) v))"

definition srtp_iv_calc :: "byte list \<Rightarrow> 32 word \<Rightarrow> 64 word \<Rightarrow> byte list" where
  "srtp_iv_calc k_s ssrc ix =
     le32 (u32_at k_s 0) @ le32 (u32_at k_s 1 XOR htonl ssrc) @
     le32 (u32_at k_s 2 XOR htonl (ucast (drop_bit 16 ix))) @
     le16 (u16_at k_s 6 XOR htons (ucast ix)) @ le16 0"

text \<open>The twelve bytes the GCM mode uses.\<close>

definition srtp_iv_calc_gcm :: "byte list \<Rightarrow> 32 word \<Rightarrow> 64 word \<Rightarrow> byte list" where
  "srtp_iv_calc_gcm k_s ssrc ix =
     le16 (u16_at k_s 0) @ le16 (u16_at k_s 1 XOR htons (ucast (drop_bit 16 ssrc))) @
     le16 (u16_at k_s 2 XOR htons (ucast (ssrc AND 0xffff))) @
     le16 (u16_at k_s 3 XOR htons (ucast (drop_bit 32 ix AND 0xffff))) @
     le16 (u16_at k_s 4 XOR htons (ucast (drop_bit 16 ix AND 0xffff))) @
     le16 (u16_at k_s 5 XOR htons (ucast (ix AND 0xffff)))"

definition AES_BLOCK_SIZE :: nat where "AES_BLOCK_SIZE = 16"

definition srtp_derive ::
  "alloc \<Rightarrow> 'c evp \<Rightarrow> nat \<Rightarrow> byte \<Rightarrow> byte list \<Rightarrow> byte list \<Rightarrow> errno \<times> byte list" where
  "srtp_derive al ev out_len label master_key master_salt =
     (if out_len > AES_BLOCK_SIZE * 2 \<or> length master_salt > AES_BLOCK_SIZE then (EINVAL, [])
      else
        let x = master_salt @ replicate (AES_BLOCK_SIZE - length master_salt) 0;
            x' = x[7 := x ! 7 XOR label]
        in case aes_alloc al ev AES_MODE_CTR master_key (length master_key * 8) (Some x') of
             (err, None) \<Rightarrow> (err, [])
           | (err, Some aes) \<Rightarrow>
               if err \<noteq> 0 then (err, [])
               else (case aes_encr ev aes True (replicate out_len 0) of (e, out, _) \<Rightarrow> (e, out)))"

datatype srtp_suite =
    SRTP_AES_CM_128_HMAC_SHA1_32 | SRTP_AES_CM_128_HMAC_SHA1_80
  | SRTP_AES_256_CM_HMAC_SHA1_32 | SRTP_AES_256_CM_HMAC_SHA1_80
  | SRTP_AES_128_GCM | SRTP_AES_256_GCM

definition srtp_suite_name :: "srtp_suite \<Rightarrow> string" where
  "srtp_suite_name s =
     (case s of
        SRTP_AES_CM_128_HMAC_SHA1_32 \<Rightarrow> ''AES_CM_128_HMAC_SHA1_32''
      | SRTP_AES_CM_128_HMAC_SHA1_80 \<Rightarrow> ''AES_CM_128_HMAC_SHA1_80''
      | SRTP_AES_256_CM_HMAC_SHA1_32 \<Rightarrow> ''AES_256_CM_HMAC_SHA1_32''
      | SRTP_AES_256_CM_HMAC_SHA1_80 \<Rightarrow> ''AES_256_CM_HMAC_SHA1_80''
      | SRTP_AES_128_GCM \<Rightarrow> ''AEAD_AES_128_GCM''
      | SRTP_AES_256_GCM \<Rightarrow> ''AEAD_AES_256_GCM'')"

section \<open>Sessions\<close>

record srtp_stream =
  st_replay_rtp :: replay
  st_replay_rtcp :: replay
  st_ssrc :: "32 word"
  st_roc :: "32 word"
  st_s_l :: "16 word"
  st_s_l_set :: bool
  st_rtcp_index :: "32 word"

record 'c comp =
  c_aes :: "'c aes option"
  c_mode :: aes_mode
  c_hmac :: "byte list option"
  c_k_s :: "byte list"
  c_tag_len :: nat

record 'c srtp =
  sr_rtp :: "'c comp"
  sr_rtcp :: "'c comp"
  sr_streaml :: "srtp_stream list"

definition MAX_KEYLEN :: nat where "MAX_KEYLEN = 32"

definition seq_diff :: "16 word \<Rightarrow> 16 word \<Rightarrow> int" where
  "seq_diff x y = uint y - uint x"

text \<open>
  The component on entry holds zeros.  The salting key has 14 bytes; the last two stay zero.
\<close>

definition comp_init ::
  "alloc \<Rightarrow> 'c evp \<Rightarrow> byte \<Rightarrow> byte list \<Rightarrow> byte list \<Rightarrow> nat \<Rightarrow> bool \<Rightarrow> bool \<Rightarrow> aes_mode \<Rightarrow>
   errno \<times> 'c comp option" where
  "comp_init al ev offs key s tag_len encrypted hash mode =
     (if length key > MAX_KEYLEN then (EINVAL, None)
      else if tag_len > SHA_DIGEST_LENGTH then (EINVAL, None)
      else
        let (e1, k_e) = srtp_derive al ev (length key) (0 + offs) key s;
            (e2, k_a) = srtp_derive al ev SHA_DIGEST_LENGTH (1 + offs) key s;
            (e3, k_s) = srtp_derive al ev 14 (2 + offs) key s;
            err = e1 OR e2 OR e3
        in if err \<noteq> 0 then (err, None)
           else
             let (err, aes) = (if encrypted then aes_alloc al ev mode k_e (length key * 8) None
                               else (0, None))
             in if err \<noteq> 0 then (err, None)
                else
                  let (err, hm) = (if hash then hmac_create al k_a else (0, None))
                  in if err \<noteq> 0 then (err, None)
                     else (0, Some \<lparr>c_aes = aes, c_mode = mode, c_hmac = hm,
                                    c_k_s = k_s @ [0, 0], c_tag_len = tag_len\<rparr>))"

text \<open>Mode, key length, salt length, tag length and whether a hash is used.\<close>

definition srtp_suite_params :: "srtp_suite \<Rightarrow> aes_mode \<times> nat \<times> nat \<times> nat \<times> bool" where
  "srtp_suite_params suite =
     (case suite of
        SRTP_AES_CM_128_HMAC_SHA1_80 \<Rightarrow> (AES_MODE_CTR, 16, 14, 10, True)
      | SRTP_AES_CM_128_HMAC_SHA1_32 \<Rightarrow> (AES_MODE_CTR, 16, 14, 4, True)
      | SRTP_AES_256_CM_HMAC_SHA1_80 \<Rightarrow> (AES_MODE_CTR, 32, 14, 10, True)
      | SRTP_AES_256_CM_HMAC_SHA1_32 \<Rightarrow> (AES_MODE_CTR, 32, 14, 4, True)
      | SRTP_AES_128_GCM \<Rightarrow> (AES_MODE_GCM, 16, 12, 0, False)
      | SRTP_AES_256_GCM \<Rightarrow> (AES_MODE_GCM, 32, 12, 0, False))"

definition SRTP_UNENCRYPTED_SRTCP :: int where "SRTP_UNENCRYPTED_SRTCP = 2"

definition srtp_alloc ::
  "alloc \<Rightarrow> 'c evp \<Rightarrow> srtp_suite \<Rightarrow> byte list \<Rightarrow> int \<Rightarrow> errno \<times> 'c srtp option" where
  "srtp_alloc al ev suite key flags =
     (let (mode, cipher_bytes, salt_bytes, auth_bytes, hash) = srtp_suite_params suite in
      if cipher_bytes + salt_bytes \<noteq> length key then (EINVAL, None)
      else
        let master_key = take cipher_bytes key; master_salt = drop cipher_bytes key in
        case mem_zalloc al 128 of
          None \<Rightarrow> (ENOMEM, None)
        | Some _ \<Rightarrow>
            (case comp_init al ev 0 master_key master_salt auth_bytes True hash mode of
               (e1, c1) \<Rightarrow>
            (case comp_init al ev 3 master_key master_salt auth_bytes
                    (flags AND SRTP_UNENCRYPTED_SRTCP = 0) hash mode of
               (e2, c2) \<Rightarrow>
                 if e1 OR e2 \<noteq> 0 then (e1 OR e2, None)
                 else (case (c1, c2) of
                         (Some rtp, Some rtcp) \<Rightarrow>
                           (0, Some \<lparr>sr_rtp = rtp, sr_rtcp = rtcp, sr_streaml = []\<rparr>)
                       | _ \<Rightarrow> (0, None)))))"

section \<open>Streams\<close>

definition SRTP_MAX_STREAMS :: nat where "SRTP_MAX_STREAMS = 8"

fun stream_find :: "srtp_stream list \<Rightarrow> 32 word \<Rightarrow> nat option" where
  "stream_find [] ssrc = None"
| "stream_find (st # sts) ssrc =
     (if st_ssrc st = ssrc then Some 0 else map_option Suc (stream_find sts ssrc))"

definition stream_new :: "alloc \<Rightarrow> 'c srtp \<Rightarrow> 32 word \<Rightarrow> errno \<times> nat \<times> 'c srtp" where
  "stream_new al s ssrc =
     (if length (sr_streaml s) \<ge> SRTP_MAX_STREAMS then (ENOSR, 0, s)
      else case mem_zalloc al 80 of
        None \<Rightarrow> (ENOMEM, 0, s)
      | Some _ \<Rightarrow>
          let strm = \<lparr>st_replay_rtp = srtp_replay_init, st_replay_rtcp = srtp_replay_init,
                      st_ssrc = ssrc, st_roc = 0, st_s_l = 0, st_s_l_set = False,
                      st_rtcp_index = 0\<rparr>
          in (0, length (sr_streaml s), s\<lparr>sr_streaml := sr_streaml s @ [strm]\<rparr>))"

definition stream_get :: "alloc \<Rightarrow> 'c srtp \<Rightarrow> 32 word \<Rightarrow> errno \<times> nat \<times> 'c srtp" where
  "stream_get al s ssrc =
     (case stream_find (sr_streaml s) ssrc of
        Some i \<Rightarrow> (0, i, s)
      | None \<Rightarrow> stream_new al s ssrc)"

text \<open>The stream at a position, and its update.\<close>

definition strm_at :: "'c srtp \<Rightarrow> nat \<Rightarrow> srtp_stream" where
  "strm_at s i = sr_streaml s ! i"

definition strm_set :: "'c srtp \<Rightarrow> nat \<Rightarrow> srtp_stream \<Rightarrow> 'c srtp" where
  "strm_set s i st = s\<lparr>sr_streaml := (sr_streaml s)[i := st]\<rparr>"

definition stream_get_seq :: "alloc \<Rightarrow> 'c srtp \<Rightarrow> 32 word \<Rightarrow> 16 word \<Rightarrow> errno \<times> nat \<times> 'c srtp" where
  "stream_get_seq al s ssrc seq =
     (case stream_get al s ssrc of
        (err, i, s1) \<Rightarrow>
          if err \<noteq> 0 then (err, i, s1)
          else if \<not> st_s_l_set (strm_at s1 i)
          then (0, i, strm_set s1 i ((strm_at s1 i)\<lparr>st_s_l := seq, st_s_l_set := True\<rparr>))
          else (0, i, s1))"

section \<open>Protecting RTP packets\<close>

text \<open>
  The header is decoded into an uninitialised variable, which the zero header stands for: only
  fields that the decoder sets are read.
\<close>

definition GCM_TAGLEN :: nat where "GCM_TAGLEN = 16"

text \<open>A cipher call on the \<open>n\<close> bytes from the position on, in place.\<close>

definition crypt_at ::
  "('c aes \<Rightarrow> bool \<Rightarrow> byte list \<Rightarrow> errno \<times> byte list \<times> 'c aes) \<Rightarrow> 'c aes \<Rightarrow> mbuf \<Rightarrow> nat \<Rightarrow>
   errno \<times> 'c aes \<times> mbuf" where
  "crypt_at f aes mb n =
     (case mem_read (mb_buf mb) (mb_pos mb) n of
        None \<Rightarrow> (FAULT, aes, mb)
      | Some d \<Rightarrow>
          (case f aes True d of
             (err, out, aes1) \<Rightarrow>
               (case mem_write (mb_buf mb) (mb_pos mb) out of
                  None \<Rightarrow> (FAULT, aes1, mb)
                | Some b \<Rightarrow> (err, aes1, mb\<lparr>mb_buf := b\<rparr>))))"

text \<open>A cipher call without output: the bytes \<open>from .. < from + n\<close> are associated data.\<close>

definition aad_at ::
  "('c aes \<Rightarrow> bool \<Rightarrow> byte list \<Rightarrow> errno \<times> byte list \<times> 'c aes) \<Rightarrow> 'c aes \<Rightarrow> mbuf \<Rightarrow> nat \<Rightarrow> nat \<Rightarrow>
   errno \<times> 'c aes" where
  "aad_at f aes mb from n =
     (case mem_read (mb_buf mb) from n of
        None \<Rightarrow> (FAULT, aes)
      | Some d \<Rightarrow> (case f aes False d of (err, _, aes1) \<Rightarrow> (err, aes1)))"

definition hmac_at :: "'c evp \<Rightarrow> byte list \<Rightarrow> mbuf \<Rightarrow> errno \<times> byte list" where
  "hmac_at ev key mb =
     (case mem_read (mb_buf mb) (mb_pos mb) (mbuf_get_left mb) of
        None \<Rightarrow> (FAULT, [])
      | Some d \<Rightarrow> hmac_digest ev key d)"

text \<open>The cipher step of \<^verbatim>\<open>srtp_encrypt\<close>.\<close>

definition srtp_encrypt_cipher ::
  "alloc \<Rightarrow> 'c evp \<Rightarrow> 'c comp \<Rightarrow> 32 word \<Rightarrow> 64 word \<Rightarrow> nat \<Rightarrow> mbuf \<Rightarrow> errno \<times> 'c comp \<times> mbuf" where
  "srtp_encrypt_cipher al ev cp ssrc ix start mb =
     (case c_aes cp of
        None \<Rightarrow> (0, cp, mb)
      | Some aes \<Rightarrow>
          (case c_mode cp of
             AES_MODE_CTR \<Rightarrow>
               (case crypt_at (aes_encr ev) (aes_set_iv ev aes (srtp_iv_calc (c_k_s cp) ssrc ix))
                       mb (mbuf_get_left mb) of
                  (err, aes1, mb1) \<Rightarrow> (err, cp\<lparr>c_aes := Some aes1\<rparr>, mb1))
           | AES_MODE_GCM \<Rightarrow>
               (case aad_at (aes_encr ev)
                       (aes_set_iv ev aes (srtp_iv_calc_gcm (c_k_s cp) ssrc ix)) mb start
                       (mb_pos mb - start) of
                  (err, aes1) \<Rightarrow>
                    if err \<noteq> 0 then (err, cp\<lparr>c_aes := Some aes1\<rparr>, mb)
                    else case crypt_at (aes_encr ev) aes1 mb (mbuf_get_left mb) of
                      (err, aes2, mb1) \<Rightarrow>
                        if err \<noteq> 0 then (err, cp\<lparr>c_aes := Some aes2\<rparr>, mb1)
                        else case aes_get_authtag ev aes2 GCM_TAGLEN of
                          (err, tag, aes3) \<Rightarrow>
                            if err \<noteq> 0 then (err, cp\<lparr>c_aes := Some aes3\<rparr>, mb1)
                            else case mbuf_write_mem al (mb1\<lparr>mb_pos := mb_end mb1\<rparr>) tag of
                              (err, mb2) \<Rightarrow> (err, cp\<lparr>c_aes := Some aes3\<rparr>, mb2))))"

text \<open>The authentication step of \<^verbatim>\<open>srtp_encrypt\<close>.\<close>

definition srtp_encrypt_auth ::
  "alloc \<Rightarrow> 'c evp \<Rightarrow> 'c comp \<Rightarrow> 32 word \<Rightarrow> nat \<Rightarrow> mbuf \<Rightarrow> errno \<times> mbuf" where
  "srtp_encrypt_auth al ev cp roc start mb =
     (case c_hmac cp of
        None \<Rightarrow> (0, mb)
      | Some key \<Rightarrow>
          let tag_start = mb_end mb in
          (case mbuf_write_u32 al (mb\<lparr>mb_pos := tag_start\<rparr>) (htonl roc) of
             (err, mb1) \<Rightarrow>
               if err \<noteq> 0 then (err, mb1)
               else
                 let mb2 = mb1\<lparr>mb_pos := start\<rparr> in
                 case hmac_at ev key mb2 of
                   (err, tag) \<Rightarrow>
                     if err \<noteq> 0 then (err, mb2)
                     else mbuf_write_mem al (mb2\<lparr>mb_pos := tag_start, mb_end := tag_start\<rparr>)
                            (take (c_tag_len cp) tag)))"

definition srtp_encrypt :: "alloc \<Rightarrow> 'c evp \<Rightarrow> 'c srtp \<Rightarrow> mbuf \<Rightarrow> errno \<times> 'c srtp \<times> mbuf" where
  "srtp_encrypt al ev s mb =
     (let start = mb_pos mb in
      case rtp_hdr_decode zero_header mb of
        (err, hdr, mb1) \<Rightarrow>
          if err \<noteq> 0 then (err, s, mb1)
          else case stream_get_seq al s (h_ssrc hdr) (h_seq hdr) of
            (err, i, s1) \<Rightarrow>
              if err \<noteq> 0 then (err, s1, mb1)
              else
                let st = strm_at s1 i;
                    st1 = (if seq_diff (st_s_l st) (h_seq hdr) \<le> -32768
                           then st\<lparr>st_roc := st_roc st + 1, st_s_l := 0\<rparr> else st);
                    s2 = strm_set s1 i st1;
                    ix = 65536 * ucast (st_roc st1) + ucast (h_seq hdr)
                in case srtp_encrypt_cipher al ev (sr_rtp s2) (st_ssrc st1) ix start mb1 of
                  (err, comp1, mb2) \<Rightarrow>
                    let s3 = s2\<lparr>sr_rtp := comp1\<rparr> in
                    if err \<noteq> 0 then (err, s3, mb2)
                    else case srtp_encrypt_auth al ev comp1 (st_roc st1) start mb2 of
                      (err, mb3) \<Rightarrow>
                        if err \<noteq> 0 then (err, s3, mb3)
                        else (0, strm_set s3 i (if h_seq hdr > st_s_l st1
                                                then st1\<lparr>st_s_l := h_seq hdr\<rparr> else st1),
                              mb3\<lparr>mb_pos := start\<rparr>))"

section \<open>Unprotecting RTP packets\<close>

text \<open>The authentication step of \<^verbatim>\<open>srtp_decrypt\<close>: tag comparison, then the replay check.\<close>

definition srtp_decrypt_auth ::
  "alloc \<Rightarrow> 'c evp \<Rightarrow> 'c comp \<Rightarrow> srtp_stream \<Rightarrow> 64 word \<Rightarrow> nat \<Rightarrow> mbuf \<Rightarrow>
   errno \<times> srtp_stream \<times> mbuf" where
  "srtp_decrypt_auth al ev cp st ix start mb =
     (case c_hmac cp of
        None \<Rightarrow> (0, st, mb)
      | Some key \<Rightarrow>
          if mbuf_get_left mb < c_tag_len cp then (EBADMSG, st, mb)
          else
            let pld_start = mb_pos mb; tag_start = mb_end mb - c_tag_len cp in
            case mbuf_read_mem (mb\<lparr>mb_pos := tag_start\<rparr>) (c_tag_len cp) of
              (err, tag_pkt, mb1) \<Rightarrow>
                if err \<noteq> 0 then (err, st, mb1)
                else case mbuf_write_u32 al (mb1\<lparr>mb_pos := tag_start, mb_end := tag_start\<rparr>)
                            (htonl (st_roc st)) of
                  (err, mb2) \<Rightarrow>
                    if err \<noteq> 0 then (err, st, mb2)
                    else case hmac_at ev key (mb2\<lparr>mb_pos := start\<rparr>) of
                      (err, tag_calc) \<Rightarrow>
                        if err \<noteq> 0 then (err, st, mb2\<lparr>mb_pos := start\<rparr>)
                        else
                          let mb3 = mb2\<lparr>mb_pos := pld_start, mb_end := tag_start\<rparr> in
                          if take (c_tag_len cp) tag_calc \<noteq> tag_pkt then (EAUTH, st, mb3)
                          else case srtp_replay_check (st_replay_rtp st) ix of
                            (ok, r) \<Rightarrow>
                              if \<not> ok then (EALREADY, st\<lparr>st_replay_rtp := r\<rparr>, mb3)
                              else (0, st\<lparr>st_replay_rtp := r\<rparr>, mb3))"

text \<open>The cipher step of \<^verbatim>\<open>srtp_decrypt\<close>.\<close>

definition srtp_decrypt_cipher ::
  "'c evp \<Rightarrow> 'c comp \<Rightarrow> srtp_stream \<Rightarrow> 64 word \<Rightarrow> nat \<Rightarrow> mbuf \<Rightarrow>
   errno \<times> 'c comp \<times> srtp_stream \<times> mbuf" where
  "srtp_decrypt_cipher ev cp st ix start mb =
     (case c_aes cp of
        None \<Rightarrow> (0, cp, st, mb)
      | Some aes \<Rightarrow>
          (case c_mode cp of
             AES_MODE_CTR \<Rightarrow>
               (case crypt_at (aes_decr ev)
                       (aes_set_iv ev aes (srtp_iv_calc (c_k_s cp) (st_ssrc st) ix))
                       mb (mbuf_get_left mb) of
                  (err, aes1, mb1) \<Rightarrow> (err, cp\<lparr>c_aes := Some aes1\<rparr>, st, mb1))
           | AES_MODE_GCM \<Rightarrow>
               (case aad_at (aes_decr ev)
                       (aes_set_iv ev aes (srtp_iv_calc_gcm (c_k_s cp) (st_ssrc st) ix)) mb start
                       (mb_pos mb - start) of
                  (err, aes1) \<Rightarrow>
                    if err \<noteq> 0 then (err, cp\<lparr>c_aes := Some aes1\<rparr>, st, mb)
                    else if mbuf_get_left mb < GCM_TAGLEN
                    then (EBADMSG, cp\<lparr>c_aes := Some aes1\<rparr>, st, mb)
                    else
                      let tag_start = mb_end mb - GCM_TAGLEN in
                      case crypt_at (aes_decr ev) aes1 mb (tag_start - mb_pos mb) of
                        (err, aes2, mb1) \<Rightarrow>
                          if err \<noteq> 0 then (err, cp\<lparr>c_aes := Some aes2\<rparr>, st, mb1)
                          else case mem_read (mb_buf mb1) tag_start GCM_TAGLEN of
                            None \<Rightarrow> (FAULT, cp\<lparr>c_aes := Some aes2\<rparr>, st, mb1)
                          | Some tag \<Rightarrow>
                              (case aes_authenticate ev aes2 tag of
                                 (err, aes3) \<Rightarrow>
                                   if err \<noteq> 0 then (err, cp\<lparr>c_aes := Some aes3\<rparr>, st, mb1)
                                   else
                                     let mb2 = mb1\<lparr>mb_end := tag_start\<rparr> in
                                     case srtp_replay_check (st_replay_rtp st) ix of
                                       (ok, r) \<Rightarrow>
                                         (if \<not> ok then EALREADY else 0,
                                          cp\<lparr>c_aes := Some aes3\<rparr>, st\<lparr>st_replay_rtp := r\<rparr>, mb2)))))"

definition srtp_decrypt :: "alloc \<Rightarrow> 'c evp \<Rightarrow> 'c srtp \<Rightarrow> mbuf \<Rightarrow> errno \<times> 'c srtp \<times> mbuf" where
  "srtp_decrypt al ev s mb =
     (let start = mb_pos mb in
      case rtp_hdr_decode zero_header mb of
        (err, hdr, mb1) \<Rightarrow>
          if err \<noteq> 0 then (err, s, mb1)
          else case stream_get_seq al s (h_ssrc hdr) (h_seq hdr) of
            (err, i, s1) \<Rightarrow>
              if err \<noteq> 0 then (err, s1, mb1)
              else
                let st = strm_at s1 i; diff = seq_diff (st_s_l st) (h_seq hdr) in
                if diff > 32768 then (ETIMEDOUT, s1, mb1)
                else
                  let st1 = (if diff \<le> -32768
                             then st\<lparr>st_roc := st_roc st + 1, st_s_l := 0\<rparr> else st);
                      ix = srtp_get_index (st_roc st1) (st_s_l st1) (h_seq hdr)
                  in case srtp_decrypt_auth al ev (sr_rtp s1) st1 ix start mb1 of
                    (err, st2, mb2) \<Rightarrow>
                      if err \<noteq> 0 then (err, strm_set s1 i st2, mb2)
                      else case srtp_decrypt_cipher ev (sr_rtp s1) st2 ix start mb2 of
                        (err, comp1, st3, mb3) \<Rightarrow>
                          let s3 = (strm_set s1 i st3)\<lparr>sr_rtp := comp1\<rparr> in
                          if err \<noteq> 0 then (err, s3, mb3)
                          else (0, strm_set s3 i (if h_seq hdr > st_s_l st3
                                                  then st3\<lparr>st_s_l := h_seq hdr\<rparr> else st3),
                                mb3\<lparr>mb_pos := start\<rparr>))"

section \<open>Protecting RTCP packets\<close>

definition get_rtcp_ssrc :: "mbuf \<Rightarrow> errno \<times> 32 word \<times> mbuf" where
  "get_rtcp_ssrc mb =
     (if mbuf_get_left mb < 8 then (EBADMSG, 0, mb)
      else case mbuf_read_u32 (mbuf_advance mb 4) of (v, mb1) \<Rightarrow> (0, ntohl v, mb1))"

text \<open>The cipher step of \<^verbatim>\<open>srtcp_encrypt\<close>; the result says whether the packet is encrypted.\<close>

definition srtcp_encrypt_cipher ::
  "alloc \<Rightarrow> 'c evp \<Rightarrow> 'c comp \<Rightarrow> 32 word \<Rightarrow> 32 word \<Rightarrow> nat \<Rightarrow> mbuf \<Rightarrow>
   errno \<times> 32 word \<times> 'c comp \<times> mbuf" where
  "srtcp_encrypt_cipher al ev cp ssrc index start mb =
     (case c_aes cp of
        None \<Rightarrow> (0, 0, cp, mb)
      | Some aes \<Rightarrow>
          (case c_mode cp of
             AES_MODE_CTR \<Rightarrow>
               (case crypt_at (aes_encr ev)
                       (aes_set_iv ev aes (srtp_iv_calc (c_k_s cp) ssrc (ucast index)))
                       mb (mbuf_get_left mb) of
                  (err, aes1, mb1) \<Rightarrow> (err, 1, cp\<lparr>c_aes := Some aes1\<rparr>, mb1))
           | AES_MODE_GCM \<Rightarrow>
               (case aad_at (aes_encr ev)
                       (aes_set_iv ev aes (srtp_iv_calc_gcm (c_k_s cp) ssrc (ucast index)))
                       mb start (mb_pos mb - start) of
                  (e1, aes1) \<Rightarrow>
               (case aes_encr ev aes1 False (le32 (htonl (push_bit 31 1 OR index))) of
                  (e2, _, aes2) \<Rightarrow>
                    if e1 OR e2 \<noteq> 0 then (e1 OR e2, 0, cp\<lparr>c_aes := Some aes2\<rparr>, mb)
                    else case crypt_at (aes_encr ev) aes2 mb (mbuf_get_left mb) of
                      (err, aes3, mb1) \<Rightarrow>
                        if err \<noteq> 0 then (err, 0, cp\<lparr>c_aes := Some aes3\<rparr>, mb1)
                        else case aes_get_authtag ev aes3 GCM_TAGLEN of
                          (err, tag, aes4) \<Rightarrow>
                            if err \<noteq> 0 then (err, 0, cp\<lparr>c_aes := Some aes4\<rparr>, mb1)
                            else case mbuf_write_mem al (mb1\<lparr>mb_pos := mb_end mb1\<rparr>) tag of
                              (err, mb2) \<Rightarrow> (err, 1, cp\<lparr>c_aes := Some aes4\<rparr>, mb2)))))"

definition srtcp_encrypt :: "alloc \<Rightarrow> 'c evp \<Rightarrow> 'c srtp \<Rightarrow> mbuf \<Rightarrow> errno \<times> 'c srtp \<times> mbuf" where
  "srtcp_encrypt al ev s mb =
     (let start = mb_pos mb in
      case get_rtcp_ssrc mb of
        (err, ssrc, mb1) \<Rightarrow>
          if err \<noteq> 0 then (err, s, mb1)
          else case stream_get al s ssrc of
            (err, i, s1) \<Rightarrow>
              if err \<noteq> 0 then (err, s1, mb1)
              else
                let index = (st_rtcp_index (strm_at s1 i) + 1) AND 0x7fffffff;
                    s2 = strm_set s1 i ((strm_at s1 i)\<lparr>st_rtcp_index := index\<rparr>)
                in case srtcp_encrypt_cipher al ev (sr_rtcp s2) ssrc index start mb1 of
                  (err, ep, cp1, mb2) \<Rightarrow>
                    let s3 = s2\<lparr>sr_rtcp := cp1\<rparr> in
                    if err \<noteq> 0 then (err, s3, mb2)
                    else case mbuf_write_u32 al (mb2\<lparr>mb_pos := mb_end mb2\<rparr>)
                                (htonl (push_bit 31 ep OR index)) of
                      (err, mb3) \<Rightarrow>
                        if err \<noteq> 0 then (err, s3, mb3)
                        else case c_hmac cp1 of
                          None \<Rightarrow> (0, s3, mb3\<lparr>mb_pos := start\<rparr>)
                        | Some key \<Rightarrow>
                            let mb4 = mb3\<lparr>mb_pos := start\<rparr> in
                            case hmac_at ev key mb4 of
                              (err, tag) \<Rightarrow>
                                if err \<noteq> 0 then (err, s3, mb4)
                                else case mbuf_write_mem al (mb4\<lparr>mb_pos := mb_end mb4\<rparr>)
                                            (take (c_tag_len cp1) tag) of
                                  (err, mb5) \<Rightarrow>
                                    if err \<noteq> 0 then (err, s3, mb5)
                                    else (0, s3, mb5\<lparr>mb_pos := start\<rparr>))"

text \<open>The cipher step of \<^verbatim>\<open>srtcp_decrypt\<close>.\<close>

definition srtcp_decrypt_cipher ::
  "'c evp \<Rightarrow> 'c comp \<Rightarrow> 32 word \<Rightarrow> bool \<Rightarrow> 32 word \<Rightarrow> nat \<Rightarrow> nat \<Rightarrow> nat \<Rightarrow> mbuf \<Rightarrow>
   errno \<times> 'c comp \<times> mbuf" where
  "srtcp_decrypt_cipher ev cp ssrc ep ix start pld_start eix_start mb =
     (case (c_aes cp, ep) of
        (Some aes, True) \<Rightarrow>
          (case c_mode cp of
             AES_MODE_CTR \<Rightarrow>
               let mb1 = mb\<lparr>mb_pos := pld_start\<rparr> in
               (case crypt_at (aes_decr ev)
                       (aes_set_iv ev aes (srtp_iv_calc (c_k_s cp) ssrc (ucast ix)))
                       mb1 (mbuf_get_left mb1) of
                  (err, aes1, mb2) \<Rightarrow> (err, cp\<lparr>c_aes := Some aes1\<rparr>, mb2))
           | AES_MODE_GCM \<Rightarrow>
               (case aad_at (aes_decr ev)
                       (aes_set_iv ev aes (srtp_iv_calc_gcm (c_k_s cp) ssrc (ucast ix)))
                       mb start (pld_start - start) of
                  (e1, aes1) \<Rightarrow>
               (case aad_at (aes_decr ev) aes1 mb eix_start 4 of
                  (e2, aes2) \<Rightarrow>
                    if e1 OR e2 \<noteq> 0 then (e1 OR e2, cp\<lparr>c_aes := Some aes2\<rparr>, mb)
                    else
                      let mb1 = mb\<lparr>mb_pos := pld_start\<rparr> in
                      if mbuf_get_left mb1 < GCM_TAGLEN
                      then (EBADMSG, cp\<lparr>c_aes := Some aes2\<rparr>, mb1)
                      else
                        let tag_start = mb_end mb1 - GCM_TAGLEN in
                        case crypt_at (aes_decr ev) aes2 mb1 (tag_start - pld_start) of
                          (err, aes3, mb2) \<Rightarrow>
                            if err \<noteq> 0 then (err, cp\<lparr>c_aes := Some aes3\<rparr>, mb2)
                            else case mem_read (mb_buf mb2) tag_start GCM_TAGLEN of
                              None \<Rightarrow> (FAULT, cp\<lparr>c_aes := Some aes3\<rparr>, mb2)
                            | Some tag \<Rightarrow>
                                (case aes_authenticate ev aes3 tag of
                                   (err, aes4) \<Rightarrow>
                                     if err \<noteq> 0 then (err, cp\<lparr>c_aes := Some aes4\<rparr>, mb2)
                                     else (0, cp\<lparr>c_aes := Some aes4\<rparr>,
                                           mb2\<lparr>mb_end := tag_start\<rparr>)))))
      | _ \<Rightarrow> (0, cp, mb))"

text \<open>The authentication step of \<^verbatim>\<open>srtcp_decrypt\<close>, with the position after the index.\<close>

definition srtcp_decrypt_auth ::
  "'c evp \<Rightarrow> 'c comp \<Rightarrow> srtp_stream \<Rightarrow> 32 word \<Rightarrow> nat \<Rightarrow> mbuf \<Rightarrow> errno \<times> srtp_stream \<times> mbuf" where
  "srtcp_decrypt_auth ev cp st ix start mb =
     (case c_hmac cp of
        None \<Rightarrow> (0, st, mb)
      | Some key \<Rightarrow>
          let tag_start = mb_pos mb in
          if c_tag_len cp > SHA_DIGEST_LENGTH then (ERANGE, st, mb)
          else case mbuf_read_mem mb (c_tag_len cp) of
            (err, tag_pkt, mb1) \<Rightarrow>
              if err \<noteq> 0 then (err, st, mb1)
              else
                let mb2 = mb1\<lparr>mb_pos := start, mb_end := tag_start\<rparr> in
                case hmac_at ev key mb2 of
                  (err, tag) \<Rightarrow>
                    if err \<noteq> 0 then (err, st, mb2)
                    else if take (c_tag_len cp) tag \<noteq> tag_pkt then (EAUTH, st, mb2)
                    else case srtp_replay_check (st_replay_rtcp st) (ucast ix) of
                      (ok, r) \<Rightarrow> (if \<not> ok then EALREADY else 0, st\<lparr>st_replay_rtcp := r\<rparr>, mb2))"

definition srtcp_decrypt :: "alloc \<Rightarrow> 'c evp \<Rightarrow> 'c srtp \<Rightarrow> mbuf \<Rightarrow> errno \<times> 'c srtp \<times> mbuf" where
  "srtcp_decrypt al ev s mb =
     (let start = mb_pos mb in
      case get_rtcp_ssrc mb of
        (err, ssrc, mb1) \<Rightarrow>
          if err \<noteq> 0 then (err, s, mb1)
          else case stream_get al s ssrc of
            (err, i, s1) \<Rightarrow>
              if err \<noteq> 0 then (err, s1, mb1)
              else
                let pld_start = mb_pos mb1; cp = sr_rtcp s1 in
                if mbuf_get_left mb1 < 4 + c_tag_len cp then (EBADMSG, s1, mb1)
                else
                  let eix_start = mb_end mb1 - (4 + c_tag_len cp);
                      (rv, mb2) = mbuf_read_u32 (mb1\<lparr>mb_pos := eix_start\<rparr>);
                      v = ntohl rv;
                      ep = (drop_bit 31 v AND 1 \<noteq> 0);
                      ix = v AND 0x7fffffff
                  in case srtcp_decrypt_auth ev cp (strm_at s1 i) ix start mb2 of
                    (err, st1, mb3) \<Rightarrow>
                      let s2 = strm_set s1 i st1 in
                      if err \<noteq> 0 then (err, s2, mb3)
                      else case srtcp_decrypt_cipher ev cp ssrc ep ix start pld_start eix_start
                                  (mb3\<lparr>mb_end := eix_start\<rparr>) of
                        (err, cp1, mb4) \<Rightarrow>
                          let s3 = s2\<lparr>sr_rtcp := cp1\<rparr> in
                          if err \<noteq> 0 then (err, s3, mb4)
                          else (0, s3, mb4\<lparr>mb_pos := start\<rparr>))"

section \<open>Correctness of the replay window\<close>

fun replay_run :: "replay \<Rightarrow> 64 word list \<Rightarrow> bool list" where
  "replay_run r [] = []"
| "replay_run r (ix # ixs) = (case srtp_replay_check r ix of (ok, r') \<Rightarrow> ok # replay_run r' ixs)"

text \<open>
  The specification remembers every index accepted: a new one is accepted if it was not accepted
  before and is not 64 or more below the highest.
\<close>

fun replay_spec :: "nat \<Rightarrow> nat list \<Rightarrow> nat list \<Rightarrow> bool list" where
  "replay_spec m acc [] = []"
| "replay_spec m acc (i # is) =
     (let ok = (i \<notin> set acc \<and> m < i + 64)
      in ok # replay_spec (max m i) (if ok then i # acc else acc) is)"

definition replay_inv :: "replay \<Rightarrow> nat \<Rightarrow> nat set \<Rightarrow> bool" where
  "replay_inv r m S \<longleftrightarrow> unat (rp_lix r) = m \<and> (\<forall>n \<in> S. n \<le> m) \<and>
     (\<forall>k < 64. k \<le> m \<longrightarrow> bit (rp_bitmap r) k = (m - k \<in> S))"

lemma and_push_bit_1: "(w :: 64 word) AND push_bit d 1 \<noteq> 0 \<longleftrightarrow> d < 64 \<and> bit w d"
proof -
  have "w AND push_bit d 1 \<noteq> 0 \<longleftrightarrow> (\<exists>k. bit (w AND push_bit d 1) k)"
    using bit_word_eqI [of "w AND push_bit d 1" 0] by auto
  also have "\<dots> \<longleftrightarrow> d < 64 \<and> bit w d"
    by (auto simp: bit_simps)
  finally show ?thesis .
qed

lemmas and_exp_1 = and_push_bit_1 [unfolded push_bit_of_1]

lemma replay_check_step:
  assumes "replay_inv r m S" "srtp_replay_check r ix = (ok, r')"
  shows "ok = (unat ix \<notin> S \<and> m < unat ix + 64) \<and>
    replay_inv r' (max m (unat ix)) (if ok then insert (unat ix) S else S)"
proof (cases "rp_lix r < ix")
  case True
  define d where "d = unat ix - m"
  have m: "m < unat ix" using True assms(1) by (simp add: replay_inv_def word_less_nat_alt)
  have diff: "unat (ix - rp_lix r) = d"
    using True assms(1) by (simp add: d_def replay_inv_def unat_sub less_imp_le)
  have S: "n \<le> m" if "n \<in> S" for n using that assms(1) by (simp add: replay_inv_def)
  have bm: "bit (rp_bitmap r) k = (m - k \<in> S)" if "k < 64" "k \<le> m" for k
    using that assms(1) by (simp add: replay_inv_def)
  have r': "ok" "r' = \<lparr>rp_bitmap = (if d < 64 then push_bit d (rp_bitmap r) OR 1 else 1), rp_lix = ix\<rparr>"
    using assms(2) True diff by (auto simp: srtp_replay_check_def SRTP_WINDOW_SIZE_def split: if_splits)
  have "bit (rp_bitmap r') k = (unat ix - k \<in> insert (unat ix) S)" if k: "k < 64" "k \<le> unat ix" for k
  proof (cases "k < d")
    case True
    then have "unat ix - k \<notin> S" using S m by (fastforce simp: d_def)
    moreover have "(unat ix - k = unat ix) = (k = 0)" using k m by auto
    ultimately show ?thesis using True k r'(2) by (auto simp: bit_simps)
  next
    case False
    then have "unat ix - k = m - (k - d)" "k - d \<le> m" "k \<noteq> 0" "unat ix - k \<noteq> unat ix"
      using k m by (auto simp: d_def)
    then show ?thesis using False k r'(2) bm [of "k - d"] by (auto simp: bit_simps)
  qed
  moreover have "unat ix \<notin> S" using S m by fastforce
  ultimately show ?thesis
    using r' m S by (auto simp: replay_inv_def max_absorb2 dest: S)
next
  case False
  define d where "d = m - unat ix"
  have m: "unat ix \<le> m" using False assms(1) by (simp add: replay_inv_def word_less_nat_alt)
  have diff: "unat (rp_lix r - ix) = d"
    using False assms(1) by (simp add: d_def replay_inv_def unat_sub)
  have bm: "\<And>k. k < 64 \<Longrightarrow> k \<le> m \<Longrightarrow> bit (rp_bitmap r) k = (m - k \<in> S)"
    using assms(1) by (simp add: replay_inv_def)
  have mx: "max m (unat ix) = m" and d: "m - d = unat ix" "d \<le> m" using m by (simp_all add: d_def)
  consider "64 \<le> d" | "d < 64" "unat ix \<in> S" | "d < 64" "unat ix \<notin> S" by linarith
  then show ?thesis
  proof cases
    case 1
    then show ?thesis using assms False diff mx
      by (auto simp: srtp_replay_check_def SRTP_WINDOW_SIZE_def d_def)
  next
    case 2
    then show ?thesis using assms False diff mx bm [of d] d
      by (auto simp: srtp_replay_check_def SRTP_WINDOW_SIZE_def and_exp_1)
  next
    case 3
    then have r': "ok" "r' = r\<lparr>rp_bitmap := rp_bitmap r OR push_bit d 1\<rparr>"
      using assms(2) False diff bm [of d] d
      by (auto simp: srtp_replay_check_def SRTP_WINDOW_SIZE_def and_exp_1)
    have "bit (rp_bitmap r') k = (m - k \<in> insert (unat ix) S)" if "k < 64" "k \<le> m" for k
      using that bm [of k] d 3 r'(2) by (auto simp: bit_simps)
    then show ?thesis
      using r' assms(1) 3 mx m d by (auto simp: replay_inv_def)
  qed
qed

lemma replay_run_spec:
  "replay_inv r m (set acc) \<Longrightarrow> replay_run r ixs = replay_spec m acc (map unat ixs)"
proof (induction ixs arbitrary: r m acc)
  case (Cons ix ixs)
  obtain ok r' where c: "srtp_replay_check r ix = (ok, r')" by fastforce
  note st = replay_check_step [OF Cons.prems c]
  then have "replay_inv r' (max m (unat ix)) (set (if ok then unat ix # acc else acc))"
    by (cases ok) simp_all
  from Cons.IH [OF this] show ?case using st c by (simp add: Let_def)
qed simp

lemma replay_spec_distinct:
  "distinct (map fst (filter snd (zip is (replay_spec m acc is)))) \<and>
   set (map fst (filter snd (zip is (replay_spec m acc is)))) \<inter> set acc = {}"
proof (induction "is" arbitrary: m acc)
  case (Cons i "is")
  show ?case
    using Cons.IH [of "max m i" "if i \<notin> set acc \<and> m < i + 64 then i # acc else acc"]
    by (cases "i \<notin> set acc \<and> m < i + 64") (simp_all add: Let_def del: set_map set_filter, blast)
qed simp

text \<open>
  C4. Replay protection.  From its initial state the 64-bit sliding window decides every sequence
  of packet indices exactly like a receiver that remembers all accepted indices: an index is
  accepted if and only if it was not accepted before and lies less than 64 below the highest one.
  So no index is ever accepted twice.
\<close>

theorem srtp_replay_exact:
  "replay_run srtp_replay_init ixs = replay_spec 0 [] (map unat ixs) \<and>
   distinct (map fst (filter snd (zip (map unat ixs) (replay_run srtp_replay_init ixs))))"
proof -
  have "replay_inv srtp_replay_init 0 (set [])" by (simp add: replay_inv_def srtp_replay_init_def)
  from replay_run_spec [OF this] replay_spec_distinct [of "map unat ixs" 0 "[]"] show ?thesis
    by simp
qed

end
