(* ===== verification/Srtp_Channel.thy ===== *)
theory Srtp_Channel
  imports Srtp
begin

text \<open>
  What secure RTP promises to its users: a receiver with the sender's keys recovers the packets
  that reach it, across roll-overs of the 16-bit sequence number and for every cipher suite.  The
  theory first describes the protected packet as a function of the plain one, then shows that
  each step of the sender builds it and each step of the receiver undoes it.
\<close>

section \<open>Indices\<close>

text \<open>\<open>at_index st N\<close>: the stream has seen packet number \<open>N\<close>, counted without wrap-around.\<close>

definition at_index :: "srtp_stream \<Rightarrow> nat \<Rightarrow> bool" where
  "at_index st N \<longleftrightarrow> st_s_l_set st \<and> st_roc st = of_nat (N div 65536) \<and> st_s_l st = of_nat N"

text \<open>The stream after the roll-over test, and after the packet.\<close>

definition roll :: "srtp_stream \<Rightarrow> 16 word \<Rightarrow> srtp_stream" where
  "roll st seq = (if seq_diff (st_s_l st) seq \<le> -32768
                  then st\<lparr>st_roc := st_roc st + 1, st_s_l := 0\<rparr> else st)"

definition bump :: "srtp_stream \<Rightarrow> 16 word \<Rightarrow> srtp_stream" where
  "bump st seq = (if seq > st_s_l st then st\<lparr>st_s_l := seq\<rparr> else st)"

lemma uint_of_nat16: "uint (of_nat n :: 16 word) = int (n mod 65536)"
  by (simp add: uint_nat unat_of_nat)

lemma seq_diff_of_nat: "seq_diff (of_nat m) (of_nat n) = int (n mod 65536) - int (m mod 65536)"
  by (simp add: seq_diff_def uint_of_nat16)

lemma of_nat_less16: "((of_nat m :: 16 word) < of_nat n) = (m mod 65536 < n mod 65536)"
  by (simp add: word_less_nat_alt unat_of_nat)

text \<open>Where a number within half a period of \<open>M\<close> lies.\<close>

lemma period_cases:
  fixes M n :: nat
  assumes "M < n + 32768" "n < M + 32768"
  obtains "n div 65536 = M div 65536" "n mod 65536 + M = n + M mod 65536"
  | "n div 65536 = Suc (M div 65536)" "n mod 65536 + 65536 + M = n + M mod 65536"
  | "M div 65536 = Suc (n div 65536)" "n mod 65536 + M = n + M mod 65536 + 65536"
proof -
  define q r q' r' where d: "q = n div 65536" "r = n mod 65536" "q' = M div 65536" "r' = M mod 65536"
  have e: "n = 65536 * q + r" "M = 65536 * q' + r'" "r < 65536" "r' < 65536" by (simp_all add: d)
  then have "q = q' \<or> q = Suc q' \<or> q' = Suc q" using assms by arith
  then show ?thesis
    using that e unfolding d [symmetric] by (elim disjE) simp_all
qed

lemma of_nat16_eq_0: "n mod 65536 = 0 \<Longrightarrow> (of_nat n :: 16 word) = 0"
  by (simp add: word_unat_eq_iff unat_of_nat)

lemma roll_same:
  assumes "at_index st M" "n div 65536 = M div 65536" "n mod 65536 + M = n + M mod 65536"
    "M < n + 32768" "n < M + 32768"
  shows "seq_diff (st_s_l st) (of_nat n) \<le> 32768 \<and> roll st (of_nat n) = st \<and>
    at_index (bump st (of_nat n)) (max M n) \<and>
    srtp_get_index (st_roc st) (st_s_l st) (of_nat n) = ucast (of_nat n :: 16 word) + scast (st_roc st) * 65536"
proof -
  have at: "st_s_l_set st" "st_roc st = of_nat (M div 65536)" "st_s_l st = of_nat M"
    using assms(1) by (simp_all add: at_index_def)
  have d: "seq_diff (of_nat M) (of_nat n) = int n - int M"
    unfolding seq_diff_of_nat using assms(3) by linarith
  have u: "uint (of_nat n :: 16 word) - uint (of_nat M :: 16 word) = int n - int M"
    using d by (simp add: seq_diff_def)
  have less: "((of_nat M :: 16 word) < of_nat n) = (M < n)"
    unfolding of_nat_less16 using assms(3) by linarith
  have idx: "srtp_get_index (st_roc st) (of_nat M) (of_nat n) = ucast (of_nat n :: 16 word) + scast (st_roc st) * 65536"
  proof -
    have "\<not> uint (of_nat n :: 16 word) - uint (of_nat M :: 16 word) > 32768"
      "\<not> uint (of_nat M :: 16 word) - 32768 > uint (of_nat n :: 16 word)"
      using u assms(4,5) by linarith+
    then show ?thesis unfolding srtp_get_index_def Let_def by simp
  qed
  have roll: "roll st (of_nat n) = st"
    unfolding roll_def at(3) d using assms(4) by simp
  have "at_index (bump st (of_nat n)) (max M n)"
    unfolding bump_def at(3) less using at assms(2) by (cases "M < n") (simp_all add: at_index_def max_def)
  then show ?thesis
    unfolding at(3) d roll using idx assms(5) by simp
qed

lemma roll_next:
  assumes "at_index st M" "n div 65536 = Suc (M div 65536)" "n mod 65536 + 65536 + M = n + M mod 65536"
    "n < M + 32768"
  shows "seq_diff (st_s_l st) (of_nat n) \<le> 32768 \<and>
    roll st (of_nat n) = st\<lparr>st_roc := of_nat (n div 65536), st_s_l := 0\<rparr> \<and>
    at_index (bump (roll st (of_nat n)) (of_nat n)) (max M n) \<and>
    srtp_get_index (of_nat (n div 65536)) 0 (of_nat n) = ucast (of_nat n :: 16 word) + scast (of_nat (n div 65536) :: 32 word) * 65536"
proof -
  have at: "st_s_l_set st" "st_roc st = of_nat (M div 65536)" "st_s_l st = of_nat M"
    using assms(1) by (simp_all add: at_index_def)
  have d: "seq_diff (of_nat M) (of_nat n) = int n - int M - 65536"
    unfolding seq_diff_of_nat using assms(3) by linarith
  have roll: "roll st (of_nat n) = st\<lparr>st_roc := of_nat (n div 65536), st_s_l := 0\<rparr>"
    unfolding roll_def at(3) d using assms(4) at(2) by (simp add: assms(2))
  have "(0 < (of_nat n :: 16 word)) = (0 < n mod 65536)"
    using of_nat_less16 [of 0 n] by simp
  then have bump: "bump (st\<lparr>st_roc := of_nat (n div 65536), st_s_l := 0\<rparr>) (of_nat n) =
      st\<lparr>st_roc := of_nat (n div 65536), st_s_l := of_nat n\<rparr>"
    unfolding bump_def using of_nat16_eq_0 [of n] by (cases "n mod 65536 = 0") simp_all
  have "M \<le> n" using assms(2) by (metis div_le_mono le_SucI nat_le_linear not_less_eq_eq order_refl)
  then have at': "at_index (bump (roll st (of_nat n)) (of_nat n)) (max M n)"
    unfolding roll bump using at(1) by (simp add: at_index_def max_absorb2)
  have "int (n mod 65536) < 32768" using assms(3,4) by linarith
  then have idx: "srtp_get_index (of_nat (n div 65536)) 0 (of_nat n) =
      ucast (of_nat n :: 16 word) + scast (of_nat (n div 65536) :: 32 word) * 65536"
    unfolding srtp_get_index_def Let_def uint_of_nat16 by simp
  show ?thesis using d at(3) roll at' idx assms(4) by simp
qed

lemma ix_of_nat:
  assumes "n < 2 ^ 47"
  shows "ucast (of_nat n :: 16 word) + scast (of_nat (n div 65536) :: 32 word) * 65536 = (of_nat n :: 64 word)"
    and "65536 * ucast (of_nat (n div 65536) :: 32 word) + ucast (of_nat n :: 16 word) = (of_nat n :: 64 word)"
proof -
  have lt: "n div 65536 < 2 ^ 31" using assms by (simp add: div_less_iff_less_mult)
  have u: "(ucast (of_nat (n div 65536) :: 32 word) :: 64 word) = of_nat (n div 65536)"
    "(ucast (of_nat n :: 16 word) :: 64 word) = of_nat (n mod 65536)"
    using lt by (simp_all add: unsigned_of_nat take_bit_eq_mod)
  have s: "(scast (of_nat (n div 65536) :: 32 word) :: 64 word) = of_nat (n div 65536)"
    using lt by (simp add: signed_of_nat signed_take_bit_int_eq_self)
  have e: "of_nat n = (of_nat (n mod 65536) + of_nat (n div 65536) * 65536 :: 64 word)"
    using arg_cong [OF mod_div_mult_eq [of n 65536, symmetric], of "of_nat :: nat \<Rightarrow> 64 word"]
    by (simp only: of_nat_add of_nat_mult of_nat_numeral)
  show "ucast (of_nat n :: 16 word) + scast (of_nat (n div 65536) :: 32 word) * 65536 = (of_nat n :: 64 word)"
    unfolding u s by (rule e [symmetric])
  show "65536 * ucast (of_nat (n div 65536) :: 32 word) + ucast (of_nat n :: 16 word) = (of_nat n :: 64 word)"
    unfolding u by (subst e) (simp only: add.commute mult.commute)
qed

lemma roll_prev:
  assumes "at_index st M" "n mod 65536 + M = n + M mod 65536 + 65536" "M < n + 32768"
  shows "seq_diff (st_s_l st) (of_nat n) > 32768"
proof -
  have at: "st_s_l st = of_nat M" using assms(1) by (simp add: at_index_def)
  have d: "seq_diff (of_nat M) (of_nat n) = int n - int M + 65536"
    unfolding seq_diff_of_nat using assms(2) by linarith
  show ?thesis unfolding at d using assms(3) by linarith
qed

text \<open>
  A packet within half a period of the last one: either it belongs to the previous roll-over
  period and is rejected as late, or its index is determined correctly and the stream follows.
\<close>

lemma index_step:
  assumes "at_index st M" "M < n + 32768" "n < M + 32768" "n < 2 ^ 47"
  shows "n div 65536 < M div 65536 \<and> seq_diff (st_s_l st) (of_nat n) > 32768 \<or>
    M div 65536 \<le> n div 65536 \<and> seq_diff (st_s_l st) (of_nat n) \<le> 32768 \<and>
    st_roc (roll st (of_nat n)) = of_nat (n div 65536) \<and>
    srtp_get_index (st_roc (roll st (of_nat n))) (st_s_l (roll st (of_nat n))) (of_nat n) = of_nat n \<and>
    at_index (bump (roll st (of_nat n)) (of_nat n)) (max M n)"
proof (cases rule: period_cases [OF assms(2,3)])
  case 1
  have "st_roc st = of_nat (n div 65536)" using assms(1) 1(1) by (simp add: at_index_def)
  then show ?thesis using roll_same [OF assms(1) 1 assms(2,3)] ix_of_nat(1) [OF assms(4)] 1(1) by simp
next
  case 2
  have r: "st_roc (roll st (of_nat n)) = of_nat (n div 65536)" "st_s_l (roll st (of_nat n)) = 0"
    using roll_next [OF assms(1) 2 assms(3)] by simp_all
  have rn: "seq_diff (st_s_l st) (of_nat n) \<le> 32768"
    "at_index (bump (roll st (of_nat n)) (of_nat n)) (max M n)"
    and idx: "srtp_get_index (of_nat (n div 65536)) 0 (of_nat n) = of_nat n"
    using roll_next [OF assms(1) 2 assms(3)] ix_of_nat(1) [OF assms(4)] by (blast, blast, metis)
  show ?thesis unfolding r idx using rn 2(1) by simp
next
  case 3
  then show ?thesis using roll_prev [OF assms(1) 3(2) assms(2)] by simp
qed

section \<open>The protected packet\<close>

definition gcm_view :: "byte list \<Rightarrow> byte list \<Rightarrow> byte list \<Rightarrow> byte list \<Rightarrow> view" where
  "gcm_view key iv aad ct = \<lparr>vw_key = key, vw_iv = iv, vw_aad = aad, vw_data = ct, vw_tag = []\<rparr>"

text \<open>What follows the header \<open>h\<close> of the packet with index \<open>ix\<close> and payload \<open>p\<close>.\<close>

definition srtp_body ::
  "(byte list \<Rightarrow> byte list \<Rightarrow> nat \<Rightarrow> byte list) \<Rightarrow> (view \<Rightarrow> byte list) \<Rightarrow> 'c comp \<Rightarrow> byte list \<Rightarrow>
   32 word \<Rightarrow> 64 word \<Rightarrow> byte list \<Rightarrow> byte list \<Rightarrow> byte list" where
  "srtp_body ks tg cp key ssrc ix h p =
     (case c_mode cp of
        AES_MODE_CTR \<Rightarrow> xor_bytes p (ks key (srtp_iv_calc (c_k_s cp) ssrc ix) (length p))
      | AES_MODE_GCM \<Rightarrow>
          let iv = srtp_iv_calc_gcm (c_k_s cp) ssrc ix; ct = xor_bytes p (ks key iv (length p))
          in ct @ tg (gcm_view key iv h ct))"

definition srtp_tag :: "'c evp \<Rightarrow> 'c comp \<Rightarrow> 32 word \<Rightarrow> byte list \<Rightarrow> byte list" where
  "srtp_tag ev cp roc bs =
     (case c_hmac cp of
        None \<Rightarrow> []
      | Some k \<Rightarrow> (case HMAC_sha1 ev k (bs @ be32 roc) of
                     None \<Rightarrow> [] | Some md \<Rightarrow> take (c_tag_len cp) md))"

text \<open>A component as \<^verbatim>\<open>srtp_alloc\<close> sets it up for one of the suites, with cipher key \<open>key\<close>.\<close>

definition comp_ok :: "('c \<Rightarrow> view) \<Rightarrow> byte list \<Rightarrow> 'c comp \<Rightarrow> bool" where
  "comp_ok vw key cp \<longleftrightarrow>
     (case c_aes cp of None \<Rightarrow> False
      | Some aes \<Rightarrow> vw_key (vw (ae_ctx aes)) = key \<and> ae_mode aes = c_mode cp) \<and>
     c_tag_len cp \<le> SHA_DIGEST_LENGTH \<and> (c_hmac cp = None \<longleftrightarrow> c_mode cp = AES_MODE_GCM) \<and>
     (c_mode cp = AES_MODE_GCM \<or> 0 < c_tag_len cp)"

lemma comp_ok_upd:
  "comp_ok vw key cp \<Longrightarrow> vw_key (vw (ae_ctx aes)) = key \<Longrightarrow> ae_mode aes = c_mode cp \<Longrightarrow>
   comp_ok vw key (cp\<lparr>c_aes := Some aes\<rparr>)"
  by (simp add: comp_ok_def)

lemma crypt_at_data:
  assumes "mbuf_wf mb" "mb_data mb = a @ x @ b" "mb_pos mb = length a" "n = length x"
    and "f aes True x = (0, y, aes')" "length y = length x"
  shows "\<exists>mb'. crypt_at f aes mb n = (0, aes', mb') \<and> mbuf_wf mb' \<and> mb_data mb' = a @ y @ b \<and>
    mb_pos mb' = mb_pos mb \<and> mb_end mb' = mb_end mb"
proof -
  have e: "mb_end mb = length a + length x + length b"
    using length_mb_data [OF assms(1)] assms(2) by simp
  then have r: "mem_read (mb_buf mb) (mb_pos mb) n = Some x"
    using mem_read_data [OF assms(1), of "mb_pos mb" n] assms(2-4) by simp
  have l: "mb_pos mb + length y \<le> length (mb_buf mb)"
    using e assms(1,3,6) by (simp add: mbuf_wf_def)
  let ?b = "take (mb_pos mb) (mb_buf mb) @ y @ drop (mb_pos mb + length y) (mb_buf mb)"
  have w: "mem_write (mb_buf mb) (mb_pos mb) y = Some ?b" using l by (simp add: mem_write_def)
  have split: "mb_buf mb = a @ x @ b @ drop (mb_end mb) (mb_buf mb)"
    using append_take_drop_id [of "mb_end mb" "mb_buf mb"] assms(2) unfolding mb_data_def
    by (metis append.assoc)
  have b: "?b = a @ y @ b @ drop (mb_end mb) (mb_buf mb)"
    using assms(3,6) by (subst (1 2) split) simp
  have "crypt_at f aes mb n = (0, aes', mb\<lparr>mb_buf := ?b\<rparr>)"
    using r w assms(5) by (simp add: crypt_at_def)
  moreover have "mbuf_wf (mb\<lparr>mb_buf := ?b\<rparr>)" using assms(1) l by (simp add: mbuf_wf_def)
  moreover have "mb_data (mb\<lparr>mb_buf := ?b\<rparr>) = a @ y @ b"
    unfolding b using e assms(6) by (simp add: mb_data_def)
  ultimately show ?thesis by (intro exI [of _ "mb\<lparr>mb_buf := ?b\<rparr>"]) simp
qed

lemma aad_at_data:
  assumes "mbuf_wf mb" "mb_data mb = a @ x @ b" "f aes False x = (err, y, aes')"
  shows "aad_at f aes mb (length a) (length x) = (err, aes')"
proof -
  have "mb_end mb = length a + length x + length b"
    using length_mb_data [OF assms(1)] assms(2) by simp
  then have "mem_read (mb_buf mb) (length a) (length x) = Some x"
    using mem_read_data [OF assms(1), of "length a" "length x"] assms(2) by simp
  then show ?thesis using assms(3) by (simp add: aad_at_def)
qed

lemma hmac_at_data:
  assumes "mbuf_wf mb" "mb_data mb = a @ x" "x \<noteq> []" "evp_laws ev vw ks tg"
  obtains md where "hmac_at ev key (mb\<lparr>mb_pos := length a\<rparr>) = (0, md)" "HMAC_sha1 ev key x = Some md"
    "length md = SHA_DIGEST_LENGTH"
proof -
  have e: "mb_end mb = length a + length x"
    using length_mb_data [OF assms(1)] assms(2) by simp
  obtain md where md: "HMAC_sha1 ev key x = Some md" "hmac_digest ev key x = (0, md)"
    "length md = SHA_DIGEST_LENGTH" using hmac_digest_ok [OF assms(4,3)] .
  have "mbuf_get_left (mb\<lparr>mb_pos := length a\<rparr>) = length x"
    using e assms(3) by (simp add: mbuf_get_left_def)
  moreover have "mem_read (mb_buf mb) (length a) (length x) = Some x"
    using mem_read_data [OF assms(1), of "length a" "length x"] assms(2) e by simp
  ultimately show ?thesis using that md by (simp add: hmac_at_def)
qed

section \<open>The sender\<close>

lemma mbuf_get_left_split:
  "mbuf_wf mb \<Longrightarrow> mb_data mb = a @ x \<Longrightarrow> mb_pos mb = length a \<Longrightarrow> mbuf_get_left mb = length x"
  by (simp add: mbuf_get_left_len mb_left_data)

lemma encrypt_cipher_body:
  assumes laws: "evp_laws ev vw ks tg" and al: "mem_ok al" and wf: "mbuf_wf mb"
    and d: "mb_data mb = a @ h @ p" "mb_pos mb = length (a @ h)" "mb_end mb + 16 < 2 ^ 31"
    and cp: "comp_ok vw key cp"
  obtains cp' mb' where "srtp_encrypt_cipher al ev cp ssrc ix (length a) mb = (0, cp', mb')"
    "mbuf_wf mb'" "mb_data mb' = a @ h @ srtp_body ks tg cp key ssrc ix h p"
    "comp_ok vw key cp'" "\<exists>aes. cp' = cp\<lparr>c_aes := Some aes\<rparr>"
proof -
  obtain aes where aes: "c_aes cp = Some aes" "vw_key (vw (ae_ctx aes)) = key" "ae_mode aes = c_mode cp"
    using cp by (auto simp: comp_ok_def split: option.splits)
  have left: "mbuf_get_left mb = length p" using mbuf_get_left_split [OF wf _ d(2)] d(1) by simp
  have pos: "mb_pos mb - length a = length h" using d(2) by simp
  have ks: "length (ks k iv n) = n" for k iv n using laws by (simp add: evp_laws_def)
  show ?thesis
  proof (cases "c_mode cp")
    case AES_MODE_CTR
    define aes0 where "aes0 = aes_set_iv ev aes (srtp_iv_calc (c_k_s cp) ssrc ix)"
    define y where "y = xor_bytes p (ks key (srtp_iv_calc (c_k_s cp) ssrc ix) (length p))"
    have v0: "vw (ae_ctx aes0) = (vw (ae_ctx aes))\<lparr>vw_iv := srtp_iv_calc (c_k_s cp) ssrc ix,
        vw_aad := [], vw_data := []\<rparr>" using aes_set_iv_view [OF laws] by (simp add: aes0_def)
    obtain c where c: "aes_encr ev aes0 True p = (0, y, aes0\<lparr>ae_ctx := c, ae_encr := True\<rparr>)"
      "vw c = (vw (ae_ctx aes0))\<lparr>vw_data := y\<rparr>"
      using aes_encr_view [OF laws usable_set_iv [OF laws], of aes "srtp_iv_calc (c_k_s cp) ssrc ix" y p]
        v0 aes(2) by (auto simp: aes0_def y_def)
    obtain mb' where m: "crypt_at (aes_encr ev) aes0 mb (length p) =
        (0, aes0\<lparr>ae_ctx := c, ae_encr := True\<rparr>, mb')"
      "mbuf_wf mb'" "mb_data mb' = (a @ h) @ y @ []"
      using crypt_at_data [OF wf, of "a @ h" p "[]" "length p" "aes_encr ev" aes0 y
          "aes0\<lparr>ae_ctx := c, ae_encr := True\<rparr>"] c(1) d(1,2) ks
      by (auto simp: y_def)
    show ?thesis
    proof (rule that)
      show "srtp_encrypt_cipher al ev cp ssrc ix (length a) mb =
          (0, cp\<lparr>c_aes := Some (aes0\<lparr>ae_ctx := c, ae_encr := True\<rparr>)\<rparr>, mb')"
        using aes(1) AES_MODE_CTR m(1) left by (simp add: srtp_encrypt_cipher_def aes0_def)
      show "mb_data mb' = a @ h @ srtp_body ks tg cp key ssrc ix h p"
        using m(3) AES_MODE_CTR by (simp add: srtp_body_def y_def)
      show "comp_ok vw key (cp\<lparr>c_aes := Some (aes0\<lparr>ae_ctx := c, ae_encr := True\<rparr>)\<rparr>)"
        using c(2) v0 aes by (intro comp_ok_upd [OF cp]) (simp_all add: aes0_def)
    qed (use m in auto)
  next
    case AES_MODE_GCM
    define iv where "iv = srtp_iv_calc_gcm (c_k_s cp) ssrc ix"
    define aes0 where "aes0 = aes_set_iv ev aes iv"
    define y where "y = xor_bytes p (ks key iv (length p))"
    have v0: "vw (ae_ctx aes0) = (vw (ae_ctx aes))\<lparr>vw_iv := iv, vw_aad := [], vw_data := []\<rparr>"
      using aes_set_iv_view [OF laws] by (simp add: aes0_def)
    obtain c where c: "aes_encr ev aes0 False h = (0, [], aes0\<lparr>ae_ctx := c, ae_encr := True\<rparr>)"
      "vw c = (vw (ae_ctx aes0))\<lparr>vw_aad := h\<rparr>"
      using aes_encr_aad_view [OF laws usable_set_iv [OF laws], of aes iv h] v0 by (auto simp: aes0_def)
    define aes1 where "aes1 = aes0\<lparr>ae_ctx := c, ae_encr := True\<rparr>"
    have aad: "aad_at (aes_encr ev) aes0 mb (length a) (length h) = (0, aes1)"
      using aad_at_data [OF wf d(1), of "aes_encr ev", OF c(1)] by (simp add: aes1_def)
    obtain c2 where c2: "aes_encr ev aes1 True p = (0, y, aes1\<lparr>ae_ctx := c2, ae_encr := True\<rparr>)"
      "vw c2 = (vw c)\<lparr>vw_data := y\<rparr>"
      using aes_encr_view [OF laws, of aes1 y p] v0 c(2) aes(2)
      by (auto simp: aes1_def y_def usable_def)
    define aes2 where "aes2 = aes1\<lparr>ae_ctx := c2, ae_encr := True\<rparr>"
    obtain mb1 where m: "crypt_at (aes_encr ev) aes1 mb (length p) = (0, aes2, mb1)"
      "mbuf_wf mb1" "mb_data mb1 = (a @ h) @ y @ []" "mb_end mb1 = mb_end mb"
      using crypt_at_data [OF wf, of "a @ h" p "[]" "length p" "aes_encr ev" aes1 y aes2] c2(1) d(1,2) ks
      by (auto simp: y_def aes2_def)
    have v2: "(vw c2)\<lparr>vw_tag := []\<rparr> = gcm_view key iv h y"
      using c2(2) c(2) v0 aes(2) by (cases "vw (ae_ctx aes)") (simp add: gcm_view_def)
    obtain c3 where c3: "aes_get_authtag ev aes2 16 = (0, tg (gcm_view key iv h y), aes2\<lparr>ae_ctx := c3\<rparr>)"
      "vw c3 = vw c2"
      using aes_get_authtag_view [OF laws, of aes2] AES_MODE_GCM aes(3) v2
      by (auto simp: aes2_def aes1_def aes0_def)
    have lt: "length (tg (gcm_view key iv h y)) = 16" using laws by (simp add: evp_laws_def)
    obtain mb' where w: "mbuf_write_mem al (mb1\<lparr>mb_pos := mb_end mb1\<rparr>) (tg (gcm_view key iv h y)) = (0, mb')"
      "mbuf_wf mb'" "mb_data mb' = mb_data mb1 @ tg (gcm_view key iv h y)"
      using mbuf_append [OF al m(2), of "tg (gcm_view key iv h y)"] d(3) m(4) lt by auto
    show ?thesis
    proof (rule that)
      show "srtp_encrypt_cipher al ev cp ssrc ix (length a) mb =
          (0, cp\<lparr>c_aes := Some (aes2\<lparr>ae_ctx := c3\<rparr>)\<rparr>, mb')"
        using aes(1) AES_MODE_GCM m(1) left aad c3(1) w(1) pos
        by (simp add: srtp_encrypt_cipher_def aes0_def iv_def GCM_TAGLEN_def)
      show "mb_data mb' = a @ h @ srtp_body ks tg cp key ssrc ix h p"
        using m(3) w(3) AES_MODE_GCM by (simp add: srtp_body_def y_def iv_def Let_def)
      show "comp_ok vw key (cp\<lparr>c_aes := Some (aes2\<lparr>ae_ctx := c3\<rparr>)\<rparr>)"
        using c3(2) c2(2) c(2) v0 aes
        by (intro comp_ok_upd [OF cp]) (simp_all add: aes0_def aes1_def aes2_def)
    qed (use w in auto)
  qed
qed

lemma mb_end_pos [simp]: "mb\<lparr>mb_end := e, mb_pos := p\<rparr> = mb\<lparr>mb_pos := p, mb_end := (e :: nat)\<rparr>"
  by simp

lemma write_u32_append:
  assumes "mem_ok al" "mbuf_wf mb" "mb_end mb + 4 < 2 ^ 31"
  shows "\<exists>mb'. mbuf_write_u32 al (mb\<lparr>mb_pos := mb_end mb\<rparr>) (htonl v) = (0, mb') \<and> mbuf_wf mb' \<and>
    mb_data mb' = mb_data mb @ be32 v \<and> mb_end mb' = mb_end mb + 4"
  using mbuf_append [OF assms(1,2), of "be32 v"] assms(3) by (auto simp: mbuf_write_u32_def)

lemma mbuf_append_ex:
  assumes "mem_ok al" "mbuf_wf mb" "mb_end mb + length bs < 2 ^ 31"
  shows "\<exists>mb'. mbuf_write_mem al (mb\<lparr>mb_pos := mb_end mb\<rparr>) bs = (0, mb') \<and> mbuf_wf mb' \<and>
    mb_data mb' = mb_data mb @ bs"
  using mbuf_append [OF assms] by metis

lemma encrypt_auth_tag:
  assumes laws: "evp_laws ev vw ks tg" and al: "mem_ok al" and wf: "mbuf_wf mb"
    and d: "mb_data mb = a @ x" "x \<noteq> []" "mb_end mb + 24 < 2 ^ 31"
    and cp: "c_tag_len cp \<le> SHA_DIGEST_LENGTH"
  shows "\<exists>mb'. srtp_encrypt_auth al ev cp roc (length a) mb = (0, mb') \<and> mbuf_wf mb' \<and>
    mb_data mb' = a @ x @ srtp_tag ev cp roc x"
proof (cases "c_hmac cp")
  case None
  then show ?thesis using wf d(1) by (simp add: srtp_encrypt_auth_def srtp_tag_def)
next
  case (Some key)
  obtain mb1 where m1: "mbuf_write_u32 al (mb\<lparr>mb_pos := mb_end mb\<rparr>) (htonl roc) = (0, mb1)" "mbuf_wf mb1"
    "mb_data mb1 = mb_data mb @ be32 roc" "mb_end mb1 = mb_end mb + 4"
    using write_u32_append [OF al wf, of roc] d(3) by auto
  have d1: "mb_data mb1 = a @ (x @ be32 roc)" using m1(3) d(1) by simp
  obtain md where md: "hmac_at ev key (mb1\<lparr>mb_pos := length a\<rparr>) = (0, md)"
    "HMAC_sha1 ev key (x @ be32 roc) = Some md" "length md = SHA_DIGEST_LENGTH"
    using hmac_at_data [OF m1(2) d1 _ laws] d(2) by blast
  let ?t = "take (c_tag_len cp) md" and ?mb = "mb1\<lparr>mb_end := mb_end mb\<rparr>"
  have t: "length ?t \<le> 20" using md(3) cp by (simp add: SHA_DIGEST_LENGTH_def)
  have wf1: "mbuf_wf ?mb" using m1(2,4) by (simp add: mbuf_wf_set_end)
  obtain mb2 where m2: "mbuf_write_mem al (?mb\<lparr>mb_pos := mb_end ?mb\<rparr>) ?t = (0, mb2)" "mbuf_wf mb2"
    "mb_data mb2 = mb_data ?mb @ ?t"
    using mbuf_append_ex [OF al wf1, of ?t] t d(3) by auto
  have "mb_data ?mb = a @ x"
    using m1(3,4) d(1) length_mb_data [OF wf] by simp
  then show ?thesis
    using m1(1) m2 md(1,2) Some by (simp add: srtp_encrypt_auth_def srtp_tag_def Let_def)
qed

section \<open>The receiver\<close>

lemma decrypt_auth_tag:
  assumes laws: "evp_laws ev vw ks tg" and al: "mem_ok al" and wf: "mbuf_wf mb"
    and d: "mb_data mb = a @ x @ t" "length t = c_tag_len cp" "x \<noteq> []" "mb_end mb + 4 < 2 ^ 31"
      "length a \<le> mb_pos mb" "mb_pos mb \<le> length (a @ x)"
    and cp: "c_hmac cp = Some key" "0 < c_tag_len cp"
  shows "\<exists>mb'. srtp_decrypt_auth al ev cp st ix (length a) mb =
      (if t \<noteq> srtp_tag ev cp (st_roc st) x then (EAUTH, st, mb')
       else case srtp_replay_check (st_replay_rtp st) ix of
         (ok, r) \<Rightarrow> (if ok then 0 else EALREADY, st\<lparr>st_replay_rtp := r\<rparr>, mb')) \<and>
    mbuf_wf mb' \<and> mb_data mb' = a @ x \<and> mb_pos mb' = mb_pos mb"
proof -
  have e: "mb_end mb = length (a @ x) + c_tag_len cp"
    using length_mb_data [OF wf] d(1,2) by simp
  let ?ts = "mb_end mb - c_tag_len cp"
  have ts: "?ts = length (a @ x)" using e by simp
  have left: "\<not> mbuf_get_left mb < c_tag_len cp" using e d(6) cp(2) by (auto simp: mbuf_get_left_def)
  have tag: "mbuf_read_mem (mb\<lparr>mb_pos := ?ts\<rparr>) (c_tag_len cp) = (0, t, mb\<lparr>mb_pos := mb_end mb\<rparr>)"
    using mbuf_read_mem_left [of "mb\<lparr>mb_pos := ?ts\<rparr>" "c_tag_len cp"] wf cp(2) d(1,2) e ts
    by (simp add: mb_left_data mb_adv_def)
  let ?mb0 = "mb\<lparr>mb_end := ?ts\<rparr>"
  have wf0: "mbuf_wf ?mb0" using wf by (simp add: mbuf_wf_set_end)
  have d0: "mb_data ?mb0 = a @ x" using d(1) ts by simp
  obtain mb1 where m1: "mbuf_write_u32 al (?mb0\<lparr>mb_pos := mb_end ?mb0\<rparr>) (htonl (st_roc st)) = (0, mb1)"
    "mbuf_wf mb1" "mb_data mb1 = mb_data ?mb0 @ be32 (st_roc st)" "mb_end mb1 = mb_end ?mb0 + 4"
    using write_u32_append [OF al wf0, of "st_roc st"] d(4) e by auto
  have d1: "mb_data mb1 = a @ (x @ be32 (st_roc st))" using m1(3) d0 by simp
  obtain md where md: "hmac_at ev key (mb1\<lparr>mb_pos := length a\<rparr>) = (0, md)"
    "HMAC_sha1 ev key (x @ be32 (st_roc st)) = Some md" "length md = SHA_DIGEST_LENGTH"
    using hmac_at_data [OF m1(2) d1 _ laws] d(3) by blast
  let ?mb' = "mb1\<lparr>mb_pos := mb_pos mb, mb_end := ?ts\<rparr>"
  have "mbuf_wf ?mb'" using m1(2,4) mbuf_wf_set_end [of mb1 ?ts] by (simp add: mbuf_wf_def)
  moreover have "mb_data ?mb' = a @ x"
    using m1(4) d1 ts mb_data_sel(2) [of ?ts mb1] by (simp add: mb_data_def)
  moreover have "srtp_decrypt_auth al ev cp st ix (length a) mb =
      (if t \<noteq> srtp_tag ev cp (st_roc st) x then (EAUTH, st, ?mb')
       else case srtp_replay_check (st_replay_rtp st) ix of
         (ok, r) \<Rightarrow> (if ok then 0 else EALREADY, st\<lparr>st_replay_rtp := r\<rparr>, ?mb'))"
    using left tag m1(1) md cp(1)
    by (auto simp: srtp_decrypt_auth_def srtp_tag_def Let_def split: prod.splits)
  ultimately show ?thesis by (intro exI [of _ ?mb']) simp
qed

lemma decrypt_cipher_ctr:
  assumes laws: "evp_laws ev vw ks tg" and wf: "mbuf_wf mb"
    and d: "mb_data mb = a @ h @ srtp_body ks tg cp key (st_ssrc st) ix h p" "mb_pos mb = length (a @ h)"
    and cp: "comp_ok vw key cp" "c_mode cp = AES_MODE_CTR"
  shows "\<exists>aes mb'. srtp_decrypt_cipher ev cp st ix (length a) mb = (0, cp\<lparr>c_aes := Some aes\<rparr>, st, mb') \<and>
    mbuf_wf mb' \<and> mb_data mb' = a @ h @ p \<and> comp_ok vw key (cp\<lparr>c_aes := Some aes\<rparr>)"
proof -
  obtain aes where aes: "c_aes cp = Some aes" "vw_key (vw (ae_ctx aes)) = key" "ae_mode aes = c_mode cp"
    using cp(1) by (auto simp: comp_ok_def split: option.splits)
  have ks: "length (ks k iv n) = n" for k iv n using laws by (simp add: evp_laws_def)
  define iv where "iv = srtp_iv_calc (c_k_s cp) (st_ssrc st) ix"
  define y where "y = xor_bytes p (ks key iv (length p))"
  have ly: "length y = length p" by (simp add: y_def ks)
  have body: "mb_data mb = (a @ h) @ y @ []"
    using d(1) cp(2) by (simp add: srtp_body_def y_def iv_def)
  have left: "mbuf_get_left mb = length y" using mbuf_get_left_split [OF wf _ d(2)] body by simp
  define aes0 where "aes0 = aes_set_iv ev aes iv"
  have v0: "vw (ae_ctx aes0) = (vw (ae_ctx aes))\<lparr>vw_iv := iv, vw_aad := [], vw_data := []\<rparr>"
    using aes_set_iv_view [OF laws] by (simp add: aes0_def)
  have p: "p = xor_bytes y (ks (vw_key (vw (ae_ctx aes0))) (vw_iv (vw (ae_ctx aes0))) (length y))"
    using v0 aes(2) ly ks by (simp add: y_def xor_bytes_twice)
  obtain c where c: "aes_decr ev aes0 True y = (0, p, aes0\<lparr>ae_ctx := c, ae_encr := False\<rparr>)"
    "vw c = (vw (ae_ctx aes0))\<lparr>vw_data := y\<rparr>"
    using aes_decr_view [OF laws _ _ p] usable_set_iv [OF laws, of aes iv] v0 by (auto simp: aes0_def)
  obtain mb' where m: "crypt_at (aes_decr ev) aes0 mb (length y) =
      (0, aes0\<lparr>ae_ctx := c, ae_encr := False\<rparr>, mb')" "mbuf_wf mb'" "mb_data mb' = (a @ h) @ p @ []"
    using crypt_at_data [OF wf body d(2) refl, of "aes_decr ev"] c(1) ly by fastforce
  have "comp_ok vw key (cp\<lparr>c_aes := Some (aes0\<lparr>ae_ctx := c, ae_encr := False\<rparr>)\<rparr>)"
    using c(2) v0 aes by (intro comp_ok_upd [OF cp(1)]) (simp_all add: aes0_def)
  moreover have "srtp_decrypt_cipher ev cp st ix (length a) mb =
      (0, cp\<lparr>c_aes := Some (aes0\<lparr>ae_ctx := c, ae_encr := False\<rparr>)\<rparr>, st, mb')"
    using aes(1) cp(2) m(1) left by (simp add: srtp_decrypt_cipher_def aes0_def iv_def)
  ultimately show ?thesis using m by auto
qed

text \<open>In GCM mode the tag is checked by the cipher, after the payload has been deciphered.\<close>

lemma decrypt_cipher_gcm:
  assumes laws: "evp_laws ev vw ks tg" and wf: "mbuf_wf mb"
    and d: "mb_data mb = a @ h @ y @ t" "mb_pos mb = length (a @ h)" "length t = 16"
    and cp: "comp_ok vw key cp" "c_mode cp = AES_MODE_GCM"
    and iv: "iv = srtp_iv_calc_gcm (c_k_s cp) (st_ssrc st) ix"
  shows "\<exists>aes mb'. srtp_decrypt_cipher ev cp st ix (length a) mb =
      (if t \<noteq> tg (gcm_view key iv h y) then (EAUTH, cp\<lparr>c_aes := Some aes\<rparr>, st, mb')
       else case srtp_replay_check (st_replay_rtp st) ix of
         (ok, r) \<Rightarrow> (if ok then 0 else EALREADY, cp\<lparr>c_aes := Some aes\<rparr>, st\<lparr>st_replay_rtp := r\<rparr>,
                     mb'\<lparr>mb_end := mb_end mb - 16\<rparr>)) \<and>
    mbuf_wf mb' \<and> mb_data mb' = a @ h @ xor_bytes y (ks key iv (length y)) @ t \<and> mb_end mb' = mb_end mb \<and>
    comp_ok vw key (cp\<lparr>c_aes := Some aes\<rparr>)"
proof -
  obtain aes where aes: "c_aes cp = Some aes" "vw_key (vw (ae_ctx aes)) = key" "ae_mode aes = c_mode cp"
    using cp(1) by (auto simp: comp_ok_def split: option.splits)
  have ks: "length (ks k iv n) = n" for k iv n using laws by (simp add: evp_laws_def)
  have left: "mbuf_get_left mb = length y + 16"
    using mbuf_get_left_split [OF wf, of "a @ h" "y @ t"] d by simp
  have e: "mb_end mb = length (a @ h @ y) + 16" using length_mb_data [OF wf] d(1,3) by simp
  then have ts: "mb_end mb - 16 - mb_pos mb = length y" "mb_end mb - 16 = length (a @ h @ y)"
    "mb_pos mb - length a = length h" using d(2) by simp_all
  define aes0 where "aes0 = aes_set_iv ev aes iv"
  have v0: "vw (ae_ctx aes0) = (vw (ae_ctx aes))\<lparr>vw_iv := iv, vw_aad := [], vw_data := []\<rparr>"
    using aes_set_iv_view [OF laws] by (simp add: aes0_def)
  obtain c where c: "aes_decr ev aes0 False h = (0, [], aes0\<lparr>ae_ctx := c, ae_encr := False\<rparr>)"
    "vw c = (vw (ae_ctx aes0))\<lparr>vw_aad := h\<rparr>"
    using aes_decr_aad_view [OF laws usable_set_iv [OF laws], of aes iv h] v0 by (auto simp: aes0_def)
  define aes1 where "aes1 = aes0\<lparr>ae_ctx := c, ae_encr := False\<rparr>"
  have aad: "aad_at (aes_decr ev) aes0 mb (length a) (length h) = (0, aes1)"
    using aad_at_data [OF wf d(1), of "aes_decr ev", OF c(1)] by (simp add: aes1_def)
  define p where "p = xor_bytes y (ks key iv (length y))"
  obtain c2 where c2: "aes_decr ev aes1 True y = (0, p, aes1\<lparr>ae_ctx := c2, ae_encr := False\<rparr>)"
    "vw c2 = (vw c)\<lparr>vw_data := y\<rparr>"
    using aes_decr_view [OF laws, of aes1 p y] v0 c(2) aes(2) by (auto simp: aes1_def p_def usable_def)
  define aes2 where "aes2 = aes1\<lparr>ae_ctx := c2, ae_encr := False\<rparr>"
  have d': "mb_data mb = (a @ h) @ y @ t" using d(1) by simp
  obtain mb' where m: "crypt_at (aes_decr ev) aes1 mb (length y) = (0, aes2, mb')" "mbuf_wf mb'"
    "mb_data mb' = (a @ h) @ p @ t" "mb_end mb' = mb_end mb"
    using crypt_at_data [OF wf d' d(2) refl, of "aes_decr ev"] c2(1) ks by (fastforce simp: p_def aes2_def)
  have lp: "length p = length y" by (simp add: p_def ks)
  have rd: "mem_read (mb_buf mb') (length (a @ h @ y)) 16 = Some t"
    using mem_read_data [OF m(2), of "length (a @ h @ y)" 16] m(3,4) e d(3) lp by simp
  have v2: "(vw c2)\<lparr>vw_tag := []\<rparr> = gcm_view key iv h y"
    using c2(2) c(2) v0 aes(2) by (cases "vw (ae_ctx aes)") (simp add: gcm_view_def)
  obtain c3 where c3: "aes_authenticate ev aes2 t =
      (if t = tg (gcm_view key iv h y) then 0 else EAUTH, aes2\<lparr>ae_ctx := c3\<rparr>)" "vw_key (vw c3) = key"
    using aes_authenticate_view [OF laws, of aes2 t] cp(2) aes(2,3) d(3) v2 c2(2) c(2) v0
    by (auto simp: aes2_def aes1_def aes0_def)
  have "comp_ok vw key (cp\<lparr>c_aes := Some (aes2\<lparr>ae_ctx := c3\<rparr>)\<rparr>)"
    using c3(2) aes by (intro comp_ok_upd [OF cp(1)]) (simp_all add: aes2_def aes1_def aes0_def)
  moreover have "srtp_decrypt_cipher ev cp st ix (length a) mb =
      (if t \<noteq> tg (gcm_view key iv h y) then (EAUTH, cp\<lparr>c_aes := Some (aes2\<lparr>ae_ctx := c3\<rparr>)\<rparr>, st, mb')
       else case srtp_replay_check (st_replay_rtp st) ix of
         (ok, r) \<Rightarrow> (if ok then 0 else EALREADY, cp\<lparr>c_aes := Some (aes2\<lparr>ae_ctx := c3\<rparr>)\<rparr>,
                     st\<lparr>st_replay_rtp := r\<rparr>, mb'\<lparr>mb_end := mb_end mb - 16\<rparr>))"
    using aes(1) cp(2) left ts aad m(1) rd c3(1) iv
    by (auto simp: srtp_decrypt_cipher_def aes0_def GCM_TAGLEN_def Let_def split: prod.splits)
  ultimately show ?thesis using m p_def by auto
qed

section \<open>Whole packets\<close>

definition srtp_packet ::
  "'c evp \<Rightarrow> (byte list \<Rightarrow> byte list \<Rightarrow> nat \<Rightarrow> byte list) \<Rightarrow> (view \<Rightarrow> byte list) \<Rightarrow> 'c comp \<Rightarrow> byte list \<Rightarrow>
   32 word \<Rightarrow> nat \<Rightarrow> byte list \<Rightarrow> byte list \<Rightarrow> byte list" where
  "srtp_packet ev ks tg cp key ssrc n h p =
     (let x = h @ srtp_body ks tg cp key ssrc (of_nat n) h p
      in x @ srtp_tag ev cp (of_nat (n div 65536)) x)"

text \<open>Everything of a component but the cipher context, which both sides derive from the same key.\<close>

definition same_params :: "'c comp \<Rightarrow> 'c comp \<Rightarrow> bool" where
  "same_params c1 c2 \<longleftrightarrow> c_mode c1 = c_mode c2 \<and> c_hmac c1 = c_hmac c2 \<and> c_k_s c1 = c_k_s c2 \<and>
     c_tag_len c1 = c_tag_len c2"

lemma same_params_packet:
  "same_params c1 c2 \<Longrightarrow> srtp_packet ev ks tg c1 key ssrc n h p = srtp_packet ev ks tg c2 key ssrc n h p"
  unfolding same_params_def srtp_packet_def srtp_body_def srtp_tag_def by (elim conjE) (simp only:)

text \<open>\<open>session s ssrc N\<close>: the stream of \<open>ssrc\<close> has seen packet number \<open>N\<close>, and accepted none above.\<close>

definition session :: "('c \<Rightarrow> view) \<Rightarrow> byte list \<Rightarrow> 'c srtp \<Rightarrow> 32 word \<Rightarrow> nat \<Rightarrow> bool" where
  "session vw key s ssrc N \<longleftrightarrow> comp_ok vw key (sr_rtp s) \<and>
     (\<exists>i. stream_find (sr_streaml s) ssrc = Some i \<and> at_index (strm_at s i) N \<and>
          unat (rp_lix (st_replay_rtp (strm_at s i))) \<le> N)"

lemma length_srtp_packet:
  assumes "evp_laws ev vw ks tg" "session vw key s ssrc N"
  shows "length (srtp_packet ev ks tg (sr_rtp s) key ssrc n h p) \<le> length (h @ p) + 36"
proof -
  have b: "length (srtp_body ks tg (sr_rtp s) key ssrc (of_nat n) h p) \<le> length p + 16"
    using assms(1) by (simp add: srtp_body_def evp_laws_def Let_def split: aes_mode.split)
  have t: "length (srtp_tag ev (sr_rtp s) roc x) \<le> 20" for roc x
    using assms(2) by (auto simp: srtp_tag_def session_def comp_ok_def SHA_DIGEST_LENGTH_def split: option.splits)
  from add_mono [OF b t] show ?thesis by (simp add: srtp_packet_def Let_def add.commute [of 36])
qed

lemma same_params_aes [simp]: "same_params (c\<lparr>c_aes := a\<rparr>) c" "same_params c c"
  by (simp_all add: same_params_def)

lemma stream_find_Some: "stream_find sts ssrc = Some i \<Longrightarrow> i < length sts \<and> st_ssrc (sts ! i) = ssrc"
  by (induction sts ssrc arbitrary: i rule: stream_find.induct) (auto split: if_splits)

lemma stream_find_update:
  "stream_find sts ssrc = Some i \<Longrightarrow> st_ssrc st = ssrc \<Longrightarrow> stream_find (sts[i := st]) ssrc = Some i"
  by (induction sts ssrc arbitrary: i rule: stream_find.induct) (auto split: if_splits)

lemma roll_ssrc [simp]: "st_ssrc (roll st seq) = st_ssrc st" "st_ssrc (bump st seq) = st_ssrc st"
    "st_replay_rtp (roll st seq) = st_replay_rtp st" "st_replay_rtp (bump st seq) = st_replay_rtp st"
    "st_s_l_set (roll st seq) = st_s_l_set st"
  by (simp_all add: roll_def bump_def)

lemma stream_get_seq_known:
  "stream_find (sr_streaml s) ssrc = Some i \<Longrightarrow> st_s_l_set (strm_at s i) \<Longrightarrow>
   stream_get_seq al s ssrc seq = (0, i, s)"
  by (simp add: stream_get_seq_def stream_get_def)

lemma strm_set_sel [simp]:
  "i < length (sr_streaml s) \<Longrightarrow> strm_at (strm_set s i st) i = st"
  "sr_rtp (strm_set s i st) = sr_rtp s" "strm_at (s\<lparr>sr_rtp := cp\<rparr>) i = strm_at s i"
  "sr_streaml (strm_set s i st) = (sr_streaml s)[i := st]"
  by (simp_all add: strm_at_def strm_set_def)

lemma srtp_encrypt_eq:
  assumes "rtp_hdr_decode zero_header mb = (0, hdr, mb1)"
    "stream_get_seq al s (h_ssrc hdr) (h_seq hdr) = (0, i, s)" "st = roll (strm_at s i) (h_seq hdr)"
    "srtp_encrypt_cipher al ev (sr_rtp s) (st_ssrc (strm_at s i))
       (65536 * ucast (st_roc st) + ucast (h_seq hdr)) (mb_pos mb) mb1 = (0, cp1, mb2)"
    "srtp_encrypt_auth al ev cp1 (st_roc st) (mb_pos mb) mb2 = (0, mb3)"
  shows "srtp_encrypt al ev s mb =
    (0, strm_set ((strm_set s i st)\<lparr>sr_rtp := cp1\<rparr>) i (bump st (h_seq hdr)), mb3\<lparr>mb_pos := mb_pos mb\<rparr>)"
  using assms unfolding srtp_encrypt_def roll_def [symmetric] bump_def [symmetric]
  by (simp add: Let_def)

lemma rtp_packet_decode:
  assumes "rtp_parse zero_header (h @ p) = (0, hdr, length h)" "mbuf_wf mb" "mb_data mb = a @ h @ q"
    "mb_pos mb = length a"
  shows "rtp_hdr_decode zero_header mb = (0, hdr, mb_adv mb (length h))"
  using rtp_parse_local [OF assms(1), of q] assms(2-4) by (simp add: rtp_hdr_decode_parse mb_left_data)

lemma srtp_encrypt_packet:
  assumes laws: "evp_laws ev vw ks tg" and al: "mem_ok al" and wf: "mbuf_wf mb"
    and d: "mb_data mb = a @ h @ p" "mb_pos mb = length a" "mb_end mb + 40 < 2 ^ 31"
    and h: "rtp_parse zero_header (h @ p) = (0, hdr, length h)" "h_ssrc hdr = ssrc" "h_seq hdr = of_nat n"
    and s: "session vw key s ssrc N" "N \<le> n" "n < N + 32768" "n < 2 ^ 47"
  shows "\<exists>s' mb'. srtp_encrypt al ev s mb = (0, s', mb') \<and> mbuf_wf mb' \<and> mb_pos mb' = length a \<and>
    mb_data mb' = a @ srtp_packet ev ks tg (sr_rtp s) key ssrc n h p \<and>
    session vw key s' ssrc n \<and> same_params (sr_rtp s') (sr_rtp s)"
proof -
  obtain i where i: "stream_find (sr_streaml s) ssrc = Some i" "at_index (strm_at s i) N"
    "unat (rp_lix (st_replay_rtp (strm_at s i))) \<le> N" and cp: "comp_ok vw key (sr_rtp s)"
    using s(1) by (auto simp: session_def)
  have il: "i < length (sr_streaml s)" "st_ssrc (strm_at s i) = ssrc"
    using stream_find_Some [OF i(1)] by (auto simp: strm_at_def)
  let ?st = "roll (strm_at s i) (of_nat n)"
  have roc: "st_roc ?st = of_nat (n div 65536)" and at: "at_index (bump ?st (of_nat n)) n"
    using index_step [OF i(2) _ s(3,4)] div_le_mono [OF s(2), of 65536] s(2) by (auto simp: max_absorb2)
  have dec: "rtp_hdr_decode zero_header mb = (0, hdr, mb_adv mb (length h))"
    by (rule rtp_packet_decode [OF h(1) wf d(1,2)])
  have get: "stream_get_seq al s (h_ssrc hdr) (h_seq hdr) = (0, i, s)"
    using i(2) by (simp add: stream_get_seq_known [OF i(1)] h(2) at_index_def)
  have "mbuf_wf (mb_adv mb (length h))" "mb_data (mb_adv mb (length h)) = a @ h @ p"
    "mb_pos (mb_adv mb (length h)) = length (a @ h)" "mb_end (mb_adv mb (length h)) + 16 < 2 ^ 31"
    using wf d by simp_all
  from encrypt_cipher_body [OF laws al this cp, of ssrc "of_nat n"]
  obtain cp1 mb2 where c: "srtp_encrypt_cipher al ev (sr_rtp s) ssrc (of_nat n) (length a) (mb_adv mb (length h)) = (0, cp1, mb2)"
    "mbuf_wf mb2" "mb_data mb2 = a @ h @ srtp_body ks tg (sr_rtp s) key ssrc (of_nat n) h p"
    "comp_ok vw key cp1" "\<exists>aes. cp1 = (sr_rtp s)\<lparr>c_aes := Some aes\<rparr>" by metis
  have ne: "h @ srtp_body ks tg (sr_rtp s) key ssrc (of_nat n) h p \<noteq> []"
    using rtp_parse_local [OF h(1)] by auto
  have "length (srtp_body ks tg (sr_rtp s) key ssrc (of_nat n) h p) \<le> length p + 16"
    using laws by (simp add: srtp_body_def evp_laws_def Let_def split: aes_mode.split)
  then have "mb_end mb2 + 24 < 2 ^ 31"
    using d(1,3) length_mb_data [OF wf] length_mb_data [OF c(2)] c(3) by simp
  moreover have "c_tag_len cp1 \<le> SHA_DIGEST_LENGTH" using c(4) by (simp add: comp_ok_def)
  ultimately obtain mb3 where t: "srtp_encrypt_auth al ev cp1 (of_nat (n div 65536)) (length a) mb2 = (0, mb3)"
    "mbuf_wf mb3" "mb_data mb3 = a @ (h @ srtp_body ks tg (sr_rtp s) key ssrc (of_nat n) h p) @
      srtp_tag ev cp1 (of_nat (n div 65536)) (h @ srtp_body ks tg (sr_rtp s) key ssrc (of_nat n) h p)"
    using encrypt_auth_tag [OF laws al c(2,3) ne] by auto
  let ?s' = "strm_set ((strm_set s i ?st)\<lparr>sr_rtp := cp1\<rparr>) i (bump ?st (of_nat n))"
  have "srtp_encrypt al ev s mb = (0, ?s', mb3\<lparr>mb_pos := length a\<rparr>)"
    using srtp_encrypt_eq [OF dec get refl, of ev cp1 mb2 mb3] c(1) t(1) roc il ix_of_nat(2) [OF s(4)] h d(2)
    by simp
  moreover have "session vw key ?s' ssrc n"
    using i c(4) at il s(2) by (simp add: session_def stream_find_update)
  moreover have "srtp_tag ev cp1 = srtp_tag ev (sr_rtp s)"
    using c(5) by (auto simp: srtp_tag_def fun_eq_iff split: option.split)
  ultimately show ?thesis
    using t(2,3) c(5) by (auto simp: srtp_packet_def Let_def)
qed

lemma srtp_decrypt_eq:
  assumes "rtp_hdr_decode zero_header mb = (0, hdr, mb1)"
    "stream_get_seq al s (h_ssrc hdr) (h_seq hdr) = (0, i, s)" "st = roll (strm_at s i) (h_seq hdr)"
    "seq_diff (st_s_l (strm_at s i)) (h_seq hdr) \<le> 32768"
    "srtp_decrypt_auth al ev (sr_rtp s) st (srtp_get_index (st_roc st) (st_s_l st) (h_seq hdr))
       (mb_pos mb) mb1 = (0, st2, mb2)"
    "srtp_decrypt_cipher ev (sr_rtp s) st2 (srtp_get_index (st_roc st) (st_s_l st) (h_seq hdr))
       (mb_pos mb) mb2 = (0, cp1, st3, mb3)"
  shows "srtp_decrypt al ev s mb =
    (0, strm_set ((strm_set s i st3)\<lparr>sr_rtp := cp1\<rparr>) i (bump st3 (h_seq hdr)), mb3\<lparr>mb_pos := mb_pos mb\<rparr>)"
  using assms unfolding srtp_decrypt_def Let_def roll_def [symmetric] bump_def [symmetric] by simp

lemma replay_newer:
  assumes "unat (rp_lix r) \<le> M" "M < n" "n < 2 ^ 47"
  shows "\<exists>r'. srtp_replay_check r (of_nat n) = (True, r') \<and> rp_lix r' = of_nat n"
proof -
  have "rp_lix r < of_nat n" using assms by (simp add: word_less_nat_alt unat_of_nat)
  then show ?thesis by (simp add: srtp_replay_check_def Let_def)
qed

lemma at_index_replay [simp]:
  "at_index (bump (st\<lparr>st_replay_rtp := r\<rparr>) seq) N = at_index (bump st seq) N"
  "st_replay_rtp (bump (st\<lparr>st_replay_rtp := r\<rparr>) seq) = r"
  by (simp_all add: bump_def at_index_def)

text \<open>The two steps of the receiver together, on a genuine packet with a new index.\<close>

lemma decrypt_steps:
  assumes laws: "evp_laws ev vw ks tg" and al: "mem_ok al" and wf: "mbuf_wf mb"
    and d: "mb_data mb = a @ srtp_packet ev ks tg cp key (st_ssrc st) n h p" "mb_pos mb = length (a @ h)"
      "mb_end mb + 4 < 2 ^ 31" "h \<noteq> []"
    and cp: "comp_ok vw key cp" and roc: "st_roc st = of_nat (n div 65536)"
    and r: "srtp_replay_check (st_replay_rtp st) (of_nat n) = (True, r)"
  shows "\<exists>st2 mb2 aes mb3. srtp_decrypt_auth al ev cp st (of_nat n) (length a) mb = (0, st2, mb2) \<and>
    srtp_decrypt_cipher ev cp st2 (of_nat n) (length a) mb2 =
      (0, cp\<lparr>c_aes := Some aes\<rparr>, st\<lparr>st_replay_rtp := r\<rparr>, mb3) \<and>
    mbuf_wf mb3 \<and> mb_data mb3 = a @ h @ p \<and> comp_ok vw key (cp\<lparr>c_aes := Some aes\<rparr>)"
proof (cases "c_mode cp")
  case AES_MODE_CTR
  then obtain k where k: "c_hmac cp = Some k" "0 < c_tag_len cp" "c_tag_len cp \<le> SHA_DIGEST_LENGTH"
    using cp by (auto simp: comp_ok_def)
  let ?x = "h @ srtp_body ks tg cp key (st_ssrc st) (of_nat n) h p"
  let ?t = "srtp_tag ev cp (of_nat (n div 65536)) ?x"
  obtain md where md: "HMAC_sha1 ev k (?x @ be32 (of_nat (n div 65536))) = Some md" "length md = SHA_DIGEST_LENGTH"
    using hmac_digest_ok [OF laws, of "?x @ be32 (of_nat (n div 65536))" k] d(4) by auto
  have lt: "length ?t = c_tag_len cp" using md k by (simp add: srtp_tag_def)
  have dx: "mb_data mb = a @ ?x @ ?t" using d(1) by (simp add: srtp_packet_def Let_def)
  have "?x \<noteq> []" "length a \<le> mb_pos mb" "mb_pos mb \<le> length (a @ ?x)" using d(2,4) by simp_all
  from decrypt_auth_tag [OF laws al wf dx lt this(1) d(3) this(2,3) k(1,2), of st "of_nat n"]
  obtain mb2 where m2: "srtp_decrypt_auth al ev cp st (of_nat n) (length a) mb = (0, st\<lparr>st_replay_rtp := r\<rparr>, mb2)"
    "mbuf_wf mb2" "mb_data mb2 = a @ ?x" "mb_pos mb2 = mb_pos mb"
    using r roc by auto
  show ?thesis
    using decrypt_cipher_ctr [OF laws m2(2), of a h cp key "st\<lparr>st_replay_rtp := r\<rparr>" "of_nat n" p]
      m2 d(2) cp AES_MODE_CTR by auto
next
  case AES_MODE_GCM
  then have hm: "c_hmac cp = None" using cp by (auto simp: comp_ok_def)
  define iv where "iv = srtp_iv_calc_gcm (c_k_s cp) (st_ssrc st) (of_nat n)"
  define y where "y = xor_bytes p (ks key iv (length p))"
  have ks: "length (ks k iv n) = n" and tg: "length (tg v) = 16" for k iv n v
    using laws by (simp_all add: evp_laws_def)
  have dx: "mb_data mb = a @ h @ y @ tg (gcm_view key iv h y)"
    using d(1) hm AES_MODE_GCM
    by (simp add: srtp_packet_def srtp_body_def srtp_tag_def Let_def iv_def y_def)
  from decrypt_cipher_gcm [OF laws wf dx d(2) tg cp AES_MODE_GCM, of iv st "of_nat n"]
  obtain aes mb' where m: "srtp_decrypt_cipher ev cp st (of_nat n) (length a) mb =
      (0, cp\<lparr>c_aes := Some aes\<rparr>, st\<lparr>st_replay_rtp := r\<rparr>, mb'\<lparr>mb_end := mb_end mb - 16\<rparr>)"
    "mbuf_wf mb'" "mb_data mb' = a @ h @ xor_bytes y (ks key iv (length y)) @ tg (gcm_view key iv h y)"
    "mb_end mb' = mb_end mb" "comp_ok vw key (cp\<lparr>c_aes := Some aes\<rparr>)"
    using r iv_def by auto
  have p: "xor_bytes y (ks key iv (length y)) = p" by (simp add: y_def ks xor_bytes_twice)
  have "mb_end mb - 16 = length (a @ h @ p)"
    using length_mb_data [OF wf] dx tg by (simp add: y_def ks)
  then have "mb_data (mb'\<lparr>mb_end := mb_end mb - 16\<rparr>) = a @ h @ p" using m(3,4) p by simp
  moreover have "srtp_decrypt_auth al ev cp st (of_nat n) (length a) mb = (0, st, mb)"
    using hm by (simp add: srtp_decrypt_auth_def)
  moreover have "mbuf_wf (mb'\<lparr>mb_end := mb_end mb - 16\<rparr>)" using m(2,4) by (simp add: mbuf_wf_set_end)
  ultimately show ?thesis using m(1,5) by blast
qed

lemma srtp_decrypt_packet:
  assumes laws: "evp_laws ev vw ks tg" and al: "mem_ok al" and wf: "mbuf_wf mb"
    and d: "mb_data mb = a @ srtp_packet ev ks tg cp key ssrc n h p" "mb_pos mb = length a" "mb_end mb + 4 < 2 ^ 31"
    and h: "rtp_parse zero_header (h @ p) = (0, hdr, length h)" "h_ssrc hdr = ssrc" "h_seq hdr = of_nat n"
    and s: "session vw key s ssrc M" "M < n" "n < M + 32768" "n < 2 ^ 47" "same_params (sr_rtp s) cp"
  shows "\<exists>s' mb'. srtp_decrypt al ev s mb = (0, s', mb') \<and> mbuf_wf mb' \<and> mb_pos mb' = length a \<and>
    mb_data mb' = a @ h @ p \<and> session vw key s' ssrc n \<and> same_params (sr_rtp s') cp"
proof -
  obtain i where i: "stream_find (sr_streaml s) ssrc = Some i" "at_index (strm_at s i) M"
    "unat (rp_lix (st_replay_rtp (strm_at s i))) \<le> M" and cp: "comp_ok vw key (sr_rtp s)"
    using s(1) by (auto simp: session_def)
  have il: "i < length (sr_streaml s)" "st_ssrc (strm_at s i) = ssrc"
    using stream_find_Some [OF i(1)] by (auto simp: strm_at_def)
  let ?st = "roll (strm_at s i) (of_nat n)"
  have ix: "seq_diff (st_s_l (strm_at s i)) (of_nat n) \<le> 32768" "st_roc ?st = of_nat (n div 65536)"
    "srtp_get_index (st_roc ?st) (st_s_l ?st) (of_nat n) = of_nat n" "at_index (bump ?st (of_nat n)) n"
    using index_step [OF i(2) _ s(3,4)] div_le_mono [of M n 65536] s(2) by (auto simp: max_absorb2)
  obtain q where q: "srtp_packet ev ks tg cp key ssrc n h p = h @ q"
    by (simp add: srtp_packet_def Let_def)
  have dec: "rtp_hdr_decode zero_header mb = (0, hdr, mb_adv mb (length h))"
    by (rule rtp_packet_decode [OF h(1) wf d(1) [unfolded q] d(2)])
  have get: "stream_get_seq al s (h_ssrc hdr) (h_seq hdr) = (0, i, s)"
    using i(2) by (simp add: stream_get_seq_known [OF i(1)] h(2) at_index_def)
  obtain r where r: "srtp_replay_check (st_replay_rtp ?st) (of_nat n) = (True, r)" "rp_lix r = of_nat n"
    using replay_newer [OF i(3) s(2,4)] by auto
  have "mbuf_wf (mb_adv mb (length h))" "mb_pos (mb_adv mb (length h)) = length (a @ h)"
    "mb_end (mb_adv mb (length h)) + 4 < 2 ^ 31" "h \<noteq> []"
    "mb_data (mb_adv mb (length h)) = a @ srtp_packet ev ks tg (sr_rtp s) key (st_ssrc ?st) n h p"
    using wf d il(2) rtp_parse_local [OF h(1)] same_params_packet [OF s(5)] by auto
  from decrypt_steps [OF laws al this(1,5,2,3,4) cp ix(2) r(1)]
  obtain st2 mb2 aes mb3 where m: "srtp_decrypt_auth al ev (sr_rtp s) ?st (of_nat n) (length a) (mb_adv mb (length h)) = (0, st2, mb2)"
    "srtp_decrypt_cipher ev (sr_rtp s) st2 (of_nat n) (length a) mb2 =
      (0, (sr_rtp s)\<lparr>c_aes := Some aes\<rparr>, ?st\<lparr>st_replay_rtp := r\<rparr>, mb3)"
    "mbuf_wf mb3" "mb_data mb3 = a @ h @ p" "comp_ok vw key ((sr_rtp s)\<lparr>c_aes := Some aes\<rparr>)"
    by blast
  let ?st3 = "?st\<lparr>st_replay_rtp := r\<rparr>"
  let ?s' = "strm_set ((strm_set s i ?st3)\<lparr>sr_rtp := (sr_rtp s)\<lparr>c_aes := Some aes\<rparr>\<rparr>) i (bump ?st3 (of_nat n))"
  have "srtp_decrypt al ev s mb = (0, ?s', mb3\<lparr>mb_pos := length a\<rparr>)"
    using srtp_decrypt_eq [OF dec get refl, of ev st2 mb2] m(1,2) ix(1,3) h d(2) by simp
  moreover have "session vw key ?s' ssrc n"
    using i m(5) ix(4) il s(4) r(2) by (simp add: session_def stream_find_update unat_of_nat)
  moreover have "same_params (sr_rtp ?s') cp" using s(5) by (simp add: same_params_def)
  ultimately show ?thesis using m(3,4) by auto
qed

section \<open>A sender, a lossy channel and a receiver\<close>

text \<open>
  The sender protects every packet; the receiver gets those marked as delivered and hands the
  bytes left in the buffer to its user.  \<open>None\<close>: some call reported an error.
\<close>

fun srtp_channel ::
  "alloc \<Rightarrow> 'c evp \<Rightarrow> 'c srtp \<Rightarrow> 'c srtp \<Rightarrow> (nat \<times> mbuf \<times> bool) list \<Rightarrow> byte list list option" where
  "srtp_channel al ev tx rx [] = Some []"
| "srtp_channel al ev tx rx ((n, mb, delivered) # ps) =
     (case srtp_encrypt al ev tx mb of
        (err, tx', mb') \<Rightarrow>
          if err \<noteq> 0 then None
          else if \<not> delivered then srtp_channel al ev tx' rx ps
          else case srtp_decrypt al ev rx mb' of
            (err, rx', mb'') \<Rightarrow>
              if err \<noteq> 0 then None
              else map_option ((#) (mb_left mb'')) (srtp_channel al ev tx' rx' ps))"

definition packet_ok :: "32 word \<Rightarrow> nat \<Rightarrow> mbuf \<Rightarrow> bool" where
  "packet_ok ssrc n mb \<longleftrightarrow> mbuf_wf mb \<and> mb_pos mb \<le> mb_end mb \<and> mb_end mb + 40 < 2 ^ 31 \<and> n < 2 ^ 47 \<and>
     (case rtp_parse zero_header (mb_left mb) of
        (err, hdr, k) \<Rightarrow> err = 0 \<and> h_ssrc hdr = ssrc \<and> h_seq hdr = of_nat n)"

text \<open>
  Increasing packet numbers; \<open>N\<close> is the last one sent and \<open>M\<close> the last one delivered, and fewer than
  32768 packets in a row are lost.
\<close>

fun sendable :: "32 word \<Rightarrow> nat \<Rightarrow> nat \<Rightarrow> (nat \<times> mbuf \<times> bool) list \<Rightarrow> bool" where
  "sendable ssrc N M [] = True"
| "sendable ssrc N M ((n, mb, delivered) # ps) =
     (packet_ok ssrc n mb \<and> N < n \<and> n < M + 32768 \<and> sendable ssrc n (if delivered then n else M) ps)"

lemma packet_ok_split:
  assumes "packet_ok ssrc n mb"
  obtains a h p hdr where "mb_data mb = a @ h @ p" "mb_pos mb = length a" "mb_left mb = h @ p"
    "rtp_parse zero_header (h @ p) = (0, hdr, length h)" "h_ssrc hdr = ssrc" "h_seq hdr = of_nat n"
proof -
  obtain hdr k where k: "rtp_parse zero_header (mb_left mb) = (0, hdr, k)" "h_ssrc hdr = ssrc" "h_seq hdr = of_nat n"
    using assms by (auto simp: packet_ok_def split: prod.splits)
  have kl: "k \<le> length (mb_left mb)" using rtp_parse_local [OF k(1)] by blast
  have "mb_pos mb \<le> length (mb_data mb)" using assms length_mb_data by (simp add: packet_ok_def)
  then have a: "mb_data mb = take (mb_pos mb) (mb_data mb) @ mb_left mb"
    "length (take (mb_pos mb) (mb_data mb)) = mb_pos mb" by (simp_all add: mb_left_data)
  obtain h p where "mb_left mb = h @ p" "length h = k"
    using kl by (metis append_take_drop_id length_take min_absorb2)
  then show ?thesis using that [of "take (mb_pos mb) (mb_data mb)" h p hdr] a k by simp
qed

text \<open>
  C1. Secure RTP delivers.  Both sides share keys and have agreed on the stream; the sender
  protects packets with increasing numbers across any number of roll-overs of the sequence
  number (up to \<open>2 ^ 47\<close> packets), and up to 32767 packets in a row may be lost.  Then no call
  fails and the receiver obtains exactly the packets that were delivered, byte for byte, for the
  counter-mode suites with HMAC and for the GCM suites.
\<close>

theorem srtp_channel_delivers:
  assumes "evp_laws ev vw ks tg" "mem_ok al" "session vw key tx ssrc N" "session vw key rx ssrc M" "M \<le> N"
    "same_params (sr_rtp rx) (sr_rtp tx)" "sendable ssrc N M ps"
  shows "srtp_channel al ev tx rx ps = Some (map (\<lambda>(n, mb, d). mb_left mb) (filter (\<lambda>(n, mb, d). d) ps))"
  using assms(3-)
proof (induction ps arbitrary: tx rx N M)
  case (Cons x ps)
  obtain n mb d where x: "x = (n, mb, d)" by (cases x)
  have ok: "packet_ok ssrc n mb" "N < n" "n < M + 32768" and rest: "sendable ssrc n (if d then n else M) ps"
    using Cons.prems(5) x by auto
  obtain a h p hdr where pk: "mb_data mb = a @ h @ p" "mb_pos mb = length a" "mb_left mb = h @ p"
    "rtp_parse zero_header (h @ p) = (0, hdr, length h)" "h_ssrc hdr = ssrc" "h_seq hdr = of_nat n"
    using packet_ok_split [OF ok(1)] .
  have wf: "mbuf_wf mb" "mb_end mb + 40 < 2 ^ 31" "n < 2 ^ 47" using ok(1) by (auto simp: packet_ok_def)
  have n: "N \<le> n" "n < N + 32768" "M < n" using ok Cons.prems(3) by auto
  from srtp_encrypt_packet [OF assms(1,2) wf(1) pk(1,2) wf(2) pk(4-6) Cons.prems(1) n(1,2) wf(3)]
  obtain tx' mb' where e: "srtp_encrypt al ev tx mb = (0, tx', mb')" "mbuf_wf mb'" "mb_pos mb' = length a"
    "mb_data mb' = a @ srtp_packet ev ks tg (sr_rtp tx) key ssrc n h p" "session vw key tx' ssrc n"
    "same_params (sr_rtp tx') (sr_rtp tx)" by blast
  show ?case
  proof (cases d)
    case False
    have "same_params (sr_rtp rx) (sr_rtp tx')" using Cons.prems(4) e(6) by (simp add: same_params_def)
    from Cons.IH [OF e(5) Cons.prems(2) less_imp_le [OF n(3)] this] rest False show ?thesis
      by (simp add: x e(1))
  next
    case True
    have len: "length (srtp_packet ev ks tg (sr_rtp tx) key ssrc n h p) \<le> length (h @ p) + 36"
      using assms(1) Cons.prems(1) by (rule length_srtp_packet)
    have "mb_end mb' + 4 < 2 ^ 31"
      using len wf length_mb_data [OF wf(1)] length_mb_data [OF e(2)] e(4) pk(1) by simp
    from srtp_decrypt_packet [OF assms(1,2) e(2,4,3) this pk(4-6) Cons.prems(2) n(3) ok(3) wf(3) Cons.prems(4)]
    obtain rx' mb'' where r: "srtp_decrypt al ev rx mb' = (0, rx', mb'')" "mb_pos mb'' = length a"
      "mb_data mb'' = a @ h @ p" "session vw key rx' ssrc n" "same_params (sr_rtp rx') (sr_rtp tx)" by blast
    have "same_params (sr_rtp rx') (sr_rtp tx')" using r(5) e(6) by (simp add: same_params_def)
    from Cons.IH [OF e(5) r(4) order_refl this] rest True show ?thesis
      by (simp add: x e(1) r(1) mb_left_data r(2,3) pk(3) [symmetric])
  qed
qed simp

section \<open>A concrete instance\<close>

text \<open>A simple cipher that satisfies the laws, to evaluate the theorems on.\<close>

definition toy_ks :: "byte list \<Rightarrow> byte list \<Rightarrow> nat \<Rightarrow> byte list" where
  "toy_ks key iv n = replicate n 0x5a"

definition toy_tag :: "view \<Rightarrow> byte list" where
  "toy_tag v = replicate 16 (of_nat (length (vw_aad v) + length (vw_data v)))"

definition toy_evp :: "view evp" where
  "toy_evp =
     \<lparr>EVP_CIPHER_CTX_new = True,
      EVP_EncryptInit_ex = (\<lambda>mode bits key iv. Some
        \<lparr>vw_key = key, vw_iv = (case iv of None \<Rightarrow> [] | Some v \<Rightarrow> v), vw_aad = [], vw_data = [], vw_tag = []\<rparr>),
      EVP_CipherInit_iv = (\<lambda>c iv. (True, c\<lparr>vw_iv := iv, vw_aad := [], vw_data := []\<rparr>)),
      EVP_CipherInit_dir = (\<lambda>c b. (True, c)),
      EVP_EncryptUpdate = (\<lambda>c out x.
        if out then let y = xor_bytes x (toy_ks (vw_key c) (vw_iv c) (length x)) in (True, y, c\<lparr>vw_data := y\<rparr>)
        else (True, [], c\<lparr>vw_aad := vw_aad c @ x\<rparr>)),
      EVP_DecryptUpdate = (\<lambda>c out x.
        if out then (True, xor_bytes x (toy_ks (vw_key c) (vw_iv c) (length x)), c\<lparr>vw_data := x\<rparr>)
        else (True, [], c\<lparr>vw_aad := vw_aad c @ x\<rparr>)),
      EVP_EncryptFinal_ex = (\<lambda>c. (True, c)),
      EVP_CTRL_GCM_GET_TAG = (\<lambda>c n. (True, take n (toy_tag (c\<lparr>vw_tag := []\<rparr>)))),
      EVP_CTRL_GCM_SET_TAG = (\<lambda>c t. (True, c\<lparr>vw_tag := t\<rparr>)),
      EVP_DecryptFinal_ex = (\<lambda>c.
        (if vw_tag c = take (length (vw_tag c)) (toy_tag (c\<lparr>vw_tag := []\<rparr>)) then 1 else 0, c)),
      HMAC_sha1 = (\<lambda>key d. Some (replicate 20 (of_nat (length d))))\<rparr>"

lemma toy_evp_laws: "evp_laws toy_evp (\<lambda>c. c) toy_ks toy_tag"
  by (simp add: evp_laws_def toy_evp_def toy_ks_def toy_tag_def SHA_DIGEST_LENGTH_def Let_def)

definition toy_comp :: "aes_mode \<Rightarrow> view comp" where
  "toy_comp mode =
     \<lparr>c_aes = Some \<lparr>ae_ctx = \<lparr>vw_key = [1], vw_iv = [], vw_aad = [], vw_data = [], vw_tag = []\<rparr>,
                    ae_mode = mode, ae_encr = True\<rparr>,
      c_mode = mode, c_hmac = (if mode = AES_MODE_CTR then Some [2] else None),
      c_k_s = replicate 16 0, c_tag_len = (if mode = AES_MODE_CTR then 10 else 0)\<rparr>"

definition toy_session :: "aes_mode \<Rightarrow> 32 word \<Rightarrow> 16 word \<Rightarrow> view srtp" where
  "toy_session mode ssrc seq =
     \<lparr>sr_rtp = toy_comp mode, sr_rtcp = toy_comp mode,
      sr_streaml = [\<lparr>st_replay_rtp = srtp_replay_init, st_replay_rtcp = srtp_replay_init, st_ssrc = ssrc,
                     st_roc = 0, st_s_l = seq, st_s_l_set = True, st_rtcp_index = 0\<rparr>]\<rparr>"

definition toy_packet :: "byte \<Rightarrow> byte \<Rightarrow> byte list \<Rightarrow> mbuf" where
  "toy_packet hi lo p =
     (let bs = [0x80, 0, hi, lo, 0, 0, 0, 0, 0, 0, 0, 7] @ p
      in \<lparr>mb_buf = bs, mb_size = length bs, mb_pos = 0, mb_end = length bs, mb_shared = False\<rparr>)"

lemma toy_session_ok: "n < 65536 \<Longrightarrow> session (\<lambda>c. c) [1] (toy_session mode 7 (of_nat n)) 7 n"
  by (auto simp: session_def toy_session_def toy_comp_def comp_ok_def at_index_def strm_at_def
      srtp_replay_init_def SHA_DIGEST_LENGTH_def) (cases mode; simp)

text \<open>Three packets around a roll-over, the second of which is lost.\<close>

theorem srtp_channel_delivers_witness:
  "srtp_channel (\<lambda>n. Some (\<lambda>i. 0)) toy_evp (toy_session AES_MODE_GCM 7 0xfffe) (toy_session AES_MODE_GCM 7 0xfffe)
     [(65535, toy_packet 0xff 0xff [1, 2], True), (65536, toy_packet 0 0 [3], False),
      (65537, toy_packet 0 1 [4], True)] =
   Some [[0x80, 0, 0xff, 0xff, 0, 0, 0, 0, 0, 0, 0, 7, 1, 2], [0x80, 0, 0, 1, 0, 0, 0, 0, 0, 0, 0, 7, 4]]"
proof -
  let ?ps = "[(65535 :: nat, toy_packet 0xff 0xff [1, 2], True), (65536, toy_packet 0 0 [3], False),
      (65537, toy_packet 0 1 [4], True)]"
  have s: "session (\<lambda>c. c) [1] (toy_session AES_MODE_GCM 7 0xfffe) 7 65534"
    using toy_session_ok [of 65534 AES_MODE_GCM] by simp
  have "packet_ok 7 65535 (toy_packet 0xff 0xff [1, 2])" "packet_ok 7 65536 (toy_packet 0 0 [3])"
    "packet_ok 7 65537 (toy_packet 0 1 [4])"
    by (simp_all add: packet_ok_def toy_packet_def mbuf_wf_def MEM_SIZE_MAX_def mb_left_def rtp_parse_def
        rtp_parse_var_def rtp_fixed_def unle16_def unle32_def htons_def htonl_def)
  then have "sendable 7 65534 65534 ?ps" by simp
  from srtp_channel_delivers [OF toy_evp_laws _ s s order_refl _ this, of "\<lambda>n. Some (\<lambda>i. 0)"] show ?thesis
    by (simp add: mem_ok_def mb_left_def toy_packet_def)
qed

end
