(* ===== verification/Srtp_Security.thy ===== *)
theory Srtp_Security
  imports Srtp_Channel
begin

text \<open>
  What secure RTP promises against an attacker who controls the network: an index is accepted at
  most once, and only with a valid tag.  The last section states where the code does not keep
  the promise: it changes its state before a packet is authenticated, and in GCM mode it accepts
  RTCP packets without any authentication.
\<close>

section \<open>Replay state\<close>

definition replay_of :: "'c srtp \<Rightarrow> 32 word \<Rightarrow> replay" where
  "replay_of s ssrc = (case stream_find (sr_streaml s) ssrc of
     None \<Rightarrow> srtp_replay_init | Some i \<Rightarrow> st_replay_rtp (strm_at s i))"

lemma stream_find_append:
  "stream_find (xs @ [y]) k = (case stream_find xs k of
     Some i \<Rightarrow> Some i | None \<Rightarrow> if st_ssrc y = k then Some (length xs) else None)"
  by (induction xs) (auto split: option.splits)

lemma stream_find_upd:
  "st_ssrc st = st_ssrc (xs ! i) \<Longrightarrow> stream_find (xs[i := st]) k = stream_find xs k"
  by (induction xs arbitrary: i) (auto split: nat.splits)

lemma strm_set_replay:
  assumes "stream_find (sr_streaml s) ssrc = Some i" "st_ssrc st = ssrc"
  shows "replay_of (strm_set s i st) = (replay_of s)(ssrc := st_replay_rtp st)"
proof
  fix k
  have i: "i < length (sr_streaml s)" "st_ssrc (sr_streaml s ! i) = ssrc"
    using stream_find_Some [OF assms(1)] by auto
  have f: "stream_find ((sr_streaml s)[i := st]) k = stream_find (sr_streaml s) k"
    using i assms(2) by (intro stream_find_upd) simp
  show "replay_of (strm_set s i st) k = ((replay_of s)(ssrc := st_replay_rtp st)) k"
  proof (cases "k = ssrc")
    case True
    then show ?thesis using f assms(1) i by (simp add: replay_of_def)
  next
    case False
    have "j \<noteq> i" if "stream_find (sr_streaml s) k = Some j" for j
      using stream_find_Some [OF that] i False by auto
    then show ?thesis using f False
      by (auto simp: replay_of_def strm_at_def split: option.splits)
  qed
qed

lemma replay_of_rtp [simp]: "replay_of (s\<lparr>sr_rtp := cp\<rparr>) = replay_of s"
  by (simp add: replay_of_def fun_eq_iff split: option.split)

lemma stream_get_replay:
  assumes "stream_get al s ssrc = (err, i, s1)"
  shows "replay_of s1 = replay_of s \<and> sr_rtp s1 = sr_rtp s \<and>
    (err = 0 \<longrightarrow> stream_find (sr_streaml s1) ssrc = Some i)"
proof (cases "stream_find (sr_streaml s) ssrc")
  case None
  show ?thesis
  proof (cases "length (sr_streaml s) \<ge> SRTP_MAX_STREAMS \<or> mem_zalloc al 80 = None")
    case True
    then have "s1 = s" "err \<noteq> 0"
      using assms None by (auto simp: stream_get_def stream_new_def split: if_splits)
    then show ?thesis by simp
  next
    case False
    then obtain st where st: "s1 = s\<lparr>sr_streaml := sr_streaml s @ [st]\<rparr>" "i = length (sr_streaml s)"
      "st_ssrc st = ssrc" "st_replay_rtp st = srtp_replay_init"
      using assms None by (auto simp: stream_get_def stream_new_def Let_def)
    have "replay_of s1 k = replay_of s k" for k
      using st stream_find_Some [of "sr_streaml s" k]
      by (auto simp: replay_of_def strm_at_def stream_find_append nth_append split: option.split)
    then show ?thesis using st None by (auto simp: stream_find_append)
  qed
next
  case (Some j)
  then show ?thesis using assms by (simp add: stream_get_def)
qed

lemma stream_get_seq_replay:
  assumes "stream_get_seq al s ssrc seq = (err, i, s1)"
  shows "replay_of s1 = replay_of s \<and> sr_rtp s1 = sr_rtp s \<and>
    (err = 0 \<longrightarrow> stream_find (sr_streaml s1) ssrc = Some i)"
proof -
  obtain e j s2 where g: "stream_get al s ssrc = (e, j, s2)" by (cases "stream_get al s ssrc")
  note r = stream_get_replay [OF g]
  show ?thesis
  proof (cases "e = 0 \<and> \<not> st_s_l_set (strm_at s2 j)")
    case True
    let ?st = "(strm_at s2 j)\<lparr>st_s_l := seq, st_s_l_set := True\<rparr>"
    have f: "stream_find (sr_streaml s2) ssrc = Some j" using r True by simp
    have ssrc: "st_ssrc ?st = ssrc" using stream_find_Some [OF f] by (simp add: strm_at_def)
    have "replay_of (strm_set s2 j ?st) = replay_of s2"
      using strm_set_replay [OF f ssrc] f by (simp add: replay_of_def fun_eq_iff)
    then show ?thesis using assms g r True stream_find_update [OF f ssrc]
      by (auto simp: stream_get_seq_def)
  next
    case False
    then show ?thesis using assms g r by (auto simp: stream_get_seq_def split: if_splits)
  qed
qed

section \<open>Replay protection of the receiver\<close>

text \<open>
  One of the two authentication mechanisms is in use, as in every suite.
\<close>

definition auth_once :: "'c comp \<Rightarrow> bool" where
  "auth_once cp \<longleftrightarrow> (c_hmac cp = None) = (c_aes cp \<noteq> None \<and> c_mode cp = AES_MODE_GCM)"

lemma replay_check_False: "srtp_replay_check r ix = (False, r') \<Longrightarrow> r' = r"
  by (auto simp: srtp_replay_check_def Let_def split: if_splits)

lemma decrypt_auth_replay:
  assumes "srtp_decrypt_auth al ev cp st ix start mb = (err, st', mb')"
  shows "if c_hmac cp = None then err = 0 \<and> st' = st
    else if err = 0 then \<exists>r. srtp_replay_check (st_replay_rtp st) ix = (True, r) \<and> st' = st\<lparr>st_replay_rtp := r\<rparr>
    else st' = st"
proof (cases "c_hmac cp")
  case None
  then show ?thesis using assms by (simp add: srtp_decrypt_auth_def)
next
  case (Some k)
  then show ?thesis
    using assms
    by (auto simp: srtp_decrypt_auth_def Let_def dest: replay_check_False split: prod.splits if_splits)
qed

lemma decrypt_cipher_replay:
  assumes "srtp_decrypt_cipher ev cp st ix start mb = (err, cp', st', mb')"
  shows "(if c_aes cp = None \<or> c_mode cp = AES_MODE_CTR then st' = st
    else if err = 0 then \<exists>r. srtp_replay_check (st_replay_rtp st) ix = (True, r) \<and> st' = st\<lparr>st_replay_rtp := r\<rparr>
    else st' = st) \<and> (\<exists>a. cp' = cp\<lparr>c_aes := a\<rparr> \<and> (a = None) = (c_aes cp = None))"
proof (cases "c_aes cp")
  case None
  then have "cp' = cp" "st' = st" using assms by (auto simp: srtp_decrypt_cipher_def)
  then show ?thesis using None by (auto intro!: exI [of _ "c_aes cp"])
next
  case (Some a)
  show ?thesis
  proof (cases "c_mode cp")
    case AES_MODE_CTR
    then show ?thesis using assms Some by (auto simp: srtp_decrypt_cipher_def split: prod.splits)
  next
    case AES_MODE_GCM
    then show ?thesis using assms Some
      by (auto simp: srtp_decrypt_cipher_def Let_def dest: replay_check_False
          split: prod.splits if_splits option.splits)
  qed
qed

text \<open>The source and index the receiver assigns to a packet.\<close>

definition srtp_packet_id :: "alloc \<Rightarrow> 'c srtp \<Rightarrow> mbuf \<Rightarrow> 32 word \<times> 64 word" where
  "srtp_packet_id al s mb =
     (case rtp_hdr_decode zero_header mb of (_, hdr, _) \<Rightarrow>
        (case stream_get_seq al s (h_ssrc hdr) (h_seq hdr) of (_, i, s1) \<Rightarrow>
           let st = roll (strm_at s1 i) (h_seq hdr)
           in (h_ssrc hdr, srtp_get_index (st_roc st) (st_s_l st) (h_seq hdr))))"

lemma strm_set_twice [simp]: "strm_set ((strm_set s i st)\<lparr>sr_rtp := cp\<rparr>) i st' = (strm_set s i st')\<lparr>sr_rtp := cp\<rparr>"
  by (simp add: strm_set_def)

lemma auth_once_aes: "auth_once cp \<Longrightarrow> (a = None) = (c_aes cp = None) \<Longrightarrow> auth_once (cp\<lparr>c_aes := a\<rparr>)"
  by (auto simp: auth_once_def)

text \<open>
  Whatever a packet contains, the replay state is left alone or marks the packet's index, which
  was then not marked before; a packet is accepted only in the second case.
\<close>

lemma srtp_decrypt_replay:
  assumes "srtp_decrypt al ev s mb = (err, s', mb')" "auth_once (sr_rtp s)" "srtp_packet_id al s mb = (ssrc, ix)"
  shows "auth_once (sr_rtp s') \<and> (err \<noteq> 0 \<and> replay_of s' = replay_of s \<or>
    (\<exists>r. srtp_replay_check (replay_of s ssrc) ix = (True, r) \<and> replay_of s' = (replay_of s)(ssrc := r)))"
proof -
  obtain e1 hdr mb1 where dec: "rtp_hdr_decode zero_header mb = (e1, hdr, mb1)" by (cases "rtp_hdr_decode zero_header mb")
  obtain e2 i s1 where get: "stream_get_seq al s (h_ssrc hdr) (h_seq hdr) = (e2, i, s1)"
    by (cases "stream_get_seq al s (h_ssrc hdr) (h_seq hdr)")
  note g = stream_get_seq_replay [OF get]
  define st where "st = roll (strm_at s1 i) (h_seq hdr)"
  have id: "ssrc = h_ssrc hdr" "ix = srtp_get_index (st_roc st) (st_s_l st) (h_seq hdr)"
    using assms(3) dec get by (simp_all add: srtp_packet_id_def st_def Let_def)
  show ?thesis
  proof (cases "e1 \<noteq> 0 \<or> e2 \<noteq> 0 \<or> seq_diff (st_s_l (strm_at s1 i)) (h_seq hdr) > 32768")
    case True
    then show ?thesis using assms(1,2) dec get g by (auto simp: srtp_decrypt_def Let_def split: if_splits)
  next
    case False
    then have f: "stream_find (sr_streaml s1) ssrc = Some i" using g id(1) by simp
    have il: "st_ssrc (strm_at s1 i) = ssrc" "i < length (sr_streaml s1)"
      using stream_find_Some [OF f] by (auto simp: strm_at_def)
    have "replay_of s1 ssrc = st_replay_rtp st" using f by (simp add: replay_of_def st_def)
    then have rp: "replay_of s ssrc = st_replay_rtp st" "replay_of s1 = replay_of s" "sr_rtp s1 = sr_rtp s"
      using g by simp_all
    obtain e3 st2 mb2 where a: "srtp_decrypt_auth al ev (sr_rtp s1) st ix (mb_pos mb) mb1 = (e3, st2, mb2)"
      by (cases "srtp_decrypt_auth al ev (sr_rtp s1) st ix (mb_pos mb) mb1")
    note ar = decrypt_auth_replay [OF a]
    obtain e4 cp1 st3 mb3 where c: "srtp_decrypt_cipher ev (sr_rtp s1) st2 ix (mb_pos mb) mb2 = (e4, cp1, st3, mb3)"
      by (cases "srtp_decrypt_cipher ev (sr_rtp s1) st2 ix (mb_pos mb) mb2")
    note cr = decrypt_cipher_replay [OF c]
    have ev: "srtp_decrypt al ev s mb =
        (if e3 \<noteq> 0 then (e3, strm_set s1 i st2, mb2)
         else if e4 \<noteq> 0 then (e4, (strm_set s1 i st3)\<lparr>sr_rtp := cp1\<rparr>, mb3)
         else (0, (strm_set s1 i (bump st3 (h_seq hdr)))\<lparr>sr_rtp := cp1\<rparr>, mb3\<lparr>mb_pos := mb_pos mb\<rparr>))"
      using dec get False a c unfolding srtp_decrypt_def Let_def roll_def [symmetric] bump_def [symmetric]
      by (simp add: st_def [symmetric] id(2) [symmetric])
    have set: "replay_of (strm_set s1 i x) = (replay_of s)(ssrc := st_replay_rtp x)" if "st_ssrc x = ssrc" for x
      using strm_set_replay [OF f that] rp(2) by simp
    have ss: "st_ssrc st = ssrc" by (simp add: st_def il)
    have once: "auth_once (sr_rtp s1)" "auth_once cp1"
      using assms(2) rp(3) cr by (auto intro: auth_once_aes)
    show ?thesis
    proof (cases "e3 = 0")
      case False
      then have "st2 = st" using ar by (auto split: if_splits)
      then show ?thesis using assms(1) ev False once set [OF ss] rp by (auto simp: fun_upd_idem)
    next
      case True
      have "st3 = st \<and> e4 \<noteq> 0 \<or> (\<exists>r. srtp_replay_check (st_replay_rtp st) ix = (True, r) \<and> st3 = st\<lparr>st_replay_rtp := r\<rparr>)"
        using ar cr True once(1) by (cases "c_mode (sr_rtp s1)") (auto simp: auth_once_def split: if_splits)
      then show ?thesis
        using assms(1) ev True once set rp ss by (elim disjE exE) (auto simp: fun_upd_idem split: if_splits)
    qed
  qed
qed

text \<open>The identities of the packets accepted from an arbitrary sequence of packets.\<close>

fun srtp_accepted :: "alloc \<Rightarrow> 'c evp \<Rightarrow> 'c srtp \<Rightarrow> mbuf list \<Rightarrow> (32 word \<times> 64 word) list" where
  "srtp_accepted al ev s [] = []"
| "srtp_accepted al ev s (mb # mbs) =
     (case srtp_decrypt al ev s mb of
        (err, s', _) \<Rightarrow> (if err = 0 then [srtp_packet_id al s mb] else []) @ srtp_accepted al ev s' mbs)"

definition seen :: "(32 word \<times> 64 word) set \<Rightarrow> 32 word \<Rightarrow> nat set" where
  "seen L ssrc = {unat ix | ix. (ssrc, ix) \<in> L}"

lemma seen_insert: "seen (insert (k, ix) L) ssrc = (if ssrc = k then insert (unat ix) (seen L ssrc) else seen L ssrc)"
  by (auto simp: seen_def)

lemma srtp_accepted_new:
  assumes "auth_once (sr_rtp s)" "\<forall>ssrc. \<exists>m. replay_inv (replay_of s ssrc) m (seen L ssrc)"
  shows "distinct (srtp_accepted al ev s mbs) \<and> set (srtp_accepted al ev s mbs) \<inter> L = {}"
  using assms
proof (induction mbs arbitrary: s L)
  case (Cons mb mbs)
  obtain err s' mb' where d: "srtp_decrypt al ev s mb = (err, s', mb')" by (cases "srtp_decrypt al ev s mb")
  obtain k ix where id: "srtp_packet_id al s mb = (k, ix)" by (cases "srtp_packet_id al s mb")
  note st = srtp_decrypt_replay [OF d Cons.prems(1) id]
  show ?case
  proof (cases "err \<noteq> 0 \<and> replay_of s' = replay_of s")
    case True
    then show ?thesis using Cons.IH [of s' L] Cons.prems(2) st d by simp
  next
    case False
    then obtain r where r: "srtp_replay_check (replay_of s k) ix = (True, r)" "replay_of s' = (replay_of s)(k := r)"
      using st by auto
    obtain m where m: "replay_inv (replay_of s k) m (seen L k)" using Cons.prems(2) by blast
    note c = replay_check_step [OF m r(1)]
    have "\<forall>ssrc. \<exists>m. replay_inv (replay_of s' ssrc) m (seen (insert (k, ix) L) ssrc)"
      using Cons.prems(2) c r(2) by (auto simp: seen_insert)
    from Cons.IH [OF _ this] have ih: "distinct (srtp_accepted al ev s' mbs)"
      "set (srtp_accepted al ev s' mbs) \<inter> insert (k, ix) L = {}" using st by auto
    have "(k, ix) \<notin> L" using c by (auto simp: seen_def)
    then show ?thesis using ih d id by auto
  qed
qed simp

text \<open>
  C2. No replays.  A receiver set up for any suite is given an arbitrary sequence of packets,
  forged, repeated or reordered at will.  It never accepts two packets with the same source and
  index, however the cipher and the hash behave.
\<close>

theorem srtp_no_replay:
  assumes "auth_once (sr_rtp s)" "sr_streaml s = []"
  shows "distinct (srtp_accepted al ev s mbs)"
proof -
  have "replay_inv (replay_of s ssrc) 0 (seen {} ssrc)" for ssrc
    using assms(2) by (simp add: replay_of_def replay_inv_def srtp_replay_init_def seen_def)
  then show ?thesis using srtp_accepted_new [OF assms(1), of "{}"] by blast
qed

theorem srtp_no_replay_witness:
  "distinct (srtp_accepted (\<lambda>n. Some (\<lambda>i. 0)) toy_evp
     ((toy_session AES_MODE_CTR 7 0)\<lparr>sr_streaml := []\<rparr>) [toy_packet 0 1 [9], toy_packet 0 1 [9]])"
  by (rule srtp_no_replay) (simp_all add: toy_session_def toy_comp_def auth_once_def)

section \<open>Authenticity\<close>

text \<open>The packet split into the authenticated part and the tag.\<close>

lemma decrypt_auth_split:
  assumes laws: "evp_laws ev vw ks tg" and al: "mem_ok al" and wf: "mbuf_wf mb"
    and p: "mb_pos mb \<le> mb_end mb" "mb_end mb + 4 < 2 ^ 31" and k: "0 < k" "k \<le> length (mb_left mb)"
    and cp: "c_hmac cp = Some key" "0 < c_tag_len cp"
  obtains "srtp_decrypt_auth al ev cp st ix (mb_pos mb) (mb_adv mb k) = (EBADMSG, st, mb_adv mb k)"
  | x t mb' where "mb_left mb = x @ t" "length t = c_tag_len cp" "k \<le> length x"
    "srtp_decrypt_auth al ev cp st ix (mb_pos mb) (mb_adv mb k) =
      (if t \<noteq> srtp_tag ev cp (st_roc st) x then (EAUTH, st, mb')
       else case srtp_replay_check (st_replay_rtp st) ix of
         (ok, r) \<Rightarrow> (if ok then 0 else EALREADY, st\<lparr>st_replay_rtp := r\<rparr>, mb'))"
proof (cases "mbuf_get_left (mb_adv mb k) < c_tag_len cp")
  case True
  then show ?thesis using cp by (intro that(1)) (simp add: srtp_decrypt_auth_def)
next
  case False
  define n where "n = length (mb_left mb) - c_tag_len cp"
  have n: "k \<le> n" "n \<le> length (mb_left mb)"
    using False k(2) cp(2) mbuf_get_left_len [OF wf] by (auto simp: n_def)
  define x t where "x = take n (mb_left mb)" and "t = drop n (mb_left mb)"
  have xt: "mb_left mb = x @ t" "length t = c_tag_len cp" "length x = n"
    using n False k cp(2) mbuf_get_left_len [OF wf] by (auto simp: x_def t_def n_def)
  define a where "a = take (mb_pos mb) (mb_data mb)"
  have a: "length a = mb_pos mb" using p(1) length_mb_data [OF wf] by (simp add: a_def)
  have "mb_data mb = a @ mb_left mb" by (simp add: a_def mb_left_data)
  then have d: "mb_data (mb_adv mb k) = a @ x @ t" using xt(1) by simp
  have side: "mbuf_wf (mb_adv mb k)" "x \<noteq> []" "mb_end (mb_adv mb k) + 4 < 2 ^ 31"
    "length a \<le> mb_pos (mb_adv mb k)" "mb_pos (mb_adv mb k) \<le> length (a @ x)"
    using wf p a n xt k(1) by auto
  from decrypt_auth_tag [OF laws al side(1) d xt(2) side(2-5) cp, of st ix] show ?thesis
    using that(2) [OF xt(1,2)] n(1) xt(3) a by auto
qed

text \<open>
  C3. Authenticity.  If the receiver accepts a packet under a suite with HMAC, then the last bytes
  of the packet are the HMAC, under the session's authentication key, of everything before them
  followed by the roll-over counter that the stream then has.
\<close>

theorem srtp_authentic:
  assumes laws: "evp_laws ev vw ks tg" and al: "mem_ok al" and wf: "mbuf_wf mb"
    and p: "mb_pos mb \<le> mb_end mb" "mb_end mb + 4 < 2 ^ 31"
    and cp: "c_hmac (sr_rtp s) = Some key" "0 < c_tag_len (sr_rtp s)"
    and acc: "srtp_decrypt al ev s mb = (0, s', mb')"
  shows "\<exists>x t i. mb_left mb = x @ t \<and> length t = c_tag_len (sr_rtp s) \<and>
    stream_find (sr_streaml s') (fst (srtp_packet_id al s mb)) = Some i \<and>
    t = srtp_tag ev (sr_rtp s) (st_roc (strm_at s' i)) x"
proof -
  obtain e1 hdr k where ps: "rtp_parse zero_header (mb_left mb) = (e1, hdr, k)"
    by (cases "rtp_parse zero_header (mb_left mb)")
  then have dec: "rtp_hdr_decode zero_header mb = (e1, hdr, mb_adv mb k)" using wf by (simp add: rtp_hdr_decode_parse)
  obtain e2 i s1 where get: "stream_get_seq al s (h_ssrc hdr) (h_seq hdr) = (e2, i, s1)"
    by (cases "stream_get_seq al s (h_ssrc hdr) (h_seq hdr)")
  have z: "e1 = 0" "e2 = 0" "seq_diff (st_s_l (strm_at s1 i)) (h_seq hdr) \<le> 32768"
    using acc dec get by (auto simp: srtp_decrypt_def Let_def split: if_splits)
  note g = stream_get_seq_replay [OF get]
  have f: "stream_find (sr_streaml s1) (h_ssrc hdr) = Some i" using g z(2) by simp
  have il: "i < length (sr_streaml s1)" "st_ssrc (strm_at s1 i) = h_ssrc hdr"
    using stream_find_Some [OF f] by (auto simp: strm_at_def)
  define st where "st = roll (strm_at s1 i) (h_seq hdr)"
  define ix where "ix = srtp_get_index (st_roc st) (st_s_l st) (h_seq hdr)"
  obtain e3 st2 mb2 where a: "srtp_decrypt_auth al ev (sr_rtp s) st ix (mb_pos mb) (mb_adv mb k) = (e3, st2, mb2)"
    by (cases "srtp_decrypt_auth al ev (sr_rtp s) st ix (mb_pos mb) (mb_adv mb k)")
  obtain e4 cp1 st3 mb3 where c: "srtp_decrypt_cipher ev (sr_rtp s) st2 ix (mb_pos mb) mb2 = (e4, cp1, st3, mb3)"
    by (cases "srtp_decrypt_cipher ev (sr_rtp s) st2 ix (mb_pos mb) mb2")
  have res: "e3 = 0" "s' = (strm_set s1 i (bump st3 (h_seq hdr)))\<lparr>sr_rtp := cp1\<rparr>"
    using acc dec get z a c g unfolding srtp_decrypt_def Let_def roll_def [symmetric] bump_def [symmetric]
    by (auto simp: st_def [symmetric] ix_def [symmetric] split: if_splits)
  have st3: "st_ssrc st3 = h_ssrc hdr" "st_roc (bump st3 (h_seq hdr)) = st_roc st"
    using decrypt_auth_replay [OF a] decrypt_cipher_replay [OF c] il
    by (auto simp: st_def bump_def split: if_splits)
  have s': "stream_find (sr_streaml s') (h_ssrc hdr) = Some i" "st_roc (strm_at s' i) = st_roc st"
    using f il st3 res(2) by (simp_all add: stream_find_update)
  have "12 \<le> k" "k \<le> length (mb_left mb)" using rtp_parse_local [of zero_header "mb_left mb" hdr k] ps z(1) by auto
  then have k: "0 < k" "k \<le> length (mb_left mb)" by auto
  show ?thesis
  proof (cases rule: decrypt_auth_split [OF laws al wf p k cp, of st ix])
    case 1
    then show ?thesis using a res(1) by simp
  next
    case (2 x t mb'')
    then have "t = srtp_tag ev (sr_rtp s) (st_roc st) x" using a res(1) by (auto split: if_splits)
    then show ?thesis using 2(1,2) s' dec get by (auto simp: srtp_packet_id_def Let_def)
  qed
qed

text \<open>A packet with one byte of payload; the tag of the toy hash is its length, 17.\<close>

definition toy_protected :: mbuf where
  "toy_protected = toy_packet 0 1 ([0x53] @ replicate 10 17)"

lemma toy_protected_accepted:
  "\<exists>s' mb'. srtp_decrypt (\<lambda>n. Some (\<lambda>i. 0)) toy_evp (toy_session AES_MODE_CTR 7 0) toy_protected = (0, s', mb')"
proof -
  let ?h = "[0x80, 0, 0, 1, 0, 0, 0, 0, 0, 0, 0, 7] :: byte list"
  have s: "session (\<lambda>c. c) [1] (toy_session AES_MODE_CTR 7 0) 7 0"
    using toy_session_ok [of 0 AES_MODE_CTR] by simp
  have pk: "srtp_packet toy_evp toy_ks toy_tag (toy_comp AES_MODE_CTR) [1] 7 1 ?h [9] =
      ?h @ [0x53] @ replicate 10 17"
    by (simp add: srtp_packet_def srtp_body_def srtp_tag_def toy_comp_def toy_ks_def toy_evp_def xor_bytes_def)
  have d: "mb_data toy_protected = [] @ srtp_packet toy_evp toy_ks toy_tag (toy_comp AES_MODE_CTR) [1] 7 1 ?h [9]"
    "mb_pos toy_protected = length ([] :: byte list)" "mb_end toy_protected + 4 < 2 ^ 31" "mbuf_wf toy_protected"
    unfolding pk by (simp_all add: toy_protected_def toy_packet_def mb_data_def mbuf_wf_def MEM_SIZE_MAX_def)
  have h: "\<exists>hdr. rtp_parse zero_header (?h @ [9]) = (0, hdr, length ?h) \<and> h_ssrc hdr = 7 \<and> h_seq hdr = of_nat 1"
    by (simp add: rtp_parse_def rtp_parse_var_def rtp_fixed_def unle16_def unle32_def htons_def htonl_def)
  then obtain hdr where hdr: "rtp_parse zero_header (?h @ [9]) = (0, hdr, length ?h)" "h_ssrc hdr = 7" "h_seq hdr = of_nat 1"
    by blast
  have "mem_ok (\<lambda>n. Some (\<lambda>i. 0))" by (simp add: mem_ok_def)
  from srtp_decrypt_packet [OF toy_evp_laws this d(4,1,2,3) hdr s] show ?thesis
    by (auto simp: toy_session_def)
qed

theorem srtp_authentic_witness:
  "\<exists>x t roc. mb_left toy_protected = x @ t \<and> length t = 10 \<and> t = srtp_tag toy_evp (toy_comp AES_MODE_CTR) roc x"
proof -
  let ?s = "toy_session AES_MODE_CTR 7 0" and ?al = "\<lambda>n::nat. Some (\<lambda>i::nat. 0 :: byte)"
  obtain s' mb' where r: "srtp_decrypt ?al toy_evp ?s toy_protected = (0, s', mb')"
    using toy_protected_accepted by blast
  have "mem_ok ?al" "mbuf_wf toy_protected" "mb_pos toy_protected \<le> mb_end toy_protected"
    "mb_end toy_protected + 4 < 2 ^ 31" "c_hmac (sr_rtp ?s) = Some [2]" "0 < c_tag_len (sr_rtp ?s)"
    by (simp_all add: mem_ok_def toy_protected_def toy_packet_def mbuf_wf_def MEM_SIZE_MAX_def
        toy_session_def toy_comp_def)
  from srtp_authentic [OF toy_evp_laws this r] show ?thesis
    by (auto simp: toy_session_def) (auto simp: toy_comp_def)
qed

section \<open>State changes before authentication\<close>

text \<open>
  C17. A forged packet disturbs the receiver.  An unauthenticated packet whose sequence number is at
  least 32768 below the last one is rejected, but the roll-over counter has already been advanced
  and the last sequence number cleared; afterwards every packet of the source with a sequence
  number above 32768, genuine ones included, is rejected as too late.
\<close>

theorem srtp_forged_rollover:
  assumes laws: "evp_laws ev vw ks tg" and al: "mem_ok al" and wf: "mbuf_wf mb"
    and p: "mb_pos mb \<le> mb_end mb" "mb_end mb + 4 < 2 ^ 31"
    and cp: "c_hmac (sr_rtp s) = Some key" "0 < c_tag_len (sr_rtp s)"
    and st: "stream_find (sr_streaml s) ssrc = Some i" "st_s_l_set (strm_at s i)"
    and hdr: "rtp_hdr_decode zero_header mb = (0, hdr, mb1)" "h_ssrc hdr = ssrc"
      "uint (h_seq hdr) + 32768 \<le> uint (st_s_l (strm_at s i))"
    and forged: "\<forall>x t. mb_left mb = x @ t \<and> length t = c_tag_len (sr_rtp s) \<longrightarrow>
      t \<noteq> srtp_tag ev (sr_rtp s) (st_roc (strm_at s i) + 1) x"
  shows "\<exists>err s' mb'. srtp_decrypt al ev s mb = (err, s', mb') \<and> err \<in> {EAUTH, EBADMSG} \<and>
    (\<forall>mb2 hdr2 mb3. rtp_hdr_decode zero_header mb2 = (0, hdr2, mb3) \<and> h_ssrc hdr2 = ssrc \<and>
       uint (h_seq hdr2) > 32768 \<longrightarrow> srtp_decrypt al ev s' mb2 = (ETIMEDOUT, s', mb3))"
proof -
  obtain k where ps: "rtp_parse zero_header (mb_left mb) = (0, hdr, k)" "mb1 = mb_adv mb k"
    using hdr(1) wf by (auto simp: rtp_hdr_decode_parse split: prod.splits)
  then have "12 \<le> k" "k \<le> length (mb_left mb)" using rtp_parse_local by blast+
  then have k: "0 < k" "k \<le> length (mb_left mb)" by auto
  have get: "stream_get_seq al s ssrc seq = (0, i, s)" for seq by (rule stream_get_seq_known [OF st])
  have il: "i < length (sr_streaml s)" "st_ssrc (strm_at s i) = ssrc"
    using stream_find_Some [OF st(1)] by (auto simp: strm_at_def)
  have diff: "seq_diff (st_s_l (strm_at s i)) (h_seq hdr) \<le> -32768" using hdr(3) by (simp add: seq_diff_def)
  define st1 where "st1 = (strm_at s i)\<lparr>st_roc := st_roc (strm_at s i) + 1, st_s_l := 0\<rparr>"
  define ix where "ix = srtp_get_index (st_roc st1) (st_s_l st1) (h_seq hdr)"
  have "\<exists>err mb'. srtp_decrypt_auth al ev (sr_rtp s) st1 ix (mb_pos mb) mb1 = (err, st1, mb') \<and> err \<in> {EAUTH, EBADMSG}"
    by (cases rule: decrypt_auth_split [OF laws al wf p k cp, of st1 ix])
       (use forged ps(2) in \<open>auto simp: st1_def\<close>)
  then obtain err mb' where a: "srtp_decrypt_auth al ev (sr_rtp s) st1 ix (mb_pos mb) mb1 = (err, st1, mb')"
    "err \<in> {EAUTH, EBADMSG}" by blast
  let ?s' = "strm_set s i st1"
  have r: "srtp_decrypt al ev s mb = (err, ?s', mb')"
    using hdr(1,2) get diff a by (auto simp: srtp_decrypt_def Let_def st1_def ix_def)
  have get': "stream_get_seq al ?s' ssrc seq = (0, i, ?s')" for seq
    using st il by (intro stream_get_seq_known) (simp_all add: stream_find_update st1_def)
  have "srtp_decrypt al ev ?s' mb2 = (ETIMEDOUT, ?s', mb3)"
    if "rtp_hdr_decode zero_header mb2 = (0, hdr2, mb3)" "h_ssrc hdr2 = ssrc" "uint (h_seq hdr2) > 32768" for mb2 hdr2 mb3
    using that get' il by (simp add: srtp_decrypt_def seq_diff_def st1_def)
  then show ?thesis using r a(2) by blast
qed

theorem srtp_forged_rollover_witness:
  "\<exists>err s' mb'. srtp_decrypt (\<lambda>n. Some (\<lambda>i. 0)) toy_evp (toy_session AES_MODE_CTR 7 0x9000)
       (toy_packet 0 1 (replicate 11 0)) = (err, s', mb') \<and> err \<noteq> 0 \<and>
     fst (srtp_decrypt (\<lambda>n. Some (\<lambda>i. 0)) toy_evp s' (toy_packet 0x90 1 (replicate 11 0))) = ETIMEDOUT"
proof -
  let ?s = "toy_session AES_MODE_CTR 7 0x9000" and ?al = "\<lambda>n::nat. Some (\<lambda>i::nat. 0 :: byte)"
  let ?mb = "toy_packet 0 1 (replicate 11 0)" and ?mb2 = "toy_packet 0x90 1 (replicate 11 0)"
  have wf: "mem_ok ?al" "mbuf_wf ?mb" "mb_pos ?mb \<le> mb_end ?mb" "mb_end ?mb + 4 < 2 ^ 31"
    "c_hmac (sr_rtp ?s) = Some [2]" "0 < c_tag_len (sr_rtp ?s)" "mbuf_wf ?mb2"
    by (simp_all add: mem_ok_def toy_packet_def mbuf_wf_def MEM_SIZE_MAX_def toy_session_def toy_comp_def)
  have st: "stream_find (sr_streaml ?s) 7 = Some 0" "st_s_l_set (strm_at ?s 0)"
    by (simp_all add: toy_session_def strm_at_def)
  have h: "\<exists>hdr k. rtp_parse zero_header (mb_left (toy_packet hi 1 (replicate 11 0))) = (0, hdr, k) \<and>
      h_ssrc hdr = 7 \<and> h_seq hdr = htons (unle16 [hi, 1])" for hi
    by (simp add: toy_packet_def mb_left_def rtp_parse_def rtp_parse_var_def rtp_fixed_def
        unle16_def unle32_def htons_def htonl_def)
  obtain hdr k where h1: "rtp_parse zero_header (mb_left ?mb) = (0, hdr, k)" "h_ssrc hdr = 7" "h_seq hdr = htons (unle16 [0, 1])"
    using h [of 0] by blast
  obtain hdr2 k2 where h2: "rtp_parse zero_header (mb_left ?mb2) = (0, hdr2, k2)" "h_ssrc hdr2 = 7" "h_seq hdr2 = htons (unle16 [0x90, 1])"
    using h [of "0x90"] by blast
  have d: "rtp_hdr_decode zero_header ?mb = (0, hdr, mb_adv ?mb k)" "rtp_hdr_decode zero_header ?mb2 = (0, hdr2, mb_adv ?mb2 k2)"
    using h1(1) h2(1) wf by (simp_all add: rtp_hdr_decode_parse)
  have seq: "uint (h_seq hdr) + 32768 \<le> uint (st_s_l (strm_at ?s 0))" "uint (h_seq hdr2) > 32768"
    by (simp_all add: h1 h2 htons_def unle16_def toy_session_def strm_at_def)
  have f: "\<forall>x t. mb_left ?mb = x @ t \<and> length t = c_tag_len (sr_rtp ?s) \<longrightarrow>
      t \<noteq> srtp_tag toy_evp (sr_rtp ?s) (st_roc (strm_at ?s 0) + 1) x"
  proof (intro allI impI)
    fix x t assume a: "mb_left ?mb = x @ t \<and> length t = c_tag_len (sr_rtp ?s)"
    have l: "length (mb_left ?mb) = 23" by (simp add: toy_packet_def mb_left_def)
    have lt: "length t = 10" using a by (simp add: toy_session_def toy_comp_def)
    have "length x + length t = 23" using a l by (metis length_append)
    then have lx: "length x = 13" using lt by simp
    have "t = drop 13 (mb_left ?mb)" using a lx by simp
    then have "t = replicate 10 0" by (simp add: toy_packet_def mb_left_def)
    moreover have "srtp_tag toy_evp (sr_rtp ?s) roc x = replicate 10 17" for roc
      using lx by (simp add: srtp_tag_def toy_session_def toy_comp_def toy_evp_def)
    ultimately show "t \<noteq> srtp_tag toy_evp (sr_rtp ?s) (st_roc (strm_at ?s 0) + 1) x" by simp
  qed
  from srtp_forged_rollover [OF toy_evp_laws wf(1-6) st d(1) h1(2) seq(1) f]
  obtain err s' mb' where r: "srtp_decrypt ?al toy_evp ?s ?mb = (err, s', mb')" "err \<in> {EAUTH, EBADMSG}"
    "\<forall>mb2 hdr2 mb3. rtp_hdr_decode zero_header mb2 = (0, hdr2, mb3) \<and> h_ssrc hdr2 = 7 \<and>
       uint (h_seq hdr2) > 32768 \<longrightarrow> srtp_decrypt ?al toy_evp s' mb2 = (ETIMEDOUT, s', mb3)" by blast
  have "fst (srtp_decrypt ?al toy_evp s' ?mb2) = ETIMEDOUT" using r(3) d(2) h2(2) seq(2) by simp
  then show ?thesis using r(1,2) by auto
qed

section \<open>RTCP in GCM mode\<close>

lemma get_rtcp_ssrc_left:
  "mbuf_wf mb \<Longrightarrow> 8 \<le> length (mb_left mb) \<Longrightarrow>
   get_rtcp_ssrc mb = (0, ntohl (unle32 (take 4 (drop 4 (mb_left mb)))), mb_adv mb 8)"
  using mb_pos_lt [of mb 4]
  by (simp add: get_rtcp_ssrc_def mbuf_read_left mbuf_advance_adv [where n = 4, simplified])

text \<open>
  C18. Unauthenticated RTCP packets.  With a GCM suite (no HMAC, no tag) the receiver accepts every
  RTCP packet of at least twelve bytes whose E bit is clear, without calling the cipher: the
  packet minus its last four bytes is handed to the user, whoever sent it, and since the session
  is not changed beyond adding the stream it can be repeated at will.
\<close>

theorem srtcp_gcm_unauthenticated:
  assumes wf: "mbuf_wf mb" and l: "mb_left mb = body @ idx" "8 \<le> length body" "length idx = 4"
    and e: "\<not> bit (ntohl (unle32 idx)) 31"
    and cp: "c_mode (sr_rtcp s) = AES_MODE_GCM" "c_hmac (sr_rtcp s) = None" "c_tag_len (sr_rtcp s) = 0"
    and st: "stream_get al s (ntohl (unle32 (take 4 (drop 4 body)))) = (0, i, s1)" "sr_rtcp s1 = sr_rtcp s"
  shows "\<exists>mb'. srtcp_decrypt al ev s mb = (0, strm_set s1 i (strm_at s1 i), mb') \<and> mb_left mb' = body"
proof -
  have ssrc: "get_rtcp_ssrc mb = (0, ntohl (unle32 (take 4 (drop 4 body))), mb_adv mb 8)"
    using get_rtcp_ssrc_left [OF wf] l by simp
  have pe: "mb_pos mb + length body + 4 = mb_end mb"
    using mbuf_get_left_len [OF wf] l(1,3) by (simp add: mbuf_get_left_def split: if_splits)
  then have pe': "mb_end mb - 4 = mb_pos mb + length body" by simp
  let ?mb = "(mb_adv mb 8)\<lparr>mb_pos := mb_end mb - 4\<rparr>"
  have idx: "mb_left ?mb = idx"
  proof -
    have "mb_left ?mb = drop (length body) (mb_left mb)"
      unfolding pe' by (simp add: mb_left_data add.commute)
    then show ?thesis using l(1) by simp
  qed
  have rd: "mbuf_read_u32 ?mb = (unle32 idx, mb_adv ?mb 4)"
    using wf idx l(3) by (subst mbuf_read_u32_left) simp_all
  have ep: "\<not> (drop_bit 31 (ntohl (unle32 idx)) AND 1 \<noteq> 0)"
    using e by (simp add: and_1_bit bit_simps)
  let ?mb' = "(mb_adv ?mb 4)\<lparr>mb_end := mb_end mb - 4, mb_pos := mb_pos mb\<rparr>"
  have "\<not> length body - 4 < 4" using l(2) by simp
  then have "srtcp_decrypt al ev s mb = (0, strm_set s1 i (strm_at s1 i), ?mb')"
    using ssrc st cp rd ep l wf
    by (simp add: srtcp_decrypt_def srtcp_decrypt_auth_def srtcp_decrypt_cipher_def mbuf_get_left_len Let_def
        strm_set_def split: option.split)
  moreover have "mb_left ?mb' = body"
  proof -
    have "mb_left ?mb' = take (length body) (mb_left mb)"
      unfolding pe' using pe by (simp add: mb_left_def mb_adv_def)
    then show ?thesis using l(1) by simp
  qed
  ultimately show ?thesis by blast
qed

theorem srtcp_gcm_unauthenticated_witness:
  "\<exists>s' mb'. srtcp_decrypt (\<lambda>n. Some (\<lambda>i. 0)) toy_evp (toy_session AES_MODE_GCM 7 0)
       \<lparr>mb_buf = [0x80, 203, 0, 1, 0, 0, 0, 7, 0, 0, 0, 0], mb_size = 12, mb_pos = 0, mb_end = 12,
        mb_shared = False\<rparr> = (0, s', mb') \<and> mb_left mb' = [0x80, 203, 0, 1, 0, 0, 0, 7]"
proof -
  let ?mb = "\<lparr>mb_buf = [0x80, 203, 0, 1, 0, 0, 0, 7, 0, 0, 0, 0 :: byte], mb_size = 12, mb_pos = 0, mb_end = 12,
    mb_shared = False\<rparr>"
  let ?s = "toy_session AES_MODE_GCM 7 0" and ?al = "\<lambda>n::nat. Some (\<lambda>i::nat. 0 :: byte)"
  have l: "mbuf_wf ?mb" "mb_left ?mb = [0x80, 203, 0, 1, 0, 0, 0, 7] @ [0, 0, 0, 0]"
    by (simp_all add: mbuf_wf_def MEM_SIZE_MAX_def mb_left_def)
  have b: "\<not> bit (ntohl (unle32 [0, 0, 0, 0])) 31" by (simp add: unle32_def unle16_def htonl_def htons_def)
  have g: "stream_get ?al ?s (ntohl (unle32 (take 4 (drop 4 [0x80, 203, 0, 1, 0, 0, 0, 7])))) = (0, 0, ?s)"
    by (simp add: stream_get_def toy_session_def unle32_def unle16_def htonl_def htons_def)
  obtain mb' where "srtcp_decrypt ?al toy_evp ?s ?mb = (0, strm_set ?s 0 (strm_at ?s 0), mb')"
    "mb_left mb' = [0x80, 203, 0, 1, 0, 0, 0, 7]"
    using srtcp_gcm_unauthenticated [OF l _ _ b _ _ _ g refl, of toy_evp]
    by (auto simp: toy_session_def toy_comp_def)
  then show ?thesis by auto
qed

end
