(* ===== verification/Linked_List.thy ===== *)
theory Linked_List
  imports Main "HOL-Library.Multiset"
begin

text \<open>
  Doubly linked lists with intrusive elements (\<^verbatim>\<open>src/list/list.c\<close>).  The memory that holds elements
  and list heads is a store, and elements and lists are referred to by address, so that an
  operation on one list reads and writes the pointers of its neighbours as in C.  A store
  represents one HOL list of element addresses per list head; every operation is shown to
  implement the corresponding operation on HOL lists.
\<close>

type_synonym addr = nat

record le =
  le_prev :: "addr option"
  le_next :: "addr option"
  le_list :: "addr option"
  le_data :: "addr option"

record lst =
  l_head :: "addr option"
  l_tail :: "addr option"

record store =
  les :: "addr \<Rightarrow> le"
  lists :: "addr \<Rightarrow> lst"

section \<open>Single assignments\<close>

definition set_le :: "addr \<Rightarrow> (le \<Rightarrow> le) \<Rightarrow> store \<Rightarrow> store" where
  "set_le e f st = st\<lparr>les := (les st)(e := f (les st e))\<rparr>"

definition set_list :: "addr \<Rightarrow> (lst \<Rightarrow> lst) \<Rightarrow> store \<Rightarrow> store" where
  "set_list l f st = st\<lparr>lists := (lists st)(l := f (lists st l))\<rparr>"

lemma set_le_sel [simp]:
  "les (set_le e f st) x = (if x = e then f (les st e) else les st x)"
  "lists (set_le e f st) = lists st"
  "les (set_list l g st) = les st"
  "lists (set_list l g st) k = (if k = l then g (lists st l) else lists st k)"
  by (simp_all add: set_le_def set_list_def)

section \<open>Operations\<close>

definition list_init :: "store \<Rightarrow> addr \<Rightarrow> store" where
  "list_init st l = set_list l (\<lambda>r. r\<lparr>l_head := None, l_tail := None\<rparr>) st"

definition list_append :: "store \<Rightarrow> addr \<Rightarrow> addr \<Rightarrow> addr option \<Rightarrow> store" where
  "list_append st l e d =
     (if le_list (les st e) \<noteq> None then st
      else
        let st1 = set_le e (\<lambda>r. r\<lparr>le_prev := l_tail (lists st l), le_next := None,
                                   le_list := Some l, le_data := d\<rparr>) st;
            st2 = (if l_head (lists st1 l) = None then set_list l (\<lambda>r. r\<lparr>l_head := Some e\<rparr>) st1 else st1);
            st3 = (case l_tail (lists st2 l) of
                     None \<Rightarrow> st2 | Some t \<Rightarrow> set_le t (\<lambda>r. r\<lparr>le_next := Some e\<rparr>) st2)
        in set_list l (\<lambda>r. r\<lparr>l_tail := Some e\<rparr>) st3)"

definition list_prepend :: "store \<Rightarrow> addr \<Rightarrow> addr \<Rightarrow> addr option \<Rightarrow> store" where
  "list_prepend st l e d =
     (if le_list (les st e) \<noteq> None then st
      else
        let st1 = set_le e (\<lambda>r. r\<lparr>le_prev := None, le_next := l_head (lists st l),
                                   le_list := Some l, le_data := d\<rparr>) st;
            st2 = (case l_head (lists st1 l) of
                     None \<Rightarrow> st1 | Some h \<Rightarrow> set_le h (\<lambda>r. r\<lparr>le_prev := Some e\<rparr>) st1);
            st3 = (if l_tail (lists st2 l) = None then set_list l (\<lambda>r. r\<lparr>l_tail := Some e\<rparr>) st2 else st2)
        in set_list l (\<lambda>r. r\<lparr>l_head := Some e\<rparr>) st3)"

definition list_insert_before :: "store \<Rightarrow> addr \<Rightarrow> addr \<Rightarrow> addr \<Rightarrow> addr option \<Rightarrow> store" where
  "list_insert_before st l le ile d =
     (if le_list (les st ile) \<noteq> None then st
      else
        let st1 = (case le_prev (les st le) of
                     Some p \<Rightarrow> set_le p (\<lambda>r. r\<lparr>le_next := Some ile\<rparr>) st
                   | None \<Rightarrow> if l_head (lists st l) = Some le
                            then set_list l (\<lambda>r. r\<lparr>l_head := Some ile\<rparr>) st else st);
            st2 = set_le ile (\<lambda>r. r\<lparr>le_prev := le_prev (les st1 le), le_next := Some le,
                                    le_list := Some l, le_data := d\<rparr>) st1
        in set_le le (\<lambda>r. r\<lparr>le_prev := Some ile\<rparr>) st2)"

definition list_insert_after :: "store \<Rightarrow> addr \<Rightarrow> addr \<Rightarrow> addr \<Rightarrow> addr option \<Rightarrow> store" where
  "list_insert_after st l le ile d =
     (if le_list (les st ile) \<noteq> None then st
      else
        let st1 = (case le_next (les st le) of
                     Some n \<Rightarrow> set_le n (\<lambda>r. r\<lparr>le_prev := Some ile\<rparr>) st
                   | None \<Rightarrow> if l_tail (lists st l) = Some le
                            then set_list l (\<lambda>r. r\<lparr>l_tail := Some ile\<rparr>) st else st);
            st2 = set_le ile (\<lambda>r. r\<lparr>le_prev := Some le, le_next := le_next (les st1 le),
                                    le_list := Some l, le_data := d\<rparr>) st1
        in set_le le (\<lambda>r. r\<lparr>le_next := Some ile\<rparr>) st2)"

definition list_unlink :: "store \<Rightarrow> addr \<Rightarrow> store" where
  "list_unlink st e =
     (case le_list (les st e) of
        None \<Rightarrow> st
      | Some l \<Rightarrow>
          let st1 = (case le_prev (les st e) of
                       Some p \<Rightarrow> set_le p (\<lambda>r. r\<lparr>le_next := le_next (les st e)\<rparr>) st
                     | None \<Rightarrow> set_list l (\<lambda>r. r\<lparr>l_head := le_next (les st e)\<rparr>) st);
              st2 = (case le_next (les st1 e) of
                       Some n \<Rightarrow> set_le n (\<lambda>r. r\<lparr>le_prev := le_prev (les st1 e)\<rparr>) st1
                     | None \<Rightarrow> set_list l (\<lambda>r. r\<lparr>l_tail := le_prev (les st1 e)\<rparr>) st1)
          in set_le e (\<lambda>r. r\<lparr>le_next := None, le_prev := None, le_list := None\<rparr>) st2)"

text \<open>
  The loops follow pointers and end if they reach NULL.  A sort or apply handler decides on the
  addresses of elements; \<^verbatim>\<open>mem_deref\<close> acts on the data, which is collected in order.
\<close>

partial_function (option) list_flush_loop ::
  "store \<Rightarrow> addr option \<Rightarrow> addr option list \<Rightarrow> (store \<times> addr option list) option" where
  "list_flush_loop st p log =
     (case p of
        None \<Rightarrow> Some (st, log)
      | Some e \<Rightarrow>
          list_flush_loop (set_le e (\<lambda>r. r\<lparr>le_data := None\<rparr>) (list_unlink st e))
            (le_next (les st e)) (log @ [le_data (les st e)]))"

definition list_flush :: "store \<Rightarrow> addr \<Rightarrow> (store \<times> addr option list) option" where
  "list_flush st l =
     (case list_flush_loop st (l_head (lists st l)) [] of
        None \<Rightarrow> None | Some (st', log) \<Rightarrow> Some (list_init st' l, log))"

partial_function (option) list_clear_loop :: "store \<Rightarrow> addr option \<Rightarrow> store option" where
  "list_clear_loop st p =
     (case p of
        None \<Rightarrow> Some st
      | Some e \<Rightarrow>
          list_clear_loop
            (set_le e (\<lambda>r. r\<lparr>le_list := None, le_prev := None, le_next := None, le_data := None\<rparr>) st)
            (le_next (les st e)))"

definition list_clear :: "store \<Rightarrow> addr \<Rightarrow> store option" where
  "list_clear st l = map_option (\<lambda>st'. list_init st' l) (list_clear_loop st (l_head (lists st l)))"

partial_function (option) list_insert_sorted_loop ::
  "(addr \<Rightarrow> addr \<Rightarrow> bool) \<Rightarrow> store \<Rightarrow> addr \<Rightarrow> addr option \<Rightarrow> addr \<Rightarrow> store option" where
  "list_insert_sorted_loop sh st l p ile =
     (case p of
        None \<Rightarrow> Some (list_prepend st l ile (le_data (les st ile)))
      | Some e \<Rightarrow>
          if sh e ile then Some (list_insert_after st l e ile (le_data (les st ile)))
          else list_insert_sorted_loop sh st l (le_prev (les st e)) ile)"

definition list_insert_sorted ::
  "(addr \<Rightarrow> addr \<Rightarrow> bool) \<Rightarrow> store \<Rightarrow> addr \<Rightarrow> addr \<Rightarrow> addr option \<Rightarrow> store option" where
  "list_insert_sorted sh st l ile d =
     list_insert_sorted_loop sh (set_le ile (\<lambda>r. r\<lparr>le_data := d\<rparr>) st) l (l_tail (lists st l)) ile"

text \<open>One pass of \<^verbatim>\<open>list_sort\<close> from an element on, with the flag that tells whether it moved one.\<close>

partial_function (option) list_sort_pass ::
  "(addr \<Rightarrow> addr \<Rightarrow> bool) \<Rightarrow> store \<Rightarrow> addr \<Rightarrow> addr option \<Rightarrow> bool \<Rightarrow> (store \<times> bool) option" where
  "list_sort_pass sh st l p moved =
     (case p of
        None \<Rightarrow> Some (st, moved)
      | Some e \<Rightarrow>
          (case le_next (les st e) of
             None \<Rightarrow> Some (st, moved)
           | Some n \<Rightarrow>
               if sh e n then list_sort_pass sh st l (Some n) moved
               else
                 let st1 = list_unlink st e
                 in list_sort_pass sh (list_insert_after st1 l n e (le_data (les st1 e))) l (Some e) True))"

partial_function (option) list_sort ::
  "(addr \<Rightarrow> addr \<Rightarrow> bool) \<Rightarrow> store \<Rightarrow> addr \<Rightarrow> store option" where
  "list_sort sh st l =
     (case list_sort_pass sh st l (l_head (lists st l)) False of
        None \<Rightarrow> None
      | Some (st', moved) \<Rightarrow> if moved then list_sort sh st' l else Some st')"

text \<open>The handler stopped the loop at an element, or the loop came to the end.\<close>

partial_function (option) list_apply_fwd ::
  "(addr \<Rightarrow> bool) \<Rightarrow> store \<Rightarrow> addr option \<Rightarrow> addr option option" where
  "list_apply_fwd ah st p =
     (case p of
        None \<Rightarrow> Some None
      | Some e \<Rightarrow> if ah e then Some p else list_apply_fwd ah st (le_next (les st e)))"

partial_function (option) list_apply_rev ::
  "(addr \<Rightarrow> bool) \<Rightarrow> store \<Rightarrow> addr option \<Rightarrow> addr option option" where
  "list_apply_rev ah st p =
     (case p of
        None \<Rightarrow> Some None
      | Some e \<Rightarrow> if ah e then Some p else list_apply_rev ah st (le_prev (les st e)))"

definition list_apply :: "store \<Rightarrow> addr \<Rightarrow> bool \<Rightarrow> (addr \<Rightarrow> bool) \<Rightarrow> addr option option" where
  "list_apply st l fwd ah =
     (if fwd then list_apply_fwd ah st (l_head (lists st l))
      else list_apply_rev ah st (l_tail (lists st l)))"

definition list_head :: "store \<Rightarrow> addr \<Rightarrow> addr option" where
  "list_head st l = l_head (lists st l)"

definition list_tail :: "store \<Rightarrow> addr \<Rightarrow> addr option" where
  "list_tail st l = l_tail (lists st l)"

partial_function (option) list_count_loop :: "store \<Rightarrow> addr option \<Rightarrow> nat \<Rightarrow> nat option" where
  "list_count_loop st p n =
     (case p of
        None \<Rightarrow> Some n
      | Some e \<Rightarrow> list_count_loop st (le_next (les st e)) (Suc n mod 2 ^ 32))"

definition list_count :: "store \<Rightarrow> addr \<Rightarrow> nat option" where
  "list_count st l = list_count_loop st (l_head (lists st l)) 0"

section \<open>Representation\<close>

definition hd_opt :: "addr list \<Rightarrow> addr option \<Rightarrow> addr option" where
  "hd_opt xs q = (case xs of [] \<Rightarrow> q | x # _ \<Rightarrow> Some x)"

definition last_opt :: "addr list \<Rightarrow> addr option \<Rightarrow> addr option" where
  "last_opt xs p = (if xs = [] then p else Some (last xs))"

text \<open>A run of elements whose outer links are \<open>p\<close> and \<open>q\<close>.\<close>

fun seg :: "store \<Rightarrow> addr option \<Rightarrow> addr list \<Rightarrow> addr option \<Rightarrow> bool" where
  "seg st p [] q = True"
| "seg st p (x # xs) q =
     (le_prev (les st x) = p \<and> le_next (les st x) = hd_opt xs q \<and> seg st (Some x) xs q)"

definition dlist :: "store \<Rightarrow> addr \<Rightarrow> addr list \<Rightarrow> bool" where
  "dlist st l xs \<longleftrightarrow> distinct xs \<and> seg st None xs None \<and>
     l_head (lists st l) = hd_opt xs None \<and> l_tail (lists st l) = last_opt xs None"

text \<open>The store holds the lists \<open>f\<close>, and an element is in the list that it names.\<close>

definition store_wf :: "store \<Rightarrow> (addr \<Rightarrow> addr list) \<Rightarrow> bool" where
  "store_wf st f \<longleftrightarrow> (\<forall>l. dlist st l (f l)) \<and> (\<forall>l e. e \<in> set (f l) \<longleftrightarrow> le_list (les st e) = Some l)"

lemma hd_opt_simps [simp]:
  "hd_opt [] q = q" "hd_opt (x # xs) q = Some x" "hd_opt (xs @ ys) q = hd_opt xs (hd_opt ys q)"
  by (auto simp: hd_opt_def split: list.splits)

lemma last_opt_simps [simp]:
  "last_opt [] p = p" "last_opt (xs @ [x]) p = Some x" "last_opt (x # xs) p = last_opt xs (Some x)"
  "last_opt (xs @ ys) p = last_opt ys (last_opt xs p)"
  by (auto simp: last_opt_def)

lemma seg_append [simp]:
  "seg st p (xs @ ys) q \<longleftrightarrow> seg st p xs (hd_opt ys q) \<and> seg st (last_opt xs p) ys q"
  by (induction xs arbitrary: p) auto

lemma seg_cong:
  "(\<And>x. x \<in> set xs \<Longrightarrow> le_prev (les st' x) = le_prev (les st x) \<and> le_next (les st' x) = le_next (les st x)) \<Longrightarrow>
   seg st' p xs q = seg st p xs q"
  by (induction xs arbitrary: p) auto

lemma hd_opt_mem: "hd_opt xs None = Some x \<Longrightarrow> x \<in> set xs"
  by (cases xs) auto

lemma last_opt_mem: "last_opt xs None = Some x \<Longrightarrow> x \<in> set xs"
  by (cases xs rule: rev_cases) auto

text \<open>Changing only the link after the last, or before the first, element of a run.\<close>

lemma seg_set_last:
  assumes "seg st p (xs @ [x]) q" "distinct (xs @ [x])"
    "\<And>y. y \<in> set xs \<Longrightarrow> le_prev (les st' y) = le_prev (les st y) \<and> le_next (les st' y) = le_next (les st y)"
    "le_prev (les st' x) = le_prev (les st x)" "le_next (les st' x) = q'"
  shows "seg st' p (xs @ [x]) q'"
  using assms by (auto simp: seg_cong [of xs st' st])

lemma seg_set_first:
  assumes "seg st p (x # xs) q" "distinct (x # xs)"
    "\<And>y. y \<in> set xs \<Longrightarrow> le_prev (les st' y) = le_prev (les st y) \<and> le_next (les st' y) = le_next (les st y)"
    "le_next (les st' x) = le_next (les st x)" "le_prev (les st' x) = p'"
  shows "seg st' p' (x # xs) q"
  using assms by (auto simp: seg_cong [of xs st' st])

lemma store_wf_dlist: "store_wf st f \<Longrightarrow> dlist st l (f l)"
  and store_wf_mem: "store_wf st f \<Longrightarrow> e \<in> set (f l) \<longleftrightarrow> le_list (les st e) = Some l"
  by (simp_all add: store_wf_def)

text \<open>An operation on the list \<open>l\<close> leaves all other lists alone.\<close>

lemma store_wf_frame:
  assumes wf: "store_wf st f" and l: "dlist st' l xs"
    and lists: "\<And>k. k \<noteq> l \<Longrightarrow> lists st' k = lists st k"
    and same: "\<And>e. e \<notin> set (f l) \<Longrightarrow> e \<notin> set xs \<Longrightarrow> les st' e = les st e"
    and mem: "\<And>e. e \<in> set xs \<Longrightarrow> le_list (les st' e) = Some l"
    and gone: "\<And>e. e \<in> set (f l) \<Longrightarrow> e \<notin> set xs \<Longrightarrow> le_list (les st' e) = None"
    and new: "\<And>e. e \<in> set xs \<Longrightarrow> e \<notin> set (f l) \<Longrightarrow> le_list (les st e) = None"
  shows "store_wf st' (f(l := xs))"
proof -
  have other: "e \<notin> set (f l) \<and> e \<notin> set xs" if "e \<in> set (f k)" "k \<noteq> l" for e k
    using that store_wf_mem [OF wf, of e k] store_wf_mem [OF wf, of e l] new [of e] by auto
  have "dlist st' k (f k)" if "k \<noteq> l" for k
  proof -
    have "seg st' None (f k) None = seg st None (f k) None"
      using other [OF _ that] same by (intro seg_cong) simp
    then show ?thesis using store_wf_dlist [OF wf, of k] lists [OF that] by (simp add: dlist_def)
  qed
  moreover have "(e \<in> set ((f(l := xs)) k)) = (le_list (les st' e) = Some k)" for e k
  proof (cases "e \<in> set (f l) \<or> e \<in> set xs")
    case True
    then show ?thesis using mem [of e] gone [of e] other [of e k] by (cases "k = l"; cases "e \<in> set xs") auto
  next
    case False
    then show ?thesis using same [of e] store_wf_mem [OF wf, of e k] store_wf_mem [OF wf, of e l] by auto
  qed
  ultimately show ?thesis using l by (simp add: store_wf_def)
qed

lemma list_append_wf:
  assumes wf: "store_wf st f" and free: "le_list (les st e) = None"
  shows "store_wf (list_append st l e d) (f(l := f l @ [e]))"
proof -
  note d = store_wf_dlist [OF wf, of l, unfolded dlist_def]
  have e: "e \<notin> set (f l)" using store_wf_mem [OF wf, of e l] free by simp
  have mem: "le_list (les st x) = Some l" if "x \<in> set (f l)" for x using store_wf_mem [OF wf] that by simp
  let ?st = "list_append st l e d"
  show ?thesis
  proof (cases "f l" rule: rev_cases)
    case Nil
    then have st: "?st = set_list l (\<lambda>r. r\<lparr>l_tail := Some e\<rparr>) (set_list l (\<lambda>r. r\<lparr>l_head := Some e\<rparr>)
        (set_le e (\<lambda>r. r\<lparr>le_prev := None, le_next := None, le_list := Some l, le_data := d\<rparr>) st))"
      using d free by (simp add: list_append_def Let_def)
    show ?thesis unfolding st using Nil free by (intro store_wf_frame [OF wf]) (auto simp: dlist_def)
  next
    case (snoc ys t)
    then have st: "?st = set_list l (\<lambda>r. r\<lparr>l_tail := Some e\<rparr>) (set_le t (\<lambda>r. r\<lparr>le_next := Some e\<rparr>)
        (set_le e (\<lambda>r. r\<lparr>le_prev := Some t, le_next := None, le_list := Some l, le_data := d\<rparr>) st))"
      using d free by (auto simp: list_append_def Let_def hd_opt_def split: list.splits)
    have sg: "seg st None (ys @ [t]) None" "distinct (ys @ [t])" using d snoc by metis+
    have "seg ?st None (ys @ [t]) (Some e)"
      by (rule seg_set_last [OF sg]) (use e snoc sg(2) in \<open>auto simp: st\<close>)
    then have "seg ?st None (f l @ [e]) None" using e by (simp add: snoc st)
    then have "dlist ?st l (f l @ [e])" using d e snoc unfolding dlist_def by (simp add: st)
    then show ?thesis
      by (rule store_wf_frame [OF wf]) (use snoc e free mem in \<open>auto simp: st\<close>)
  qed
qed

lemma list_prepend_wf:
  assumes wf: "store_wf st f" and free: "le_list (les st e) = None"
  shows "store_wf (list_prepend st l e d) (f(l := e # f l))"
proof -
  note d = store_wf_dlist [OF wf, of l, unfolded dlist_def]
  have e: "e \<notin> set (f l)" using store_wf_mem [OF wf, of e l] free by simp
  have mem: "le_list (les st x) = Some l" if "x \<in> set (f l)" for x using store_wf_mem [OF wf] that by simp
  let ?st = "list_prepend st l e d"
  show ?thesis
  proof (cases "f l")
    case Nil
    then have st: "?st = set_list l (\<lambda>r. r\<lparr>l_head := Some e\<rparr>) (set_list l (\<lambda>r. r\<lparr>l_tail := Some e\<rparr>)
        (set_le e (\<lambda>r. r\<lparr>le_prev := None, le_next := None, le_list := Some l, le_data := d\<rparr>) st))"
      using d free by (simp add: list_prepend_def Let_def)
    show ?thesis unfolding st using Nil free by (intro store_wf_frame [OF wf]) (auto simp: dlist_def)
  next
    case (Cons h ys)
    then have st: "?st = set_list l (\<lambda>r. r\<lparr>l_head := Some e\<rparr>) (set_le h (\<lambda>r. r\<lparr>le_prev := Some e\<rparr>)
        (set_le e (\<lambda>r. r\<lparr>le_prev := None, le_next := Some h, le_list := Some l, le_data := d\<rparr>) st))"
      using d free by (auto simp: list_prepend_def Let_def last_opt_def split: if_splits)
    have sg: "seg st None (h # ys) None" "distinct (h # ys)" using d Cons by metis+
    have "seg ?st (Some e) (h # ys) None"
      by (rule seg_set_first [OF sg]) (use e Cons sg(2) in \<open>auto simp: st\<close>)
    then have "seg ?st None (e # f l) None" using e by (simp add: Cons st)
    then have "dlist ?st l (e # f l)" using d e Cons unfolding dlist_def by (simp add: st last_opt_def)
    then show ?thesis
      by (rule store_wf_frame [OF wf]) (use Cons e free mem in \<open>auto simp: st\<close>)
  qed
qed

lemma list_insert_after_wf:
  assumes wf: "store_wf st f" and free: "le_list (les st e) = None" and l: "f l = xs @ x # ys"
  shows "store_wf (list_insert_after st l x e d) (f(l := xs @ x # e # ys))"
proof -
  note d = store_wf_dlist [OF wf, of l, unfolded dlist_def l]
  have e: "e \<notin> set xs" "e \<noteq> x" "e \<notin> set ys" using store_wf_mem [OF wf, of e l] free l by auto
  have mem: "le_list (les st y) = Some l" if "y \<in> set (xs @ x # ys)" for y
    using store_wf_mem [OF wf, of y l] that unfolding l by simp
  have sg: "seg st None (xs @ [x]) (hd_opt ys None)" "distinct (xs @ [x])" "seg st (Some x) ys None"
    "distinct ys" "x \<notin> set ys" "set xs \<inter> set ys = {}" using d by simp_all
  have nx: "n \<in> set ys" if "le_next (les st x) = Some n" for n
    using d that by (intro hd_opt_mem) simp
  let ?st = "list_insert_after st l x e d"
  have dl: "dlist ?st l (xs @ x # e # ys)"
  proof (cases ys)
    case Nil
    have st: "?st = set_le x (\<lambda>r. r\<lparr>le_next := Some e\<rparr>) (set_le e (\<lambda>r. r\<lparr>le_prev := Some x,
        le_next := None, le_list := Some l, le_data := d\<rparr>) (set_list l (\<lambda>r. r\<lparr>l_tail := Some e\<rparr>) st))"
      using d free Nil by (simp add: list_insert_after_def Let_def)
    have "seg ?st None (xs @ [x]) (Some e)"
      by (rule seg_set_last [OF sg(1,2)]) (use e sg(2) in \<open>auto simp: st\<close>)
    then show ?thesis using d e Nil by (simp add: dlist_def st)
  next
    case (Cons n vs)
    have st: "?st = set_le x (\<lambda>r. r\<lparr>le_next := Some e\<rparr>) (set_le e (\<lambda>r. r\<lparr>le_prev := Some x,
        le_next := Some n, le_list := Some l, le_data := d\<rparr>) (set_le n (\<lambda>r. r\<lparr>le_prev := Some e\<rparr>) st))"
      using d free Cons by (simp add: list_insert_after_def Let_def)
    have "seg ?st None (xs @ [x]) (Some e)"
      by (rule seg_set_last [OF sg(1,2)]) (use e sg Cons in \<open>auto simp: st\<close>)
    moreover have "seg ?st (Some e) (n # vs) None"
      by (rule seg_set_first [OF sg(3,4) [unfolded Cons]]) (use e sg Cons in \<open>auto simp: st\<close>)
    ultimately show ?thesis using d e Cons by (simp add: dlist_def st last_opt_def)
  qed
  show ?thesis
    by (rule store_wf_frame [OF wf dl])
       (use free mem e l in \<open>auto simp: list_insert_after_def Let_def dest: nx split: option.splits\<close>)
qed

lemma list_insert_before_wf:
  assumes wf: "store_wf st f" and free: "le_list (les st e) = None" and l: "f l = xs @ x # ys"
  shows "store_wf (list_insert_before st l x e d) (f(l := xs @ e # x # ys))"
proof -
  note d = store_wf_dlist [OF wf, of l, unfolded dlist_def l]
  have e: "e \<notin> set xs" "e \<noteq> x" "e \<notin> set ys" using store_wf_mem [OF wf, of e l] free l by auto
  have mem: "le_list (les st y) = Some l" if "y \<in> set (xs @ x # ys)" for y
    using store_wf_mem [OF wf, of y l] that unfolding l by simp
  have sg: "seg st None xs (Some x)" "distinct xs" "seg st (last_opt xs None) (x # ys) None"
    "distinct (x # ys)" "x \<notin> set xs" "set xs \<inter> set ys = {}" using d by auto
  have pv: "p \<in> set xs" if "le_prev (les st x) = Some p" for p
    using d that by (intro last_opt_mem) simp
  let ?st = "list_insert_before st l x e d"
  have dl: "dlist ?st l (xs @ e # x # ys)"
  proof (cases xs rule: rev_cases)
    case Nil
    have st: "?st = set_le x (\<lambda>r. r\<lparr>le_prev := Some e\<rparr>) (set_le e (\<lambda>r. r\<lparr>le_prev := None,
        le_next := Some x, le_list := Some l, le_data := d\<rparr>) (set_list l (\<lambda>r. r\<lparr>l_head := Some e\<rparr>) st))"
      using d free Nil by (simp add: list_insert_before_def Let_def)
    have "seg ?st (Some e) (x # ys) None"
      by (rule seg_set_first [OF sg(3,4)]) (use e sg(4) in \<open>auto simp: st\<close>)
    then show ?thesis using d e Nil by (simp add: dlist_def st last_opt_def)
  next
    case (snoc us p)
    have st: "?st = set_le x (\<lambda>r. r\<lparr>le_prev := Some e\<rparr>) (set_le e (\<lambda>r. r\<lparr>le_prev := Some p,
        le_next := Some x, le_list := Some l, le_data := d\<rparr>) (set_le p (\<lambda>r. r\<lparr>le_next := Some e\<rparr>) st))"
      using d free snoc by (auto simp: list_insert_before_def Let_def)
    have "seg ?st (Some e) (x # ys) None"
      by (rule seg_set_first [OF sg(3,4)]) (use e sg snoc in \<open>auto simp: st\<close>)
    moreover have "seg ?st None (us @ [p]) (Some e)"
      by (rule seg_set_last [OF sg(1,2) [unfolded snoc]]) (use e sg snoc in \<open>auto simp: st\<close>)
    ultimately show ?thesis using d e snoc by (simp add: dlist_def st last_opt_def)
  qed
  show ?thesis
    by (rule store_wf_frame [OF wf dl])
       (use free mem e l in \<open>auto simp: list_insert_before_def Let_def dest: pv split: option.splits\<close>)
qed

lemma list_unlink_wf:
  assumes wf: "store_wf st f" and l: "f l = xs @ e # ys"
  shows "store_wf (list_unlink st e) (f(l := xs @ ys))"
    and "le_list (les (list_unlink st e) e) = None"
    and "\<And>y. le_data (les (list_unlink st e) y) = le_data (les st y)"
proof -
  note d = store_wf_dlist [OF wf, of l, unfolded dlist_def l]
  have mem: "le_list (les st y) = Some l" if "y \<in> set (xs @ e # ys)" for y
    using store_wf_mem [OF wf, of y l] that unfolding l by simp
  have sg: "seg st None xs (Some e)" "distinct xs" "seg st (Some e) ys None" "distinct ys"
    "e \<notin> set xs" "e \<notin> set ys" "set xs \<inter> set ys = {}" using d by auto
  have pn: "le_prev (les st e) = last_opt xs None" "le_next (les st e) = hd_opt ys None"
    using d by simp_all
  let ?st = "list_unlink st e"
  have cases: "le_next (les st e) = Some n \<Longrightarrow> n \<in> set ys" "le_prev (les st e) = Some p \<Longrightarrow> p \<in> set xs" for n p
    using pn hd_opt_mem last_opt_mem by auto
  have un: "le_list (les ?st y) = (if y = e then None else le_list (les st y))"
    "le_data (les ?st y) = le_data (les st y)"
    "y \<noteq> e \<Longrightarrow> le_next (les ?st y) = (if last_opt xs None = Some y then hd_opt ys None else le_next (les st y))"
    "y \<noteq> e \<Longrightarrow> le_prev (les ?st y) = (if hd_opt ys None = Some y then last_opt xs None else le_prev (les st y))"
    "y \<notin> set (xs @ e # ys) \<Longrightarrow> les ?st y = les st y" for y
    using mem [of e] sg cases by (auto simp: list_unlink_def Let_def simp flip: pn split: option.splits)
  have ne: "y \<noteq> e" if "y \<in> set xs \<or> y \<in> set ys" for y using that sg by auto
  have hdtl: "l_head (lists ?st l) = (if xs = [] then hd_opt ys None else l_head (lists st l))"
    "l_tail (lists ?st l) = (if ys = [] then last_opt xs None else l_tail (lists st l))"
    "k \<noteq> l \<Longrightarrow> lists ?st k = lists st k" for k
    using mem [of e] sg cases pn
    by (auto simp: list_unlink_def Let_def hd_opt_def last_opt_def split: option.splits list.splits if_splits)
  have "seg ?st None xs (hd_opt ys None)"
  proof (cases xs rule: rev_cases)
    case (snoc us p)
    show ?thesis unfolding snoc
      by (rule seg_set_last [OF sg(1,2) [unfolded snoc]])
         (use sg snoc ne in \<open>auto simp: un dest: hd_opt_mem\<close>)
  qed simp
  moreover have "seg ?st (last_opt xs None) ys None"
  proof (cases ys)
    case (Cons n vs)
    show ?thesis unfolding Cons
      by (rule seg_set_first [OF sg(3,4) [unfolded Cons]])
         (use sg Cons ne in \<open>auto simp: un dest: last_opt_mem\<close>)
  qed simp
  ultimately have dl: "dlist ?st l (xs @ ys)"
    using d by (cases xs rule: rev_cases; cases ys) (auto simp: dlist_def hdtl)
  show "store_wf ?st (f(l := xs @ ys))"
    by (rule store_wf_frame [OF wf dl]) (use mem l sg in \<open>auto simp: un hdtl\<close>)
  show "le_list (les ?st e) = None" by (simp add: un)
  show "le_data (les ?st y) = le_data (les st y)" for y by (simp add: un)
qed

section \<open>The loops\<close>

lemma list_count_loop_seg:
  "seg st p xs None \<Longrightarrow> n < 2 ^ 32 \<Longrightarrow>
   list_count_loop st (hd_opt xs None) n = Some ((n + length xs) mod 2 ^ 32)"
proof (induction xs arbitrary: p n)
  case (Cons x xs)
  have "(Suc n mod 2 ^ 32 + length xs) mod 2 ^ 32 = (n + length (x # xs)) mod 2 ^ 32"
    by (simp add: mod_simps)
  with Cons.IH [of "Some x" "Suc n mod 2 ^ 32"] Cons.prems show ?case
    by (subst list_count_loop.simps) simp
qed (simp add: list_count_loop.simps)

lemma list_apply_fwd_seg: "seg st p xs None \<Longrightarrow> list_apply_fwd ah st (hd_opt xs None) = Some (find ah xs)"
proof (induction xs arbitrary: p)
  case (Cons x xs)
  then show ?case by (subst list_apply_fwd.simps) auto
qed (simp add: list_apply_fwd.simps)

lemma list_apply_rev_seg: "seg st None xs q \<Longrightarrow> list_apply_rev ah st (last_opt xs None) = Some (find ah (rev xs))"
proof (induction xs arbitrary: q rule: rev_induct)
  case (snoc x xs)
  then show ?case by (subst list_apply_rev.simps) auto
qed (simp add: list_apply_rev.simps)

lemma list_count_wf: "store_wf st f \<Longrightarrow> list_count st l = Some (length (f l) mod 2 ^ 32)"
  using store_wf_dlist [of st f l] by (auto simp: list_count_def dlist_def list_count_loop_seg)

lemma list_apply_wf: "store_wf st f \<Longrightarrow> list_apply st l fwd ah = Some (find ah (if fwd then f l else rev (f l)))"
  using store_wf_dlist [of st f l]
  by (auto simp: list_apply_def dlist_def list_apply_fwd_seg list_apply_rev_seg)

lemma store_wf_data: "store_wf (set_le e (\<lambda>r. r\<lparr>le_data := d\<rparr>) st) f = store_wf st f"
proof -
  have "seg (set_le e (\<lambda>r. r\<lparr>le_data := d\<rparr>) st) p xs q = seg st p xs q" for p xs q
    by (rule seg_cong) simp
  then show ?thesis unfolding store_wf_def dlist_def by (auto split: if_splits)
qed

lemma store_wf_init: "store_wf st f \<Longrightarrow> f l = [] \<Longrightarrow> store_wf (list_init st l) f"
  using store_wf_frame [of st f "list_init st l" l "[]"]
  by (auto simp: dlist_def list_init_def fun_upd_idem)

lemma list_flush_loop_wf:
  "store_wf st f \<Longrightarrow> f l = xs \<Longrightarrow>
   \<exists>st'. list_flush_loop st (hd_opt xs None) log = Some (st', log @ map (\<lambda>e. le_data (les st e)) xs) \<and>
     store_wf st' (f(l := [])) \<and>
     (\<forall>e. le_data (les st' e) = (if e \<in> set xs then None else le_data (les st e)))"
proof (induction xs arbitrary: st f log)
  case Nil
  then show ?case by (auto simp: list_flush_loop.simps fun_upd_idem)
next
  case (Cons x xs)
  note u = list_unlink_wf [OF Cons.prems(1), of l "[]" x xs, simplified, OF Cons.prems(2)]
  let ?st = "set_le x (\<lambda>r. r\<lparr>le_data := None\<rparr>) (list_unlink st x)"
  have x: "le_next (les st x) = hd_opt xs None" "x \<notin> set xs"
    using store_wf_dlist [OF Cons.prems(1), of l] Cons.prems(2) by (simp_all add: dlist_def)
  have wf: "store_wf ?st (f(l := xs))" using u(1) by (simp add: store_wf_data)
  have "map (\<lambda>e. le_data (les ?st e)) xs = map (\<lambda>e. le_data (les st e)) xs"
    using x(2) u(3) by (auto intro!: map_cong)
  moreover obtain st' where "list_flush_loop ?st (hd_opt xs None) (log @ [le_data (les st x)]) =
      Some (st', (log @ [le_data (les st x)]) @ map (\<lambda>e. le_data (les ?st e)) xs)"
    "store_wf st' (f(l := []))"
    "\<forall>e. le_data (les st' e) = (if e \<in> set xs then None else le_data (les ?st e))"
    using Cons.IH [OF wf, of "log @ [le_data (les st x)]"] unfolding fun_upd_same fun_upd_upd by blast
  ultimately show ?case using u(3) by (subst list_flush_loop.simps) (simp add: x)
qed

lemma list_flush_wf:
  assumes wf: "store_wf st f"
  shows "\<exists>st'. list_flush st l = Some (st', map (\<lambda>e. le_data (les st e)) (f l)) \<and>
     store_wf st' (f(l := [])) \<and>
     (\<forall>e. le_data (les st' e) = (if e \<in> set (f l) then None else le_data (les st e)))"
proof -
  have "l_head (lists st l) = hd_opt (f l) None"
    using store_wf_dlist [OF wf, of l] by (simp add: dlist_def)
  with list_flush_loop_wf [OF wf refl, of l "[]"] show ?thesis
    using store_wf_init [of _ "f(l := [])" l] by (auto simp: list_flush_def list_init_def)
qed

lemma list_clear_loop_seg:
  "seg st p xs None \<Longrightarrow> distinct xs \<Longrightarrow>
   \<exists>st'. list_clear_loop st (hd_opt xs None) = Some st' \<and> lists st' = lists st \<and>
     (\<forall>e. e \<notin> set xs \<longrightarrow> les st' e = les st e) \<and>
     (\<forall>e \<in> set xs. les st' e = \<lparr>le_prev = None, le_next = None, le_list = None, le_data = None\<rparr>)"
proof (induction xs arbitrary: st p)
  case Nil
  then show ?case by (simp add: list_clear_loop.simps)
next
  case (Cons x xs)
  let ?st = "set_le x (\<lambda>r. r\<lparr>le_list := None, le_prev := None, le_next := None, le_data := None\<rparr>) st"
  have "seg ?st (Some x) xs None"
    using Cons.prems by (subst seg_cong [of xs _ st]) auto
  from Cons.IH [OF this] Cons.prems show ?case by (subst list_clear_loop.simps) force
qed

lemma list_clear_wf:
  assumes wf: "store_wf st f"
  shows "\<exists>st'. list_clear st l = Some st' \<and> store_wf st' (f(l := []))"
proof -
  have d: "dlist st l (f l)" by (rule store_wf_dlist [OF wf])
  then obtain st' where st': "list_clear_loop st (l_head (lists st l)) = Some st'" "lists st' = lists st"
    "\<forall>e. e \<notin> set (f l) \<longrightarrow> les st' e = les st e"
    "\<forall>e \<in> set (f l). les st' e = \<lparr>le_prev = None, le_next = None, le_list = None, le_data = None\<rparr>"
    using list_clear_loop_seg [of st None "f l"] by (auto simp: dlist_def)
  have "store_wf (list_init st' l) (f(l := []))"
    by (rule store_wf_frame [OF wf]) (use st' in \<open>auto simp: list_init_def dlist_def\<close>)
  with st'(1) show ?thesis by (simp add: list_clear_def)
qed

section \<open>Sorted insertion and sorting\<close>

text \<open>The effect of the sorted insertion, and of one pass of the sort, on HOL lists.\<close>

definition insert_last :: "('a \<Rightarrow> 'a \<Rightarrow> bool) \<Rightarrow> 'a \<Rightarrow> 'a list \<Rightarrow> 'a list" where
  "insert_last sh e xs = rev (dropWhile (\<lambda>x. \<not> sh x e) (rev xs)) @ e # rev (takeWhile (\<lambda>x. \<not> sh x e) (rev xs))"

fun bubble :: "('a \<Rightarrow> 'a \<Rightarrow> bool) \<Rightarrow> 'a list \<Rightarrow> 'a list" where
  "bubble sh (x # y # ys) = (if sh x y then x # bubble sh (y # ys) else y # bubble sh (x # ys))"
| "bubble sh xs = xs"

text \<open>The pairs of elements in the wrong order: the measure of the sort.\<close>

fun inversions :: "('a \<Rightarrow> 'a \<Rightarrow> bool) \<Rightarrow> 'a list \<Rightarrow> nat" where
  "inversions sh [] = 0"
| "inversions sh (x # xs) = size {#y \<in># mset xs. \<not> sh x y#} + inversions sh xs"

lemma list_insert_sorted_loop_wf:
  assumes "store_wf st f" "le_list (les st e) = None" "f l = ys @ zs" "\<forall>z \<in> set zs. \<not> sh z e"
  shows "\<exists>st'. list_insert_sorted_loop sh st l (last_opt ys None) e = Some st' \<and>
     store_wf st' (f(l := insert_last sh e (ys @ zs)))"
  using assms
proof (induction ys arbitrary: zs rule: rev_induct)
  case Nil
  then have a: "takeWhile (\<lambda>x. \<not> sh x e) (rev zs) = rev zs" and b: "dropWhile (\<lambda>x. \<not> sh x e) (rev zs) = []"
    unfolding takeWhile_eq_all_conv dropWhile_eq_Nil_conv by auto
  have "insert_last sh e zs = e # zs" unfolding insert_last_def a b by simp
  with list_prepend_wf [OF Nil(1,2), of l] Nil(3) show ?case
    by (simp add: list_insert_sorted_loop.simps fun_upd_def)
next
  case (snoc x ys)
  show ?case
  proof (cases "sh x e")
    case True
    then have "insert_last sh e (ys @ x # zs) = ys @ x # e # zs"
      using snoc.prems(4) takeWhile_append2 [of "rev zs" "\<lambda>x. \<not> sh x e"] dropWhile_append2 [of "rev zs" "\<lambda>x. \<not> sh x e"]
      by (simp add: insert_last_def)
    with list_insert_after_wf [OF snoc.prems(1,2), of l ys x zs] snoc.prems(3) True show ?thesis
      by (simp add: list_insert_sorted_loop.simps fun_upd_def)
  next
    case False
    have "le_prev (les st x) = last_opt ys None"
      using store_wf_dlist [OF snoc.prems(1), of l] snoc.prems(3) by (simp add: dlist_def)
    with False snoc.IH [OF snoc.prems(1,2), of "x # zs"] snoc.prems(3,4) show ?thesis
      by (subst list_insert_sorted_loop.simps) (simp add: fun_upd_def)
  qed
qed

lemma list_insert_sorted_wf:
  assumes wf: "store_wf st f" and free: "le_list (les st e) = None"
  shows "\<exists>st'. list_insert_sorted sh st l e d = Some st' \<and> store_wf st' (f(l := insert_last sh e (f l)))"
proof -
  have "l_tail (lists st l) = last_opt (f l) None"
    using store_wf_dlist [OF wf, of l] by (simp add: dlist_def)
  with list_insert_sorted_loop_wf [of "set_le e (\<lambda>r. r\<lparr>le_data := d\<rparr>) st" f e l "f l" "[]"] wf free
  show ?thesis by (simp add: list_insert_sorted_def store_wf_data)
qed

lemma insert_last_sorted:
  assumes "sorted_wrt sh xs" and tot: "\<And>x. x \<in> set xs \<Longrightarrow> sh x e \<or> sh e x" and "transp sh"
  shows "sorted_wrt sh (insert_last sh e xs)"
proof -
  define ys where "ys = rev (dropWhile (\<lambda>x. \<not> sh x e) (rev xs))"
  define zs where "zs = rev (takeWhile (\<lambda>x. \<not> sh x e) (rev xs))"
  have "xs = ys @ zs" unfolding ys_def zs_def
    by (metis rev_append rev_rev_ident takeWhile_dropWhile_id)
  then have s: "sorted_wrt sh ys" "sorted_wrt sh zs" "\<And>y z. y \<in> set ys \<Longrightarrow> z \<in> set zs \<Longrightarrow> sh y z"
    using assms(1) by (auto simp: sorted_wrt_append)
  have z: "sh e z" if "z \<in> set zs" for z
  proof -
    have "\<not> sh z e" "z \<in> set xs" using that by (auto simp: zs_def dest: set_takeWhileD)
    with tot show ?thesis by blast
  qed
  have y: "sh y e" if y: "y \<in> set ys" for y
  proof -
    obtain us v where uv: "ys = us @ [v]" using y by (cases ys rule: rev_cases) auto
    then have "dropWhile (\<lambda>x. \<not> sh x e) (rev xs) = v # rev us" by (simp add: ys_def rev_swap)
    then have "sh v e" by (simp add: dropWhile_eq_Cons_conv)
    moreover have "y = v \<or> sh y v" using y s unfolding uv by (auto simp: sorted_wrt_append)
    ultimately show ?thesis using assms(3) by (auto dest: transpD)
  qed
  from s y z show ?thesis unfolding insert_last_def ys_def [symmetric] zs_def [symmetric]
    by (simp add: sorted_wrt_append)
qed

lemma mset_bubble [simp]: "mset (bubble sh xs) = mset xs"
  by (induction sh xs rule: bubble.induct) auto

lemma bubble_inversions:
  "distinct xs \<Longrightarrow> (\<And>x y. x \<in> set xs \<Longrightarrow> y \<in> set xs \<Longrightarrow> x \<noteq> y \<Longrightarrow> sh x y \<or> sh y x) \<Longrightarrow>
   inversions sh (bubble sh xs) \<le> inversions sh xs \<and>
   (bubble sh xs = xs \<or> inversions sh (bubble sh xs) < inversions sh xs)"
proof (induction sh xs rule: bubble.induct)
  case (1 sh x y ys)
  show ?case
  proof (cases "sh x y")
    case True
    have "sh a b \<or> sh b a" if "a \<in> set (y # ys)" "b \<in> set (y # ys)" "a \<noteq> b" for a b using 1(4) that by auto
    from 1(1) [OF True _ this] 1(3) True show ?thesis by auto
  next
    case False
    then have "sh y x" using 1(3) 1(4) [of x y] by auto
    moreover have "sh a b \<or> sh b a" if "a \<in> set (x # ys)" "b \<in> set (x # ys)" "a \<noteq> b" for a b
      using 1(4) that by auto
    note 1(2) [OF False _ this]
    ultimately show ?thesis using False 1(3) by auto
  qed
qed auto

text \<open>A pass moves nothing exactly when neighbours are in order.\<close>

lemma bubble_id: "bubble sh xs = xs \<Longrightarrow> distinct xs \<Longrightarrow> transp sh \<Longrightarrow> sorted_wrt sh xs"
proof (induction sh xs rule: bubble.induct)
  case (1 sh x y ys)
  then have "sh x y" "sorted_wrt sh (y # ys)" by (auto split: if_splits)
  with 1 show ?case by (auto dest: transpD)
qed auto

lemma list_sort_pass_wf:
  assumes "store_wf st f" "f l = xs @ ys"
  shows "\<exists>st'. list_sort_pass sh st l (hd_opt ys None) moved = Some (st', moved \<or> bubble sh ys \<noteq> ys) \<and>
     store_wf st' (f(l := xs @ bubble sh ys)) \<and> (\<forall>e. le_data (les st' e) = le_data (les st e))"
  using assms
proof (induction sh ys arbitrary: st f xs moved rule: bubble.induct [case_names step none one])
  case (step sh x y ys)
  have d: "le_next (les st x) = Some y" "x \<noteq> y"
    using store_wf_dlist [OF step(3), of l] step(4) by (simp_all add: dlist_def)
  show ?case
  proof (cases "sh x y")
    case True
    with step(1) [OF _ step(3), of "xs @ [x]" moved] step(4) d(1) show ?thesis
      by (subst list_sort_pass.simps) (simp add: fun_upd_def)
  next
    case False
    let ?u = "list_unlink st x"
    let ?i = "list_insert_after ?u l y x (le_data (les ?u x))"
    note u = list_unlink_wf [OF step(3), of l xs x "y # ys", OF step(4)]
    have i: "store_wf ?i (f(l := xs @ y # x # ys))"
      using list_insert_after_wf [OF u(1,2), of l xs y ys] by simp
    have "le_data (les ?i e) = le_data (les st e)" for e
      using u(3) by (simp add: list_insert_after_def Let_def u(2) split: option.splits)
    with step(2) [OF False i, of "xs @ [y]" True] False d show ?thesis
      by (subst list_sort_pass.simps) (simp add: Let_def fun_upd_def cong: if_cong)
  qed
next
  case (none sh)
  then show ?case by (simp add: list_sort_pass.simps fun_upd_idem)
next
  case (one sh x)
  then have "le_next (les st x) = None" using store_wf_dlist [of st f l] by (simp add: dlist_def)
  with one show ?case by (simp add: list_sort_pass.simps fun_upd_idem)
qed

lemma list_sort_wf:
  assumes "store_wf st f" "f l = xs"
    "\<And>x y. x \<in> set xs \<Longrightarrow> y \<in> set xs \<Longrightarrow> x \<noteq> y \<Longrightarrow> sh x y \<or> sh y x" "transp sh"
  shows "\<exists>st' ys. list_sort sh st l = Some st' \<and> store_wf st' (f(l := ys)) \<and> mset ys = mset xs \<and>
     sorted_wrt sh ys \<and> (\<forall>e. le_data (les st' e) = le_data (les st e))"
  using assms
proof (induction "inversions sh xs" arbitrary: st f xs rule: less_induct)
  case less
  have h: "l_head (lists st l) = hd_opt xs None" "distinct xs"
    using store_wf_dlist [OF less(2), of l] less(3) by (simp_all add: dlist_def)
  obtain st' where st': "list_sort_pass sh st l (hd_opt xs None) False = Some (st', bubble sh xs \<noteq> xs)"
    "store_wf st' (f(l := bubble sh xs))" "\<forall>e. le_data (les st' e) = le_data (les st e)"
    using list_sort_pass_wf [OF less(2), of l "[]" xs sh False] less(3) by auto
  show ?case
  proof (cases "bubble sh xs = xs")
    case True
    with st' h less(5) bubble_id [OF True] show ?thesis
      by (subst list_sort.simps) auto
  next
    case False
    have s: "set (bubble sh xs) = set xs" by (metis mset_bubble set_mset_mset)
    have "inversions sh (bubble sh xs) < inversions sh xs"
      using bubble_inversions [OF h(2)] less(4) False by blast
    from less(1) [OF this st'(2) _ _ less(5)] s less(4)
    obtain st2 ys where "list_sort sh st' l = Some st2" "store_wf st2 (f(l := ys))" "mset ys = mset xs"
      "sorted_wrt sh ys" "\<forall>e. le_data (les st2 e) = le_data (les st' e)" by (auto simp: fun_upd_def cong: if_cong)
    with st' False h show ?thesis by (subst list_sort.simps) auto
  qed
qed

text \<open>With two elements that the handler puts in neither order, every pass moves an element again.\<close>

lemma list_sort_returns_total:
  assumes "list_sort sh st l = Some st'" "store_wf st f" "transp sh"
    "x \<in> set (f l)" "y \<in> set (f l)" "x \<noteq> y"
  shows "sh x y \<or> sh y x"
  using assms
proof (induction sh st l st' arbitrary: f rule: list_sort.raw_induct [rotated, consumes 1, case_names 1])
  case (1 list_sort sh st l st' f)
  have h: "l_head (lists st l) = hd_opt (f l) None" "distinct (f l)"
    using store_wf_dlist [OF 1(3), of l] by (simp_all add: dlist_def)
  obtain st1 where st1: "list_sort_pass sh st l (hd_opt (f l) None) False = Some (st1, bubble sh (f l) \<noteq> f l)"
    "store_wf st1 (f(l := bubble sh (f l)))"
    using list_sort_pass_wf [OF 1(3), of l "[]" "f l" sh False] by auto
  show ?case
  proof (cases "bubble sh (f l) = f l")
    case True
    then have "sorted_wrt sh (f l)" using bubble_id h(2) 1(4) by blast
    moreover obtain i j where "i < length (f l)" "j < length (f l)" "f l ! i = x" "f l ! j = y" "i \<noteq> j"
      using 1(5-7) by (metis in_set_conv_nth)
    ultimately show ?thesis by (metis linorder_neq_iff sorted_wrt_nth_less)
  next
    case False
    have "set (bubble sh (f l)) = set (f l)" by (metis mset_bubble set_mset_mset)
    with 1(1) [OF _ st1(2) 1(4)] 1(2,5-7) h st1(1) False show ?thesis by auto
  qed
qed

section \<open>The contract of the lists\<close>

definition linked :: "(addr \<Rightarrow> addr list) \<Rightarrow> addr \<Rightarrow> bool" where
  "linked f e \<longleftrightarrow> (\<exists>l. e \<in> set (f l))"

lemma linked_le_list: "store_wf st f \<Longrightarrow> linked f e \<longleftrightarrow> le_list (les st e) \<noteq> None"
  by (auto simp: linked_def store_wf_mem)

lemma list_unlink_remove1:
  assumes wf: "store_wf st f"
  shows "store_wf (list_unlink st e) (\<lambda>l. remove1 e (f l))"
proof (cases "le_list (les st e)")
  case None
  then have "remove1 e (f l) = f l" for l using store_wf_mem [OF wf, of e l] by (simp add: remove1_idem)
  with None wf show ?thesis by (simp add: list_unlink_def)
next
  case (Some l)
  then obtain xs ys where l: "f l = xs @ e # ys" using store_wf_mem [OF wf, of e l] by (auto simp: in_set_conv_decomp)
  have d: "distinct (f l)" using store_wf_dlist [OF wf, of l] by (simp add: dlist_def)
  have "(\<lambda>k. remove1 e (f k)) = f(l := xs @ ys)"
  proof
    fix k
    have "k \<noteq> l \<Longrightarrow> e \<notin> set (f k)" using store_wf_mem [OF wf, of e k] Some by auto
    then show "remove1 e (f k) = (f(l := xs @ ys)) k" using l d by (auto simp: remove1_append remove1_idem)
  qed
  with list_unlink_wf(1) [OF wf l] show ?thesis by simp
qed

text \<open>
  What clients use of a store of lists: an element is in one list at most, is appended to a
  list, is removed from the list it is in, and is searched for from the head of a list.
\<close>

locale element_lists =
  fixes rep :: "'s \<Rightarrow> (addr \<Rightarrow> addr list) \<Rightarrow> bool"
    and append :: "'s \<Rightarrow> addr \<Rightarrow> addr \<Rightarrow> addr option \<Rightarrow> 's"
    and unlink :: "'s \<Rightarrow> addr \<Rightarrow> 's"
    and search :: "'s \<Rightarrow> addr \<Rightarrow> (addr \<Rightarrow> bool) \<Rightarrow> addr option option"
  assumes distinct_rep: "rep st f \<Longrightarrow> distinct (f l)"
    and append_rep: "rep st f \<Longrightarrow> \<not> linked f e \<Longrightarrow> rep (append st l e d) (f(l := f l @ [e]))"
    and unlink_rep: "rep st f \<Longrightarrow> rep (unlink st e) (\<lambda>l. remove1 e (f l))"
    and search_rep: "rep st f \<Longrightarrow> search st l ah = Some (find ah (f l))"
begin

lemma search_append:
  assumes "rep st f" "\<not> linked f e"
  shows "search (append st l e d) k ah =
     (if k = l \<and> find ah (f l) = None \<and> ah e then Some (Some e) else search st k ah)"
proof -
  have "find ah (xs @ [e]) = (if find ah xs = None \<and> ah e then Some e else find ah xs)" for xs
    by (induction xs) auto
  with search_rep [OF append_rep [OF assms], of l d k ah] search_rep [OF assms(1)] show ?thesis by auto
qed

lemma search_unlinked:
  assumes "rep st f"
  shows "search (unlink st e) l ah \<noteq> Some (Some e)"
proof -
  have "find ah (remove1 e (f l)) \<noteq> Some e" using distinct_rep [OF assms, of l] by (auto simp: find_Some_iff)
       (metis nth_mem set_remove1_eq Diff_iff singletonI)
  with search_rep [OF unlink_rep [OF assms], of e l ah] show ?thesis by simp
qed

end

interpretation ll: element_lists store_wf list_append list_unlink "\<lambda>st l. list_apply st l True"
proof
  show "distinct (f l)" if "store_wf st f" for st f l
    using store_wf_dlist [OF that, of l] by (simp add: dlist_def)
  show "store_wf (list_append st l e d) (f(l := f l @ [e]))" if "store_wf st f" "\<not> linked f e" for st f l e d
    using list_append_wf that linked_le_list [OF that(1), of e] by auto
qed (simp_all add: list_unlink_remove1 list_apply_wf)

section \<open>Sequences of operations\<close>

datatype list_op =
    Append addr addr "addr option"
  | Prepend addr addr "addr option"
  | Insert_Before addr addr addr "addr option"
  | Insert_After addr addr addr "addr option"
  | Insert_Sorted "addr \<Rightarrow> addr \<Rightarrow> bool" addr addr "addr option"
  | Unlink addr
  | Flush addr
  | Clear addr

fun list_run :: "store \<Rightarrow> list_op list \<Rightarrow> store option" where
  "list_run st [] = Some st"
| "list_run st (Append l e d # os) = list_run (list_append st l e d) os"
| "list_run st (Prepend l e d # os) = list_run (list_prepend st l e d) os"
| "list_run st (Insert_Before l x e d # os) = list_run (list_insert_before st l x e d) os"
| "list_run st (Insert_After l x e d # os) = list_run (list_insert_after st l x e d) os"
| "list_run st (Insert_Sorted sh l e d # os) =
     Option.bind (list_insert_sorted sh st l e d) (\<lambda>st'. list_run st' os)"
| "list_run st (Unlink e # os) = list_run (list_unlink st e) os"
| "list_run st (Flush l # os) = Option.bind (list_flush st l) (\<lambda>(st', _). list_run st' os)"
| "list_run st (Clear l # os) = Option.bind (list_clear st l) (\<lambda>st'. list_run st' os)"

text \<open>The same operations on HOL lists; an element that is in a list already is not inserted.\<close>

fun spec_op :: "(addr \<Rightarrow> addr list) \<Rightarrow> list_op \<Rightarrow> addr \<Rightarrow> addr list" where
  "spec_op f (Append l e d) = (if linked f e then f else f(l := f l @ [e]))"
| "spec_op f (Prepend l e d) = (if linked f e then f else f(l := e # f l))"
| "spec_op f (Insert_Before l x e d) =
     (if linked f e then f else f(l := takeWhile (\<lambda>y. y \<noteq> x) (f l) @ e # dropWhile (\<lambda>y. y \<noteq> x) (f l)))"
| "spec_op f (Insert_After l x e d) =
     (if linked f e then f
      else f(l := takeWhile (\<lambda>y. y \<noteq> x) (f l) @ x # e # tl (dropWhile (\<lambda>y. y \<noteq> x) (f l))))"
| "spec_op f (Insert_Sorted sh l e d) = (if linked f e then f else f(l := insert_last sh e (f l)))"
| "spec_op f (Unlink e) = (\<lambda>l. remove1 e (f l))"
| "spec_op f (Flush l) = f(l := [])"
| "spec_op f (Clear l) = f(l := [])"

text \<open>The element to insert at has to be in the list that is given.\<close>

fun op_ok :: "(addr \<Rightarrow> addr list) \<Rightarrow> list_op \<Rightarrow> bool" where
  "op_ok f (Insert_Before l x e d) = (x \<in> set (f l))"
| "op_ok f (Insert_After l x e d) = (x \<in> set (f l))"
| "op_ok f _ = True"

fun ops_ok :: "(addr \<Rightarrow> addr list) \<Rightarrow> list_op list \<Rightarrow> bool" where
  "ops_ok f [] = True"
| "ops_ok f (oper # os) = (op_ok f oper \<and> ops_ok (spec_op f oper) os)"

lemma split_at: "x \<in> set xs \<Longrightarrow> xs = takeWhile (\<lambda>y. y \<noteq> x) xs @ x # tl (dropWhile (\<lambda>y. y \<noteq> x) xs)"
  by (induction xs) auto

lemma insert_linked:
  assumes "le_list (les st e) \<noteq> None"
  shows "list_append st l e d = st" "list_prepend st l e d = st"
    "list_insert_before st l x e d = st" "list_insert_after st l x e d = st"
  using assms by (simp_all add: list_append_def list_prepend_def list_insert_before_def list_insert_after_def)

lemma list_insert_sorted_loop_linked:
  assumes e: "le_list (les st e) \<noteq> None"
  shows "seg st None xs q \<Longrightarrow> list_insert_sorted_loop sh st l (last_opt xs None) e = Some st"
proof (induction xs arbitrary: q rule: rev_induct)
  case (snoc x xs)
  then show ?case by (subst list_insert_sorted_loop.simps) (auto simp: insert_linked [OF e])
qed (simp add: list_insert_sorted_loop.simps insert_linked [OF e])

lemma list_insert_sorted_linked:
  assumes wf: "store_wf st f" and e: "le_list (les st e) \<noteq> None"
  shows "\<exists>st'. list_insert_sorted sh st l e d = Some st' \<and> store_wf st' f"
proof -
  let ?st = "set_le e (\<lambda>r. r\<lparr>le_data := d\<rparr>) st"
  have "dlist ?st l (f l)" using store_wf_dlist wf by (simp add: store_wf_data)
  with wf e list_insert_sorted_loop_linked [of ?st e "f l" None] show ?thesis
    by (auto simp: list_insert_sorted_def dlist_def store_wf_data)
qed

lemma list_run_step:
  assumes wf: "store_wf st f" and ok: "op_ok f oper"
  shows "\<exists>st'. (\<forall>os. list_run st (oper # os) = list_run st' os) \<and> store_wf st' (spec_op f oper)"
proof (cases oper)
  case (Append l e d)
  then show ?thesis using wf linked_le_list [OF wf, of e] list_append_wf [OF wf, of e l d]
    by (cases "linked f e") (auto simp: insert_linked)
next
  case (Prepend l e d)
  then show ?thesis using wf linked_le_list [OF wf, of e] list_prepend_wf [OF wf, of e l d]
    by (cases "linked f e") (auto simp: insert_linked)
next
  case (Insert_Before l x e d)
  then have x: "x \<in> set (f l)" using ok by simp
  have "dropWhile (\<lambda>y. y \<noteq> x) (f l) = x # tl (dropWhile (\<lambda>y. y \<noteq> x) (f l))"
    using split_at [OF x] by (metis same_append_eq takeWhile_dropWhile_id)
  with Insert_Before wf linked_le_list [OF wf, of e] list_insert_before_wf [OF wf _ split_at [OF x], of e d]
  show ?thesis by (cases "linked f e") (auto simp: insert_linked)
next
  case (Insert_After l x e d)
  then have x: "x \<in> set (f l)" using ok by simp
  with Insert_After wf linked_le_list [OF wf, of e] list_insert_after_wf [OF wf _ split_at [OF x], of e d]
  show ?thesis by (cases "linked f e") (auto simp: insert_linked)
next
  case (Insert_Sorted sh l e d)
  with wf linked_le_list [OF wf, of e] list_insert_sorted_wf [OF wf, of e sh l d]
    list_insert_sorted_linked [OF wf, of e sh l d]
  show ?thesis by (cases "linked f e") auto
next
  case (Unlink e)
  with list_unlink_remove1 [OF wf] show ?thesis by auto
next
  case (Flush l)
  with list_flush_wf [OF wf, of l] show ?thesis by auto
next
  case (Clear l)
  with list_clear_wf [OF wf, of l] show ?thesis by auto
qed

text \<open>
  C30.  Every sequence of list operations returns and does to the doubly linked lists in memory
  what the specification does to sequences of elements: append, prepend, insertion before, after
  and in order, removal, flush and clear; pointers stay consistent, no element is in two lists,
  other lists are not affected, and inserting an element that is in a list already changes no list.
\<close>

theorem list_operations_refine:
  assumes "store_wf st f" "ops_ok f os"
  shows "\<exists>st'. list_run st os = Some st' \<and> store_wf st' (fold (\<lambda>oper g. spec_op g oper) os f)"
  using assms
proof (induction os arbitrary: st f)
  case (Cons oper os)
  then obtain st' where "\<forall>os. list_run st (oper # os) = list_run st' os" "store_wf st' (spec_op f oper)"
    using list_run_step [of st f oper] by auto
  with Cons.IH [of st' "spec_op f oper"] Cons.prems(2) show ?case by auto
qed auto

text \<open>Zeroed memory, and two elements in one list there.\<close>

definition zero_store :: store where
  "zero_store = \<lparr>les = \<lambda>_. \<lparr>le_prev = None, le_next = None, le_list = None, le_data = None\<rparr>,
                 lists = \<lambda>_. \<lparr>l_head = None, l_tail = None\<rparr>\<rparr>"

definition two_store :: store where
  "two_store = list_append (list_append zero_store 0 1 (Some 11)) 0 2 (Some 12)"

lemma zero_store_wf: "store_wf zero_store (\<lambda>_. [])"
  by (simp add: store_wf_def dlist_def zero_store_def)

lemma two_store_wf: "store_wf two_store ((\<lambda>_. [])(0 := [1, 2]))"
proof -
  have 1: "store_wf (list_append zero_store 0 1 (Some 11)) ((\<lambda>_. [])(0 := [1]))"
    using list_append_wf [OF zero_store_wf, of 1 0] by (simp add: zero_store_def)
  moreover have "le_list (les (list_append zero_store 0 1 (Some 11)) 2) = None"
    by (simp add: zero_store_def list_append_def Let_def)
  ultimately show ?thesis unfolding two_store_def using list_append_wf [OF 1, of 2 0 "Some 12"] by simp
qed

theorem list_operations_refine_witness:
  "\<exists>st. list_run zero_store [Append 0 1 None, Prepend 0 2 None, Insert_After 0 2 3 None, Append 5 3 None,
        Insert_Sorted (\<lambda>x y. x \<le> y) 0 4 None, Unlink 2, Flush 7] = Some st \<and>
     store_wf st ((\<lambda>_. [])(0 := [3, 1, 4]))"
proof -
  have "linked ((\<lambda>_. [])(0 := [2, 3, 1])) 3" "\<not> linked (\<lambda>_. []) 1" "\<not> linked ((\<lambda>_. [])(0 := [1])) 2"
    "\<not> linked ((\<lambda>_. [])(0 := [2, 1])) 3" "\<not> linked ((\<lambda>_. [])(0 := [2, 3, 1])) 4"
    by (auto simp: linked_def)
  moreover have "(\<lambda>l. remove1 2 (((\<lambda>_. [])(0 := [2, 3, 1, 4])) l)) = ((\<lambda>_. [])(0 := [3, 1, 4]) :: addr \<Rightarrow> addr list)"
    "((\<lambda>_. [])(0 := [3, 1, 4]))(7 := []) = ((\<lambda>_. [])(0 := [3, 1, 4]) :: addr \<Rightarrow> addr list)" by auto
  ultimately show ?thesis
    using list_operations_refine [OF zero_store_wf,
        of "[Append 0 1 None, Prepend 0 2 None, Insert_After 0 2 3 None, Append 5 3 None,
             Insert_Sorted (\<lambda>x y. x \<le> y) 0 4 None, Unlink 2, Flush 7]"]
    by (simp add: insert_last_def fun_upd_same del: fun_upd_apply One_nat_def)
qed

text \<open>
  C31.  Sorting a list returns exactly when the handler puts any two different elements in one of
  the two orders (a strict comparison of equal keys never returns).  When it returns, the list
  holds the same elements in the order of the handler, and the data of all elements is unchanged.
\<close>

theorem list_sort_correct:
  assumes "store_wf st f" "transp sh"
  shows "((\<exists>st'. list_sort sh st l = Some st') \<longleftrightarrow>
       (\<forall>x \<in> set (f l). \<forall>y \<in> set (f l). x \<noteq> y \<longrightarrow> sh x y \<or> sh y x)) \<and>
     (\<forall>st'. list_sort sh st l = Some st' \<longrightarrow>
       (\<exists>ys. store_wf st' (f(l := ys)) \<and> mset ys = mset (f l) \<and> sorted_wrt sh ys \<and>
         (\<forall>e. le_data (les st' e) = le_data (les st e))))"
proof (cases "\<forall>x \<in> set (f l). \<forall>y \<in> set (f l). x \<noteq> y \<longrightarrow> sh x y \<or> sh y x")
  case True
  with list_sort_wf [OF assms(1) refl, of l sh] assms(2) show ?thesis by auto
next
  case False
  then have "list_sort sh st l = None"
    using list_sort_returns_total [OF _ assms(1,2)] by (cases "list_sort sh st l") auto
  with False show ?thesis by auto
qed

theorem list_sort_correct_witness:
  "(\<exists>st. list_sort (\<lambda>x y. y \<le> x) two_store 0 = Some st \<and> store_wf st ((\<lambda>_. [])(0 := [2, 1]))) \<and>
   list_sort (\<lambda>x y. x div 3 < y div 3) two_store 0 = None"
proof -
  have t: "transp (\<lambda>x y :: nat. y \<le> x)" "transp (\<lambda>x y :: nat. x div 3 < y div 3)"
    by (auto intro: transpI)
  from list_sort_correct [OF two_store_wf t(1), of 0]
  obtain st ys where "list_sort (\<lambda>x y. y \<le> x) two_store 0 = Some st"
    "store_wf st (((\<lambda>_. [])(0 := [1, 2]))(0 := ys))" "mset ys = {#1, 2#}" "sorted_wrt (\<lambda>x y. y \<le> x) ys"
    by auto
  moreover from this have "ys = [2, 1]"
  proof -
    have "length ys = Suc (Suc 0)" "set ys = {1, 2}"
      using \<open>mset ys = {#1, 2#}\<close> by (metis size_mset size_add_mset size_empty, metis set_mset_mset set_mset_add_mset_insert set_mset_empty)
    with \<open>sorted_wrt (\<lambda>x y. y \<le> x) ys\<close> show ?thesis by (auto simp: length_Suc_conv doubleton_eq_iff)
  qed
  moreover have "list_sort (\<lambda>x y. x div 3 < y div 3) two_store 0 = None"
    using list_sort_correct [OF two_store_wf t(2), of 0] by auto
  ultimately show ?thesis by auto
qed

end
