(* ===== verification/Hash.thy ===== *)
theory Hash
  imports Prelude Linked_List
begin

text \<open>
  Hash tables (\<^verbatim>\<open>src/hash/hash.c\<close>) as arrays of list heads in the store of the linked lists, and
  the hash functions (\<^verbatim>\<open>src/hash/func.c\<close>) on machine words.  A C string is its bytes in memory with
  the terminating zero; reading past the end of the block is the value \<open>None\<close>.
\<close>

section \<open>Hash functions\<close>

text \<open>\<^verbatim>\<open>char\<close> is signed on the host, so a character at or above 0x80 is sign-extended.\<close>

definition joaat_step :: "32 word \<Rightarrow> 32 word \<Rightarrow> 32 word" where
  "joaat_step h c =
     (let h1 = h + c; h2 = h1 + push_bit 10 h1 in h2 XOR drop_bit 6 h2)"

definition joaat_end :: "32 word \<Rightarrow> 32 word" where
  "joaat_end h =
     (let h1 = h + push_bit 3 h; h2 = h1 XOR drop_bit 11 h1 in h2 + push_bit 15 h2)"

definition tolower :: "32 word \<Rightarrow> 32 word" where
  "tolower c = (if 65 \<le> c \<and> c \<le> 90 then c + 32 else c)"

definition hash_joaat :: "byte list \<Rightarrow> 32 word" where
  "hash_joaat key = joaat_end (fold (\<lambda>c h. joaat_step h (ucast c)) key 0)"

definition hash_joaat_ci :: "byte list \<Rightarrow> 32 word" where
  "hash_joaat_ci str = joaat_end (fold (\<lambda>c h. joaat_step h (tolower (scast c))) str 0)"

fun c_string_fold :: "('h \<Rightarrow> byte \<Rightarrow> 'h) \<Rightarrow> 'h \<Rightarrow> byte list \<Rightarrow> 'h option" where
  "c_string_fold f h [] = None"
| "c_string_fold f h (c # cs) = (if c = 0 then Some h else c_string_fold f (f h c) cs)"

definition hash_joaat_str :: "byte list \<Rightarrow> 32 word option" where
  "hash_joaat_str str = map_option joaat_end (c_string_fold (\<lambda>h c. joaat_step h (scast c)) 0 str)"

definition hash_joaat_str_ci :: "byte list \<Rightarrow> 32 word option" where
  "hash_joaat_str_ci str =
     map_option joaat_end (c_string_fold (\<lambda>h c. joaat_step h (tolower (scast c))) 0 str)"

definition hash_joaat_pl :: "byte list \<Rightarrow> 32 word" where
  "hash_joaat_pl pl = hash_joaat pl"

definition hash_joaat_pl_ci :: "byte list \<Rightarrow> 32 word" where
  "hash_joaat_pl_ci pl = hash_joaat_ci pl"

definition fnv_step :: "32 word \<Rightarrow> byte \<Rightarrow> 32 word" where
  "fnv_step h c = (h XOR scast c) * 0x01000193"

definition hash_fast :: "byte list option \<Rightarrow> 32 word" where
  "hash_fast k = (case k of None \<Rightarrow> 0 | Some cs \<Rightarrow> fold (\<lambda>c h. fnv_step h c) cs 0x811c9dc5)"

definition hash_fast_str :: "byte list option \<Rightarrow> 32 word option" where
  "hash_fast_str str = (case str of None \<Rightarrow> Some 0 | Some cs \<Rightarrow> c_string_fold fnv_step 0x811c9dc5 cs)"

section \<open>Tables\<close>

record hash =
  h_bucket :: addr
  h_bsize :: "32 word"

text \<open>
  The allocation of the table structure succeeds or not; that of the zeroed bucket array gives
  the address of its first list head.
\<close>

definition hash_alloc :: "store \<Rightarrow> bool \<Rightarrow> addr option \<Rightarrow> 32 word \<Rightarrow> errno + (store \<times> hash)" where
  "hash_alloc st hok bucket bsize =
     (if bsize = 0 then Inl EINVAL
      else if bsize AND (bsize - 1) \<noteq> 0 then Inl EINVAL
      else if \<not> hok then Inl ENOMEM
      else case bucket of
        None \<Rightarrow> Inl ENOMEM
      | Some b \<Rightarrow> Inr (st\<lparr>lists := \<lambda>l. if b \<le> l \<and> l < b + unat bsize
                                     then \<lparr>l_head = None, l_tail = None\<rparr> else lists st l\<rparr>,
                      \<lparr>h_bucket = b, h_bsize = bsize\<rparr>))"

definition hash_list :: "hash \<Rightarrow> 32 word \<Rightarrow> addr" where
  "hash_list h key = h_bucket h + unat (key AND (h_bsize h - 1))"

definition hash_append :: "store \<Rightarrow> hash \<Rightarrow> 32 word \<Rightarrow> addr \<Rightarrow> addr option \<Rightarrow> store" where
  "hash_append st h key e d = list_append st (h_bucket h + unat (key AND (h_bsize h - 1))) e d"

definition hash_unlink :: "store \<Rightarrow> addr \<Rightarrow> store" where
  "hash_unlink st e = list_unlink st e"

definition hash_lookup :: "store \<Rightarrow> hash \<Rightarrow> 32 word \<Rightarrow> (addr \<Rightarrow> bool) \<Rightarrow> addr option option" where
  "hash_lookup st h key ah = list_apply st (h_bucket h + unat (key AND (h_bsize h - 1))) True ah"

fun hash_apply_loop :: "store \<Rightarrow> addr \<Rightarrow> nat \<Rightarrow> (addr \<Rightarrow> bool) \<Rightarrow> addr option option" where
  "hash_apply_loop st b 0 ah = Some None"
| "hash_apply_loop st b (Suc n) ah =
     Option.bind (list_apply st b True ah)
       (\<lambda>le. if le \<noteq> None then Some le else hash_apply_loop st (Suc b) n ah)"

definition hash_apply :: "store \<Rightarrow> hash \<Rightarrow> (addr \<Rightarrow> bool) \<Rightarrow> addr option option" where
  "hash_apply st h ah = hash_apply_loop st (h_bucket h) (unat (h_bsize h)) ah"

definition hash_list_idx :: "hash \<Rightarrow> 32 word \<Rightarrow> addr option" where
  "hash_list_idx h i = (if h_bsize h \<le> i then None else Some (h_bucket h + unat i))"

definition hash_bsize :: "hash option \<Rightarrow> 32 word" where
  "hash_bsize h = (case h of None \<Rightarrow> 0 | Some h' \<Rightarrow> h_bsize h')"

fun hash_flush_loop :: "store \<Rightarrow> addr \<Rightarrow> nat \<Rightarrow> (store \<times> addr option list) option" where
  "hash_flush_loop st b 0 = Some (st, [])"
| "hash_flush_loop st b (Suc n) =
     Option.bind (list_flush st b)
       (\<lambda>(st1, log). map_option (\<lambda>(st2, log2). (st2, log @ log2)) (hash_flush_loop st1 (Suc b) n))"

definition hash_flush :: "store \<Rightarrow> hash \<Rightarrow> (store \<times> addr option list) option" where
  "hash_flush st h = hash_flush_loop st (h_bucket h) (unat (h_bsize h))"

fun hash_clear_loop :: "store \<Rightarrow> addr \<Rightarrow> nat \<Rightarrow> store option" where
  "hash_clear_loop st b 0 = Some st"
| "hash_clear_loop st b (Suc n) = Option.bind (list_clear st b) (\<lambda>st1. hash_clear_loop st1 (Suc b) n)"

definition hash_clear :: "store \<Rightarrow> hash \<Rightarrow> store option" where
  "hash_clear st h = hash_clear_loop st (h_bucket h) (unat (h_bsize h))"

text \<open>The loop variable is below 31, so its recursion depth is bounded by that.\<close>

function hash_valid_size_loop :: "32 word \<Rightarrow> nat \<Rightarrow> nat" where
  "hash_valid_size_loop sz x =
     (if push_bit x 1 < sz \<and> x < 31 then hash_valid_size_loop sz (Suc x) else x)"
  by auto
termination by (relation "measure (\<lambda>(sz, x). 31 - x)") auto

definition hash_valid_size :: "32 word \<Rightarrow> 32 word" where
  "hash_valid_size sz = push_bit (hash_valid_size_loop sz 0) 1"

declare hash_valid_size_loop.simps [simp del]

section \<open>Sizes\<close>

lemma and_pred_zero:
  fixes n :: nat
  assumes "n \<noteq> 0" "n AND (n - 1) = 0"
  shows "\<exists>k. n = 2 ^ k"
  using assms
proof (induction n rule: less_induct)
  case (less n)
  show ?case
  proof (cases "even n")
    case True
    then obtain m where n: "n = 2 * m" by blast
    with less.prems have m: "m \<noteq> 0" by simp
    then have "(n - 1) div 2 = m - 1" "odd (n - 1)" using n by auto
    moreover have "n AND (n - 1) = of_bool (odd n \<and> odd (n - 1)) + 2 * (n div 2 AND (n - 1) div 2)"
      by (rule and_rec)
    ultimately have "m AND (m - 1) = 0" using less.prems(2) n True by simp
    with less.IH [of m] m n obtain k where "m = 2 ^ k" by auto
    then have "n = 2 ^ Suc k" using n by simp
    then show ?thesis by blast
  next
    case False
    then obtain m where n: "n = 2 * m + 1" using oddE by blast
    then have "m = 0" using less.prems(2) by (simp add: and_rec [of "Suc (2 * m)"])
    then have "n = 2 ^ 0" using n by simp
    then show ?thesis by blast
  qed
qed

lemma unat_exp: "k < 32 \<Longrightarrow> unat (2 ^ k :: 32 word) = 2 ^ k"
  using unat_of_nat [of "2 ^ k", where 'a = 32] power_strict_increasing [of k 32 "2 :: nat"]
  by (simp add: take_bit_nat_eq_self)

lemma pow2_word:
  fixes b :: "32 word"
  assumes "b \<noteq> 0" "b AND (b - 1) = 0"
  shows "\<exists>k < 32. b = 2 ^ k"
proof -
  have "unat (b - 1) = unat b - 1" using assms(1) by (simp add: unat_minus_one)
  then have "unat b AND (unat b - 1) = 0" using assms(2) by (metis unsigned_0 unsigned_and_eq)
  then obtain k where k: "unat b = 2 ^ k" using and_pred_zero [of "unat b"] assms(1) by (auto simp: unat_eq_0)
  have "unat b < 2 ^ 32" using unsigned_less [of b] by simp
  then have "k < 32" using k by (metis nat_power_less_imp_less zero_less_numeral)
  moreover have "b = 2 ^ k" using k unat_exp [OF calculation] by (metis unsigned_word_eqI)
  ultimately show ?thesis by blast
qed

lemma pow2_and_pred: "(2 ^ k :: 32 word) AND (2 ^ k - 1) = 0"
  unfolding mask_eq_exp_minus_1 [symmetric] by (rule bit_word_eqI) (simp add: bit_and_iff bit_exp_iff bit_mask_iff)

lemma mask_less:
  fixes key :: "32 word"
  assumes "k < 32"
  shows "unat (key AND (2 ^ k - 1)) = unat key mod 2 ^ k"
  by (metis mask_eq_exp_minus_1 take_bit_eq_mask take_bit_eq_mod unsigned_take_bit_eq)

lemma hash_valid_size_loop_bounds:
  "x \<le> 31 \<Longrightarrow> (\<And>y. y < x \<Longrightarrow> push_bit y 1 < sz) \<Longrightarrow>
   hash_valid_size_loop sz x \<le> 31 \<and>
   (hash_valid_size_loop sz x < 31 \<longrightarrow> sz \<le> push_bit (hash_valid_size_loop sz x) 1) \<and>
   (\<forall>y < hash_valid_size_loop sz x. push_bit y 1 < sz)"
proof (induction sz x rule: hash_valid_size_loop.induct)
  case (1 sz x)
  show ?case
  proof (cases "push_bit x 1 < sz \<and> x < 31")
    case True
    then have "\<And>y. y < Suc x \<Longrightarrow> push_bit y 1 < sz" using 1(3) less_Suc_eq by auto
    with 1(1) [OF True] True show ?thesis by (simp add: hash_valid_size_loop.simps [of sz x])
  next
    case False
    with 1(2,3) show ?thesis by (auto simp: hash_valid_size_loop.simps [of sz x] not_less)
  qed
qed

lemma word_exp_le: "i \<le> j \<Longrightarrow> j < 32 \<Longrightarrow> (2 ^ i :: 32 word) \<le> 2 ^ j"
  by (simp add: word_le_nat_alt unat_exp)

text \<open>
  A table is allocated exactly for the sizes that are powers of two.  The size that
  \<^verbatim>\<open>hash_valid_size\<close> computes is always accepted, is at least the requested size whenever 32 bits
  have such a power of two, and is the least power of two that is.
\<close>

theorem hash_sizes:
  "((\<exists>r. hash_alloc st True (Some b) sz = Inr r) \<longleftrightarrow> (\<exists>k < 32. sz = 2 ^ k)) \<and>
   (\<exists>r. hash_alloc st True (Some b) (hash_valid_size sz) = Inr r) \<and>
   (sz \<le> 2 ^ 31 \<longrightarrow> sz \<le> hash_valid_size sz) \<and>
   (\<forall>k < 32. sz \<le> 2 ^ k \<longrightarrow> hash_valid_size sz \<le> 2 ^ k)"
proof -
  have acc: "(\<exists>r. hash_alloc st True (Some b) n = Inr r) \<longleftrightarrow> (\<exists>k < 32. n = 2 ^ k)" for n
    using pow2_word [of n] pow2_and_pred by (auto simp: hash_alloc_def)
  define x where "x = hash_valid_size_loop sz 0"
  have x: "x \<le> 31" "x < 31 \<longrightarrow> sz \<le> 2 ^ x" "\<forall>y < x. 2 ^ y < sz" and v: "hash_valid_size sz = 2 ^ x"
    using hash_valid_size_loop_bounds [of 0 sz] by (simp_all add: x_def hash_valid_size_def push_bit_of_1)
  have "hash_valid_size sz \<le> 2 ^ k" if "k < 32" "sz \<le> 2 ^ k" for k
  proof -
    have "x \<le> k" using x(3) that(2) by (meson leD le_less_linear)
    then show ?thesis unfolding v using that(1) by (rule word_exp_le)
  qed
  moreover have "sz \<le> hash_valid_size sz" if "sz \<le> 2 ^ 31"
    using that x(1,2) unfolding v by (cases "x = 31") auto
  ultimately show ?thesis using acc x(1) v by (auto intro!: exI [of _ x])
qed

theorem hash_sizes_witness:
  "(5 :: 32 word) \<le> hash_valid_size 5 \<and> hash_valid_size 5 \<le> 8 \<and>
   (\<exists>r. hash_alloc zero_store True (Some 0) 8 = Inr r)"
proof -
  have "\<exists>k < 32. (8 :: 32 word) = 2 ^ k" by (rule exI [of _ 3]) simp
  then have "\<exists>r. hash_alloc zero_store True (Some 0) 8 = Inr r"
    using hash_sizes [of zero_store 0 8, THEN conjunct1] by blast
  moreover have "(5 :: 32 word) \<le> hash_valid_size 5"
    using hash_sizes [of zero_store 0 5, THEN conjunct2, THEN conjunct2, THEN conjunct1] by simp
  moreover have "hash_valid_size 5 \<le> 2 ^ 3"
    using hash_sizes [of zero_store 0 5, THEN conjunct2, THEN conjunct2, THEN conjunct2, rule_format, of 3] by simp
  ultimately show ?thesis by simp
qed

section \<open>Contents\<close>

text \<open>
  The table \<open>h\<close> holds elements that were appended under the keys \<open>ks\<close>: each one is in the bucket
  that its key selects.
\<close>

definition hash_inv :: "store \<Rightarrow> (addr \<Rightarrow> addr list) \<Rightarrow> hash \<Rightarrow> (addr \<Rightarrow> 32 word) \<Rightarrow> bool" where
  "hash_inv st f h ks \<longleftrightarrow> store_wf st f \<and> (\<exists>k < 32. h_bsize h = 2 ^ k) \<and>
     (\<forall>i < unat (h_bsize h). \<forall>e \<in> set (f (h_bucket h + i)). hash_list h (ks e) = h_bucket h + i)"

lemma hash_list_bounds:
  assumes "\<exists>k < 32. h_bsize h = 2 ^ k"
  shows "hash_list h key = h_bucket h + unat key mod unat (h_bsize h)" "unat key mod unat (h_bsize h) < unat (h_bsize h)"
proof -
  obtain k where k: "k < 32" "h_bsize h = 2 ^ k" using assms by blast
  have "unat (2 ^ k :: 32 word) = 2 ^ k" using k(1) by (rule unat_exp)
  then show "hash_list h key = h_bucket h + unat key mod unat (h_bsize h)"
    "unat key mod unat (h_bsize h) < unat (h_bsize h)"
    using k by (simp_all add: hash_list_def mask_less)
qed

lemma hash_apply_loop_wf:
  "store_wf st f \<Longrightarrow> hash_apply_loop st b n ah = Some (find ah (concat (map f [b..<b + n])))"
proof (induction n arbitrary: b)
  case (Suc n)
  have "find ah (xs @ ys) = (if find ah xs \<noteq> None then find ah xs else find ah ys)" for xs ys
    by (induction xs) auto
  moreover have "[b..<b + Suc n] = b # [Suc b..<Suc b + n]" by (simp add: upt_conv_Cons)
  ultimately show ?case using Suc.IH [OF Suc.prems, of "Suc b"] list_apply_wf [OF Suc.prems, of b True ah]
    by (simp del: upt_Suc)
qed simp

lemma no_between: "(b \<le> l \<and> l < b) = False" for b l :: nat
  by auto

lemma hash_flush_loop_wf:
  "store_wf st f \<Longrightarrow>
   \<exists>st'. hash_flush_loop st b n = Some (st', map (\<lambda>e. le_data (les st e)) (concat (map f [b..<b + n]))) \<and>
     store_wf st' (\<lambda>l. if b \<le> l \<and> l < b + n then [] else f l)"
proof (induction n arbitrary: st f b)
  case (Suc n)
  obtain st1 where st1: "list_flush st b = Some (st1, map (\<lambda>e. le_data (les st e)) (f b))"
    "store_wf st1 (f(b := []))" "\<forall>e. le_data (les st1 e) = (if e \<in> set (f b) then None else le_data (les st e))"
    using list_flush_wf [OF Suc.prems, of b] by auto
  have other: "map (f(b := [])) [Suc b..<Suc b + n] = map f [Suc b..<Suc b + n]" by simp
  have "le_data (les st1 e) = le_data (les st e)" if "e \<in> set (f k)" "b < k" for e k
    using st1(3) that store_wf_mem [OF Suc.prems, of e k] store_wf_mem [OF Suc.prems, of e b] by auto
  then have "map (\<lambda>e. le_data (les st1 e)) (concat (map f [Suc b..<Suc b + n])) =
      map (\<lambda>e. le_data (les st e)) (concat (map f [Suc b..<Suc b + n]))" by auto
  moreover have "[b..<b + Suc n] = b # [Suc b..<Suc b + n]" by (simp add: upt_conv_Cons)
  moreover have "(\<lambda>l. if Suc b \<le> l \<and> l < Suc b + n then [] else (f(b := [])) l) =
      (\<lambda>l. if b \<le> l \<and> l < b + Suc n then [] else f l)" by auto
  moreover obtain st2 where "hash_flush_loop st1 (Suc b) n =
      Some (st2, map (\<lambda>e. le_data (les st1 e)) (concat (map f [Suc b..<Suc b + n])))"
    "store_wf st2 (\<lambda>l. if Suc b \<le> l \<and> l < Suc b + n then [] else (f(b := [])) l)"
    using Suc.IH [OF st1(2), of "Suc b"] unfolding other by blast
  ultimately show ?case using st1(1) by (simp del: upt_Suc fun_upd_apply map_eq_conv)
qed (simp add: no_between)

lemma hash_clear_loop_wf:
  "store_wf st f \<Longrightarrow>
   \<exists>st'. hash_clear_loop st b n = Some st' \<and> store_wf st' (\<lambda>l. if b \<le> l \<and> l < b + n then [] else f l)"
proof (induction n arbitrary: st f b)
  case (Suc n)
  obtain st1 where st1: "list_clear st b = Some st1" "store_wf st1 (f(b := []))"
    using list_clear_wf [OF Suc.prems, of b] by auto
  moreover have "(\<lambda>l. if Suc b \<le> l \<and> l < Suc b + n then [] else (f(b := [])) l) =
      (\<lambda>l. if b \<le> l \<and> l < b + Suc n then [] else f l)" by auto
  ultimately show ?case using Suc.IH [OF st1(2), of "Suc b"] by (simp del: fun_upd_apply)
qed (simp add: no_between)

lemma find_concat_only:
  "distinct is \<Longrightarrow> i \<in> set is \<Longrightarrow> (\<And>j e. j \<in> set is \<Longrightarrow> e \<in> set (f j) \<Longrightarrow> ah e \<Longrightarrow> j = i) \<Longrightarrow>
   find ah (concat (map f is)) = find ah (f i)"
proof (induction "is")
  case (Cons j js)
  have app: "find ah (xs @ ys) = (if find ah xs \<noteq> None then find ah xs else find ah ys)" for xs ys
    by (induction xs) auto
  show ?case
  proof (cases "j = i")
    case True
    have "\<not> ah e" if "k \<in> set js" "e \<in> set (f k)" for k e
      using Cons.prems(1) Cons.prems(3) [of k e] that True by auto
    then have "find ah (concat (map f js)) = None" by (auto simp: find_None_iff)
    with True show ?thesis by (cases "find ah (f i)") (simp_all add: app)
  next
    case False
    then have "find ah (f j) = None" using Cons.prems(3) [of j] by (auto simp: find_None_iff)
    moreover have "find ah (concat (map f js)) = find ah (f i)"
      using Cons.IH [OF _ _ Cons.prems(3)] Cons.prems(1,2) False by auto
    ultimately show ?thesis by (simp add: app)
  qed
qed simp

lemma hash_lookup_apply:
  assumes inv: "hash_inv st f h ks" and only: "\<forall>e. ah e \<longrightarrow> ks e = key"
  shows "hash_lookup st h key ah = hash_apply st h ah"
proof -
  note wf = inv [unfolded hash_inv_def, THEN conjunct1]
  note size = inv [unfolded hash_inv_def, THEN conjunct2, THEN conjunct1]
  let ?is = "[h_bucket h..<h_bucket h + unat (h_bsize h)]"
  have "find ah (concat (map f ?is)) = find ah (f (hash_list h key))"
  proof (rule find_concat_only)
    show "hash_list h key \<in> set ?is" using hash_list_bounds [OF size, of key] by simp
    fix j e assume j: "j \<in> set ?is" "e \<in> set (f j)" "ah e"
    define i where "i = j - h_bucket h"
    have "j = h_bucket h + i" "i < unat (h_bsize h)" using j(1) by (auto simp: i_def)
    then show "j = hash_list h key" using j inv only by (auto simp: hash_inv_def)
  qed simp
  then show ?thesis
    using hash_apply_loop_wf [OF wf] list_apply_wf [OF wf]
    by (simp add: hash_lookup_def hash_apply_def flip: hash_list_def)
qed

text \<open>
  C32.  A hash table behaves as one collection of keyed elements.  Searching the bucket of a key
  finds what a search through the whole table finds, for every handler that accepts elements of
  that key only; the bucket is always inside the array.  Appending, unlinking, flushing and
  clearing keep the invariant, and flushing dereferences every element of the table once.
\<close>

theorem hash_table_correct:
  assumes inv: "hash_inv st f h ks"
  shows "(\<forall>key ah. (\<forall>e. ah e \<longrightarrow> ks e = key) \<longrightarrow> hash_lookup st h key ah = hash_apply st h ah) \<and>
    (\<forall>key. h_bucket h \<le> hash_list h key \<and> hash_list h key < h_bucket h + unat (h_bsize h)) \<and>
    (\<forall>e key d. \<not> linked f e \<longrightarrow>
       hash_inv (hash_append st h key e d) (f(hash_list h key := f (hash_list h key) @ [e])) h (ks(e := key))) \<and>
    (\<forall>e. hash_inv (hash_unlink st e) (\<lambda>l. remove1 e (f l)) h ks) \<and>
    (let g = (\<lambda>l. if h_bucket h \<le> l \<and> l < h_bucket h + unat (h_bsize h) then [] else f l);
         all = concat (map f [h_bucket h..<h_bucket h + unat (h_bsize h)])
     in (\<exists>st'. hash_flush st h = Some (st', map (\<lambda>e. le_data (les st e)) all) \<and> hash_inv st' g h ks) \<and>
        (\<exists>st'. hash_clear st h = Some st' \<and> hash_inv st' g h ks))"
proof -
  note wf = inv [unfolded hash_inv_def, THEN conjunct1]
  note size = inv [unfolded hash_inv_def, THEN conjunct2, THEN conjunct1]
  note ks = inv [unfolded hash_inv_def, THEN conjunct2, THEN conjunct2, rule_format]
  note idx = hash_list_bounds [OF size]
  have look: "hash_lookup st h key ah = hash_apply st h ah" if "\<forall>e. ah e \<longrightarrow> ks e = key" for key ah
    by (rule hash_lookup_apply [OF inv that])
  have app: "hash_inv (hash_append st h key e d) (f(hash_list h key := f (hash_list h key) @ [e])) h (ks(e := key))"
    if "\<not> linked f e" for e key d
    unfolding hash_inv_def hash_append_def hash_list_def [symmetric]
    using ll.append_rep [OF wf that] size ks that by (auto simp: linked_def)
  have unl: "hash_inv (hash_unlink st e) (\<lambda>l. remove1 e (f l)) h ks" for e
    unfolding hash_inv_def hash_unlink_def using ll.unlink_rep [OF wf] size ks by (auto dest: notin_set_remove1)
  let ?g = "\<lambda>l. if h_bucket h \<le> l \<and> l < h_bucket h + unat (h_bsize h) then [] else f l"
  have g: "hash_inv st' ?g h ks" if "store_wf st' ?g" for st'
    unfolding hash_inv_def using that size by simp
  obtain st1 where "hash_flush st h = Some (st1, map (\<lambda>e. le_data (les st e))
      (concat (map f [h_bucket h..<h_bucket h + unat (h_bsize h)])))" "hash_inv st1 ?g h ks"
    using hash_flush_loop_wf [OF wf, of "h_bucket h" "unat (h_bsize h)"] g unfolding hash_flush_def by blast
  moreover obtain st2 where "hash_clear st h = Some st2" "hash_inv st2 ?g h ks"
    using hash_clear_loop_wf [OF wf, of "h_bucket h" "unat (h_bsize h)"] g unfolding hash_clear_def by blast
  moreover have "h_bucket h \<le> hash_list h key \<and> hash_list h key < h_bucket h + unat (h_bsize h)" for key
    using idx by simp
  ultimately show ?thesis unfolding Let_def using look app unl by blast
qed

text \<open>A table with four buckets in zeroed memory.\<close>

definition demo_hash :: hash where
  "demo_hash = \<lparr>h_bucket = 100, h_bsize = 4\<rparr>"

lemma demo_hash_inv: "hash_inv zero_store (\<lambda>_. []) demo_hash (\<lambda>_. 0)"
proof -
  have "\<exists>k < 32. (4 :: 32 word) = 2 ^ k" by (rule exI [of _ 2]) simp
  with zero_store_wf show ?thesis by (simp add: hash_inv_def demo_hash_def)
qed

theorem hash_table_correct_witness:
  "hash_inv (hash_append zero_store demo_hash 7 1 None) ((\<lambda>_. [])(103 := [1])) demo_hash ((\<lambda>_. 0)(1 := 7)) \<and>
   hash_lookup zero_store demo_hash 7 (\<lambda>e. False) = hash_apply zero_store demo_hash (\<lambda>e. False)"
proof -
  have "hash_list demo_hash 7 = 103" by (simp add: hash_list_def demo_hash_def)
  moreover have "\<not> linked (\<lambda>_. []) 1" by (simp add: linked_def)
  ultimately show ?thesis
    using hash_table_correct [OF demo_hash_inv, THEN conjunct1, rule_format, of "\<lambda>e. False" 7]
      hash_table_correct [OF demo_hash_inv, THEN conjunct2, THEN conjunct2, THEN conjunct1, rule_format, of 1 7 None]
    by simp
qed

section \<open>Keys of strings\<close>

lemma c_string_fold_terminated:
  "0 \<notin> set cs \<Longrightarrow> c_string_fold f h (cs @ 0 # rest) = Some (fold (\<lambda>c h. f h c) cs h)"
  by (induction cs arbitrary: h) auto

lemma scast_ascii: "c < 0x80 \<Longrightarrow> (scast (c :: byte) :: 32 word) = ucast c"
proof -
  assume "c < 0x80"
  then have "uint c < 2 ^ 7" by (simp add: word_less_def)
  moreover have "- (2 ^ 7) \<le> uint c" by (rule order_trans [of _ 0]) simp_all
  ultimately have "sint c = uint c"
    using signed_take_bit_int_eq_self [of 7 "uint c"] by (simp add: sint_uint)
  then show ?thesis by (metis of_int_sint of_int_uint)
qed

lemma scast_high: "0x80 \<le> c \<Longrightarrow> (scast (c :: byte) :: 32 word) \<noteq> ucast c"
proof
  assume c: "0x80 \<le> c" "(scast c :: 32 word) = ucast c"
  have "\<not> bit (ucast c :: 32 word) 8" by (simp add: bit_simps not_bit_beyond)
  moreover have "uint c div 128 = 1" using c(1) uint_lt2p [of c] by (simp add: word_le_def)
  then have "bit (uint c) 7" by (simp add: bit_iff_odd)
  then have "bit c 7" by (simp add: bit_uint_iff)
  then have "bit (scast c :: 32 word) 8" by (simp add: bit_simps)
  ultimately show False using c(2) by simp
qed

text \<open>Every step of the hash function is injective: multiplication by an odd number, and folding the upper bits in.\<close>

lemma xor_shift_inj: "0 < n \<Longrightarrow> x XOR drop_bit n x = y XOR drop_bit n y \<Longrightarrow> x = (y :: 32 word)"
proof (rule bit_word_eqI)
  assume n: "0 < n" and eq: "x XOR drop_bit n x = y XOR drop_bit n y"
  show "bit x i \<longleftrightarrow> bit y i" for i
  proof (induction "32 - i" arbitrary: i rule: less_induct)
    case less
    show ?case
    proof (cases "i < 32")
      case True
      then have "bit x (n + i) \<longleftrightarrow> bit y (n + i)" using n by (intro less) auto
      moreover have "bit (x XOR drop_bit n x) i \<longleftrightarrow> bit (y XOR drop_bit n y) i" using eq by simp
      ultimately show ?thesis using True by (auto simp: bit_simps)
    qed (simp add: not_bit_beyond)
  qed
qed

lemma add_shift_inj:
  "x + push_bit 10 x = y + push_bit 10 y \<Longrightarrow> x = (y :: 32 word)"
  "x + push_bit 3 x = y + push_bit 3 y \<Longrightarrow> x = (y :: 32 word)"
  "x + push_bit 15 x = y + push_bit 15 y \<Longrightarrow> x = (y :: 32 word)"
proof -
  have m: "u + push_bit n u = u * (1 + 2 ^ n)" for u :: "32 word" and n by (simp add: push_bit_eq_mult algebra_simps)
  have "(1025 :: 32 word) * 3222273025 = 1" "(9 :: 32 word) * 954437177 = 1" "(32769 :: 32 word) * 1073709057 = 1"
    by (simp_all add: word_uint_eq_iff)
  then have "u = (u * 1025) * 3222273025" "u = (u * 9) * 954437177" "u = (u * 32769) * 1073709057" for u :: "32 word"
    by (simp_all only: mult.assoc mult_1_right)
  note inv = this
  show "x + push_bit 10 x = y + push_bit 10 y \<Longrightarrow> x = y" unfolding m using inv(1) [of x] inv(1) [of y] by simp
  show "x + push_bit 3 x = y + push_bit 3 y \<Longrightarrow> x = y" unfolding m using inv(2) [of x] inv(2) [of y] by simp
  show "x + push_bit 15 x = y + push_bit 15 y \<Longrightarrow> x = y" unfolding m using inv(3) [of x] inv(3) [of y] by simp
qed

lemma joaat_step_inj: "joaat_step h c = joaat_step h' c' \<Longrightarrow> h + c = h' + c'"
  unfolding joaat_step_def Let_def by (drule xor_shift_inj [rotated]) (simp, rule add_shift_inj(1))

lemma joaat_end_inj: "joaat_end h = joaat_end h' \<Longrightarrow> h = h'"
  unfolding joaat_end_def Let_def by (drule add_shift_inj(3), drule xor_shift_inj [rotated]) (simp, rule add_shift_inj(2))

lemma joaat_fold_inj: "fold (\<lambda>c h. joaat_step h (f c)) cs h = fold (\<lambda>c h. joaat_step h (f c)) cs h' \<Longrightarrow> h = h'"
proof (induction cs arbitrary: h h')
  case (Cons c cs)
  have "joaat_step h (f c) = joaat_step h' (f c)" by (rule Cons.IH) (use Cons.prems in simp)
  then show ?case using joaat_step_inj by fastforce
qed simp

lemma joaat_fold_ascii:
  "filter (\<lambda>c. 0x80 \<le> c) (cs :: byte list) = [] \<Longrightarrow> fold (\<lambda>c h. joaat_step h (scast c)) cs h = fold (\<lambda>c h. joaat_step h (ucast c)) cs h"
  by (induction cs arbitrary: h) (auto simp: scast_ascii not_le split: if_splits)

text \<open>
  C35.  The functions for terminated strings and for strings with a length agree on every string
  of 7-bit characters, so an element stored under one is found under the other.  On every string
  with one other character they give different keys, because only one of them extends the sign of
  that character.
\<close>

theorem hash_joaat_str_pl:
  assumes "0 \<notin> set cs"
  shows "(length (filter (\<lambda>c. 0x80 \<le> c) cs) = 0 \<longrightarrow> hash_joaat_str (cs @ 0 # rest) = Some (hash_joaat_pl cs)) \<and>
    (length (filter (\<lambda>c. 0x80 \<le> c) cs) = 1 \<longrightarrow> hash_joaat_str (cs @ 0 # rest) \<noteq> Some (hash_joaat_pl cs))"
proof -
  let ?s = "fold (\<lambda>c h. joaat_step h (scast c))" and ?u = "fold (\<lambda>c h. joaat_step h (ucast c))"
  have eq: "hash_joaat_str (cs @ 0 # rest) = Some (hash_joaat_pl cs) \<longleftrightarrow> ?s cs 0 = ?u cs 0"
    using assms joaat_end_inj by (auto simp: hash_joaat_str_def hash_joaat_pl_def hash_joaat_def c_string_fold_terminated)
  have "?s cs 0 \<noteq> ?u cs 0" if "length (filter (\<lambda>c. 0x80 \<le> c) cs) = 1"
  proof -
    obtain c where "filter (\<lambda>c. 0x80 \<le> c) cs = [c]" using \<open>length (filter (\<lambda>c. 0x80 \<le> c) cs) = 1\<close> by (auto simp: length_Suc_conv)
    then obtain us vs where c: "cs = us @ c # vs" "0x80 \<le> c" "filter (\<lambda>c. 0x80 \<le> c) us = []" "filter (\<lambda>c. 0x80 \<le> c) vs = []"
      by (auto simp: filter_eq_Cons_iff)
    show ?thesis
    proof
      assume "?s cs 0 = ?u cs 0"
      then have "?u vs (joaat_step (?u us 0) (scast c)) = ?u vs (joaat_step (?u us 0) (ucast c))"
        unfolding c(1) by (simp add: joaat_fold_ascii [OF c(3)] joaat_fold_ascii [OF c(4)])
      from joaat_step_inj [OF joaat_fold_inj [OF this]] have "(scast c :: 32 word) = ucast c" by (simp only: add_left_cancel)
      then show False using scast_high [OF c(2)] by blast
    qed
  qed
  then show ?thesis unfolding eq length_0_conv using joaat_fold_ascii [of cs 0] by blast
qed

text \<open>A host name of 7-bit characters, and a name with one character of Latin-1, which goes to a different bucket.\<close>

theorem hash_joaat_str_pl_witness:
  "hash_joaat_str [0x61, 0x62, 0] = Some (hash_joaat_pl [0x61, 0x62]) \<and>
   hash_joaat_str [0x61, 0xe9, 0x62, 0] \<noteq> Some (hash_joaat_pl [0x61, 0xe9, 0x62])"
proof -
  have "filter (\<lambda>c. 0x80 \<le> c) [0x61, 0x62 :: byte] = []" "filter (\<lambda>c. 0x80 \<le> c) [0x61, 0xe9, 0x62 :: byte] = [0xe9]" by simp_all
  then show ?thesis
    using hash_joaat_str_pl [of "[0x61, 0x62]" "[]"] hash_joaat_str_pl [of "[0x61, 0xe9, 0x62]" "[]"] by simp
qed

end
