(* ===== verification/Base64.thy ===== *)
theory Base64
  imports Prelude
begin

text \<open>
  Base-64 (\<^verbatim>\<open>src/base64/b64.c\<close>).  Text is a list of bytes.  The output buffer has the size that the
  caller passes in \<^verbatim>\<open>*olen\<close>; a write behind it is the error \<open>FAULT\<close>.
\<close>

definition b64_table :: "byte list" where
  "b64_table = map of_char ''ABCDEFGHIJKLMNOPQRSTUVWXYZabcdefghijklmnopqrstuvwxyz0123456789+/''"

definition b64url_table :: "byte list" where
  "b64url_table = map of_char ''ABCDEFGHIJKLMNOPQRSTUVWXYZabcdefghijklmnopqrstuvwxyz0123456789-_''"

text \<open>Store bytes at the end of what was written so far.\<close>

definition out_put :: "nat \<Rightarrow> byte list \<Rightarrow> byte list \<Rightarrow> errno + byte list" where
  "out_put olen out bs = (if length out + length bs \<le> olen then Inr (out @ bs) else Inl FAULT)"

text \<open>The input byte at a shift, or one more byte of padding.\<close>

definition b64_next :: "nat \<Rightarrow> 32 word \<times> byte list \<times> nat \<Rightarrow> 32 word \<times> byte list \<times> nat" where
  "b64_next s = (\<lambda>(v, inp, pad).
     case inp of [] \<Rightarrow> (v, [], Suc pad) | b # inp' \<Rightarrow> (v OR push_bit s (ucast b), inp', pad))"

definition sextet :: "byte list \<Rightarrow> 32 word \<Rightarrow> nat \<Rightarrow> byte" where
  "sextet table v s = table ! unat (drop_bit s v AND 0x3f)"

lemma b64_next_length: "b64_next s (v, inp, pad) = (v', inp', pad') \<Longrightarrow> length inp' \<le> length inp"
  by (auto simp: b64_next_def split: list.splits)

function base64_encode_loop :: "nat \<Rightarrow> byte list \<Rightarrow> byte list \<Rightarrow> errno + byte list" where
  "base64_encode_loop olen [] out = Inr out"
| "base64_encode_loop olen (a # inp) out =
     (let (v, inp', pad) = b64_next 0 (b64_next 8 (push_bit 16 (ucast a), inp, 0))
      in case out_put olen out
                [sextet b64_table v 18, sextet b64_table v 12,
                 if 2 \<le> pad then 0x3d else sextet b64_table v 6,
                 if 1 \<le> pad then 0x3d else sextet b64_table v 0] of
           Inl e \<Rightarrow> Inl e
         | Inr out' \<Rightarrow> base64_encode_loop olen inp' out')"
  by pat_completeness auto
termination
proof (relation "measure (\<lambda>(olen, inp, out). length inp)")
  fix olen :: nat and a :: byte and inp out x v y inp' pad r out'
  assume "x = b64_next 0 (b64_next 8 (push_bit 16 (ucast a), inp, 0))" "(v, y) = x" "(inp', pad) = y"
  then have "length inp' \<le> length inp" by (auto simp: b64_next_def split: list.splits prod.splits)
  then show "((olen, inp', out'), olen, a # inp, out) \<in> measure (\<lambda>(olen, inp, out). length inp)" by simp
qed simp

definition base64_encode :: "byte list \<Rightarrow> nat \<Rightarrow> errno + byte list" where
  "base64_encode inp olen =
     (if olen < 4 * ((length inp + 2) div 3) then Inl EOVERFLOW else base64_encode_loop olen inp [])"

function base64url_encode_loop :: "nat \<Rightarrow> byte list \<Rightarrow> byte list \<Rightarrow> errno + byte list" where
  "base64url_encode_loop olen [] out = Inr out"
| "base64url_encode_loop olen (a # inp) out =
     (let (v, inp', pad) = b64_next 0 (b64_next 8 (push_bit 16 (ucast a), inp, 0))
      in case out_put olen out
                ([sextet b64url_table v 18, sextet b64url_table v 12] @
                 (if pad < 2 then [sextet b64url_table v 6] else []) @
                 (if pad < 1 then [sextet b64url_table v 0] else [])) of
           Inl e \<Rightarrow> Inl e
         | Inr out' \<Rightarrow> base64url_encode_loop olen inp' out')"
  by pat_completeness auto
termination
proof (relation "measure (\<lambda>(olen, inp, out). length inp)")
  fix olen :: nat and a :: byte and inp out x v y inp' pad r out'
  assume "x = b64_next 0 (b64_next 8 (push_bit 16 (ucast a), inp, 0))" "(v, y) = x" "(inp', pad) = y"
  then have "length inp' \<le> length inp" by (auto simp: b64_next_def split: list.splits prod.splits)
  then show "((olen, inp', out'), olen, a # inp, out) \<in> measure (\<lambda>(olen, inp, out). length inp)" by simp
qed simp

definition base64url_encode :: "byte list \<Rightarrow> nat \<Rightarrow> errno + byte list" where
  "base64url_encode inp olen =
     (if olen < 4 * ((length inp + 2) div 3) then Inl EOVERFLOW else base64url_encode_loop olen inp [])"

text \<open>
  Printing goes through a buffer of 256 characters, 192 bytes at a time; the print handler is
  represented by the text it received, or its error.
\<close>

function base64_print :: "(byte list \<Rightarrow> byte list \<Rightarrow> errno + byte list) \<Rightarrow> byte list \<Rightarrow> byte list \<Rightarrow> errno + byte list" where
  "base64_print vph out [] = Inr out"
| "base64_print vph out (a # inp) =
     (case base64_encode (take 192 (a # inp)) 256 of
        Inl e \<Rightarrow> Inl e
      | Inr buf \<Rightarrow>
          (case vph out buf of
             Inl e \<Rightarrow> Inl e
           | Inr out' \<Rightarrow> base64_print vph out' (drop 192 (a # inp))))"
  by pat_completeness auto
termination by (relation "measure (\<lambda>(vph, out, inp). length inp)") auto

definition b64val :: "byte \<Rightarrow> 32 word" where
  "b64val c =
     (if 0x41 \<le> c \<and> c \<le> 0x5a then ucast (c - 0x41)
      else if 0x61 \<le> c \<and> c \<le> 0x7a then ucast (c - 0x61) + 26
      else if 0x30 \<le> c \<and> c \<le> 0x39 then ucast (c - 0x30) + 52
      else if c = 0x2b \<or> c = 0x2d then 62
      else if c = 0x2f \<or> c = 0x5f then 63
      else if c = 0x3d then push_bit 24 1
      else 0)"

text \<open>The value at a shift; behind the end of the text it is that of the padding character.\<close>

definition b64_value :: "byte list \<Rightarrow> 32 word" where
  "b64_value inp = (case inp of [] \<Rightarrow> push_bit 24 1 | c # _ \<Rightarrow> b64val c)"

fun base64_decode_loop :: "nat \<Rightarrow> byte list \<Rightarrow> byte list \<Rightarrow> errno + byte list" where
  "base64_decode_loop olen (c0 # c1 # inp) out =
     (let v = push_bit 18 (b64val c0) OR push_bit 12 (b64val c1) OR
              push_bit 6 (b64_value inp) OR b64_value (drop 1 inp)
      in case out_put olen out
                ([ucast (drop_bit 16 v)] @
                 (if v AND push_bit 30 1 = 0 then [ucast (drop_bit 8 v AND 0xff)] else []) @
                 (if v AND push_bit 24 1 = 0 then [ucast (v AND 0xff)] else [])) of
           Inl e \<Rightarrow> Inl e
         | Inr out' \<Rightarrow> base64_decode_loop olen (drop 2 inp) out')"
| "base64_decode_loop olen inp out = Inr out"

declare base64_decode_loop.simps(1) [simp del]

definition base64_decode :: "byte list \<Rightarrow> nat \<Rightarrow> errno + byte list" where
  "base64_decode inp olen =
     (if olen < 3 * (length inp div 4) then Inl EOVERFLOW else base64_decode_loop olen inp [])"

section \<open>Groups\<close>

lemma b64_next_simps [simp]:
  "b64_next s (v, [], pad) = (v, [], Suc pad)"
  "b64_next s (v, b # inp, pad) = (v OR push_bit s (ucast b), inp, pad)"
  by (simp_all add: b64_next_def)

lemma b64val_table:
  "list_all (\<lambda>i. b64val (b64_table ! i) = of_nat i \<and> b64val (b64url_table ! i) = of_nat i) [0..<64]"
  by (simp add: upt_conv_Cons b64_table_def b64url_table_def b64val_def)

lemma b64val_sextet:
  assumes "table = b64_table \<or> table = b64url_table"
  shows "b64val (sextet table v s) = drop_bit s v AND 0x3f"
proof -
  have "drop_bit s v AND 0x3f = take_bit 6 (drop_bit s v)"
    by (simp add: take_bit_eq_mask mask_eq_exp_minus_1)
  then have "unat (drop_bit s v AND 0x3f) = take_bit 6 (unat (drop_bit s v))"
    by (simp add: unsigned_take_bit_eq)
  then have "unat (drop_bit s v AND 0x3f) < 64" by (simp add: take_bit_nat_less_exp [of 6, simplified])
  then have "unat (drop_bit s v AND 0x3f) \<in> set [0..<64]" by simp
  with b64val_table assms show ?thesis
    unfolding list_all_iff sextet_def by (metis of_nat_unat ucast_id)
qed

text \<open>The four values of a group of three, two or one bytes give the bytes back.\<close>

lemma and_63: "w AND 0x3f = take_bit 6 w" and and_255: "w AND 0xff = take_bit 8 w" for w :: "32 word"
  by (simp_all add: take_bit_eq_mask mask_eq_exp_minus_1)

lemma take_bit_join: "push_bit k (take_bit m (drop_bit k v)) OR take_bit k v = take_bit (k + m) v" for v :: "32 word"
  by (rule bit_word_eqI) (auto simp: bit_simps)

lemma sextets_join:
  "push_bit 18 (drop_bit 18 v AND 0x3f) OR push_bit 12 (drop_bit 12 v AND 0x3f) OR
     push_bit 6 (drop_bit 6 v AND 0x3f) OR (v AND 0x3f) = take_bit 24 v" for v :: "32 word"
  unfolding and_63 using take_bit_join [of 6 6 v] take_bit_join [of 12 6 v] take_bit_join [of 18 6 v]
  by (simp add: or.assoc)

lemma flag_bit: "w AND push_bit n 1 = 0 \<longleftrightarrow> \<not> bit w n" for w :: "32 word"
  unfolding push_bit_of_1 by (rule and_exp_eq_0_iff_not_bit)

text \<open>A group of three bytes as a number; its low 24 bits determine the bytes.\<close>

definition group :: "byte \<Rightarrow> byte \<Rightarrow> byte \<Rightarrow> 32 word" where
  "group a b c = push_bit 16 (ucast a) OR push_bit 8 (ucast b) OR ucast c"

lemma bit_group: "bit (group a b c) n \<longleftrightarrow>
    n < 32 \<and> (16 \<le> n \<and> bit a (n - 16) \<or> 8 \<le> n \<and> bit b (n - 8) \<or> bit c n)"
  by (auto simp: group_def bit_simps)

lemma bit_byte: "bit (x :: byte) n \<Longrightarrow> n < 8"
  by (auto dest: bit_imp_le_length)

lemma group_bytes:
  fixes w :: "32 word"
  assumes "take_bit 24 w = group a b c"
  shows "ucast (drop_bit 16 w) = a" "ucast (drop_bit 8 w AND 0xff) = b" "ucast (w AND 0xff) = c"
proof -
  have w: "n < 24 \<Longrightarrow> bit w n = bit (group a b c) n" for n
    using arg_cong [OF assms, of "\<lambda>x. bit x n"] by (auto simp: bit_simps)
  show "ucast (drop_bit 16 w) = a"
    by (rule bit_word_eqI) (auto simp: bit_simps w bit_group dest: bit_byte)
  show "ucast (drop_bit 8 w AND 0xff) = b"
    unfolding and_255 by (rule bit_word_eqI) (auto simp: bit_simps w bit_group dest: bit_byte)
  show "ucast (w AND 0xff) = c"
    unfolding and_255 by (rule bit_word_eqI) (auto simp: bit_simps w bit_group dest: bit_byte)
qed

lemma group_24: "take_bit 24 (group a b c) = group a b c"
  by (rule bit_word_eqI) (auto simp: bit_simps bit_group dest: bit_byte)

lemma group_zero:
  "group a b 0 AND 0x3f = 0" "drop_bit 6 (group a 0 0) AND 0x3f = 0"
  unfolding and_63 by (rule bit_word_eqI, auto simp: bit_simps bit_group dest: bit_byte)+

lemma take_bit_pad: "take_bit 24 (w OR push_bit 24 x) = take_bit 24 w" for w :: "32 word"
  by (rule bit_word_eqI) (auto simp: bit_simps)

text \<open>The value that the decoder assembles from the text of a group.\<close>

lemma group_values:
  assumes "table = b64_table \<or> table = b64url_table"
  shows "push_bit 18 (b64val (sextet table (group a b c) 18)) OR push_bit 12 (b64val (sextet table (group a b c) 12)) OR
      push_bit 6 (b64val (sextet table (group a b c) 6)) OR b64val (sextet table (group a b c) 0) = group a b c"
    "push_bit 18 (b64val (sextet table (group a b 0) 18)) OR push_bit 12 (b64val (sextet table (group a b 0) 12)) OR
      push_bit 6 (b64val (sextet table (group a b 0) 6)) OR push_bit 24 1 = group a b 0 OR push_bit 24 1"
    "push_bit 18 (b64val (sextet table (group a 0 0) 18)) OR push_bit 12 (b64val (sextet table (group a 0 0) 12)) OR
      push_bit 6 (push_bit 24 1) OR push_bit 24 1 = group a 0 0 OR push_bit 24 0x41"
proof -
  show "push_bit 18 (b64val (sextet table (group a b c) 18)) OR push_bit 12 (b64val (sextet table (group a b c) 12)) OR
      push_bit 6 (b64val (sextet table (group a b c) 6)) OR b64val (sextet table (group a b c) 0) = group a b c"
    using sextets_join [of "group a b c"] by (simp add: b64val_sextet [OF assms] group_24)
  show "push_bit 18 (b64val (sextet table (group a b 0) 18)) OR push_bit 12 (b64val (sextet table (group a b 0) 12)) OR
      push_bit 6 (b64val (sextet table (group a b 0) 6)) OR push_bit 24 1 = group a b 0 OR push_bit 24 1"
    using sextets_join [of "group a b 0"] group_zero(1) [of a b]
    by (simp add: b64val_sextet [OF assms] group_24 flip: or.assoc)
  show "push_bit 18 (b64val (sextet table (group a 0 0) 18)) OR push_bit 12 (b64val (sextet table (group a 0 0) 12)) OR
      push_bit 6 (push_bit 24 1) OR push_bit 24 1 = group a 0 0 OR push_bit 24 0x41"
    using sextets_join [of "group a 0 0"] group_zero(1) [of a 0] group_zero(2) [of a]
    by (simp add: b64val_sextet [OF assms] group_24 flip: or.assoc)
qed

lemma group_flags:
  "\<not> bit (group a b c) 24" "\<not> bit (group a b c) 30"
  "bit (group a b c OR push_bit 24 x) 24 = bit x 0" "bit (group a b c OR push_bit 24 x) 30 = bit x 6"
  by (auto simp: bit_group bit_simps dest: bit_byte)

section \<open>Decoding the text of a group\<close>

lemma b64val_pad: "b64val 0x3d = push_bit 24 1"
  by (simp add: b64val_def)

lemma b64_value_simps [simp]: "b64_value [] = push_bit 24 1" "b64_value (c # cs) = b64val c"
  by (simp_all add: b64_value_def)

text \<open>One step of the loop, for an assembled value whose low bits are the group.\<close>

lemma decode_step:
  assumes "push_bit 18 (b64val c0) OR push_bit 12 (b64val c1) OR push_bit 6 (b64_value inp) OR
      b64_value (drop 1 inp) = w" "take_bit 24 w = group a b c"
  shows "base64_decode_loop olen (c0 # c1 # inp) out =
     (let bs = [a] @ (if bit w 30 then [] else [b]) @ (if bit w 24 then [] else [c])
      in if length out + length bs \<le> olen then base64_decode_loop olen (drop 2 inp) (out @ bs) else Inl FAULT)"
  unfolding base64_decode_loop.simps(1) assms(1) Let_def group_bytes [OF assms(2)] flag_bit
  by (simp add: out_put_def)

lemma take_bit_group_pad: "take_bit 24 (group a b c OR push_bit 24 x) = group a b c"
  using take_bit_pad [of "group a b c" x] group_24 [of a b c] by (rule trans)

section \<open>Reference definition\<close>

text \<open>The text of RFC 4648 for a table, with the given number of padding characters per missing byte.\<close>

fun b64_text :: "byte list \<Rightarrow> nat \<Rightarrow> byte list \<Rightarrow> byte list" where
  "b64_text t p (a # b # c # inp) =
     map (sextet t (group a b c)) [18, 12, 6, 0] @ b64_text t p inp"
| "b64_text t p [a, b] = map (sextet t (group a b 0)) [18, 12, 6] @ replicate p 0x3d"
| "b64_text t p [a] = map (sextet t (group a 0 0)) [18, 12] @ replicate (2 * p) 0x3d"
| "b64_text t p [] = []"

lemma length_b64_text: "length (b64_text t 1 inp) = 4 * ((length inp + 2) div 3)"
proof (induction t "1 :: nat" inp rule: b64_text.induct)
  case (1 t a b c inp)
  have "(length (a # b # c # inp) + 2) div 3 = Suc ((length inp + 2) div 3)"
    using div_add_self2 [of 3 "length inp + 2"] by (simp add: add.commute)
  with 1 show ?case by simp
qed simp_all

lemma length_b64_text_0: "length (b64_text t 0 inp) = (4 * length inp + 2) div 3"
proof (induction t "0 :: nat" inp rule: b64_text.induct)
  case (1 t a b c inp)
  have "(4 * length (a # b # c # inp) + 2) div 3 = 4 + (4 * length inp + 2) div 3"
    using div_mult_self2 [of 3 "4 * length inp + 2" 4] by (simp add: add.commute)
  with 1 show ?case by simp
qed simp_all

lemma base64_encode_loop_text:
  "length out + length (b64_text b64_table 1 inp) \<le> olen \<Longrightarrow>
   base64_encode_loop olen inp out = Inr (out @ b64_text b64_table 1 inp)"
  by (induction b64_table "1 :: nat" inp arbitrary: out rule: b64_text.induct)
     (simp_all add: out_put_def Let_def group_def or.assoc numeral_2_eq_2)

lemma base64url_encode_loop_text:
  "length out + length (b64_text b64url_table 0 inp) \<le> olen \<Longrightarrow>
   base64url_encode_loop olen inp out = Inr (out @ b64_text b64url_table 0 inp)"
  by (induction b64url_table "0 :: nat" inp arbitrary: out rule: b64_text.induct)
     (simp_all add: out_put_def Let_def group_def or.assoc numeral_2_eq_2)

lemma decode_group3:
  assumes t: "t = b64_table \<or> t = b64url_table"
  shows "base64_decode_loop olen (map (sextet t (group a b c)) [18, 12, 6, 0] @ inp) out =
     (if length out + 3 \<le> olen then base64_decode_loop olen inp (out @ [a, b, c]) else Inl FAULT)"
  using decode_step [where inp = "[sextet t (group a b c) 6, sextet t (group a b c) 0] @ inp" and olen = olen and out = out,
      unfolded append.simps drop_Suc_Cons drop_0 One_nat_def b64_value_simps, OF group_values(1) [OF t] group_24]
  by (simp add: group_flags)

lemma decode_group2:
  assumes t: "t = b64_table \<or> t = b64url_table" and "p \<le> 1"
  shows "base64_decode_loop olen (map (sextet t (group a b 0)) [18, 12, 6] @ replicate p 0x3d) out =
     (if length out + 2 \<le> olen then Inr (out @ [a, b]) else Inl FAULT)"
proof -
  have "push_bit 18 (b64val (sextet t (group a b 0) 18)) OR push_bit 12 (b64val (sextet t (group a b 0) 12)) OR
      push_bit 6 (b64_value (sextet t (group a b 0) 6 # replicate p 0x3d)) OR
      b64_value (drop 1 (sextet t (group a b 0) 6 # replicate p 0x3d)) = group a b 0 OR push_bit 24 1"
    using group_values(2) [OF t, of a b] assms(2) by (cases p) (simp_all add: b64val_pad)
  from decode_step [OF this take_bit_group_pad, unfolded group_flags, of olen out] assms(2) show ?thesis
    by (cases p) (simp_all add: Let_def)
qed

lemma decode_group1:
  assumes t: "t = b64_table \<or> t = b64url_table" and "p \<le> 1"
  shows "base64_decode_loop olen (map (sextet t (group a 0 0)) [18, 12] @ replicate (2 * p) 0x3d) out =
     (if length out + 1 \<le> olen then Inr (out @ [a]) else Inl FAULT)"
proof -
  have "p = 0 \<or> p = 1" using assms(2) by auto
  then have "push_bit 18 (b64val (sextet t (group a 0 0) 18)) OR push_bit 12 (b64val (sextet t (group a 0 0) 12)) OR
      push_bit 6 (b64_value (replicate (2 * p) 0x3d)) OR b64_value (drop 1 (replicate (2 * p) 0x3d)) =
      group a 0 0 OR push_bit 24 0x41"
    using group_values(3) [OF t, of a] by (auto simp: b64val_pad numeral_2_eq_2)
  from decode_step [OF this take_bit_group_pad, unfolded group_flags, of olen out] assms(2) show ?thesis
    by (simp add: Let_def)
qed

lemma base64_decode_loop_text:
  "t = b64_table \<or> t = b64url_table \<Longrightarrow> p \<le> 1 \<Longrightarrow>
   base64_decode_loop olen (b64_text t p inp) out =
     (if length out + length inp \<le> olen \<or> inp = [] then Inr (out @ inp) else Inl FAULT)"
proof (induction t p inp arbitrary: out rule: b64_text.induct)
  case (1 t p a b c inp)
  show ?case unfolding b64_text.simps decode_group3 [OF 1(2)] using 1 by auto
next
  case (2 t p a b)
  show ?case unfolding b64_text.simps decode_group2 [OF 2] by simp
next
  case (3 t p a)
  show ?case unfolding b64_text.simps decode_group1 [OF 3] by simp
qed simp

text \<open>
  C36.  Base-64 text decodes to the bytes it was made from.  With room for the text the encoder
  writes the text of RFC 4648, never behind the buffer, and reports exactly its length; with less it
  fails with \<^verbatim>\<open>EOVERFLOW\<close> and the decoder gives the bytes back, for the padded and for the
  unpadded URL alphabet.
\<close>

theorem base64_roundtrip:
  "(let n = length inp; size = 4 * ((n + 2) div 3); t = b64_text b64_table 1 inp; u = b64_text b64url_table 0 inp
    in base64_encode inp olen = (if olen < size then Inl EOVERFLOW else Inr t) \<and> length t = size \<and>
       base64url_encode inp olen = (if olen < size then Inl EOVERFLOW else Inr u) \<and> length u = (4 * n + 2) div 3 \<and>
       base64_decode t (3 * ((n + 2) div 3) + extra) = Inr inp \<and> base64_decode u (n + extra) = Inr inp)"
proof -
  let ?n = "length inp" and ?u = "b64_text b64url_table 0 inp"
  have u: "length ?u \<le> 4 * ((?n + 2) div 3)" and d: "3 * (length ?u div 4) \<le> ?n"
    unfolding length_b64_text_0 by linarith+
  have n: "?n \<le> 3 * ((?n + 2) div 3)" by linarith
  have "base64_decode ?u (?n + extra) = Inr inp"
    using base64_decode_loop_text [of b64url_table 0 "?n + extra" inp "[]"] d by (simp add: base64_decode_def)
  moreover have "base64_decode (b64_text b64_table 1 inp) (3 * ((?n + 2) div 3) + extra) = Inr inp"
    using base64_decode_loop_text [of b64_table 1 "3 * ((?n + 2) div 3) + extra" inp "[]"] n length_b64_text [of b64_table inp]
    by (simp add: base64_decode_def)
  ultimately show ?thesis
    using u base64_encode_loop_text [of "[]" inp olen] base64url_encode_loop_text [of "[]" inp olen]
    by (auto simp: Let_def base64_encode_def base64url_encode_def length_b64_text [unfolded One_nat_def] length_b64_text_0)
qed

lemma b64_text_append: "length xs mod 3 = 0 \<Longrightarrow> b64_text t p (xs @ ys) = b64_text t p xs @ b64_text t p ys"
proof (induction t p xs rule: b64_text.induct)
  case (1 t p a b c xs)
  have "Suc (Suc (Suc (length xs))) mod 3 = length xs mod 3" by presburger
  with 1 show ?case by simp
qed simp_all

lemma base64_print_text:
  "base64_print (\<lambda>out buf. Inr (out @ buf)) out inp = Inr (out @ b64_text b64_table 1 inp)"
proof (induction "\<lambda>out buf. Inr (out @ buf) :: errno + byte list" out inp rule: base64_print.induct)
  case (2 out a inp)
  let ?i = "a # inp"
  have "base64_encode (take 192 ?i) 256 = Inr (b64_text b64_table 1 (take 192 ?i))"
    using base64_encode_loop_text [of "[]" "take 192 ?i" 256]
    by (auto simp: base64_encode_def length_b64_text simp del: One_nat_def)
  moreover have "b64_text b64_table 1 ?i = b64_text b64_table 1 (take 192 ?i) @ b64_text b64_table 1 (drop 192 ?i)"
  proof (cases "length ?i \<le> 192")
    case False
    then have "length (take 192 ?i) mod 3 = 0" by simp
    from b64_text_append [OF this, of b64_table 1 "drop 192 ?i"] show ?thesis by simp
  qed simp
  ultimately show ?case using 2 by simp
qed simp

text \<open>
  C38.  The size check of the decoder does not count the bytes of an incomplete last group: for
  unpadded text of bytes whose number is not a multiple of three it accepts the buffer size
  \<^verbatim>\<open>3 * (ilen/4)\<close> and then writes behind the buffer.
\<close>

theorem base64_decode_overflow:
  assumes "base64url_encode inp olen = Inr t" "length inp mod 3 \<noteq> 0"
  shows "base64_decode t (3 * (length t div 4)) = Inl FAULT"
proof -
  let ?n = "length inp" and ?u = "b64_text b64url_table 0 inp"
  have "length ?u \<le> 4 * ((?n + 2) div 3)" unfolding length_b64_text_0 by linarith
  then have t: "t = ?u" using assms(1) base64url_encode_loop_text [of "[]" inp olen]
    by (auto simp: base64url_encode_def split: if_splits)
  define q where "q = ?n div 3"
  have "?n = 3 * q + 1 \<or> ?n = 3 * q + 2" using assms(2) unfolding q_def by presburger
  then have "length ?u div 4 = q" unfolding length_b64_text_0 by auto
  with \<open>?n = 3 * q + 1 \<or> ?n = 3 * q + 2\<close> have "3 * (length ?u div 4) < ?n" by auto
  with base64_decode_loop_text [of b64url_table 0 "3 * (length ?u div 4)" inp "[]"] show ?thesis
    unfolding t by (auto simp: base64_decode_def)
qed

theorem base64_decode_overflow_witness: "base64_decode [0x51, 0x51] 0 = Inl FAULT"
proof -
  have "base64url_encode [0x41] 4 = Inr [0x51, 0x51]"
    by (simp add: base64url_encode_def Let_def out_put_def sextet_def b64url_table_def)
  from base64_decode_overflow [OF this] show ?thesis by simp
qed

end
