(* ===== verification/Httpauth.thy ===== *)
theory Httpauth
  imports Base64
begin

text \<open>
  HTTP basic authentication (\<^verbatim>\<open>src/httpauth/basic.c\<close>) and the constant-time comparison it uses
  (\<^verbatim>\<open>src/mem/secure.c\<close>).  The header is split by a regular expression; the credentials it
  extracts are the input here, \<open>None\<close> when the header does not match.  User names and passwords
  are the characters of C strings.
\<close>

abbreviation EACCES :: errno where "EACCES \<equiv> 13"

text \<open>The comparison reads \<open>n\<close> bytes of both blocks.\<close>

definition mem_seccmp :: "byte list \<Rightarrow> byte list \<Rightarrow> nat \<Rightarrow> errno + byte" where
  "mem_seccmp s1 s2 n =
     (if length s1 < n \<or> length s2 < n then Inl FAULT
      else Inr (fold (\<lambda>(x, y) val. val OR (x XOR y)) (zip (take n s1) (take n s2)) 0))"

definition httpauth_basic_make_response :: "bool \<Rightarrow> byte list \<Rightarrow> byte list \<Rightarrow> errno + byte list" where
  "httpauth_basic_make_response mb_ok user pwd =
     (let si = length user + length pwd + 1;
          so = 4 * (si + 2) div 3
      in if \<not> mb_ok then Inl ENOMEM
         else case base64_encode (user @ [0x3a] @ pwd) so of
           Inl e \<Rightarrow> Inl e
         | Inr out \<Rightarrow> Inr (takeWhile (\<lambda>c. c \<noteq> 0) (out @ replicate (so + 1 - length out) 0)))"

text \<open>
  \<open>b64c\<close> is what the pattern matched in the header value.  The text \<^verbatim>\<open>user:passwd\<close> is printed into a buffer that
  was allocated for its length, so that this cannot fail.
\<close>

definition httpauth_basic_verify :: "bool \<Rightarrow> bool \<Rightarrow> byte list option \<Rightarrow> byte list \<Rightarrow> byte list \<Rightarrow> errno" where
  "httpauth_basic_verify mb_ok c_ok b64c user passwd =
     (if \<not> mb_ok then ENOMEM
      else case b64c of
        None \<Rightarrow> EBADMSG
      | Some b64 \<Rightarrow>
          if b64 = [] then EBADMSG
          else if \<not> c_ok then ENOMEM
          else (case base64_decode b64 (length b64) of
            Inl e \<Rightarrow> e
          | Inr c \<Rightarrow>
              (case mem_seccmp (user @ [0x3a] @ passwd) c (length c) of
                 Inl e \<Rightarrow> e
               | Inr val \<Rightarrow> if val \<noteq> 0 then EACCES else 0)))"

lemma xor_eq_0: "x XOR y = 0 \<longleftrightarrow> x = y" for x y :: byte
proof
  assume "x XOR y = 0"
  then have "(x XOR y) XOR y = y" by simp
  then show "x = y" by (simp add: xor.assoc)
qed simp

lemma seccmp_fold:
  "fold (\<lambda>(x, y) val. val OR (x XOR y)) ps (v :: byte) = 0 \<longleftrightarrow> v = 0 \<and> (\<forall>(x, y) \<in> set ps. x = y)"
proof (induction ps arbitrary: v)
  case (Cons p ps)
  obtain x y where p: "p = (x, y)" by (cases p)
  have "(v OR (x XOR y) = 0) = (v = 0 \<and> x = y)"
    by (simp add: or_eq_0_iff xor_eq_0)
  with Cons.IH [of "v OR (x XOR y)"] show ?case by (simp add: p conj_assoc)
qed simp

text \<open>The comparison of two blocks is zero exactly when their first \<open>n\<close> bytes agree.\<close>

lemma mem_seccmp_prefix:
  assumes "n \<le> length s1" "n \<le> length s2"
  shows "\<exists>val. mem_seccmp s1 s2 n = Inr val \<and> (val = 0 \<longleftrightarrow> take n s1 = take n s2)"
proof -
  have "length xs = length ys \<Longrightarrow> (\<forall>(x, y) \<in> set (zip xs ys). x = y) \<longleftrightarrow> xs = ys" for xs ys :: "byte list"
    by (induction xs ys rule: list_induct2) auto
  from this [of "take n s1" "take n s2"] assms show ?thesis
    by (simp add: mem_seccmp_def seccmp_fold)
qed

lemma table_nonzero: "list_all (\<lambda>i. b64_table ! i \<noteq> 0) [0..<64]"
  by (simp add: upt_conv_Cons b64_table_def)

lemma sextet_nonzero: "sextet b64_table v s \<noteq> 0"
proof -
  have "drop_bit s v AND 0x3f = take_bit 6 (drop_bit s v)" by (rule and_63)
  then have "unat (drop_bit s v AND 0x3f) < 64"
    by (simp add: unsigned_take_bit_eq take_bit_nat_less_exp [of 6, simplified])
  with table_nonzero show ?thesis by (simp add: list_all_iff sextet_def)
qed

lemma b64_text_nonzero: "c \<in> set (b64_text b64_table p inp) \<Longrightarrow> c \<noteq> 0"
proof -
  have "\<exists>v s. c = sextet t v s" if "c \<in> set (b64_text t p inp)" "c \<noteq> 0x3d" for t
    using that by (induction t p inp rule: b64_text.induct) auto
  from this [of b64_table] show "c \<in> set (b64_text b64_table p inp) \<Longrightarrow> c \<noteq> 0"
    using sextet_nonzero by (cases "c = 0x3d") auto
qed

lemma verify_decoded:
  assumes "b64 \<noteq> []" "base64_decode b64 (length b64) = Inr c"
  shows "httpauth_basic_verify True True (Some b64) user passwd =
     (if length (user @ [0x3a] @ passwd) < length c then FAULT
      else if take (length c) (user @ [0x3a] @ passwd) = c then 0 else EACCES)"
proof (cases "length (user @ [0x3a] @ passwd) < length c")
  case True
  then show ?thesis using assms by (simp add: httpauth_basic_verify_def mem_seccmp_def)
next
  case False
  then obtain val where "mem_seccmp (user @ [0x3a] @ passwd) c (length c) = Inr val"
    "val = 0 \<longleftrightarrow> take (length c) (user @ [0x3a] @ passwd) = c"
    using mem_seccmp_prefix [of "length c" "user @ [0x3a] @ passwd" c] by auto
  with False assms show ?thesis by (simp add: httpauth_basic_verify_def)
qed

text \<open>
  The response that the client makes for a user name and a password is accepted by the
  verification for the same user name and password.
\<close>

theorem httpauth_basic_accepts:
  "\<exists>auth. httpauth_basic_make_response True user pwd = Inr auth \<and>
     httpauth_basic_verify True True (Some auth) user pwd = 0"
proof -
  let ?c = "user @ [0x3a] @ pwd"
  let ?t = "b64_text b64_table 1 ?c"
  let ?k = "(length ?c + 2) div 3" and ?so = "4 * (length user + length pwd + 1 + 2) div 3"
  have t: "length ?t = 4 * ?k" by (rule length_b64_text)
  have k: "length ?c \<le> 3 * ?k" "4 * ?k \<le> ?so" by (simp_all del: One_nat_def)
  then have enc: "base64_encode ?c ?so = Inr ?t"
    using base64_encode_loop_text [of "[]" ?c ?so] unfolding base64_encode_def t by simp
  moreover have "takeWhile (\<lambda>c. c \<noteq> 0) (?t @ replicate (?so + 1 - length ?t) 0) = ?t"
  proof -
    have "takeWhile (\<lambda>c. c \<noteq> 0) (?t @ replicate (?so + 1 - length ?t) 0) =
        ?t @ takeWhile (\<lambda>c. c \<noteq> 0) (replicate (?so + 1 - length ?t) 0)" by (rule takeWhile_append2) (rule b64_text_nonzero)
    then show ?thesis by (cases "?so + 1 - length ?t") simp_all
  qed
  ultimately have resp: "httpauth_basic_make_response True user pwd = Inr ?t"
    by (simp only: httpauth_basic_make_response_def Let_def not_True_eq_False if_False sum.case)
  have "base64_decode ?t (length ?t) = Inr ?c"
    using base64_decode_loop_text [of b64_table 1 "length ?t" ?c "[]"] k(1) unfolding base64_decode_def t by auto
  moreover have "?t \<noteq> []" using t by auto
  ultimately have "httpauth_basic_verify True True (Some ?t) user pwd = 0"
    using verify_decoded by simp
  with resp show ?thesis by blast
qed

text \<open>
  C37.  The verification does not compare lengths.  It accepts exactly the credentials that decode
  to a prefix of \<^verbatim>\<open>user:password\<close>, the empty one included, so that one character of base-64 text
  passes for every user and password; credentials that are longer make the comparison read behind
  the end of the block.
\<close>

theorem httpauth_basic_prefix:
  assumes "b64 \<noteq> []" "base64_decode b64 (length b64) = Inr c"
  shows "(httpauth_basic_verify True True (Some b64) user passwd = 0 \<longleftrightarrow>
       (\<exists>rest. user @ [0x3a] @ passwd = c @ rest)) \<and>
     (length user + 1 + length passwd < length c \<longrightarrow> httpauth_basic_verify True True (Some b64) user passwd = FAULT) \<and>
     httpauth_basic_verify True True (Some [0x41]) user passwd = 0"
proof -
  have "base64_decode [0x41] (length [0x41 :: byte]) = Inr []" by (simp add: base64_decode_def)
  then have "httpauth_basic_verify True True (Some [0x41]) user passwd = 0"
    using verify_decoded [of "[0x41]" "[]"] by simp
  moreover have "(\<exists>rest. user @ [0x3a] @ passwd = c @ rest) \<longleftrightarrow>
      length c \<le> length (user @ [0x3a] @ passwd) \<and> take (length c) (user @ [0x3a] @ passwd) = c"
    by (metis append_eq_conv_conj append_take_drop_id le_add1 length_append)
  ultimately show ?thesis unfolding verify_decoded [OF assms] by auto
qed

theorem httpauth_basic_prefix_witness:
  "httpauth_basic_verify True True (Some [0x51, 0x51, 0x3d, 0x3d]) [0x41, 0x42] [0x43] = 0"
proof -
  have "base64_decode [0x51, 0x51, 0x3d, 0x3d] (length [0x51, 0x51, 0x3d, 0x3d :: byte]) = Inr [0x41]"
    by (simp add: base64_decode_def base64_decode_loop.simps(1) b64val_def out_put_def Let_def)
  from httpauth_basic_prefix [OF _ this, of "[0x41, 0x42]" "[0x43]"] show ?thesis by simp
qed

end
