(* ===== verification/Reader.thy ===== *)
theory Reader
  imports Mbuf
begin

text \<open>
  Decoders over buffers as a small error monad: a decoder reads a buffer, moves its position and
  gives a value or an error code.  The sequencing follows the early returns of the C functions.
  Two judgements are used by all protocol theories: a decoder is \<open>dec_safe\<close> when it never leaves
  the data of the buffer, whatever the input, and it \<open>decodes\<close> a sequence of bytes to a value when
  it gives that value and consumes exactly those bytes, whatever follows them.
\<close>

type_synonym 'a dec = "mbuf \<Rightarrow> (errno + 'a) \<times> mbuf"

named_theorems safe_intros \<open>decoders stay inside the data\<close>
named_theorems safe_at_intros \<open>decoders stay inside the data of one buffer\<close>
named_theorems decodes_intros \<open>decoders of wire formats\<close>

section \<open>Operations\<close>

definition dec_return :: "'a \<Rightarrow> 'a dec" where
  "dec_return x = (\<lambda>mb. (Inr x, mb))"

definition dec_fail :: "errno \<Rightarrow> 'a dec" where
  "dec_fail e = (\<lambda>mb. (Inl e, mb))"

definition dec_bind :: "'a dec \<Rightarrow> ('a \<Rightarrow> 'b dec) \<Rightarrow> 'b dec" where
  "dec_bind d f = (\<lambda>mb. case d mb of (Inl e, mb1) \<Rightarrow> (Inl e, mb1) | (Inr x, mb1) \<Rightarrow> f x mb1)"

text \<open>\<^verbatim>\<open>if (mbuf_get_left(mb) < n) return e;\<close>\<close>

definition dec_need :: "nat \<Rightarrow> errno \<Rightarrow> unit dec" where
  "dec_need n e = (\<lambda>mb. if mbuf_get_left mb < n then (Inl e, mb) else (Inr (), mb))"

definition dec_left :: "nat dec" where
  "dec_left = (\<lambda>mb. (Inr (mbuf_get_left mb), mb))"

definition dec_pos :: "nat dec" where
  "dec_pos = (\<lambda>mb. (Inr (mb_pos mb), mb))"

text \<open>Reads of values in network byte order; a read that does not fit gives zero and reads nothing.\<close>

definition get_u8 :: "byte dec" where
  "get_u8 = (\<lambda>mb. case mbuf_read_u8 mb of (v, mb1) \<Rightarrow> (Inr v, mb1))"

definition get_be16 :: "16 word dec" where
  "get_be16 = (\<lambda>mb. case mbuf_read_u16 mb of (v, mb1) \<Rightarrow> (Inr (ntohs v), mb1))"

definition get_be32 :: "32 word dec" where
  "get_be32 = (\<lambda>mb. case mbuf_read_u32 mb of (v, mb1) \<Rightarrow> (Inr (ntohl v), mb1))"

definition get_be64 :: "64 word dec" where
  "get_be64 = (\<lambda>mb. case mbuf_read_u64 mb of (v, mb1) \<Rightarrow> (Inr (sys_ntohll v), mb1))"

text \<open>\<^verbatim>\<open>mbuf_read_mem\<close> with its error returned.  A length of zero reads nothing.\<close>

definition get_mem :: "nat \<Rightarrow> byte list dec" where
  "get_mem n = (\<lambda>mb. if n = 0 then (Inr [], mb)
                else case mbuf_read_mem mb n of (e, bs, mb1) \<Rightarrow> (if e \<noteq> 0 then Inl e else Inr bs, mb1))"

definition dec_advance :: "nat \<Rightarrow> unit dec" where
  "dec_advance n = (\<lambda>mb. (Inr (), mbuf_advance mb (int n)))"

text \<open>An allocation whose contents are overwritten by the decoder.\<close>

definition dec_alloc :: "alloc \<Rightarrow> nat \<Rightarrow> unit dec" where
  "dec_alloc al n = (\<lambda>mb. (case mem_alloc al n of None \<Rightarrow> Inl ENOMEM | Some _ \<Rightarrow> Inr (), mb))"

fun dec_many :: "nat \<Rightarrow> 'a dec \<Rightarrow> 'a list dec" where
  "dec_many 0 d = dec_return []"
| "dec_many (Suc n) d = dec_bind d (\<lambda>x. dec_bind (dec_many n d) (\<lambda>xs. dec_return (x # xs)))"

section \<open>Safety\<close>

text \<open>A buffer that can be read from: well-formed, with the position inside the data.\<close>

definition readable :: "mbuf \<Rightarrow> bool" where
  "readable mb \<longleftrightarrow> mbuf_wf mb \<and> mb_pos mb \<le> mb_end mb"

lemma readable_wf [dest]: "readable mb \<Longrightarrow> mbuf_wf mb"
  by (simp add: readable_def)

lemma readable_adv: "readable mb \<Longrightarrow> n \<le> length (mb_left mb) \<Longrightarrow> readable (mb_adv mb n)"
  by (auto simp: readable_def length_mb_left mbuf_get_left_def split: if_splits)

lemma readable_advance: "readable mb \<Longrightarrow> n \<le> length (mb_left mb) \<Longrightarrow> mbuf_advance mb (int n) = mb_adv mb n"
  by (rule mbuf_advance_adv)
     (auto simp: readable_def length_mb_left mbuf_get_left_def mbuf_wf_def MEM_SIZE_MAX_def split: if_splits)

text \<open>A decoder stays inside the data of one buffer, and of every buffer.\<close>

definition dec_safe_at :: "'a dec \<Rightarrow> mbuf \<Rightarrow> bool" where
  "dec_safe_at d mb \<longleftrightarrow> (\<exists>n \<le> length (mb_left mb). snd (d mb) = mb_adv mb n) \<and> fst (d mb) \<noteq> Inl FAULT"

definition dec_safe :: "'a dec \<Rightarrow> bool" where
  "dec_safe d \<longleftrightarrow> (\<forall>mb. readable mb \<longrightarrow> dec_safe_at d mb)"

lemma dec_safeI:
  "(\<And>mb. readable mb \<Longrightarrow> \<exists>n \<le> length (mb_left mb). snd (d mb) = mb_adv mb n) \<Longrightarrow>
   (\<And>mb. readable mb \<Longrightarrow> fst (d mb) \<noteq> Inl FAULT) \<Longrightarrow> dec_safe d"
  by (simp add: dec_safe_def dec_safe_at_def)

lemma dec_safe_atI: "(\<And>mb. readable mb \<Longrightarrow> dec_safe_at d mb) \<Longrightarrow> dec_safe d"
  by (simp add: dec_safe_def)

lemma dec_safe_at: "dec_safe d \<Longrightarrow> readable mb \<Longrightarrow> dec_safe_at d mb"
  by (simp add: dec_safe_def)

lemma dec_safeD:
  assumes "dec_safe d" "readable mb"
  shows "\<exists>n \<le> length (mb_left mb). snd (d mb) = mb_adv mb n" "fst (d mb) \<noteq> Inl FAULT"
  using assms unfolding dec_safe_def dec_safe_at_def by blast+

lemma mb_adv_ex_0: "\<exists>n \<le> length (mb_left mb). mb = mb_adv mb n"
  by (rule exI [of _ 0]) simp

lemma dec_safe_basic [safe_intros]:
  "dec_safe (dec_return x)" "e \<noteq> FAULT \<Longrightarrow> dec_safe (dec_fail e)" "e \<noteq> FAULT \<Longrightarrow> dec_safe (dec_need n e)"
  "dec_safe dec_left" "dec_safe dec_pos"
  by (auto intro!: dec_safeI mb_adv_ex_0
      simp: dec_return_def dec_fail_def dec_need_def dec_left_def dec_pos_def split: if_splits)

lemma dec_safe_at_bind:
  assumes "readable mb" "dec_safe_at d mb"
    "\<And>x n. d mb = (Inr x, mb_adv mb n) \<Longrightarrow> n \<le> length (mb_left mb) \<Longrightarrow> readable (mb_adv mb n) \<Longrightarrow> dec_safe_at (f x) (mb_adv mb n)"
  shows "dec_safe_at (dec_bind d f) mb"
proof -
  obtain r mb1 where d: "d mb = (r, mb1)" by (cases "d mb")
  obtain n where n: "n \<le> length (mb_left mb)" "mb1 = mb_adv mb n" "r \<noteq> Inl FAULT"
    using assms(2) d by (auto simp: dec_safe_at_def)
  show ?thesis
  proof (cases r)
    case (Inl e)
    then show ?thesis using n d by (auto simp: dec_safe_at_def dec_bind_def)
  next
    case (Inr x)
    then obtain m where "m \<le> length (mb_left mb1)" "snd (f x mb1) = mb_adv mb1 m" "fst (f x mb1) \<noteq> Inl FAULT"
      using assms(3) [of x n] readable_adv [OF assms(1) n(1)] n d by (auto simp: dec_safe_at_def)
    then show ?thesis using n d Inr by (auto simp: dec_safe_at_def dec_bind_def intro!: exI [of _ "n + m"])
  qed
qed

lemma dec_safe_bind [safe_intros]: "dec_safe d \<Longrightarrow> (\<And>x. dec_safe (f x)) \<Longrightarrow> dec_safe (dec_bind d f)"
  by (auto intro!: dec_safe_atI dec_safe_at_bind dest: dec_safe_at)

lemma dec_safe_at_need [safe_at_intros]:
  assumes "readable mb" "e \<noteq> FAULT" "n \<le> length (mb_left mb) \<Longrightarrow> dec_safe_at (f ()) mb"
  shows "dec_safe_at (dec_bind (dec_need n e) f) mb"
  using assms mb_adv_ex_0 [of mb]
  by (auto simp: dec_safe_at_def dec_bind_def dec_need_def mbuf_get_left_len [OF readable_wf])

lemma dec_safe_at_left [safe_at_intros]:
  "readable mb \<Longrightarrow> dec_safe_at (f (length (mb_left mb))) mb \<Longrightarrow> dec_safe_at (dec_bind dec_left f) mb"
  by (simp add: dec_safe_at_def dec_bind_def dec_left_def mbuf_get_left_len [OF readable_wf])

lemma dec_safe_mem [safe_intros]: "dec_safe (get_mem n)"
  by (rule dec_safeI)
     (auto simp: get_mem_def mbuf_read_mem_left [OF readable_wf] intro!: mb_adv_ex_0 intro: exI [of _ n])

text \<open>A number reads as many bytes as it has, or none.\<close>

lemma read_uN_adv:
  assumes "readable mb"
  shows "snd (mbuf_read_u8 mb) = mb_adv mb (if 1 \<le> length (mb_left mb) then 1 else 0)"
    "snd (mbuf_read_u16 mb) = mb_adv mb (if 2 \<le> length (mb_left mb) then 2 else 0)"
    "snd (mbuf_read_u32 mb) = mb_adv mb (if 4 \<le> length (mb_left mb) then 4 else 0)"
    "snd (mbuf_read_u64 mb) = mb_adv mb (if 8 \<le> length (mb_left mb) then 8 else 0)"
  using mbuf_read_mem_left [OF readable_wf [OF assms]]
  by (simp_all add: mbuf_read_u8_def mbuf_read_u16_def mbuf_read_u32_def mbuf_read_u64_def)

lemma dec_safe_get [safe_intros]: "dec_safe get_u8" "dec_safe get_be16" "dec_safe get_be32" "dec_safe get_be64"
  by (rule dec_safeI; force simp: get_u8_def get_be16_def get_be32_def get_be64_def read_uN_adv case_prod_beta)+

lemma dec_safe_alloc [safe_intros]: "dec_safe (dec_alloc al n)"
  by (rule dec_safeI) (auto simp: dec_alloc_def intro!: mb_adv_ex_0 split: option.splits)

lemma dec_safe_many [safe_intros]: "dec_safe d \<Longrightarrow> dec_safe (dec_many n d)"
  by (induction n) (auto intro!: safe_intros)

lemma dec_safe_if [safe_intros]:
  "(c \<Longrightarrow> dec_safe d) \<Longrightarrow> (\<not> c \<Longrightarrow> dec_safe d') \<Longrightarrow> dec_safe (if c then d else d')"
  by auto

text \<open>Moving the position is safe behind the check that the bytes are there.\<close>

lemma dec_safe_at_advance: "readable mb \<Longrightarrow> n \<le> length (mb_left mb) \<Longrightarrow> dec_safe_at (dec_advance n) mb"
  by (auto simp: dec_safe_at_def dec_advance_def readable_advance)

lemma dec_safe_need_advance [safe_intros]:
  assumes "e \<noteq> FAULT" "m \<le> n" "dec_safe (f ())"
  shows "dec_safe (dec_bind (dec_need n e) (\<lambda>_. dec_bind (dec_advance m) f))"
  using assms
  by (auto intro!: dec_safe_atI dec_safe_at_need dec_safe_at_bind [OF _ dec_safe_at_advance] dest: dec_safe_at)

text \<open>A number behind a check consumes exactly its bytes.\<close>

lemma dec_safe_at_exact:
  assumes "readable mb" "k \<le> length (mb_left mb)" "d mb = (Inr v, mb_adv mb k)"
    "readable (mb_adv mb k) \<Longrightarrow> dec_safe_at (f v) (mb_adv mb k)"
  shows "dec_safe_at (dec_bind d f) mb"
proof -
  obtain m where "m \<le> length (mb_left mb) - k" "snd (f v (mb_adv mb k)) = mb_adv mb (k + m)" "fst (f v (mb_adv mb k)) \<noteq> Inl FAULT"
    using assms(4) readable_adv [OF assms(1,2)] by (auto simp: dec_safe_at_def)
  then show ?thesis using assms(2,3) by (auto simp: dec_safe_at_def dec_bind_def intro!: exI [of _ "k + m"])
qed

lemma get_adv:
  assumes "readable mb"
  shows "1 \<le> length (mb_left mb) \<Longrightarrow> get_u8 mb = (Inr (fst (mbuf_read_u8 mb)), mb_adv mb 1)"
    "2 \<le> length (mb_left mb) \<Longrightarrow> get_be16 mb = (Inr (ntohs (fst (mbuf_read_u16 mb))), mb_adv mb 2)"
    "4 \<le> length (mb_left mb) \<Longrightarrow> get_be32 mb = (Inr (ntohl (fst (mbuf_read_u32 mb))), mb_adv mb 4)"
  using read_uN_adv [OF assms] by (simp_all add: get_u8_def get_be16_def get_be32_def case_prod_beta)

lemma dec_safe_at_get [safe_at_intros]:
  assumes "readable mb"
  shows "1 \<le> length (mb_left mb) \<Longrightarrow> (\<And>v. readable (mb_adv mb 1) \<Longrightarrow> dec_safe_at (f v) (mb_adv mb 1)) \<Longrightarrow> dec_safe_at (dec_bind get_u8 f) mb"
    "2 \<le> length (mb_left mb) \<Longrightarrow> (\<And>v. readable (mb_adv mb 2) \<Longrightarrow> dec_safe_at (g v) (mb_adv mb 2)) \<Longrightarrow> dec_safe_at (dec_bind get_be16 g) mb"
    "4 \<le> length (mb_left mb) \<Longrightarrow> (\<And>v. readable (mb_adv mb 4) \<Longrightarrow> dec_safe_at (h v) (mb_adv mb 4)) \<Longrightarrow> dec_safe_at (dec_bind get_be32 h) mb"
  using get_adv [OF assms] assms
  by (blast intro: dec_safe_at_exact [where d = get_u8 and k = 1],
      blast intro: dec_safe_at_exact [where d = get_be16 and k = 2],
      blast intro: dec_safe_at_exact [where d = get_be32 and k = 4])

lemma dec_safe_at_alloc [safe_at_intros]:
  "readable mb \<Longrightarrow> dec_safe_at (f ()) mb \<Longrightarrow> dec_safe_at (dec_bind (dec_alloc al n) f) mb"
  using mb_adv_ex_0 [of mb] by (auto simp: dec_safe_at_def dec_bind_def dec_alloc_def split: option.splits)

lemma dec_safe_at_mem [safe_at_intros]:
  assumes "readable mb" "n \<le> length (mb_left mb)"
    "\<And>bs. readable (mb_adv mb n) \<Longrightarrow> dec_safe_at (f bs) (mb_adv mb n)"
  shows "dec_safe_at (dec_bind (get_mem n) f) mb"
  using assms
  by (intro dec_safe_at_exact [where k = n and v = "take n (mb_left mb)"])
     (auto simp: get_mem_def mbuf_read_mem_left [OF readable_wf])

lemma dec_safe_at_advance_bind [safe_at_intros]:
  "readable mb \<Longrightarrow> n \<le> length (mb_left mb) \<Longrightarrow> (readable (mb_adv mb n) \<Longrightarrow> dec_safe_at (f ()) (mb_adv mb n)) \<Longrightarrow>
   dec_safe_at (dec_bind (dec_advance n) f) mb"
  by (rule dec_safe_at_exact) (auto simp: dec_advance_def readable_advance)

lemma dec_safe_at_pos [safe_at_intros]:
  "readable mb \<Longrightarrow> dec_safe_at (f (mb_pos mb)) mb \<Longrightarrow> dec_safe_at (dec_bind dec_pos f) mb"
  by (simp add: dec_safe_at_def dec_bind_def dec_pos_def)

lemma dec_safe_at_basic [safe_at_intros]:
  "dec_safe_at (dec_return x) mb" "e \<noteq> FAULT \<Longrightarrow> dec_safe_at (dec_fail e) mb"
  using mb_adv_ex_0 [of mb] by (auto simp: dec_safe_at_def dec_return_def dec_fail_def)

section \<open>Wire formats\<close>

definition decodes :: "'a dec \<Rightarrow> byte list \<Rightarrow> 'a \<Rightarrow> bool" where
  "decodes d bs x \<longleftrightarrow> (\<forall>mb rest. readable mb \<longrightarrow> mb_left mb = bs @ rest \<longrightarrow>
     d mb = (Inr x, mb_adv mb (length bs)))"

lemma decodesI:
  "(\<And>mb rest. readable mb \<Longrightarrow> mb_left mb = bs @ rest \<Longrightarrow> d mb = (Inr x, mb_adv mb (length bs))) \<Longrightarrow> decodes d bs x"
  by (simp add: decodes_def)

lemma decodesD: "decodes d bs x \<Longrightarrow> readable mb \<Longrightarrow> mb_left mb = bs @ rest \<Longrightarrow> d mb = (Inr x, mb_adv mb (length bs))"
  by (simp add: decodes_def)

lemma decodes_return [decodes_intros]: "decodes (dec_return x) [] x"
  by (rule decodesI) (simp add: dec_return_def)

lemma decodes_bind [decodes_intros]:
  assumes "decodes d xs x" "decodes (f x) ys y"
  shows "decodes (dec_bind d f) (xs @ ys) y"
proof (rule decodesI)
  fix mb rest assume mb: "readable mb" "mb_left mb = (xs @ ys) @ rest"
  from decodesD [OF assms(1) mb(1)] mb(2) have "d mb = (Inr x, mb_adv mb (length xs))" by simp
  moreover from decodesD [OF assms(2), of "mb_adv mb (length xs)" rest] mb readable_adv [OF mb(1), of "length xs"]
  have "f x (mb_adv mb (length xs)) = (Inr y, mb_adv mb (length xs + length ys))" by simp
  ultimately show "dec_bind d f mb = (Inr y, mb_adv mb (length (xs @ ys)))" by (simp add: dec_bind_def)
qed

lemma decodes_need:
  assumes "n \<le> length bs" "decodes (f ()) bs x"
  shows "decodes (dec_bind (dec_need n e) f) bs x"
  using assms by (auto simp: decodes_def dec_bind_def dec_need_def mbuf_get_left_len [OF readable_wf])

lemma decodes_left:
  assumes "\<And>k. length bs \<le> k \<Longrightarrow> decodes (f k) bs x"
  shows "decodes (dec_bind dec_left f) bs x"
proof (rule decodesI)
  fix mb rest assume mb: "readable mb" "mb_left mb = bs @ rest"
  from assms [of "length (mb_left mb)"] mb
  show "dec_bind dec_left f mb = (Inr x, mb_adv mb (length bs))"
    by (auto simp: dec_bind_def dec_left_def mbuf_get_left_len [OF readable_wf] dest: decodesD)
qed

lemma decodes_advance [decodes_intros]: "length bs = n \<Longrightarrow> decodes (dec_advance n) bs ()"
  by (rule decodesI) (simp add: dec_advance_def readable_advance)

lemma decodes_get [decodes_intros]:
  "decodes get_u8 [b] b" "decodes get_be16 (be16 v) v" "decodes get_be32 (be32 w) w" "decodes get_be64 (be64 q) q"
  by (rule decodesI; drule readable_wf;
      simp add: get_u8_def get_be16_def get_be32_def get_be64_def mbuf_read_left)+

lemma decodes_alloc: "mem_ok al \<Longrightarrow> n \<le> MEM_SIZE_MAX \<Longrightarrow> decodes (f ()) bs x \<Longrightarrow> decodes (dec_bind (dec_alloc al n) f) bs x"
  using mem_alloc_total [of al n] by (auto simp: decodes_def dec_bind_def dec_alloc_def)

lemma decodes_mem [decodes_intros]: "length bs = n \<Longrightarrow> decodes (get_mem n) bs bs"
  by (rule decodesI) (auto simp: get_mem_def mbuf_read_left [OF readable_wf])

lemma decodes_many:
  "(\<And>x. x \<in> set xs \<Longrightarrow> decodes d (wire x) x) \<Longrightarrow> decodes (dec_many (length xs) d) (concat (map wire xs)) xs"
proof (induction xs)
  case (Cons x xs)
  have "decodes (dec_bind (dec_many (length xs) d) (\<lambda>xs. dec_return (x # xs))) (concat (map wire xs) @ []) (x # xs)"
    using Cons by (intro decodes_bind) (auto intro: decodes_return)
  with Cons.prems [of x] show ?case by (auto intro: decodes_bind)
qed (simp add: decodes_return)

text \<open>The contract of an encoder and a decoder of the same wire format.\<close>

locale wire_codec =
  fixes enc :: "alloc \<Rightarrow> mbuf \<Rightarrow> 'a \<Rightarrow> errno \<times> mbuf"
    and dec :: "'a dec"
    and wire :: "'a \<Rightarrow> byte list"
    and ok :: "'a \<Rightarrow> bool"
  assumes enc_emits: "mbuf_wf mb \<Longrightarrow> ok x \<Longrightarrow> mb_pos mb + length (wire x) < 2 ^ 31 \<Longrightarrow> emits al mb (wire x) (enc al mb x)"
    and dec_decodes: "ok x \<Longrightarrow> decodes dec (wire x) x"
begin

lemma roundtrip:
  assumes "mbuf_wf mb" "ok x" "mb_pos mb + length (wire x) < 2 ^ 31" "enc al mb x = (0, mb')"
  shows "dec (mb'\<lparr>mb_pos := mb_pos mb\<rparr>) = (Inr x, mb')"
proof -
  have w: "written mb (wire x) mb'"
    using enc_emits [OF assms(1-3), of al] assms(4) by (auto simp: emits_def)
  then have "readable (mb'\<lparr>mb_pos := mb_pos mb\<rparr>)" "mb_pos mb' = mb_pos mb + length (wire x)"
    by (auto simp: written_def readable_def)
  then show ?thesis
    using decodesD [OF dec_decodes [OF assms(2)], of "mb'\<lparr>mb_pos := mb_pos mb\<rparr>"] written_left [OF w]
    by (simp add: mb_adv_def)
qed

lemma roundtrip_list:
  assumes "\<And>x. x \<in> set xs \<Longrightarrow> ok x"
  shows "decodes (dec_many (length xs) dec) (concat (map wire xs)) xs"
  using assms dec_decodes by (intro decodes_many) auto

lemma enc_each_emits:
  assumes "emits al mb bs r" "\<And>x. x \<in> set xs \<Longrightarrow> ok x"
    "mb_pos mb + length bs + length (concat (map wire xs)) < 2 ^ 31"
  shows "emits al mb (bs @ concat (map wire xs)) (err_each (\<lambda>mb. enc al mb) xs r)"
  using assms by (intro emits_err_each enc_emits) auto

lemma enc_each_written:
  assumes "mem_ok al" "written mb bs mb1" "\<And>x. x \<in> set xs \<Longrightarrow> ok x"
    "mb_pos mb + length bs + length (concat (map wire xs)) < 2 ^ 31"
  shows "\<exists>mb2. err_each (\<lambda>mb. enc al mb) xs (0, mb1) = (0, mb2) \<and> written mb (bs @ concat (map wire xs)) mb2"
proof -
  have "emits al mb bs (0, mb1)" using assms(2) by (simp add: emits_def)
  from emits_ok [OF enc_each_emits [OF this assms(3,4)] assms(1)] show ?thesis by (metis prod.collapse)
qed

end

end
