(* ===== verification/Wire.thy ===== *)
theory Wire
  imports Reader
begin

text \<open>
  What the wire formats of several protocols share: padding to a multiple of four bytes on both
  sides, headers that are written behind the body they describe, and lemmas on encoders with a
  working allocator.
\<close>

section \<open>Operations\<close>

text \<open>Padding bytes are written until the distance to \<open>start\<close> is a multiple of four.\<close>

partial_function (option) pad_loop :: "alloc \<Rightarrow> (mbuf \<Rightarrow> nat) \<Rightarrow> byte \<Rightarrow> nat \<Rightarrow> errno \<times> mbuf \<Rightarrow> (errno \<times> mbuf) option" where
  "pad_loop al at p start r =
     (if szsub (at (snd r)) start AND 3 = 0 then Some r
      else pad_loop al at p start (err_or r (\<lambda>mb. mbuf_write_u8 al mb p)))"

text \<open>\<^verbatim>\<open>while ((mb->pos - start) & 0x3 && mbuf_get_left(mb)) ++mb->pos;\<close>\<close>

function slurp :: "nat \<Rightarrow> mbuf \<Rightarrow> mbuf" where
  "slurp start mb =
     (if szsub (mb_pos mb) start AND 3 \<noteq> 0 \<and> mbuf_get_left mb \<noteq> 0
      then slurp start (mb\<lparr>mb_pos := Suc (mb_pos mb)\<rparr>) else mb)"
  by auto
termination by (relation "measure (\<lambda>(start, mb). mbuf_get_left mb)") (auto simp: mbuf_get_left_def split: if_splits)

declare slurp.simps [simp del]

definition dec_slurp :: "nat \<Rightarrow> unit dec" where
  "dec_slurp start = (\<lambda>mb. (Inr (), slurp start mb))"

text \<open>The next bytes, without moving the position.\<close>

definition dec_peek :: "nat \<Rightarrow> byte list dec" where
  "dec_peek n = (\<lambda>mb. (case mem_read (mb_buf mb) (mb_pos mb) n of None \<Rightarrow> Inl FAULT | Some bs \<Rightarrow> Inr bs, mb))"

section \<open>Safety\<close>

lemma slurp_adv: "readable mb \<Longrightarrow> \<exists>n \<le> length (mb_left mb). slurp start mb = mb_adv mb n"
proof (induction start mb rule: slurp.induct)
  case (1 start mb)
  show ?case
  proof (cases "szsub (mb_pos mb) start AND 3 \<noteq> 0 \<and> mbuf_get_left mb \<noteq> 0")
    case True
    then have l: "1 \<le> length (mb_left mb)" using 1(2) by (cases "mb_left mb") (simp_all add: mbuf_get_left_len [OF readable_wf])
    have mb: "mb\<lparr>mb_pos := Suc (mb_pos mb)\<rparr> = mb_adv mb 1" by (simp add: mb_adv_def)
    obtain n where "n \<le> length (mb_left mb) - 1" "slurp start (mb_adv mb 1) = mb_adv mb (1 + n)"
      using 1(1) [OF True] readable_adv [OF 1(2) l] unfolding mb by auto
    then show ?thesis using True l unfolding slurp.simps [of start mb] mb by (intro exI [of _ "1 + n"]) auto
  next
    case False
    then show ?thesis using mb_adv_ex_0 [of mb] unfolding slurp.simps [of start mb] by (simp only: if_False)
  qed
qed

lemma dec_safe_slurp [safe_intros]: "dec_safe (dec_slurp start)"
  by (rule dec_safeI) (simp_all add: dec_slurp_def slurp_adv)

lemma dec_safe_at_peek [safe_at_intros]:
  assumes "readable mb" "n \<le> length (mb_left mb)" "\<And>bs. dec_safe_at (f bs) mb"
  shows "dec_safe_at (dec_bind (dec_peek n) f) mb"
proof -
  have "mb_pos mb + n \<le> mb_end mb"
    using assms(1,2) by (auto simp: readable_def length_mb_left mbuf_get_left_def split: if_splits)
  then show ?thesis
    using mem_read_data [OF readable_wf [OF assms(1)]] assms
    by (intro dec_safe_at_exact [where k = 0]) (auto simp: dec_peek_def)
qed

lemma mbuf_read_mem_readable:
  assumes "readable mb"
  shows "mbuf_read_mem mb n = (if n \<le> length (mb_left mb) then (0, take n (mb_left mb), mb_adv mb n) else (EOVERFLOW, [], mb))"
proof (cases "n = 0")
  case True
  then show ?thesis using assms
    by (auto simp: mbuf_read_mem_def mem_read_def readable_def mbuf_wf_def mb_adv_def MEM_SIZE_MAX_def)
qed (use mbuf_read_mem_left [OF readable_wf [OF assms]] in simp)

lemma get_mem_length: "readable mb \<Longrightarrow> get_mem n mb = (Inr bs, mb1) \<Longrightarrow> length bs = n \<and> mb1 = mb_adv mb n \<and> n \<le> length (mb_left mb)"
  by (auto simp: get_mem_def mbuf_read_mem_readable split: if_splits)

lemma dec_bind_Inr:
  "dec_bind d f mb = (Inr y, mb2) \<longleftrightarrow> (\<exists>x mb1. d mb = (Inr x, mb1) \<and> f x mb1 = (Inr y, mb2))"
  by (auto simp: dec_bind_def split: prod.splits sum.splits)

lemma dec_need_Inr: "dec_need n e mb = (Inr x, mb1) \<longleftrightarrow> n \<le> mbuf_get_left mb \<and> mb1 = mb"
  by (auto simp: dec_need_def)

lemma dec_alloc_Inr: "dec_alloc al n mb = (Inr x, mb1) \<longleftrightarrow> mb1 = mb \<and> mem_alloc al n \<noteq> None"
  by (auto simp: dec_alloc_def split: option.splits)

lemma dec_pos_Inr: "dec_pos mb = (Inr x, mb1) \<longleftrightarrow> x = mb_pos mb \<and> mb1 = mb"
  by (auto simp: dec_pos_def)

lemma dec_slurp_Inr: "dec_slurp st mb = (Inr x, mb1) \<longleftrightarrow> mb1 = slurp st mb"
  by (auto simp: dec_slurp_def)

lemma dec_return_Inr: "dec_return y mb = (Inr x, mb1) \<longleftrightarrow> x = y \<and> mb1 = mb"
  by (auto simp: dec_return_def)

section \<open>Encoders with a working allocator\<close>

lemma emits_written:
  assumes "mem_ok al" "emits al mb bs r"
  obtains mb' where "r = (0, mb')" "written mb bs mb'"
  using emits_ok [OF assms(2,1)] by (metis prod.collapse that)

lemma emits_ex: "mem_ok al \<Longrightarrow> emits al mb bs r \<Longrightarrow> \<exists>mb'. r = (0, mb') \<and> written mb bs mb'"
  by (metis emits_written)

section \<open>Padding\<close>

definition padding :: "byte \<Rightarrow> nat \<Rightarrow> byte list" where
  "padding p n = replicate ((4 - n mod 4) mod 4) p"

lemma and_3_mod: "n AND 3 = n mod 4" for n :: nat
proof -
  have "n AND 3 = take_bit 2 n" by (simp add: take_bit_eq_mask mask_eq_exp_minus_1)
  then show ?thesis by (simp add: take_bit_eq_mod)
qed

lemma padding_step: "n mod 4 \<noteq> 0 \<Longrightarrow> padding p n = p # padding p (Suc n)" "n mod 4 = 0 \<Longrightarrow> padding p n = []"
proof -
  assume "n mod 4 \<noteq> 0"
  then have "n mod 4 = 1 \<or> n mod 4 = 2 \<or> n mod 4 = 3" by presburger
  then show "padding p n = p # padding p (Suc n)"
    by (elim disjE) (simp_all add: padding_def mod_Suc numeral_3_eq_3 numeral_2_eq_2)
qed (simp add: padding_def)

lemma length_padding: "(n + length (padding p n)) mod 4 = 0" "length (padding p n) < 4"
proof -
  have "n mod 4 = 0 \<or> n mod 4 = 1 \<or> n mod 4 = 2 \<or> n mod 4 = 3" by presburger
  moreover have "(n + length (padding p n)) mod 4 = (n mod 4 + length (padding p n)) mod 4" by (simp add: mod_add_left_eq)
  ultimately show "(n + length (padding p n)) mod 4 = 0" unfolding padding_def length_replicate by (elim disjE) simp_all
  show "length (padding p n) < 4" by (simp add: padding_def)
qed

lemma padding_words: "(n + length (padding p n)) div 4 = (n + 3) div 4" "4 * ((n + length (padding p n)) div 4) = n + length (padding p n)"
  using length_padding [where n = n and p = p] by auto

text \<open>With a working allocator the padding loop ends at the next multiple of four.\<close>

lemma pad_distance:
  assumes "start mod 4 = pos mod 4" "start \<le> pos + n" "pos + n < 2 ^ 64"
  shows "szsub (pos + n) start mod 4 = n mod (4 :: nat)"
proof -
  have "(pos + n - start) mod 4 = n mod 4"
  proof (cases "start \<le> pos")
    case True
    then obtain k where "pos - start = 4 * k" using assms(1) mod_eq_dvd_iff_nat [of start pos 4] by (auto elim: dvdE)
    then have "pos + n - start = n + 4 * k" using True by simp
    then show ?thesis by simp
  next
    case False
    then obtain k where "start - pos = 4 * k" using assms(1) mod_eq_dvd_iff_nat [of pos start 4] by (auto elim: dvdE)
    then have "n = (pos + n - start) + 4 * k" using False assms(2) by simp
    then show ?thesis by (metis mod_mult_self2)
  qed
  then show ?thesis using assms(2,3) by simp
qed

lemma padding_add4: "padding p (4 + n) = padding p n"
  by (simp add: padding_def)

lemma pad_loop_written:
  assumes "mem_ok al" "written mb bs mb1" "start mod 4 = mb_pos mb mod 4" "start \<le> mb_pos mb + length bs"
    and at: "\<And>bs' mb'. written mb bs' mb' \<Longrightarrow> at mb' = mb_pos mb'"
    and "mb_pos mb + length bs + length (padding p (length bs)) < 2 ^ 31"
  shows "\<exists>mb2. pad_loop al at p start (0, mb1) = Some (0, mb2) \<and> written mb (bs @ padding p (length bs)) mb2"
  using assms(2,4,6)
proof (induction "length (padding p (length bs))" arbitrary: bs mb1)
  case 0
  have "length bs mod 4 = 0" using 0(1) padding_step(1) [of "length bs"] by (cases "length bs mod 4 = 0") auto
  then have "szsub (at mb1) start AND 3 = 0" using pad_distance [OF assms(3) 0(3)] 0(4) at [OF 0(2)] written_pos [OF 0(2)] by (simp add: and_3_mod)
  then show ?case using 0 by (subst pad_loop.simps) simp
next
  case (Suc k)
  have m: "length bs mod 4 \<noteq> 0" using Suc(2) padding_step(2) [of "length bs"] by (metis list.size(3) nat.distinct(1))
  then have a: "szsub (at mb1) start AND 3 \<noteq> 0"
    using pad_distance [OF assms(3) Suc(4)] Suc(5) at [OF Suc(3)] written_pos [OF Suc(3)] by (simp add: and_3_mod)
  have "emits al mb1 [p] (mbuf_write_u8 al mb1 p)"
    using Suc(2-5) written_pos [OF Suc(3)] by (intro mbuf_write_uN_emits) (auto dest: written_wf)
  then obtain mb2 where w: "mbuf_write_u8 al mb1 p = (0, mb2)" "written mb1 [p] mb2"
    using emits_ok [OF _ assms(1)] by (metis prod.collapse)
  have w2: "written mb (bs @ [p]) mb2" using written_trans [OF Suc(3) w(2)] .
  have p: "padding p (length bs) = p # padding p (length (bs @ [p]))" using padding_step(1) [OF m] by simp
  then have "k = length (padding p (length (bs @ [p])))" using Suc(2) by simp
  from Suc(1) [OF this w2] Suc(4,5) p a w(1) show ?case
    by (subst pad_loop.simps) (auto simp: err_or_def)
qed

text \<open>The bytes of padding are what the decoder skips.\<close>

lemma adv_pos_sub:
  assumes "readable mb" "mb_left mb = bs @ rest"
  shows "szsub (mb_pos (mb_adv mb (length bs))) (mb_pos mb) = length bs"
proof -
  have "length bs \<le> length (mb_left mb)" using assms(2) by simp
  then have "mb_pos mb + length bs \<le> mb_end mb" "mb_end mb < 2 ^ 64"
    using assms(1) by (auto simp: readable_def length_mb_left mbuf_get_left_def mbuf_wf_def MEM_SIZE_MAX_def split: if_splits)
  then show ?thesis by (simp add: mb_adv_def)
qed

lemma slurp_padding:
  "readable mb \<Longrightarrow> mb_left mb = bs @ padding p (length bs) @ rest \<Longrightarrow>
   slurp (mb_pos mb) (mb_adv mb (length bs)) = mb_adv mb (length bs + length (padding p (length bs)))"
proof (induction "length (padding p (length bs))" arbitrary: bs)
  case 0
  have "length bs mod 4 = 0" using 0(1) padding_step(1) [of "length bs"] by (cases "length bs mod 4 = 0") auto
  then have "szsub (mb_pos (mb_adv mb (length bs))) (mb_pos mb) AND 3 = 0"
    using adv_pos_sub [OF 0(2,3)] by (simp add: and_3_mod)
  then show ?case using 0(1) by (subst slurp.simps) simp
next
  case (Suc k)
  have m: "length bs mod 4 \<noteq> 0" using Suc(2) padding_step(2) [of "length bs"] by (metis list.size(3) nat.distinct(1))
  have p: "padding p (length bs) = p # padding p (length (bs @ [p]))" using padding_step(1) [OF m] by simp
  then have l: "mb_left mb = (bs @ [p]) @ padding p (length (bs @ [p])) @ rest" using Suc(4) by simp
  have "szsub (mb_pos (mb_adv mb (length bs))) (mb_pos mb) AND 3 \<noteq> 0" using m adv_pos_sub [OF Suc(3,4)] by (simp add: and_3_mod)
  moreover have "mbuf_get_left (mb_adv mb (length bs)) \<noteq> 0"
    using readable_adv [OF Suc(3), of "length bs"] l mbuf_get_left_len [OF readable_wf [OF Suc(3)]] by simp
  ultimately show ?case using Suc(1) [OF _ Suc(3) l] Suc(2) p
    by (subst slurp.simps) (simp add: mb_adv_def)
qed

lemma decodes_then_return: "decodes d bs x \<Longrightarrow> decodes (dec_bind d (\<lambda>x. dec_return (f x))) bs (f x)"
  using decodes_bind [OF _ decodes_return, of d bs x f] by simp

text \<open>A loop whose writes fail comes back to the state it started from.\<close>

lemma pad_loop_stuck:
  "pad_loop al at p start r = Some r' \<Longrightarrow> mbuf_write_u8 al (snd r) p = (ENOMEM, snd r) \<Longrightarrow> szsub (at (snd r)) start AND 3 = 0"
  apply (induction rule: pad_loop.raw_induct [rotated, consumes 1])
  subgoal premises p for pl al' at' p' start' r1 r2
    using p(1) [of al' at' p' start' "err_or r1 (\<lambda>mb. mbuf_write_u8 al' mb p')" r2] p(2,3)
    by (auto simp: err_or_def split: prod.splits if_splits)
  done

section \<open>Headers behind the body\<close>

text \<open>
  An encoder skips \<open>k\<close> bytes, writes the body, and goes back for the header; together this is one
  write of both.
\<close>

lemma written_header:
  assumes "written (mb\<lparr>mb_pos := mb_pos mb + length h\<rparr>) bs mb1" "written (mb1\<lparr>mb_pos := mb_pos mb\<rparr>) h mb2"
  shows "written mb (h @ bs) (mb2\<lparr>mb_pos := mb_pos mb + length h + length bs\<rparr>)"
proof -
  note a = assms(1) [unfolded written_iff_nth] and b = assms(2) [unfolded written_iff_nth]
  have "mb_buf mb2 ! (mb_pos mb + i) = (h @ bs) ! i" if i: "i < length (h @ bs)" for i
  proof (cases "i < length h")
    case True
    then show ?thesis using b by (simp add: nth_append)
  next
    case False
    then obtain j where j: "i = length h + j" "j < length bs" using i by (metis add_diff_inverse_nat length_append nat_add_left_cancel_less)
    have "mb_pos mb + i < mb_size mb1" using a j by (auto simp: mbuf_wf_def)
    then have "mb_buf mb2 ! (mb_pos mb + i) = mb_buf mb1 ! (mb_pos mb + i)" using b False by simp
    moreover have "mb_buf mb1 ! (mb_pos mb + length h + j) = bs ! j" using a j(2) by simp
    ultimately show ?thesis using j by (simp add: nth_append add.assoc)
  qed
  moreover have "mb_buf mb2 ! i = mb_buf mb ! i" if "i < mb_size mb" "i < mb_pos mb \<or> mb_pos mb + length (h @ bs) \<le> i" for i
    using a b that by auto
  ultimately show ?thesis using a b by (auto simp: written_iff_nth mbuf_wf_def)
qed

text \<open>Without a body only the header is written.\<close>

lemma written_header_only:
  assumes "written ((mb\<lparr>mb_pos := p\<rparr>)\<lparr>mb_pos := mb_pos mb\<rparr>) h mb2"
  shows "written mb h mb2"
  using assms by (simp add: written_def)

end
