(* ===== verification/Rtcp.thy ===== *)
theory Rtcp
  imports Wire
begin

text \<open>
  RTCP packets: reception reports (\<^verbatim>\<open>src/rtp/rr.c\<close>), source descriptions (\<^verbatim>\<open>src/rtp/sdes.c\<close>), feedback
  (\<^verbatim>\<open>src/rtp/fb.c\<close>) and the packet encoder and decoder (\<^verbatim>\<open>src/rtp/pkt.c\<close>).  The variable arguments of
  the encoder are a datatype with one constructor per packet type; an encode handler is a function
  on the buffer.  The padding loops of the encoders repeat until the buffer is aligned, so an encoder
  may not return: its result is then \<open>None\<close>.
\<close>

section \<open>Data\<close>

text \<open>The cumulative loss is a signed bit-field of 24 bits.\<close>

record rtcp_rr =
  rr_ssrc :: "32 word"
  rr_fraction :: byte
  rr_lost :: "24 word"
  rr_last_seq :: "32 word"
  rr_jitter :: "32 word"
  rr_lsr :: "32 word"
  rr_dlsr :: "32 word"

record rtcp_sdes_item =
  it_type :: byte
  it_data :: "byte list"

record rtcp_sdes =
  sdes_src :: "32 word"
  sdes_items :: "rtcp_sdes_item list"

record rtcp_hdr =
  rh_version :: byte
  rh_p :: bool
  rh_count :: byte
  rh_pt :: byte
  rh_length :: "16 word"

text \<open>The status chunks as numbers and the receive deltas as bytes; both are views of the packet in C.\<close>

record twcc =
  tw_seq :: "16 word"
  tw_count :: "16 word"
  tw_reftime :: "32 word"
  tw_fbcount :: byte
  tw_chunks :: "16 word list"
  tw_deltas :: "byte list"

record sli =
  sli_first :: "16 word"
  sli_number :: "16 word"
  sli_picid :: byte

datatype fci =
    Gnacks "(16 word \<times> 16 word) list"
  | Slis "sli list"
  | Firs "(32 word \<times> byte) list"
  | Twcc twcc
  | Afb "byte list"
  | No_fci

record sr_info =
  sr_ssrc :: "32 word"
  sr_ntp_sec :: "32 word"
  sr_ntp_frac :: "32 word"
  sr_rtp_ts :: "32 word"
  sr_psent :: "32 word"
  sr_osent :: "32 word"

datatype rtcp_body =
    Msg_SR sr_info "rtcp_rr list"
  | Msg_RR "32 word" "rtcp_rr list"
  | Msg_SDES "rtcp_sdes list"
  | Msg_BYE "32 word list" "byte list option"
  | Msg_APP "32 word" "byte list" "byte list option"
  | Msg_FIR "32 word"
  | Msg_NACK "32 word" "16 word" "16 word"
  | Msg_FB "32 word" "32 word" fci
  | Msg_unknown

record rtcp_msg =
  msg_hdr :: rtcp_hdr
  msg_r :: rtcp_body

abbreviation RTCP_FIR :: byte where "RTCP_FIR \<equiv> 192"
abbreviation RTCP_NACK :: byte where "RTCP_NACK \<equiv> 193"
abbreviation RTCP_SR :: byte where "RTCP_SR \<equiv> 200"
abbreviation RTCP_RR :: byte where "RTCP_RR \<equiv> 201"
abbreviation RTCP_SDES :: byte where "RTCP_SDES \<equiv> 202"
abbreviation RTCP_BYE :: byte where "RTCP_BYE \<equiv> 203"
abbreviation RTCP_APP :: byte where "RTCP_APP \<equiv> 204"
abbreviation RTCP_RTPFB :: byte where "RTCP_RTPFB \<equiv> 205"
abbreviation RTCP_PSFB :: byte where "RTCP_PSFB \<equiv> 206"

section \<open>Reception reports\<close>

definition rr_word :: "rtcp_rr \<Rightarrow> 32 word" where
  "rr_word rr = push_bit 24 (ucast (rr_fraction rr)) OR (scast (rr_lost rr) AND 0x00ffffff)"

definition rtcp_rr_encode :: "alloc \<Rightarrow> mbuf \<Rightarrow> rtcp_rr \<Rightarrow> errno \<times> mbuf" where
  "rtcp_rr_encode al mb rr =
     err_or (err_or (err_or (err_or (err_or
       (mbuf_write_u32 al mb (htonl (rr_ssrc rr)))
       (\<lambda>mb. mbuf_write_u32 al mb (htonl (rr_word rr))))
       (\<lambda>mb. mbuf_write_u32 al mb (htonl (rr_last_seq rr))))
       (\<lambda>mb. mbuf_write_u32 al mb (htonl (rr_jitter rr))))
       (\<lambda>mb. mbuf_write_u32 al mb (htonl (rr_lsr rr))))
       (\<lambda>mb. mbuf_write_u32 al mb (htonl (rr_dlsr rr)))"

definition rtcp_rr_decode :: "rtcp_rr dec" where
  "rtcp_rr_decode =
     dec_bind (dec_need 24 EBADMSG) (\<lambda>_.
     dec_bind get_be32 (\<lambda>ssrc.
     dec_bind get_be32 (\<lambda>w.
     dec_bind get_be32 (\<lambda>last_seq.
     dec_bind get_be32 (\<lambda>jitter.
     dec_bind get_be32 (\<lambda>lsr.
     dec_bind get_be32 (\<lambda>dlsr.
     dec_return \<lparr>rr_ssrc = ssrc, rr_fraction = ucast (drop_bit 24 w),
       rr_lost = ucast (w AND 0x00ffffff), rr_last_seq = last_seq, rr_jitter = jitter,
       rr_lsr = lsr, rr_dlsr = dlsr\<rparr>)))))))"

section \<open>Source descriptions\<close>

text \<open>An item without a value is skipped; the first failing item ends the loop.\<close>

fun rtcp_sdes_items :: "alloc \<Rightarrow> (byte \<times> byte list option) list \<Rightarrow> errno \<times> mbuf \<Rightarrow> (errno \<times> mbuf) + (errno \<times> mbuf)" where
  "rtcp_sdes_items al [] r = Inr r"
| "rtcp_sdes_items al ((ty, v) # items) r =
     (if fst r \<noteq> 0 then Inr r
      else case v of
        None \<Rightarrow> rtcp_sdes_items al items r
      | Some text \<Rightarrow>
          if 255 < length text then Inl (EINVAL, snd r)
          else rtcp_sdes_items al items
                 (err_or (err_or (mbuf_write_u8 al (snd r) ty)
                    (\<lambda>mb. mbuf_write_u8 al mb (of_nat (length text))))
                    (\<lambda>mb. mbuf_write_mem al mb text)))"

definition rtcp_sdes_encode ::
  "alloc \<Rightarrow> mbuf \<Rightarrow> 32 word \<Rightarrow> (byte \<times> byte list option) list \<Rightarrow> (errno \<times> mbuf) option" where
  "rtcp_sdes_encode al mb src items =
     (if items = [] then Some (EINVAL, mb)
      else case rtcp_sdes_items al items (mbuf_write_u32 al mb (htonl src)) of
        Inl r \<Rightarrow> Some r
      | Inr r \<Rightarrow> pad_loop al mb_pos 0 (mb_pos mb) (err_or r (\<lambda>mb. mbuf_write_u8 al mb 0)))"

text \<open>
  The items of a chunk.  Every item takes two bytes at least, so the number of bytes left bounds
  the number of rounds.
\<close>

fun rtcp_sdes_decode_items :: "alloc \<Rightarrow> nat \<Rightarrow> nat \<Rightarrow> rtcp_sdes_item list dec" where
  "rtcp_sdes_decode_items al n 0 = dec_fail FAULT"
| "rtcp_sdes_decode_items al n (Suc fuel) =
     dec_bind dec_left (\<lambda>left. if left < 1 then dec_return [] else
     dec_bind get_u8 (\<lambda>ty. if ty = 0 then dec_return [] else
     dec_bind (dec_need 1 EBADMSG) (\<lambda>_.
     dec_bind (dec_alloc al (16 * Suc n)) (\<lambda>_.
     dec_bind get_u8 (\<lambda>len.
     dec_bind (dec_need (unat len) EBADMSG) (\<lambda>_.
     dec_bind (dec_alloc al (unat len)) (\<lambda>_.
     dec_bind (get_mem (unat len)) (\<lambda>text.
     dec_bind (rtcp_sdes_decode_items al (Suc n) fuel) (\<lambda>items.
     dec_return (\<lparr>it_type = ty, it_data = text\<rparr> # items))))))))))"

definition rtcp_sdes_decode :: "alloc \<Rightarrow> rtcp_sdes dec" where
  "rtcp_sdes_decode al =
     dec_bind (dec_need 4 EBADMSG) (\<lambda>_.
     dec_bind dec_pos (\<lambda>start.
     dec_bind get_be32 (\<lambda>src.
     dec_bind dec_left (\<lambda>left.
     dec_bind (rtcp_sdes_decode_items al 0 (Suc left)) (\<lambda>items.
     dec_bind (dec_slurp start) (\<lambda>_.
     dec_return \<lparr>sdes_src = src, sdes_items = items\<rparr>))))))"

section \<open>Feedback\<close>

definition rtcp_rtpfb_gnack_encode :: "alloc \<Rightarrow> mbuf \<Rightarrow> 16 word \<Rightarrow> 16 word \<Rightarrow> errno \<times> mbuf" where
  "rtcp_rtpfb_gnack_encode al mb pid blp =
     err_or (mbuf_write_u16 al mb (htons pid)) (\<lambda>mb. mbuf_write_u16 al mb (htons blp))"

definition sli_word :: "16 word \<Rightarrow> 16 word \<Rightarrow> byte \<Rightarrow> 32 word" where
  "sli_word first number picid = push_bit 19 (ucast first) OR push_bit 6 (ucast number) OR ucast picid"

definition rtcp_psfb_sli_encode :: "alloc \<Rightarrow> mbuf \<Rightarrow> 16 word \<Rightarrow> 16 word \<Rightarrow> byte \<Rightarrow> errno \<times> mbuf" where
  "rtcp_psfb_sli_encode al mb first number picid = mbuf_write_u32 al mb (htonl (sli_word first number picid))"

text \<open>The encode handler of \<^verbatim>\<open>rtcp_send_fir_rfc5104\<close> (\<^verbatim>\<open>src/rtp/rtcp.c\<close>).\<close>

definition encode_fir_rfc5104_fci :: "alloc \<Rightarrow> mbuf \<Rightarrow> 32 word \<Rightarrow> byte \<Rightarrow> errno \<times> mbuf" where
  "encode_fir_rfc5104_fci al mb ssrc seq_n =
     err_or (err_or (err_or (err_or (mbuf_write_u32 al mb (htonl ssrc))
       (\<lambda>mb. mbuf_write_u8 al mb seq_n))
       (\<lambda>mb. mbuf_write_u8 al mb 0))
       (\<lambda>mb. mbuf_write_u8 al mb 0))
       (\<lambda>mb. mbuf_write_u8 al mb 0)"

text \<open>The number of statuses that a chunk holds, and the size of their receive deltas, for \<open>i\<close> open statuses.\<close>

definition twcc_chunk :: "16 word \<Rightarrow> nat \<Rightarrow> nat \<times> nat" where
  "twcc_chunk chunk i =
     (if chunk AND 0x8000 \<noteq> 0 then
        if chunk AND 0x4000 \<noteq> 0 then
          (min i 7, sum_list (map (\<lambda>j. unat (drop_bit (2 * (6 - j)) chunk AND 3)) [0..<min i 7]))
        else
          (min i 14, sum_list (map (\<lambda>j. unat (drop_bit (13 - j) chunk AND 1)) [0..<min i 14]))
      else
        let run = unat (chunk AND 0x1fff)
        in (min i run, min i run * unat (drop_bit 13 chunk AND 3)))"

fun twcc_chunks :: "nat \<Rightarrow> nat \<Rightarrow> nat \<Rightarrow> (16 word list \<times> nat) dec" where
  "twcc_chunks 0 i sz = dec_fail FAULT"
| "twcc_chunks (Suc fuel) i sz =
     (if i = 0 then dec_return ([], sz)
      else
        dec_bind (dec_need 2 EBADMSG) (\<lambda>_.
        dec_bind get_be16 (\<lambda>chunk.
        dec_bind (twcc_chunks fuel (i - fst (twcc_chunk chunk i)) (sz + snd (twcc_chunk chunk i))) (\<lambda>(chunks, sz').
        dec_return (chunk # chunks, sz')))))"

text \<open>The bytes at the position, as a view of the buffer gives them.\<close>

definition rtcp_rtpfb_twcc_decode :: "alloc \<Rightarrow> nat \<Rightarrow> twcc dec" where
  "rtcp_rtpfb_twcc_decode al n =
     dec_bind (dec_need 8 EBADMSG) (\<lambda>_.
     dec_bind get_be16 (\<lambda>seq.
     dec_bind get_be16 (\<lambda>count.
     if count = 0 \<or> 32768 < count then dec_fail EBADMSG else
     dec_bind get_be32 (\<lambda>w.
     dec_bind (dec_alloc al 64) (\<lambda>_.
     dec_bind dec_left (\<lambda>left.
     dec_bind (twcc_chunks (Suc left) (unat count) 0) (\<lambda>(chunks, sz).
     dec_bind (dec_need sz EBADMSG) (\<lambda>_.
     dec_bind (dec_alloc al 64) (\<lambda>_.
     dec_bind (dec_peek sz) (\<lambda>deltas.
     let rest = szsub (szsub (4 * n) 8) (2 * length chunks) in
     dec_bind (dec_need rest EBADMSG) (\<lambda>_.
     dec_bind (dec_advance rest) (\<lambda>_.
     dec_return \<lparr>tw_seq = seq, tw_count = count, tw_reftime = drop_bit 8 w, tw_fbcount = ucast (w AND 0xff),
       tw_chunks = chunks, tw_deltas = deltas\<rparr>))))))))))))"

definition get_gnack :: "(16 word \<times> 16 word) dec" where
  "get_gnack = dec_bind get_be16 (\<lambda>pid. dec_bind get_be16 (\<lambda>blp. dec_return (pid, blp)))"

definition get_sli :: "sli dec" where
  "get_sli = dec_bind get_be32 (\<lambda>v.
     dec_return \<lparr>sli_first = ucast (drop_bit 19 v AND 0x1fff), sli_number = ucast (drop_bit 6 v AND 0x1fff),
       sli_picid = ucast (v AND 0x3f)\<rparr>)"

definition get_fir :: "(32 word \<times> byte) dec" where
  "get_fir = dec_bind get_be32 (\<lambda>ssrc. dec_bind get_u8 (\<lambda>seq_n.
     dec_bind (dec_advance 3) (\<lambda>_. dec_return (ssrc, seq_n))))"

definition rtcp_rtpfb_decode :: "alloc \<Rightarrow> byte \<Rightarrow> nat \<Rightarrow> fci dec" where
  "rtcp_rtpfb_decode al count n =
     (if count = 1 then
        dec_bind (dec_alloc al (4 * n)) (\<lambda>_.
        dec_bind (dec_need (4 * n) EBADMSG) (\<lambda>_.
        dec_bind (dec_many n get_gnack) (\<lambda>v. dec_return (Gnacks v))))
      else if count = 15 then
        dec_bind (dec_need 8 EBADMSG) (\<lambda>_.
        dec_bind (dec_alloc al 32) (\<lambda>_.
        dec_bind (rtcp_rtpfb_twcc_decode al n) (\<lambda>t. dec_return (Twcc t))))
      else dec_return No_fci)"

definition rtcp_psfb_decode :: "alloc \<Rightarrow> byte \<Rightarrow> nat \<Rightarrow> fci dec" where
  "rtcp_psfb_decode al count n =
     (if count = 1 then dec_return No_fci
      else if count = 2 then
        dec_bind (dec_alloc al (6 * n)) (\<lambda>_.
        dec_bind (dec_need (4 * n) EBADMSG) (\<lambda>_.
        dec_bind (dec_many n get_sli) (\<lambda>v. dec_return (Slis v))))
      else if count = 15 then
        dec_bind (dec_need (4 * n) EBADMSG) (\<lambda>_.
        dec_bind (dec_alloc al 64) (\<lambda>_.
        dec_bind (get_mem (4 * n)) (\<lambda>bs. dec_return (Afb bs))))
      else if count = 4 then
        dec_bind (dec_alloc al (8 * (n div 2))) (\<lambda>_.
        dec_bind (dec_need (8 * (n div 2)) EBADMSG) (\<lambda>_.
        dec_bind (dec_many (n div 2) get_fir) (\<lambda>v. dec_return (Firs v))))
      else dec_return No_fci)"

section \<open>Packets\<close>

definition rtcp_hdr_encode :: "alloc \<Rightarrow> mbuf \<Rightarrow> byte \<Rightarrow> byte \<Rightarrow> 16 word \<Rightarrow> errno \<times> mbuf" where
  "rtcp_hdr_encode al mb count ty len =
     err_or (err_or (mbuf_write_u8 al mb (push_bit 6 2 OR count))
       (\<lambda>mb. mbuf_write_u8 al mb ty))
       (\<lambda>mb. mbuf_write_u16 al mb (htons len))"

definition rtcp_hdr_decode :: "rtcp_hdr dec" where
  "rtcp_hdr_decode =
     dec_bind (dec_need 4 EBADMSG) (\<lambda>_.
     dec_bind get_u8 (\<lambda>b.
     dec_bind get_u8 (\<lambda>pt.
     dec_bind get_be16 (\<lambda>len.
     dec_return \<lparr>rh_version = drop_bit 6 b AND 3, rh_p = (drop_bit 5 b AND 1 \<noteq> 0),
       rh_count = b AND 0x1f, rh_pt = pt, rh_length = len\<rparr>))))"

text \<open>The arguments after the count, for each packet type.\<close>

type_synonym ench = "mbuf \<Rightarrow> (errno \<times> mbuf) option"

datatype rtcp_args =
    Enc_SR sr_info "ench option"
  | Enc_RR "32 word" "ench option"
  | Enc_SDES "ench option"
  | Enc_BYE "32 word list" "byte list option"
  | Enc_APP "32 word" "byte list" "byte list option"
  | Enc_FIR "32 word"
  | Enc_NACK "32 word" "16 word" "16 word"
  | Enc_RTPFB "32 word" "32 word" "ench option"
  | Enc_PSFB "32 word" "32 word" "ench option"
  | Enc_other byte

fun args_type :: "rtcp_args \<Rightarrow> byte" where
  "args_type (Enc_SR _ _) = RTCP_SR"
| "args_type (Enc_RR _ _) = RTCP_RR"
| "args_type (Enc_SDES _) = RTCP_SDES"
| "args_type (Enc_BYE _ _) = RTCP_BYE"
| "args_type (Enc_APP _ _ _) = RTCP_APP"
| "args_type (Enc_FIR _) = RTCP_FIR"
| "args_type (Enc_NACK _ _ _) = RTCP_NACK"
| "args_type (Enc_RTPFB _ _ _) = RTCP_RTPFB"
| "args_type (Enc_PSFB _ _ _) = RTCP_PSFB"
| "args_type (Enc_other ty) = ty"

text \<open>\<^verbatim>\<open>if (ench) err |= ench(mb, arg);\<close>\<close>

definition run_ench :: "ench option \<Rightarrow> errno \<times> mbuf \<Rightarrow> (errno \<times> mbuf) option" where
  "run_ench ench r =
     (case ench of None \<Rightarrow> Some r
      | Some h \<Rightarrow> map_option (\<lambda>(e, mb). (fst r OR e, mb)) (h (snd r)))"

fun rtcp_bye_srcs :: "alloc \<Rightarrow> 32 word list \<Rightarrow> errno \<times> mbuf \<Rightarrow> errno \<times> mbuf" where
  "rtcp_bye_srcs al [] r = r"
| "rtcp_bye_srcs al (s # srcs) r =
     (if fst r \<noteq> 0 then r else rtcp_bye_srcs al srcs (mbuf_write_u32 al (snd r) (htonl s)))"

text \<open>The body of a packet: the error and buffer after it, or an early return.\<close>

fun rtcp_vencode_body :: "alloc \<Rightarrow> mbuf \<Rightarrow> nat \<Rightarrow> rtcp_args \<Rightarrow> ((errno \<times> mbuf) + (errno \<times> mbuf)) option" where
  "rtcp_vencode_body al mb count (Enc_SR i h) =
     map_option Inr (run_ench h
       (err_each (\<lambda>mb v. mbuf_write_u32 al mb (htonl v))
          [sr_ssrc i, sr_ntp_sec i, sr_ntp_frac i, sr_rtp_ts i, sr_psent i, sr_osent i] (0, mb)))"
| "rtcp_vencode_body al mb count (Enc_RR ssrc h) =
     map_option Inr (run_ench h (mbuf_write_u32 al mb (htonl ssrc)))"
| "rtcp_vencode_body al mb count (Enc_SDES h) = map_option Inr (run_ench h (0, mb))"
| "rtcp_vencode_body al mb count (Enc_BYE srcs reason) =
     (if length srcs < count then Some (Inl (FAULT, mb))
      else
        let r = rtcp_bye_srcs al (take count srcs) (0, mb)
        in Some (Inr (case reason of
             None \<Rightarrow> r
           | Some text \<Rightarrow> err_or (err_or r (\<lambda>mb. mbuf_write_u8 al mb (of_nat (length text))))
                            (\<lambda>mb. mbuf_write_str al mb (Some text)))))"
| "rtcp_vencode_body al mb count (Enc_APP src name data) =
     (if length name < 4 then Some (Inl (FAULT, mb))
      else
        let r = err_or (mbuf_write_u32 al mb (htonl src)) (\<lambda>mb. mbuf_write_mem al mb (take 4 name))
        in case data of
             None \<Rightarrow> Some (Inr r)
           | Some bs \<Rightarrow>
               if length bs mod 4 \<noteq> 0 then Some (Inl (EBADMSG, snd r))
               else Some (Inr (err_or r (\<lambda>mb. mbuf_write_mem al mb bs))))"
| "rtcp_vencode_body al mb count (Enc_FIR ssrc) = Some (Inr (mbuf_write_u32 al mb (htonl ssrc)))"
| "rtcp_vencode_body al mb count (Enc_NACK ssrc fsn blp) =
     Some (Inr (err_or (err_or (mbuf_write_u32 al mb (htonl ssrc))
       (\<lambda>mb. mbuf_write_u16 al mb (htons fsn))) (\<lambda>mb. mbuf_write_u16 al mb (htons blp))))"
| "rtcp_vencode_body al mb count (Enc_RTPFB s m h) =
     map_option Inr (run_ench h (err_or (mbuf_write_u32 al mb (htonl s)) (\<lambda>mb. mbuf_write_u32 al mb (htonl m))))"
| "rtcp_vencode_body al mb count (Enc_PSFB s m h) =
     map_option Inr (run_ench h (err_or (mbuf_write_u32 al mb (htonl s)) (\<lambda>mb. mbuf_write_u32 al mb (htonl m))))"
| "rtcp_vencode_body al mb count (Enc_other ty) = Some (Inl (EINVAL, mb))"

definition rtcp_vencode :: "alloc \<Rightarrow> mbuf \<Rightarrow> 32 word \<Rightarrow> rtcp_args \<Rightarrow> (errno \<times> mbuf) option" where
  "rtcp_vencode al mb count args =
     (let pos = mb_pos mb;
          mb0 = mb\<lparr>mb_pos := szadd pos 4, mb_end := szadd pos 4\<rparr>
      in Option.bind (rtcp_vencode_body al mb0 (unat count) args) (\<lambda>b.
         case b of
           Inl r \<Rightarrow> Some r
         | Inr r \<Rightarrow>
             if fst r \<noteq> 0 then Some r
             else Option.bind (pad_loop al mb_end 0 pos r) (\<lambda>r2.
               if fst r2 \<noteq> 0 then Some r2
               else
                 let mb2 = snd r2;
                     len = of_nat (szsub (szsub (mb_end mb2) pos) 4 div 4);
                     r3 = rtcp_hdr_encode al (mb2\<lparr>mb_pos := pos\<rparr>) (ucast count) (args_type args) len
                 in if fst r3 \<noteq> 0 then Some r3
                    else Some (0, (snd r3)\<lparr>mb_pos := mb_end (snd r3)\<rparr>))))"

definition rtcp_encode :: "alloc \<Rightarrow> mbuf \<Rightarrow> 32 word \<Rightarrow> rtcp_args \<Rightarrow> (errno \<times> mbuf) option" where
  "rtcp_encode al mb count args = rtcp_vencode al mb count args"

definition rtcp_decode_bye :: "alloc \<Rightarrow> nat \<Rightarrow> nat \<Rightarrow> rtcp_body dec" where
  "rtcp_decode_bye al count rem =
     dec_bind (dec_alloc al (4 * count)) (\<lambda>_.
     dec_bind (dec_need (4 * count) EBADMSG) (\<lambda>_.
     dec_bind (dec_many count get_be32) (\<lambda>srcs.
     if rem > 4 * count then
       dec_bind get_u8 (\<lambda>len.
       dec_bind (dec_need (unat len) EBADMSG) (\<lambda>_.
       dec_bind (dec_alloc al (unat len + 1)) (\<lambda>_.
       dec_bind (get_mem (unat len)) (\<lambda>text. dec_return (Msg_BYE srcs (Some text))))))
     else dec_return (Msg_BYE srcs None))))"

definition rtcp_decode_app :: "alloc \<Rightarrow> nat \<Rightarrow> rtcp_body dec" where
  "rtcp_decode_app al rem =
     dec_bind (dec_need 8 EBADMSG) (\<lambda>_.
     dec_bind get_be32 (\<lambda>src.
     dec_bind (get_mem 4) (\<lambda>name.
     if rem > 8 then
       dec_bind (dec_alloc al (rem - 8)) (\<lambda>_.
       dec_bind (dec_need (rem - 8) EBADMSG) (\<lambda>_.
       dec_bind (get_mem (rem - 8)) (\<lambda>data. dec_return (Msg_APP src name (Some data)))))
     else dec_return (Msg_APP src name None))))"

definition rtcp_decode_sr :: "alloc \<Rightarrow> nat \<Rightarrow> rtcp_body dec" where
  "rtcp_decode_sr al count =
     dec_bind (dec_need 24 EBADMSG) (\<lambda>_.
     dec_bind get_be32 (\<lambda>ssrc.
     dec_bind get_be32 (\<lambda>ntp_sec.
     dec_bind get_be32 (\<lambda>ntp_frac.
     dec_bind get_be32 (\<lambda>rtp_ts.
     dec_bind get_be32 (\<lambda>psent.
     dec_bind get_be32 (\<lambda>osent.
     dec_bind (dec_alloc al (24 * count)) (\<lambda>_.
     dec_bind (dec_many count rtcp_rr_decode) (\<lambda>rrv.
     dec_return (Msg_SR \<lparr>sr_ssrc = ssrc, sr_ntp_sec = ntp_sec, sr_ntp_frac = ntp_frac, sr_rtp_ts = rtp_ts,
       sr_psent = psent, sr_osent = osent\<rparr> rrv))))))))))"

definition rtcp_decode_fb :: "alloc \<Rightarrow> (alloc \<Rightarrow> byte \<Rightarrow> nat \<Rightarrow> fci dec) \<Rightarrow> rtcp_hdr \<Rightarrow> rtcp_body dec" where
  "rtcp_decode_fb al fb_decode hdr =
     dec_bind (dec_need 8 EBADMSG) (\<lambda>_.
     if rh_length hdr < 2 then dec_fail EBADMSG else
     dec_bind get_be32 (\<lambda>ssrc_packet.
     dec_bind get_be32 (\<lambda>ssrc_media.
     dec_bind (fb_decode al (rh_count hdr) (unat (rh_length hdr) - 2)) (\<lambda>fci.
     dec_return (Msg_FB ssrc_packet ssrc_media fci)))))"

definition rtcp_decode_body :: "alloc \<Rightarrow> rtcp_hdr \<Rightarrow> rtcp_body dec" where
  "rtcp_decode_body al hdr =
     (let count = unat (rh_count hdr); rem = unat (rh_length hdr) * 4; pt = rh_pt hdr in
      if pt = RTCP_SR then rtcp_decode_sr al count
      else if pt = RTCP_RR then
        dec_bind (dec_need 4 EBADMSG) (\<lambda>_.
        dec_bind get_be32 (\<lambda>ssrc.
        dec_bind (dec_alloc al (24 * count)) (\<lambda>_.
        dec_bind (dec_many count rtcp_rr_decode) (\<lambda>rrv. dec_return (Msg_RR ssrc rrv)))))
      else if pt = RTCP_SDES then
        if count = 0 then dec_return (Msg_SDES [])
        else
          dec_bind (dec_alloc al (24 * count)) (\<lambda>_.
          dec_bind (dec_many count (rtcp_sdes_decode al)) (\<lambda>v. dec_return (Msg_SDES v)))
      else if pt = RTCP_BYE then rtcp_decode_bye al count rem
      else if pt = RTCP_APP then rtcp_decode_app al rem
      else if pt = RTCP_FIR then
        dec_bind (dec_need 4 EBADMSG) (\<lambda>_. dec_bind get_be32 (\<lambda>ssrc. dec_return (Msg_FIR ssrc)))
      else if pt = RTCP_NACK then
        dec_bind (dec_need 8 EBADMSG) (\<lambda>_.
        dec_bind get_be32 (\<lambda>ssrc. dec_bind get_be16 (\<lambda>fsn. dec_bind get_be16 (\<lambda>blp.
        dec_return (Msg_NACK ssrc fsn blp)))))
      else if pt = RTCP_RTPFB then rtcp_decode_fb al rtcp_rtpfb_decode hdr
      else if pt = RTCP_PSFB then rtcp_decode_fb al rtcp_psfb_decode hdr
      else dec_bind (dec_advance rem) (\<lambda>_. dec_return Msg_unknown))"

text \<open>The message structure itself takes 64 bytes.\<close>

definition rtcp_decode :: "alloc \<Rightarrow> rtcp_msg dec" where
  "rtcp_decode al =
     dec_bind (dec_need 4 EBADMSG) (\<lambda>_.
     dec_bind (dec_alloc al 64) (\<lambda>_.
     dec_bind dec_pos (\<lambda>start.
     dec_bind rtcp_hdr_decode (\<lambda>hdr.
     if rh_version hdr \<noteq> 2 then dec_fail EBADMSG else
     dec_bind (dec_need (unat (rh_length hdr) * 4) EBADMSG) (\<lambda>_.
     dec_bind (rtcp_decode_body al hdr) (\<lambda>r.
     dec_bind (dec_slurp start) (\<lambda>_.
     dec_return \<lparr>msg_hdr = hdr, msg_r = r\<rparr>)))))))"

section \<open>Safety of the decoder\<close>

lemma rtcp_sdes_decode_items_safe:
  "readable mb \<Longrightarrow> length (mb_left mb) < fuel \<Longrightarrow> dec_safe_at (rtcp_sdes_decode_items al n fuel) mb"
proof (induction fuel arbitrary: mb n)
  case (Suc fuel)
  then show ?case
    by (auto intro!: safe_at_intros dec_safe_at_bind [OF _ Suc.IH] simp: Suc_le_eq; linarith)
qed simp

lemma twcc_chunks_safe:
  "readable mb \<Longrightarrow> length (mb_left mb) < fuel \<Longrightarrow> dec_safe_at (twcc_chunks fuel i sz) mb"
proof (induction fuel arbitrary: mb i sz)
  case (Suc fuel)
  then show ?case
    by (auto intro!: safe_at_intros dec_safe_at_bind [OF _ Suc.IH])
qed simp

lemma rtcp_rr_decode_safe [safe_intros]: "dec_safe rtcp_rr_decode"
  unfolding rtcp_rr_decode_def by (intro safe_intros) simp

lemma rtcp_sdes_decode_safe [safe_intros]: "dec_safe (rtcp_sdes_decode al)"
  unfolding rtcp_sdes_decode_def
  by (rule dec_safe_atI)
     (auto intro!: safe_at_intros dec_safe_at_bind [OF _ rtcp_sdes_decode_items_safe]
        dec_safe_at_bind [OF _ dec_safe_at [OF dec_safe_slurp]] simp del: rtcp_sdes_decode_items.simps)

lemma rtcp_rtpfb_twcc_decode_safe [safe_intros]: "dec_safe (rtcp_rtpfb_twcc_decode al n)"
  unfolding rtcp_rtpfb_twcc_decode_def Let_def
  by (rule dec_safe_atI)
     (auto intro!: safe_at_intros dec_safe_at_bind [OF _ twcc_chunks_safe] simp del: twcc_chunks.simps; linarith)

lemma get_fir_safe: "8 * n \<le> length (mb_left mb) \<Longrightarrow> readable mb \<Longrightarrow> dec_safe_at (dec_many n get_fir) mb"
proof (induction n arbitrary: mb)
  case (Suc n)
  then have l: "8 \<le> length (mb_left mb)" by simp
  have "get_fir mb = (Inr (ntohl (fst (mbuf_read_u32 mb)), fst (mbuf_read_u8 (mb_adv mb 4))), mb_adv mb 8)"
    using get_adv(3) [OF Suc.prems(2)] get_adv(1) [OF readable_adv [OF Suc.prems(2), of 4]]
      readable_advance [OF readable_adv [OF Suc.prems(2), of 5], of 3] l
    by (simp add: get_fir_def dec_bind_def dec_advance_def dec_return_def)
  then show ?case
    using Suc.prems l by (auto intro!: dec_safe_at_exact [where k = 8] dec_safe_at_bind [OF _ Suc.IH] safe_at_intros)
qed (simp add: dec_safe_at_basic)

lemma get_fci_safe [safe_intros]: "dec_safe get_gnack" "dec_safe get_sli"
  unfolding get_gnack_def get_sli_def by (intro safe_intros)+

lemma rtcp_fb_decode_safe [safe_intros]: "dec_safe (rtcp_rtpfb_decode al count n)" "dec_safe (rtcp_psfb_decode al count n)"
proof -
  show "dec_safe (rtcp_rtpfb_decode al count n)"
    unfolding rtcp_rtpfb_decode_def by (intro safe_intros) simp_all
  have fir: "dec_safe (dec_bind (dec_need (8 * (n div 2)) EBADMSG) (\<lambda>_.
      dec_bind (dec_many (n div 2) get_fir) (\<lambda>v. dec_return (Firs v))))"
    by (rule dec_safe_atI) (auto intro!: safe_at_intros dec_safe_at_bind [OF _ get_fir_safe])
  show "dec_safe (rtcp_psfb_decode al count n)"
    unfolding rtcp_psfb_decode_def by (intro fir safe_intros) simp_all
qed

lemma rtcp_hdr_decode_safe [safe_intros]: "dec_safe rtcp_hdr_decode"
  unfolding rtcp_hdr_decode_def by (intro safe_intros) simp

lemma rtcp_decode_parts_safe [safe_intros]:
  "dec_safe (rtcp_decode_sr al count)" "dec_safe (rtcp_decode_bye al count rem)" "dec_safe (rtcp_decode_app al rem)"
  "dec_safe (rtcp_decode_fb al rtcp_rtpfb_decode hdr)" "dec_safe (rtcp_decode_fb al rtcp_psfb_decode hdr)"
  unfolding rtcp_decode_sr_def rtcp_decode_bye_def rtcp_decode_app_def rtcp_decode_fb_def
  by (intro safe_intros; simp)+

text \<open>The body of an unknown packet is skipped, which the length check of the caller makes safe.\<close>

lemma rtcp_decode_body_safe:
  assumes "readable mb" "unat (rh_length hdr) * 4 \<le> length (mb_left mb)"
  shows "dec_safe_at (rtcp_decode_body al hdr) mb"
proof -
  have "dec_safe_at (dec_bind (dec_advance (unat (rh_length hdr) * 4)) (\<lambda>_. dec_return Msg_unknown)) mb"
    using assms by (intro safe_at_intros)
  moreover have "dec_safe (dec_bind (dec_need 4 EBADMSG) (\<lambda>_.
        dec_bind get_be32 (\<lambda>ssrc.
        dec_bind (dec_alloc al (24 * count)) (\<lambda>_.
        dec_bind (dec_many count rtcp_rr_decode) (\<lambda>rrv. dec_return (Msg_RR ssrc rrv))))))" for count
    by (intro safe_intros) simp
  ultimately show ?thesis
    unfolding rtcp_decode_body_def Let_def using assms(1)
    by (auto intro!: dec_safe_at safe_intros)
qed

text \<open>The receiver decodes packets of a datagram until one fails, and hands each to the session.\<close>

partial_function (option) rtcp_recv_loop :: "alloc \<Rightarrow> mbuf \<Rightarrow> rtcp_msg list \<Rightarrow> (errno \<times> rtcp_msg list) option" where
  "rtcp_recv_loop al mb msgs =
     (case rtcp_decode al mb of
        (Inl e, _) \<Rightarrow> Some (e, msgs)
      | (Inr msg, mb1) \<Rightarrow> rtcp_recv_loop al mb1 (msgs @ [msg]))"

lemma rtcp_decode_step:
  assumes "readable mb"
  shows "dec_safe_at (rtcp_decode al) mb"
    and "rtcp_decode al mb = (Inr msg, mb1) \<Longrightarrow> mb_pos mb + 4 \<le> mb_pos mb1"
proof -
  let ?rest = "\<lambda>start hdr. dec_bind (rtcp_decode_body al hdr) (\<lambda>r. dec_bind (dec_slurp start) (\<lambda>_.
      dec_return \<lparr>msg_hdr = hdr, msg_r = r\<rparr>))"
  have rest: "dec_safe_at (?rest start hdr) mb" if "readable mb" "unat (rh_length hdr) * 4 \<le> length (mb_left mb)" for start hdr mb
    using that
    by (auto intro!: dec_safe_at_bind [OF _ rtcp_decode_body_safe] dec_safe_at_bind [OF _ dec_safe_at [OF dec_safe_slurp]]
        safe_at_intros)
  show "dec_safe_at (rtcp_decode al) mb"
    unfolding rtcp_decode_def using assms rest
    by (auto intro!: safe_at_intros dec_safe_at_bind [OF _ dec_safe_at [OF rtcp_hdr_decode_safe]])
  assume d: "rtcp_decode al mb = (Inr msg, mb1)"
  then have l: "4 \<le> length (mb_left mb)"
    using assms by (auto simp: rtcp_decode_def dec_bind_Inr dec_need_def mbuf_get_left_len [OF readable_wf] split: if_splits)
  note rd = readable_adv [OF assms l]
  obtain hdr where "rtcp_hdr_decode mb = (Inr hdr, mb_adv mb 4)"
    using l get_adv(1) [OF assms] get_adv(1) [OF readable_adv [OF assms, of 1]] get_adv(2) [OF readable_adv [OF assms, of 2]] assms
    by (auto simp: rtcp_hdr_decode_def dec_bind_def dec_need_def dec_return_def mbuf_get_left_len [OF readable_wf]
        simp flip: numeral_2_eq_2)
  then have "dec_bind (dec_need (unat (rh_length hdr) * 4) EBADMSG) (\<lambda>_. ?rest (mb_pos mb) hdr) (mb_adv mb 4) = (Inr msg, mb1)"
    using d by (auto simp: rtcp_decode_def dec_bind_Inr dec_pos_def dec_need_def dec_alloc_def dec_fail_def split: if_splits option.splits)
  moreover have "dec_safe_at (dec_bind (dec_need (unat (rh_length hdr) * 4) EBADMSG) (\<lambda>_. ?rest (mb_pos mb) hdr)) (mb_adv mb 4)"
    using rest rd by (intro safe_at_intros) auto
  ultimately show "mb_pos mb + 4 \<le> mb_pos mb1" by (auto simp: dec_safe_at_def)
qed

text \<open>
  C27.  The RTCP decoder is safe for every input: it never reads outside the data, leaves the
  buffer and its end alone, and consumes four bytes at least when it accepts a packet.  Hence the
  receive loop returns for every datagram.
\<close>

theorem rtcp_decode_safe:
  assumes "readable mb"
  shows "(\<exists>n \<le> length (mb_left mb). snd (rtcp_decode al mb) = mb_adv mb n \<and>
       (isl (fst (rtcp_decode al mb)) \<or> 4 \<le> n)) \<and>
     fst (rtcp_decode al mb) \<noteq> Inl FAULT \<and>
     (\<exists>err ms. rtcp_recv_loop al mb msgs = Some (err, msgs @ ms) \<and> err \<noteq> FAULT)"
proof -
  have loop: "\<exists>err ms. rtcp_recv_loop al mb msgs = Some (err, msgs @ ms) \<and> err \<noteq> FAULT" if "readable mb" for mb msgs
    using that
  proof (induction "length (mb_left mb)" arbitrary: mb msgs rule: less_induct)
    case less
    obtain r mb1 where d: "rtcp_decode al mb = (r, mb1)" by (cases "rtcp_decode al mb")
    obtain n where n: "n \<le> length (mb_left mb)" "mb1 = mb_adv mb n" "r \<noteq> Inl FAULT"
      using rtcp_decode_step(1) [OF less.prems, of al] d by (auto simp: dec_safe_at_def)
    show ?case
    proof (cases r)
      case (Inl e)
      then show ?thesis using d n(3) by (subst rtcp_recv_loop.simps) auto
    next
      case (Inr msg)
      have "4 \<le> n" using rtcp_decode_step(2) [OF less.prems, of al msg mb1] d Inr n(2) by simp
      then have "length (mb_left mb1) < length (mb_left mb)" "readable mb1"
        using n readable_adv [OF less.prems n(1)] by auto
      from less.hyps [OF this, of "msgs @ [msg]"] show ?thesis
        using d Inr by (subst rtcp_recv_loop.simps) auto
    qed
  qed
  obtain r mb1 where d: "rtcp_decode al mb = (r, mb1)" by (cases "rtcp_decode al mb")
  obtain n where n: "n \<le> length (mb_left mb)" "mb1 = mb_adv mb n" "r \<noteq> Inl FAULT"
    using rtcp_decode_step(1) [OF assms, of al] d by (auto simp: dec_safe_at_def)
  have "isl r \<or> 4 \<le> n" using rtcp_decode_step(2) [OF assms, of al _ mb1] d n(2) by (cases r) auto
  with n d loop [OF assms, of msgs] show ?thesis by auto
qed

theorem rtcp_decode_safe_witness: "fst (rtcp_decode (\<lambda>n. None) mbuf_init) \<noteq> Inl FAULT"
  using rtcp_decode_safe [of mbuf_init "\<lambda>n. None"] by (simp add: readable_def mbuf_wf_init)

end
