(* ===== verification/Rtcp_Roundtrip.thy ===== *)
theory Rtcp_Roundtrip
  imports Rtcp
begin

text \<open>
  The wire format of RTCP packets, and that what the encoder writes is what the decoder reads, for
  every packet type that has both.
\<close>

section \<open>Parts of packets\<close>

definition rr_wire :: "rtcp_rr \<Rightarrow> byte list" where
  "rr_wire rr = be32 (rr_ssrc rr) @ be32 (rr_word rr) @ be32 (rr_last_seq rr) @ be32 (rr_jitter rr) @
     be32 (rr_lsr rr) @ be32 (rr_dlsr rr)"

lemma length_rr_wire [simp]: "length (rr_wire rr) = 24"
  by (simp add: rr_wire_def)

lemma rr_word_fields: "ucast (drop_bit 24 (rr_word rr)) = rr_fraction rr" "ucast (rr_word rr AND 0x00ffffff) = rr_lost rr"
proof -
  have m: "x AND 0x00ffffff = take_bit 24 x" for x :: "32 word" by (simp add: take_bit_eq_mask mask_eq_exp_minus_1)
  show "ucast (drop_bit 24 (rr_word rr)) = rr_fraction rr" "ucast (rr_word rr AND 0x00ffffff) = rr_lost rr"
    unfolding rr_word_def m by (rule bit_word_eqI; auto simp: bit_simps)+
qed

lemma rtcp_rr_encode_emits:
  "mbuf_wf mb \<Longrightarrow> mb_pos mb + 24 < 2 ^ 31 \<Longrightarrow> emits al mb (rr_wire rr) (rtcp_rr_encode al mb rr)"
proof -
  assume "mbuf_wf mb" "mb_pos mb + 24 < 2 ^ 31"
  then have "emits al mb (((((be32 (rr_ssrc rr) @ be32 (rr_word rr)) @ be32 (rr_last_seq rr)) @ be32 (rr_jitter rr)) @
     be32 (rr_lsr rr)) @ be32 (rr_dlsr rr)) (rtcp_rr_encode al mb rr)"
    unfolding rtcp_rr_encode_def by (intro emits_err_or mbuf_write_uN_emits) auto
  then show ?thesis by (simp add: rr_wire_def)
qed

lemma rtcp_rr_decodes: "decodes rtcp_rr_decode (rr_wire rr) rr"
proof -
  have eq: "\<lparr>rr_ssrc = rr_ssrc rr, rr_fraction = ucast (drop_bit 24 (rr_word rr)),
       rr_lost = ucast (rr_word rr AND 0x00ffffff), rr_last_seq = rr_last_seq rr, rr_jitter = rr_jitter rr,
       rr_lsr = rr_lsr rr, rr_dlsr = rr_dlsr rr\<rparr> = rr"
    unfolding rr_word_fields by simp
  have "decodes rtcp_rr_decode (be32 (rr_ssrc rr) @ be32 (rr_word rr) @ be32 (rr_last_seq rr) @ be32 (rr_jitter rr) @
     be32 (rr_lsr rr) @ be32 (rr_dlsr rr) @ []) \<lparr>rr_ssrc = rr_ssrc rr, rr_fraction = ucast (drop_bit 24 (rr_word rr)),
       rr_lost = ucast (rr_word rr AND 0x00ffffff), rr_last_seq = rr_last_seq rr, rr_jitter = rr_jitter rr,
       rr_lsr = rr_lsr rr, rr_dlsr = rr_dlsr rr\<rparr>"
    unfolding rtcp_rr_decode_def by (rule decodes_need, simp, (rule decodes_intros)+)
  then show ?thesis unfolding eq by (simp add: rr_wire_def)
qed

interpretation rr: wire_codec rtcp_rr_encode rtcp_rr_decode rr_wire "\<lambda>_. True"
  by unfold_locales (simp_all add: rtcp_rr_encode_emits rtcp_rr_decodes)

definition gnack_wire :: "16 word \<times> 16 word \<Rightarrow> byte list" where
  "gnack_wire g = be16 (fst g) @ be16 (snd g)"

interpretation gnack: wire_codec "\<lambda>al mb g. rtcp_rtpfb_gnack_encode al mb (fst g) (snd g)" get_gnack gnack_wire "\<lambda>_. True"
proof
  show "emits al mb (gnack_wire g) (rtcp_rtpfb_gnack_encode al mb (fst g) (snd g))"
    if "mbuf_wf mb" "mb_pos mb + length (gnack_wire g) < 2 ^ 31" for mb g al
    using that unfolding rtcp_rtpfb_gnack_encode_def gnack_wire_def by (intro emits_err_or mbuf_write_uN_emits) auto
  show "decodes get_gnack (gnack_wire g) g" for g
  proof -
    have "decodes get_gnack (be16 (fst g) @ be16 (snd g) @ []) (fst g, snd g)"
      unfolding get_gnack_def by (rule decodes_intros)+
    then show ?thesis by (simp add: gnack_wire_def)
  qed
qed

definition sli_wire :: "sli \<Rightarrow> byte list" where
  "sli_wire s = be32 (sli_word (sli_first s) (sli_number s) (sli_picid s))"

text \<open>Macroblock addresses and numbers of 13 bits and picture identifiers of 6 bits.\<close>

definition sli_ok :: "sli \<Rightarrow> bool" where
  "sli_ok s \<longleftrightarrow> sli_first s < 2 ^ 13 \<and> sli_number s < 2 ^ 13 \<and> sli_picid s < 2 ^ 6"

lemma sli_word_fields:
  assumes "sli_ok s"
  shows "ucast (drop_bit 19 (sli_word (sli_first s) (sli_number s) (sli_picid s)) AND 0x1fff) = sli_first s"
    "ucast (drop_bit 6 (sli_word (sli_first s) (sli_number s) (sli_picid s)) AND 0x1fff) = sli_number s"
    "ucast (sli_word (sli_first s) (sli_number s) (sli_picid s) AND 0x3f) = sli_picid s"
proof -
  have m: "x AND 0x1fff = take_bit 13 x" "x AND 0x3f = take_bit 6 x" for x :: "32 word"
    by (simp_all add: take_bit_eq_mask mask_eq_exp_minus_1)
  have u: "uint (sli_first s) < 2 ^ 13" "uint (sli_number s) < 2 ^ 13" "uint (sli_picid s) < 2 ^ 6"
    using assms by (simp_all add: sli_ok_def word_less_def)
  note b = bit_below [OF u(1)] bit_below [OF u(2)] bit_below [OF u(3)]
  show "ucast (drop_bit 19 (sli_word (sli_first s) (sli_number s) (sli_picid s)) AND 0x1fff) = sli_first s"
    "ucast (drop_bit 6 (sli_word (sli_first s) (sli_number s) (sli_picid s)) AND 0x1fff) = sli_number s"
    "ucast (sli_word (sli_first s) (sli_number s) (sli_picid s) AND 0x3f) = sli_picid s"
    unfolding sli_word_def m
    by (intro bit_word_eqI; auto simp: bit_simps dest: b)+
qed

interpretation sli: wire_codec "\<lambda>al mb s. rtcp_psfb_sli_encode al mb (sli_first s) (sli_number s) (sli_picid s)"
  get_sli sli_wire sli_ok
proof
  show "emits al mb (sli_wire s) (rtcp_psfb_sli_encode al mb (sli_first s) (sli_number s) (sli_picid s))"
    if "mbuf_wf mb" "mb_pos mb + length (sli_wire s) < 2 ^ 31" for mb s al
    using that unfolding rtcp_psfb_sli_encode_def sli_wire_def by (intro mbuf_write_uN_emits) auto
  show "decodes get_sli (sli_wire s) s" if "sli_ok s" for s
  proof -
    let ?v = "sli_word (sli_first s) (sli_number s) (sli_picid s)"
    have "decodes get_sli (be32 ?v @ []) \<lparr>sli_first = ucast (drop_bit 19 ?v AND 0x1fff),
        sli_number = ucast (drop_bit 6 ?v AND 0x1fff), sli_picid = ucast (?v AND 0x3f)\<rparr>"
      unfolding get_sli_def by (rule decodes_intros)+
    moreover have "\<lparr>sli_first = sli_first s, sli_number = sli_number s, sli_picid = sli_picid s\<rparr> = s"
      by (cases s) simp
    ultimately show ?thesis unfolding sli_word_fields [OF that] by (simp add: sli_wire_def)
  qed
qed

definition fir_wire :: "32 word \<times> byte \<Rightarrow> byte list" where
  "fir_wire f = be32 (fst f) @ [snd f, 0, 0, 0]"

interpretation fir: wire_codec "\<lambda>al mb f. encode_fir_rfc5104_fci al mb (fst f) (snd f)" get_fir fir_wire "\<lambda>_. True"
proof
  show "emits al mb (fir_wire f) (encode_fir_rfc5104_fci al mb (fst f) (snd f))"
    if "mbuf_wf mb" "mb_pos mb + length (fir_wire f) < 2 ^ 31" for mb f al
  proof -
    have "emits al mb ((((be32 (fst f) @ [snd f]) @ [0]) @ [0]) @ [0]) (encode_fir_rfc5104_fci al mb (fst f) (snd f))"
      using that unfolding encode_fir_rfc5104_fci_def fir_wire_def by (intro emits_err_or mbuf_write_uN_emits) auto
    then show ?thesis by (simp add: fir_wire_def)
  qed
  show "decodes get_fir (fir_wire f) f" for f
  proof -
    have "decodes get_fir (be32 (fst f) @ [snd f] @ [0, 0, 0] @ []) (fst f, snd f)"
      unfolding get_fir_def
      by (rule decodes_bind [OF decodes_get(3)], rule decodes_bind [OF decodes_get(1)], rule decodes_bind [OF decodes_advance])
        (simp, rule decodes_return)
    then show ?thesis by (simp add: fir_wire_def)
  qed
qed

lemma length_fci_wires [simp]:
  "length (concat (map gnack_wire gs)) = 4 * length gs" "length (concat (map sli_wire ss)) = 4 * length ss"
  "length (concat (map fir_wire fs)) = 8 * length fs" "length (concat (map be32 ws)) = 4 * length ws"
  "length (concat (map be16 hs)) = 2 * length hs"
  by (induction gs, auto simp: gnack_wire_def) (induction ss, auto simp: sli_wire_def, induction fs, auto simp: fir_wire_def,
    induction ws, auto, induction hs, auto)

section \<open>Transport-wide feedback\<close>

text \<open>The size of the receive deltas when the chunks hold exactly \<open>i\<close> statuses.\<close>

fun twcc_size :: "nat \<Rightarrow> 16 word list \<Rightarrow> nat option" where
  "twcc_size i [] = (if i = 0 then Some 0 else None)"
| "twcc_size i (c # cs) = (if i = 0 then None else map_option ((+) (snd (twcc_chunk c i))) (twcc_size (i - fst (twcc_chunk c i)) cs))"

definition twcc_ok :: "twcc \<Rightarrow> bool" where
  "twcc_ok t \<longleftrightarrow> 0 < tw_count t \<and> tw_count t \<le> 32768 \<and> tw_reftime t < 2 ^ 24 \<and>
     twcc_size (unat (tw_count t)) (tw_chunks t) = Some (length (tw_deltas t))"

definition twcc_word :: "twcc \<Rightarrow> 32 word" where
  "twcc_word t = push_bit 8 (tw_reftime t) OR ucast (tw_fbcount t)"

definition twcc_wire :: "twcc \<Rightarrow> byte list" where
  "twcc_wire t = be16 (tw_seq t) @ be16 (tw_count t) @ be32 (twcc_word t) @ concat (map be16 (tw_chunks t)) @ tw_deltas t @
     padding 0 (2 * length (tw_chunks t) + length (tw_deltas t))"

lemma twcc_word_fields:
  assumes "tw_reftime t < 2 ^ 24"
  shows "drop_bit 8 (twcc_word t) = tw_reftime t" "ucast (twcc_word t AND 0xff) = tw_fbcount t"
proof -
  have m: "x AND 0xff = take_bit 8 x" for x :: "32 word" by (simp add: take_bit_eq_mask mask_eq_exp_minus_1)
  have "uint (tw_reftime t) < 2 ^ 24" using assms by (simp add: word_less_def)
  note b = bit_below [OF this]
  show "drop_bit 8 (twcc_word t) = tw_reftime t" "ucast (twcc_word t AND 0xff) = tw_fbcount t"
    unfolding twcc_word_def m by (rule bit_word_eqI; auto simp: bit_simps not_bit_beyond dest: b)+
qed

lemma twcc_chunks_decodes:
  "twcc_size i cs = Some k \<Longrightarrow> length cs < fuel \<Longrightarrow> decodes (twcc_chunks fuel i sz) (concat (map be16 cs)) (cs, sz + k)"
proof (induction cs arbitrary: i fuel sz k)
  case Nil
  then obtain f where "fuel = Suc f" by (cases fuel) auto
  then show ?case using Nil by (auto simp: decodes_return split: if_splits)
next
  case (Cons c cs)
  then obtain f where f: "fuel = Suc f" by (cases fuel) auto
  let ?i = "i - fst (twcc_chunk c i)" and ?sz = "sz + snd (twcc_chunk c i)"
  obtain k' where k': "twcc_size ?i cs = Some k'" "k = snd (twcc_chunk c i) + k'" "i \<noteq> 0"
    using Cons.prems(1) by (auto split: if_splits)
  have "decodes (twcc_chunks f ?i ?sz) (concat (map be16 cs)) (cs, ?sz + k')" using Cons.IH [OF k'(1)] Cons.prems(2) f by simp
  from decodes_then_return [OF this, of "\<lambda>(cs, sz'). (c # cs, sz')"]
  have "decodes (dec_bind get_be16 (\<lambda>chunk. dec_bind (twcc_chunks f (i - fst (twcc_chunk chunk i)) (sz + snd (twcc_chunk chunk i)))
      (\<lambda>(chunks, sz'). dec_return (chunk # chunks, sz')))) (be16 c @ concat (map be16 cs)) (c # cs, ?sz + k')"
    by (intro decodes_bind [OF decodes_get(2)]) (simp add: case_prod_unfold)
  then show ?case unfolding f twcc_chunks.simps using k'(2,3) by (simp add: add.assoc) (intro decodes_need, simp_all)
qed

lemma decodes_look:
  assumes "decodes (f bs) (bs @ cs) x" "n = length bs"
  shows "decodes (dec_bind (dec_peek n) f) (bs @ cs) x"
proof (rule decodesI)
  fix mb rest assume mb: "readable mb" "mb_left mb = (bs @ cs) @ rest"
  have "n \<le> length (mb_left mb)" using mb(2) assms(2) by simp
  then have "mb_pos mb + n \<le> mb_end mb"
    using mb(1) by (auto simp: readable_def length_mb_left mbuf_get_left_def split: if_splits)
  then have "mem_read (mb_buf mb) (mb_pos mb) n = Some (take n (mb_left mb))"
    using mem_read_data [OF readable_wf [OF mb(1)]] by (simp add: mb_left_data)
  then show "dec_bind (dec_peek n) f mb = (Inr x, mb_adv mb (length (bs @ cs)))"
    using decodesD [OF assms(1) mb] mb(2) assms(2) by (simp add: dec_bind_def dec_peek_def)
qed

lemma length_twcc_wire: "length (twcc_wire t) = 8 + (2 * length (tw_chunks t) + length (tw_deltas t) +
    length (padding 0 (2 * length (tw_chunks t) + length (tw_deltas t))))"
  by (simp add: twcc_wire_def)

lemma twcc_decodes:
  assumes "mem_ok al" "twcc_ok t" "4 * n = length (twcc_wire t)" "n < 2 ^ 18"
  shows "decodes (rtcp_rtpfb_twcc_decode al n) (twcc_wire t) t"
proof -
  let ?cs = "concat (map be16 (tw_chunks t))" and ?ds = "tw_deltas t"
  let ?pad = "padding 0 (2 * length (tw_chunks t) + length (tw_deltas t))"
  let ?rest = "szsub (szsub (4 * n) 8) (2 * length (tw_chunks t))"
  have t: "tw_count t \<noteq> 0" "\<not> 32768 < tw_count t" "tw_reftime t < 2 ^ 24"
    "twcc_size (unat (tw_count t)) (tw_chunks t) = Some (length ?ds)" using assms(2) by (auto simp: twcc_ok_def)
  have rest: "?rest = length (?ds @ ?pad)" using assms(3,4) unfolding length_twcc_wire by simp
  let ?rec = "\<lambda>ds. \<lparr>tw_seq = tw_seq t, tw_count = tw_count t, tw_reftime = tw_reftime t, tw_fbcount = tw_fbcount t,
       tw_chunks = tw_chunks t, tw_deltas = ds\<rparr>"
  have "?rec ?ds = t" by (cases t) simp
  then have "decodes (dec_bind (dec_advance ?rest) (\<lambda>_. dec_return (?rec ?ds))) ((?ds @ ?pad) @ []) t"
    using decodes_bind [OF decodes_advance decodes_return, of "?ds @ ?pad" ?rest "\<lambda>_. t"] rest by metis
  then have tail: "decodes (dec_bind (dec_need (length ?ds) EBADMSG) (\<lambda>_. dec_bind (dec_alloc al 64) (\<lambda>_.
     dec_bind (dec_peek (length ?ds)) (\<lambda>deltas. dec_bind (dec_need ?rest EBADMSG) (\<lambda>_. dec_bind (dec_advance ?rest) (\<lambda>_.
       dec_return (?rec deltas))))))) (?ds @ ?pad) t"
    by (intro decodes_need decodes_alloc [OF assms(1)] decodes_look [OF _ refl]) (auto simp: MEM_SIZE_MAX_def rest)
  have "decodes (dec_bind dec_left (\<lambda>left. dec_bind (twcc_chunks (Suc left) (unat (tw_count t)) 0) (\<lambda>(chunks, sz).
     dec_bind (dec_need sz EBADMSG) (\<lambda>_. dec_bind (dec_alloc al 64) (\<lambda>_. dec_bind (dec_peek sz) (\<lambda>deltas.
     let rest = szsub (szsub (4 * n) 8) (2 * length chunks) in
     dec_bind (dec_need rest EBADMSG) (\<lambda>_. dec_bind (dec_advance rest) (\<lambda>_.
     dec_return \<lparr>tw_seq = tw_seq t, tw_count = tw_count t, tw_reftime = tw_reftime t, tw_fbcount = tw_fbcount t,
       tw_chunks = chunks, tw_deltas = deltas\<rparr>)))))))) (?cs @ ?ds @ ?pad) t"
  proof (rule decodes_left)
    fix k assume "length (?cs @ ?ds @ ?pad) \<le> k"
    then have "decodes (twcc_chunks (Suc k) (unat (tw_count t)) 0) ?cs (tw_chunks t, 0 + length ?ds)"
      by (intro twcc_chunks_decodes t(4)) simp
    then show "decodes (dec_bind (twcc_chunks (Suc k) (unat (tw_count t)) 0) (\<lambda>(chunks, sz).
     dec_bind (dec_need sz EBADMSG) (\<lambda>_. dec_bind (dec_alloc al 64) (\<lambda>_. dec_bind (dec_peek sz) (\<lambda>deltas.
     let rest = szsub (szsub (4 * n) 8) (2 * length chunks) in
     dec_bind (dec_need rest EBADMSG) (\<lambda>_. dec_bind (dec_advance rest) (\<lambda>_.
     dec_return \<lparr>tw_seq = tw_seq t, tw_count = tw_count t, tw_reftime = tw_reftime t, tw_fbcount = tw_fbcount t,
       tw_chunks = chunks, tw_deltas = deltas\<rparr>))))))) (?cs @ ?ds @ ?pad) t"
      using tail by (intro decodes_bind) (auto simp: Let_def simp del: twcc_chunks.simps)
  qed
  then have "decodes (rtcp_rtpfb_twcc_decode al n) (be16 (tw_seq t) @ be16 (tw_count t) @ be32 (twcc_word t) @ ?cs @ ?ds @ ?pad) t"
    unfolding rtcp_rtpfb_twcc_decode_def using t(1,2)
    apply (intro decodes_need decodes_bind [OF decodes_get(2)])
     apply simp
    apply (simp only: if_False simp_thms)
    apply (intro decodes_bind [OF decodes_get(3)] decodes_alloc [OF assms(1)])
     apply (simp add: MEM_SIZE_MAX_def)
    apply (simp only: twcc_word_fields [OF t(3)])
    done
  then show ?thesis by (simp add: twcc_wire_def)
qed

section \<open>Feedback control information\<close>

fun fci_wire :: "fci \<Rightarrow> byte list" where
  "fci_wire (Gnacks v) = concat (map gnack_wire v)"
| "fci_wire (Slis v) = concat (map sli_wire v)"
| "fci_wire (Firs v) = concat (map fir_wire v)"
| "fci_wire (Twcc t) = twcc_wire t"
| "fci_wire (Afb bs) = bs"
| "fci_wire No_fci = []"

text \<open>The format of a feedback packet is in its count; the one without information is the picture loss indication.\<close>

fun fci_ok :: "nat \<Rightarrow> fci \<Rightarrow> bool" where
  "fci_ok c (Gnacks v) \<longleftrightarrow> c = 1"
| "fci_ok c (Slis v) \<longleftrightarrow> c = 2 \<and> (\<forall>s \<in> set v. sli_ok s)"
| "fci_ok c (Firs v) \<longleftrightarrow> c = 4"
| "fci_ok c (Twcc t) \<longleftrightarrow> c = 15 \<and> twcc_ok t"
| "fci_ok c (Afb bs) \<longleftrightarrow> c = 15 \<and> length bs mod 4 = 0"
| "fci_ok c No_fci \<longleftrightarrow> c = 1"

fun fci_rtp :: "fci \<Rightarrow> bool" where
  "fci_rtp (Gnacks v) = True"
| "fci_rtp (Twcc t) = True"
| "fci_rtp _ = False"

definition each_ench :: "(mbuf \<Rightarrow> 'a \<Rightarrow> errno \<times> mbuf) \<Rightarrow> 'a list \<Rightarrow> ench" where
  "each_ench f xs mb = Some (err_each f xs (0, mb))"

text \<open>
  The encode handlers: the parts one after the other with the encoders of the library, and the
  bytes as they are for the two formats that the library only decodes.
\<close>

fun fci_ench :: "alloc \<Rightarrow> fci \<Rightarrow> ench option" where
  "fci_ench al (Gnacks v) = Some (each_ench (\<lambda>mb g. rtcp_rtpfb_gnack_encode al mb (fst g) (snd g)) v)"
| "fci_ench al (Slis v) = Some (each_ench (\<lambda>mb x. rtcp_psfb_sli_encode al mb (sli_first x) (sli_number x) (sli_picid x)) v)"
| "fci_ench al (Firs v) = Some (each_ench (\<lambda>mb f. encode_fir_rfc5104_fci al mb (fst f) (snd f)) v)"
| "fci_ench al (Twcc t) = Some (\<lambda>mb. Some (mbuf_write_mem al mb (twcc_wire t)))"
| "fci_ench al (Afb bs) = Some (\<lambda>mb. Some (mbuf_write_mem al mb bs))"
| "fci_ench al No_fci = None"

lemma run_ench_each:
  assumes "err_each f xs (0, mb1) = (0, mb2)"
  shows "run_ench (Some (each_ench f xs)) (0, mb1) = Some (0, mb2)"
  using assms by (simp add: run_ench_def each_ench_def)

lemma run_ench_bytes:
  assumes "mem_ok al" "written mb bs mb1" "mb_pos mb + length bs + length cs < 2 ^ 31"
  shows "\<exists>mb2. run_ench (Some (\<lambda>mb. Some (mbuf_write_mem al mb cs))) (0, mb1) = Some (0, mb2) \<and> written mb (bs @ cs) mb2"
proof -
  have "emits al mb1 cs (mbuf_write_mem al mb1 cs)"
    using assms(2,3) written_pos [OF assms(2)] by (intro mbuf_write_mem_emits) (auto dest: written_wf)
  then show ?thesis using emits_ex [OF assms(1)] written_trans [OF assms(2)] by (fastforce simp: run_ench_def)
qed

lemma fci_ench_written:
  assumes "mem_ok al" "written mb bs mb1" "fci_ok c f" "mb_pos mb + length bs + length (fci_wire f) < 2 ^ 31"
  shows "\<exists>mb2. run_ench (fci_ench al f) (0, mb1) = Some (0, mb2) \<and> written mb (bs @ fci_wire f) mb2"
proof (cases f)
  case (Gnacks v)
  then show ?thesis using gnack.enc_each_written [OF assms(1,2), of v] assms(4) by (auto simp: run_ench_each)
next
  case (Slis v)
  then show ?thesis using sli.enc_each_written [OF assms(1,2), of v] assms(3,4) by (auto simp: run_ench_each)
next
  case (Firs v)
  then show ?thesis using fir.enc_each_written [OF assms(1,2), of v] assms(4) by (auto simp: run_ench_each)
next
  case (Twcc t)
  then show ?thesis using run_ench_bytes [OF assms(1,2), of "twcc_wire t"] assms(4) by simp
next
  case (Afb bs)
  then show ?thesis using run_ench_bytes [OF assms(1,2), of bs] assms(4) by simp
next
  case No_fci
  then show ?thesis using assms(2) by (simp add: run_ench_def)
qed

lemma fci_wire_words: "fci_ok c f \<Longrightarrow> length (fci_wire f) mod 4 = 0"
  using length_padding(1) by (cases f) (auto simp: length_twcc_wire mod_add_right_eq [of 8, symmetric])

lemma fci_decodes:
  assumes "mem_ok al" "fci_ok (unat count) f" "4 * n = length (fci_wire f)" "n < 2 ^ 18"
  shows "decodes ((if fci_rtp f then rtcp_rtpfb_decode else rtcp_psfb_decode) al count n) (fci_wire f) f"
proof -
  have c: "unat count = k \<Longrightarrow> count = of_nat k" for k by (metis of_nat_unat ucast_id)
  note def = rtcp_rtpfb_decode_def rtcp_psfb_decode_def
  show ?thesis
  proof (cases f)
    case (Gnacks v)
    then show ?thesis using assms gnack.roundtrip_list [of v] c
      by (auto intro!: decodes_alloc decodes_need decodes_then_return simp: def MEM_SIZE_MAX_def)
  next
    case (Slis v)
    then show ?thesis using assms sli.roundtrip_list [of v] c
      by (auto intro!: decodes_alloc decodes_need decodes_then_return simp: def MEM_SIZE_MAX_def)
  next
    case (Firs v)
    then have "n div 2 = length v" using assms(3) by simp
    then show ?thesis using Firs assms fir.roundtrip_list [of v] c
      by (auto intro!: decodes_alloc decodes_need decodes_then_return simp: def MEM_SIZE_MAX_def)
  next
    case (Twcc t)
    then show ?thesis using assms twcc_decodes [of al t n] c length_twcc_wire [of t]
      by (auto intro!: decodes_alloc decodes_need decodes_then_return simp: def MEM_SIZE_MAX_def)
  next
    case (Afb bs)
    then show ?thesis using assms c
      by (auto intro!: decodes_alloc decodes_need decodes_then_return decodes_mem simp: def MEM_SIZE_MAX_def)
  next
    case No_fci
    then show ?thesis using assms c by (auto intro: decodes_return simp: def)
  qed
qed

section \<open>Source descriptions\<close>

definition item_wire :: "rtcp_sdes_item \<Rightarrow> byte list" where
  "item_wire it = [it_type it, of_nat (length (it_data it))] @ it_data it"

definition item_ok :: "rtcp_sdes_item \<Rightarrow> bool" where
  "item_ok it \<longleftrightarrow> it_type it \<noteq> 0 \<and> length (it_data it) \<le> 255"

definition sdes_body :: "rtcp_sdes \<Rightarrow> byte list" where
  "sdes_body s = be32 (sdes_src s) @ concat (map item_wire (sdes_items s)) @ [0]"

definition sdes_wire :: "rtcp_sdes \<Rightarrow> byte list" where
  "sdes_wire s = sdes_body s @ padding 0 (length (sdes_body s))"

definition sdes_ok :: "rtcp_sdes \<Rightarrow> bool" where
  "sdes_ok s \<longleftrightarrow> sdes_items s \<noteq> [] \<and> (\<forall>it \<in> set (sdes_items s). item_ok it) \<and> length (sdes_wire s) < 2 ^ 20"

definition sdes_args :: "rtcp_sdes \<Rightarrow> (byte \<times> byte list option) list" where
  "sdes_args s = map (\<lambda>it. (it_type it, Some (it_data it))) (sdes_items s)"

lemma rtcp_sdes_items_written:
  assumes "mem_ok al" "written mb bs mb1" "\<forall>it \<in> set items. item_ok it"
    "mb_pos mb + length bs + length (concat (map item_wire items)) < 2 ^ 31"
  shows "\<exists>mb2. rtcp_sdes_items al (map (\<lambda>it. (it_type it, Some (it_data it))) items) (0, mb1) = Inr (0, mb2) \<and>
     written mb (bs @ concat (map item_wire items)) mb2"
  using assms(2-4)
proof (induction items arbitrary: bs mb1)
  case (Cons it items)
  let ?r = "err_or (err_or (mbuf_write_u8 al mb1 (it_type it)) (\<lambda>mb. mbuf_write_u8 al mb (of_nat (length (it_data it)))))
      (\<lambda>mb. mbuf_write_mem al mb (it_data it))"
  have "emits al mb1 (([it_type it] @ [of_nat (length (it_data it))]) @ it_data it) ?r"
    using Cons.prems written_pos [OF Cons.prems(1)]
    by (intro emits_err_or mbuf_write_uN_emits mbuf_write_mem_emits) (auto simp: item_wire_def dest: written_wf)
  then obtain mb2 where r: "?r = (0, mb2)" "written mb1 (item_wire it) mb2"
    using emits_written [OF assms(1)] by (metis item_wire_def append_Cons append_Nil)
  from Cons.IH [OF written_trans [OF Cons.prems(1) r(2)]] Cons.prems r(1) show ?case
    by (auto simp: item_ok_def)
qed auto

lemma rtcp_sdes_encode_written:
  assumes "mem_ok al" "mbuf_wf mb" "sdes_ok s" "mb_pos mb + length (sdes_wire s) < 2 ^ 31"
  shows "\<exists>mb'. rtcp_sdes_encode al mb (sdes_src s) (sdes_args s) = Some (0, mb') \<and> written mb (sdes_wire s) mb'"
proof -
  have len: "mb_pos mb + length (sdes_body s) + length (padding 0 (length (sdes_body s))) < 2 ^ 31"
    using assms(4) by (simp add: sdes_wire_def)
  have "emits al mb (be32 (sdes_src s)) (mbuf_write_u32 al mb (htonl (sdes_src s)))"
    using assms(2) len by (intro mbuf_write_uN_emits) (auto simp: sdes_body_def)
  then obtain mb1 where 1: "mbuf_write_u32 al mb (htonl (sdes_src s)) = (0, mb1)" "written mb (be32 (sdes_src s)) mb1"
    using emits_written [OF assms(1)] by metis
  obtain mb2 where 2: "rtcp_sdes_items al (sdes_args s) (0, mb1) = Inr (0, mb2)"
    "written mb (be32 (sdes_src s) @ concat (map item_wire (sdes_items s))) mb2"
    using rtcp_sdes_items_written [OF assms(1) 1(2), of "sdes_items s"] assms(3) len
    by (auto simp: sdes_ok_def sdes_body_def sdes_args_def)
  have "emits al mb2 [0] (mbuf_write_u8 al mb2 0)"
    using 2(2) written_pos [OF 2(2)] len by (intro mbuf_write_uN_emits) (auto simp: sdes_body_def dest: written_wf)
  then obtain mb3 where 3: "mbuf_write_u8 al mb2 0 = (0, mb3)" "written mb2 [0] mb3"
    using emits_written [OF assms(1)] by metis
  have "written mb (sdes_body s) mb3" using written_trans [OF 2(2) 3(2)] by (simp add: sdes_body_def)
  from pad_loop_written [OF assms(1) this _ _ _ len, of "mb_pos mb" mb_pos]
  obtain mb4 where "pad_loop al mb_pos 0 (mb_pos mb) (0, mb3) = Some (0, mb4)" "written mb (sdes_wire s) mb4"
    by (auto simp: sdes_wire_def)
  with 1 2 3 assms(3) show ?thesis
    by (auto simp: rtcp_sdes_encode_def sdes_args_def sdes_ok_def err_or_def)
qed

lemma rtcp_sdes_items_decodes:
  assumes "mem_ok al"
  shows "length items < fuel \<Longrightarrow> n + length items < 2 ^ 20 \<Longrightarrow> \<forall>it \<in> set items. item_ok it \<Longrightarrow>
    decodes (rtcp_sdes_decode_items al n fuel) (concat (map item_wire items) @ [0]) items"
proof (induction items arbitrary: n fuel)
  case Nil
  then obtain f where "fuel = Suc f" by (cases fuel) auto
  then show ?case
    by (auto intro!: decodes_left decodes_bind [of _ "[0]" _ _ "[]", simplified] decodes_get decodes_return)
next
  case (Cons it items)
  then obtain f where f: "fuel = Suc f" by (cases fuel) auto
  let ?len = "length (it_data it)"
  have eta: "\<lparr>it_type = it_type it, it_data = it_data it\<rparr> = it" by (cases it) simp
  have it: "it_type it \<noteq> 0" "unat (of_nat ?len :: byte) = ?len" using Cons.prems(3)
    by (auto simp: item_ok_def unat_of_nat)
  have IH: "decodes (rtcp_sdes_decode_items al (Suc n) f) (concat (map item_wire items) @ [0]) items"
    using Cons f by auto
  let ?rest = "concat (map item_wire items) @ [0]"
  have "decodes (dec_bind (get_mem ?len) (\<lambda>text. dec_bind (rtcp_sdes_decode_items al (Suc n) f) (\<lambda>items.
     dec_return (\<lparr>it_type = it_type it, it_data = text\<rparr> # items)))) (it_data it @ ?rest @ [])
     (\<lparr>it_type = it_type it, it_data = it_data it\<rparr> # items)"
    by (rule decodes_bind decodes_mem refl IH decodes_return)+
  then have "decodes (dec_bind get_u8 (\<lambda>len.
     dec_bind (dec_need (unat len) EBADMSG) (\<lambda>_.
     dec_bind (dec_alloc al (unat len)) (\<lambda>_.
     dec_bind (get_mem (unat len)) (\<lambda>text.
     dec_bind (rtcp_sdes_decode_items al (Suc n) f) (\<lambda>items.
     dec_return (\<lparr>it_type = it_type it, it_data = text\<rparr> # items)))))))
     ([of_nat ?len] @ it_data it @ ?rest) (it # items)"
    using it(2) assms Cons.prems(3)
    by (intro decodes_bind [OF decodes_get(1)] decodes_need decodes_alloc) (auto simp: item_ok_def MEM_SIZE_MAX_def eta)
  then have "decodes (rtcp_sdes_decode_items al n fuel) ([it_type it] @ [of_nat ?len] @ it_data it @ ?rest) (it # items)"
    unfolding f rtcp_sdes_decode_items.simps using it(1) assms Cons.prems(2)
    by (intro decodes_left; subst if_not_P, simp)
      (rule decodes_bind [OF decodes_get(1)], subst if_not_P, assumption, rule decodes_need, simp,
       rule decodes_alloc, assumption, simp add: MEM_SIZE_MAX_def)
  then show ?case by (simp add: item_wire_def [of it])
qed

declare rtcp_sdes_decode_items.simps [simp del]

lemma length_items_wire: "length items \<le> length (concat (map item_wire items))"
  by (induction items) (auto simp: item_wire_def)

lemma rtcp_sdes_decodes:
  assumes "mem_ok al" "sdes_ok s"
  shows "decodes (rtcp_sdes_decode al) (sdes_wire s) s"
proof (rule decodesI)
  fix mb rest assume mb: "readable mb" "mb_left mb = sdes_wire s @ rest"
  let ?items = "concat (map item_wire (sdes_items s)) @ [0]"
  have len: "length (sdes_items s) \<le> length (concat (map item_wire (sdes_items s)))"
    by (rule length_items_wire)
  have l: "mb_left mb = be32 (sdes_src s) @ ?items @ padding 0 (length (sdes_body s)) @ rest"
    using mb(2) by (simp add: sdes_wire_def sdes_body_def)
  have "decodes (dec_bind dec_left (\<lambda>left. rtcp_sdes_decode_items al 0 (Suc left))) ?items (sdes_items s)"
    using rtcp_sdes_items_decodes [OF assms(1)] assms(2) len
    by (intro decodes_left) (auto simp: sdes_ok_def sdes_wire_def sdes_body_def)
  then have "dec_bind dec_left (\<lambda>left. rtcp_sdes_decode_items al 0 (Suc left)) (mb_adv mb 4) =
      (Inr (sdes_items s), mb_adv mb (4 + length ?items))"
    using decodesD [OF _ readable_adv [OF mb(1), of 4], of _ ?items "sdes_items s" "padding 0 (length (sdes_body s)) @ rest"] l
    by simp
  moreover have "slurp (mb_pos mb) (mb_adv mb (4 + length ?items)) = mb_adv mb (length (sdes_wire s))"
    using slurp_padding [OF mb(1), of "sdes_body s" 0 rest] mb(2) by (simp add: sdes_wire_def sdes_body_def add.assoc)
  moreover have "get_be32 mb = (Inr (sdes_src s), mb_adv mb 4)"
    using decodesD [OF decodes_get(3) mb(1)] l by simp
  ultimately show "rtcp_sdes_decode al mb = (Inr s, mb_adv mb (length (sdes_wire s)))"
    using l mbuf_get_left_len [OF readable_wf [OF mb(1)]]
    by (auto simp: rtcp_sdes_decode_def dec_bind_def dec_need_def dec_pos_def dec_slurp_def dec_return_def
        split: prod.splits sum.splits)
qed

section \<open>Packets\<close>

fun body_wire :: "rtcp_body \<Rightarrow> byte list" where
  "body_wire (Msg_SR i rrv) = concat (map be32 [sr_ssrc i, sr_ntp_sec i, sr_ntp_frac i, sr_rtp_ts i, sr_psent i, sr_osent i]) @
     concat (map rr_wire rrv)"
| "body_wire (Msg_RR ssrc rrv) = be32 ssrc @ concat (map rr_wire rrv)"
| "body_wire (Msg_SDES v) = concat (map sdes_wire v)"
| "body_wire (Msg_BYE srcs reason) = concat (map be32 srcs) @
     (case reason of None \<Rightarrow> [] | Some text \<Rightarrow> of_nat (length text) # text)"
| "body_wire (Msg_APP src name data) = be32 src @ name @ (case data of None \<Rightarrow> [] | Some bs \<Rightarrow> bs)"
| "body_wire (Msg_FIR ssrc) = be32 ssrc"
| "body_wire (Msg_NACK ssrc fsn blp) = be32 ssrc @ be16 fsn @ be16 blp"
| "body_wire (Msg_FB s m f) = be32 s @ be32 m @ fci_wire f"
| "body_wire Msg_unknown = []"

text \<open>
  The packets that have an encoder: the count agrees with the body, lengths fit their fields, and
  application data is not empty.
\<close>

fun body_ok :: "nat \<Rightarrow> rtcp_body \<Rightarrow> bool" where
  "body_ok c (Msg_SR i rrv) \<longleftrightarrow> c = length rrv"
| "body_ok c (Msg_RR ssrc rrv) \<longleftrightarrow> c = length rrv"
| "body_ok c (Msg_SDES v) \<longleftrightarrow> c = length v \<and> (\<forall>s \<in> set v. sdes_ok s)"
| "body_ok c (Msg_BYE srcs reason) \<longleftrightarrow> c = length srcs \<and>
     (case reason of None \<Rightarrow> True | Some text \<Rightarrow> length text \<le> 255 \<and> 0 \<notin> set text)"
| "body_ok c (Msg_APP src name data) \<longleftrightarrow> length name = 4 \<and>
     (case data of None \<Rightarrow> True | Some bs \<Rightarrow> bs \<noteq> [] \<and> length bs mod 4 = 0)"
| "body_ok c (Msg_FIR ssrc) \<longleftrightarrow> True"
| "body_ok c (Msg_NACK ssrc fsn blp) \<longleftrightarrow> True"
| "body_ok c (Msg_FB s m f) \<longleftrightarrow> fci_ok c f"
| "body_ok c Msg_unknown \<longleftrightarrow> False"

text \<open>The encode handlers that write the repeated parts, one after the other.\<close>

fun sdes_ench :: "alloc \<Rightarrow> rtcp_sdes list \<Rightarrow> ench" where
  "sdes_ench al [] mb = Some (0, mb)"
| "sdes_ench al (s # v) mb = Option.bind (rtcp_sdes_encode al mb (sdes_src s) (sdes_args s))
     (\<lambda>r. if fst r \<noteq> 0 then Some r else sdes_ench al v (snd r))"

fun args_of :: "alloc \<Rightarrow> rtcp_body \<Rightarrow> rtcp_args" where
  "args_of al (Msg_SR i rrv) = Enc_SR i (Some (each_ench (\<lambda>mb. rtcp_rr_encode al mb) rrv))"
| "args_of al (Msg_RR ssrc rrv) = Enc_RR ssrc (Some (each_ench (\<lambda>mb. rtcp_rr_encode al mb) rrv))"
| "args_of al (Msg_SDES v) = Enc_SDES (Some (sdes_ench al v))"
| "args_of al (Msg_BYE srcs reason) = Enc_BYE srcs reason"
| "args_of al (Msg_APP src name data) = Enc_APP src name data"
| "args_of al (Msg_FIR ssrc) = Enc_FIR ssrc"
| "args_of al (Msg_NACK ssrc fsn blp) = Enc_NACK ssrc fsn blp"
| "args_of al (Msg_FB s m f) = (if fci_rtp f then Enc_RTPFB s m (fci_ench al f) else Enc_PSFB s m (fci_ench al f))"
| "args_of al Msg_unknown = Enc_other 0"

lemma sdes_ench_written:
  assumes "mem_ok al" "mbuf_wf mb" "mb_pos mb \<le> mb_end mb" "\<forall>s \<in> set v. sdes_ok s"
    "mb_pos mb + length (concat (map sdes_wire v)) < 2 ^ 31"
  shows "\<exists>mb'. sdes_ench al v mb = Some (0, mb') \<and> written mb (concat (map sdes_wire v)) mb'"
  using assms(2-)
proof (induction v arbitrary: mb)
  case (Cons s v)
  obtain mb1 where 1: "rtcp_sdes_encode al mb (sdes_src s) (sdes_args s) = Some (0, mb1)" "written mb (sdes_wire s) mb1"
    using rtcp_sdes_encode_written [OF assms(1) Cons.prems(1)] Cons.prems by fastforce
  from Cons.IH [of mb1] Cons.prems 1(2) obtain mb2 where
    "sdes_ench al v mb1 = Some (0, mb2)" "written mb1 (concat (map sdes_wire v)) mb2"
    by (auto simp: written_def)
  with 1 show ?case by (auto intro: written_trans)
qed simp

lemma rtcp_bye_srcs_written:
  assumes "mem_ok al" "written mb bs mb1" "mb_pos mb + length bs + length (concat (map be32 srcs)) < 2 ^ 31"
  shows "\<exists>mb2. rtcp_bye_srcs al srcs (0, mb1) = (0, mb2) \<and> written mb (bs @ concat (map be32 srcs)) mb2"
  using assms(2,3)
proof (induction srcs arbitrary: bs mb1)
  case (Cons s srcs)
  have "emits al mb1 (be32 s) (mbuf_write_u32 al mb1 (htonl s))"
    using Cons.prems written_pos [OF Cons.prems(1)] by (intro mbuf_write_uN_emits) (auto dest: written_wf)
  then obtain mb2 where 1: "mbuf_write_u32 al mb1 (htonl s) = (0, mb2)" "written mb1 (be32 s) mb2"
    using emits_written [OF assms(1)] by metis
  from Cons.IH [OF written_trans [OF Cons.prems(1) 1(2)]] Cons.prems(2) 1(1) show ?case by auto
qed auto

lemma write_all_written:
  assumes "mem_ok al" "mbuf_wf mb" "mb_pos mb \<le> mb_end mb" "mb_pos mb + length (concat (map be32 ws)) < 2 ^ 31"
  shows "\<exists>mb1. err_each (\<lambda>mb v. mbuf_write_u32 al mb (htonl v)) ws (0, mb) = (0, mb1) \<and>
    written mb (concat (map be32 ws)) mb1"
proof -
  have "emits al mb ([] @ concat (map be32 ws)) (err_each (\<lambda>mb v. mbuf_write_u32 al mb (htonl v)) ws (0, mb))"
    using assms by (intro emits_err_each mbuf_write_uN_emits) (auto simp: emits_def)
  then show ?thesis using emits_written [OF assms(1)] by (metis append_Nil)
qed

lemma write_words_written:
  assumes "mem_ok al" "mbuf_wf mb" "mb_pos mb + 8 < 2 ^ 31"
  shows "\<exists>mb1. mbuf_write_u32 al mb (htonl v) = (0, mb1) \<and> written mb (be32 v) mb1"
    "\<exists>mb1. err_or (mbuf_write_u32 al mb (htonl v)) (\<lambda>mb. mbuf_write_u32 al mb (htonl w)) = (0, mb1) \<and>
      written mb (be32 v @ be32 w) mb1"
proof -
  have 1: "emits al mb (be32 v) (mbuf_write_u32 al mb (htonl v))"
    using assms by (intro mbuf_write_uN_emits) auto
  have 2: "emits al mb (be32 v @ be32 w) (err_or (mbuf_write_u32 al mb (htonl v)) (\<lambda>mb. mbuf_write_u32 al mb (htonl w)))"
    using assms by (intro emits_err_or mbuf_write_uN_emits) auto
  show "\<exists>mb1. mbuf_write_u32 al mb (htonl v) = (0, mb1) \<and> written mb (be32 v) mb1"
    "\<exists>mb1. err_or (mbuf_write_u32 al mb (htonl v)) (\<lambda>mb. mbuf_write_u32 al mb (htonl w)) = (0, mb1) \<and>
      written mb (be32 v @ be32 w) mb1"
    using emits_written [OF assms(1) 1] emits_written [OF assms(1) 2] by metis+
qed

lemma rtcp_vencode_body_written:
  assumes "mem_ok al" "mbuf_wf mb" "mb_pos mb \<le> mb_end mb" "body_ok c b" "mb_pos mb + length (body_wire b) < 2 ^ 31"
    and bnd: "mb_pos mb + 8 < 2 ^ 31"
  shows "\<exists>mb1. rtcp_vencode_body al mb c (args_of al b) = Some (Inr (0, mb1)) \<and> written mb (body_wire b) mb1"
proof (cases "(c, b)" rule: body_ok.cases)
  case (1 c' i rrv)
  then obtain mb1 where w: "err_each (\<lambda>mb v. mbuf_write_u32 al mb (htonl v))
      [sr_ssrc i, sr_ntp_sec i, sr_ntp_frac i, sr_rtp_ts i, sr_psent i, sr_osent i] (0, mb) = (0, mb1)"
    "written mb (concat (map be32 [sr_ssrc i, sr_ntp_sec i, sr_ntp_frac i, sr_rtp_ts i, sr_psent i, sr_osent i])) mb1"
    using write_all_written [OF assms(1-3), of "[sr_ssrc i, sr_ntp_sec i, sr_ntp_frac i, sr_rtp_ts i, sr_psent i, sr_osent i]"]
      assms(5) by (auto simp del: err_each.simps)
  from rr.enc_each_written [OF assms(1) w(2), of rrv] assms(5) 1 w(1) show ?thesis
    by (auto simp: run_ench_each simp del: err_each.simps)
next
  case (2 c' ssrc rrv)
  then obtain mb1 where w: "mbuf_write_u32 al mb (htonl ssrc) = (0, mb1)" "written mb (be32 ssrc) mb1"
    using write_words_written(1) [OF assms(1,2)] bnd by auto
  from rr.enc_each_written [OF assms(1) w(2), of rrv] assms(5) 2 w(1) show ?thesis
    by (auto simp: run_ench_each)
next
  case (3 c' v)
  then show ?thesis using sdes_ench_written [OF assms(1-3), of v] assms(4,5) by (auto simp: run_ench_def)
next
  case (4 c' srcs reason)
  then obtain mb1 where w: "rtcp_bye_srcs al srcs (0, mb) = (0, mb1)" "written mb (concat (map be32 srcs)) mb1"
    using rtcp_bye_srcs_written [OF assms(1) written_Nil [OF assms(2,3)], of srcs] assms(5) by auto
  show ?thesis
  proof (cases reason)
    case (Some txts)
    have "emits al mb1 ([of_nat (length txts)] @ txts)
       (err_or (mbuf_write_u8 al mb1 (of_nat (length txts))) (\<lambda>mb. mbuf_write_str al mb (Some txts)))"
      unfolding mbuf_write_str_def option.simps
      using 4 assms(5) Some written_pos [OF w(2)] written_wf [OF w(2)]
      by (intro emits_err_or mbuf_write_uN_emits mbuf_write_mem_emits) auto
    from emits_ok [OF this assms(1)] written_trans [OF w(2), of "[of_nat (length txts)] @ txts"] 4 w Some assms(4)
    show ?thesis by (auto simp: Let_def err_or_def split: prod.splits)
  qed (use 4 w assms(4) in auto)
next
  case (5 c' src name data)
  have "emits al mb (be32 src @ take 4 name) (err_or (mbuf_write_u32 al mb (htonl src)) (\<lambda>mb. mbuf_write_mem al mb (take 4 name)))"
    using 5 assms(2,4,5) by (intro emits_err_or mbuf_write_uN_emits mbuf_write_mem_emits) auto
  then have e: "emits al mb (be32 src @ name) (err_or (mbuf_write_u32 al mb (htonl src)) (\<lambda>mb. mbuf_write_mem al mb name))"
    using 5 assms(4) by simp
  show ?thesis
  proof (cases data)
    case None
    then show ?thesis using 5 assms(4) emits_ex [OF assms(1) e] by auto
  next
    case (Some bs)
    have "emits al mb ((be32 src @ name) @ bs) (err_or (err_or (mbuf_write_u32 al mb (htonl src)) (\<lambda>mb. mbuf_write_mem al mb name))
        (\<lambda>mb. mbuf_write_mem al mb bs))"
      using 5 assms(4,5) Some by (intro emits_err_or [OF e] mbuf_write_mem_emits) auto
    from emits_ex [OF assms(1) this] show ?thesis using 5 assms(4) Some by auto
  qed
next
  case (6 c' ssrc)
  then obtain mb1 where "mbuf_write_u32 al mb (htonl ssrc) = (0, mb1)" "written mb (be32 ssrc) mb1"
    using write_words_written(1) [OF assms(1,2)] bnd by auto
  then show ?thesis using 6 by auto
next
  case (7 c' ssrc fsn blp)
  have "emits al mb ((be32 ssrc @ be16 fsn) @ be16 blp) (err_or (err_or (mbuf_write_u32 al mb (htonl ssrc))
       (\<lambda>mb. mbuf_write_u16 al mb (htons fsn))) (\<lambda>mb. mbuf_write_u16 al mb (htons blp)))"
    using 7 assms(2,5) by (intro emits_err_or mbuf_write_uN_emits) auto
  from emits_ex [OF assms(1) this] 7 show ?thesis by auto
next
  case (8 c' s m f)
  then obtain mb1 where w: "err_or (mbuf_write_u32 al mb (htonl s)) (\<lambda>mb. mbuf_write_u32 al mb (htonl m)) = (0, mb1)"
    "written mb (be32 s @ be32 m) mb1"
    using write_words_written(2) [OF assms(1,2)] assms(5) by auto
  from fci_ench_written [OF assms(1) w(2), of c' f] assms(4,5) 8 w(1) show ?thesis by auto
qed (use assms(4) in auto)

lemma length_rr_wires [simp]: "length (concat (map rr_wire rrv)) = 24 * length rrv"
  by (induction rrv) auto

definition body_type :: "rtcp_body \<Rightarrow> byte" where
  "body_type b = args_type (args_of (\<lambda>_. None) b)"

lemma decode_sr_decodes:
  assumes "mem_ok al" "length rrv < 32"
  shows "decodes (rtcp_decode_sr al (length rrv)) (body_wire (Msg_SR i rrv)) (Msg_SR i rrv)"
proof -
  have "decodes (rtcp_decode_sr al (length rrv))
    (be32 (sr_ssrc i) @ be32 (sr_ntp_sec i) @ be32 (sr_ntp_frac i) @ be32 (sr_rtp_ts i) @ be32 (sr_psent i) @ be32 (sr_osent i) @
     concat (map rr_wire rrv))
    (Msg_SR \<lparr>sr_ssrc = sr_ssrc i, sr_ntp_sec = sr_ntp_sec i, sr_ntp_frac = sr_ntp_frac i, sr_rtp_ts = sr_rtp_ts i,
       sr_psent = sr_psent i, sr_osent = sr_osent i\<rparr> rrv)"
    unfolding rtcp_decode_sr_def
    by (rule decodes_need, simp, (rule decodes_bind [OF decodes_get(3)])+, rule decodes_alloc [OF assms(1)],
        use assms(2) in \<open>simp add: MEM_SIZE_MAX_def\<close>, rule decodes_then_return, rule rr.roundtrip_list) simp
  moreover have "\<lparr>sr_ssrc = sr_ssrc i, sr_ntp_sec = sr_ntp_sec i, sr_ntp_frac = sr_ntp_frac i, sr_rtp_ts = sr_rtp_ts i,
       sr_psent = sr_psent i, sr_osent = sr_osent i\<rparr> = i" by (cases i) simp
  ultimately show ?thesis by simp
qed

lemma decode_bye_decodes:
  assumes "mem_ok al" "body_ok c (Msg_BYE srcs reason)" "length srcs < 32"
    "rem = length (body_wire (Msg_BYE srcs reason)) + length (padding 0 (length (body_wire (Msg_BYE srcs reason))))"
  shows "decodes (rtcp_decode_bye al (length srcs) rem) (body_wire (Msg_BYE srcs reason)) (Msg_BYE srcs reason)"
proof -
  have srcs: "decodes (dec_many (length srcs) get_be32) (concat (map be32 srcs)) srcs"
    by (intro decodes_many decodes_get)
  have r: "decodes (if rem > 4 * length srcs then
       dec_bind get_u8 (\<lambda>len.
       dec_bind (dec_need (unat len) EBADMSG) (\<lambda>_.
       dec_bind (dec_alloc al (unat len + 1)) (\<lambda>_.
       dec_bind (get_mem (unat len)) (\<lambda>text. dec_return (Msg_BYE srcs (Some text))))))
     else dec_return (Msg_BYE srcs None)) (case reason of None \<Rightarrow> [] | Some text \<Rightarrow> of_nat (length text) # text) (Msg_BYE srcs reason)"
  proof (cases reason)
    case None
    then show ?thesis using assms(4) padding_step(2) [of "4 * length srcs"] by (simp add: decodes_return)
  next
    case (Some t)
    have u: "unat (of_nat (length t) :: byte) = length t" "length t \<le> 255" using assms(2) Some by (auto simp: unat_of_nat)
    have "decodes (dec_bind get_u8 (\<lambda>len.
       dec_bind (dec_need (unat len) EBADMSG) (\<lambda>_.
       dec_bind (dec_alloc al (unat len + 1)) (\<lambda>_.
       dec_bind (get_mem (unat len)) (\<lambda>text. dec_return (Msg_BYE srcs (Some text))))))) ([of_nat (length t)] @ t) (Msg_BYE srcs (Some t))"
      by (rule decodes_bind [OF decodes_get(1)], rule decodes_need, use u in simp, rule decodes_alloc [OF assms(1)],
          use u in \<open>simp add: MEM_SIZE_MAX_def\<close>, rule decodes_then_return, rule decodes_mem, use u in simp)
    then show ?thesis using assms(4) Some by simp
  qed
  show ?thesis
    unfolding rtcp_decode_bye_def body_wire.simps
    by (rule decodes_alloc [OF assms(1)], use assms(3) in \<open>simp add: MEM_SIZE_MAX_def\<close>, rule decodes_need, simp,
        rule decodes_bind, rule srcs, rule r)
qed

lemma decode_app_decodes:
  assumes "mem_ok al" "body_ok c (Msg_APP src name data)" "rem \<le> 2 ^ 20"
    "rem = length (body_wire (Msg_APP src name data))"
  shows "decodes (rtcp_decode_app al rem) (body_wire (Msg_APP src name data)) (Msg_APP src name data)"
proof -
  have r: "decodes (if rem > 8 then
       dec_bind (dec_alloc al (rem - 8)) (\<lambda>_.
       dec_bind (dec_need (rem - 8) EBADMSG) (\<lambda>_.
       dec_bind (get_mem (rem - 8)) (\<lambda>data. dec_return (Msg_APP src name (Some data)))))
     else dec_return (Msg_APP src name None)) (case data of None \<Rightarrow> [] | Some bs \<Rightarrow> bs) (Msg_APP src name data)"
  proof (cases data)
    case None
    then show ?thesis using assms(2,4) by (simp add: decodes_return)
  next
    case (Some bs)
    then have "rem = 8 + length bs" "bs \<noteq> []" using assms(2,4) by auto
    then show ?thesis using Some assms(1,3)
      by (auto intro!: decodes_alloc decodes_need decodes_then_return decodes_mem simp: MEM_SIZE_MAX_def)
  qed
  show ?thesis
    unfolding rtcp_decode_app_def body_wire.simps
    by (rule decodes_need, use assms(2) in simp, rule decodes_bind [OF decodes_get(3)],
        rule decodes_bind, rule decodes_mem, use assms(2) in simp, rule r)
qed

lemma decode_fb_decodes:
  assumes "2 \<le> unat (rh_length hdr)" "decodes (fb al (rh_count hdr) (unat (rh_length hdr) - 2)) bs fci"
  shows "decodes (rtcp_decode_fb al fb hdr) (be32 s @ be32 m @ bs) (Msg_FB s m fci)"
  unfolding rtcp_decode_fb_def using assms
  by (intro decodes_need) (auto intro!: decodes_bind [OF decodes_get(3)] decodes_then_return simp: word_less_nat_alt)

lemma sdes_list_decodes:
  assumes "mem_ok al" "length v < 32" "\<forall>s \<in> set v. sdes_ok s"
  shows "decodes (if length v = 0 then dec_return (Msg_SDES []) else
          dec_bind (dec_alloc al (24 * length v)) (\<lambda>_.
          dec_bind (dec_many (length v) (rtcp_sdes_decode al)) (\<lambda>v. dec_return (Msg_SDES v))))
     (concat (map sdes_wire v)) (Msg_SDES v)"
  using assms
  by (auto intro!: decodes_return decodes_alloc decodes_then_return decodes_many rtcp_sdes_decodes simp: MEM_SIZE_MAX_def)

lemma rtcp_decode_body_decodes:
  assumes "mem_ok al" "body_ok (unat (rh_count hdr)) b" "rh_pt hdr = body_type b" "rh_count hdr < 32"
    "4 * unat (rh_length hdr) = length (body_wire b) + length (padding 0 (length (body_wire b)))"
  shows "decodes (rtcp_decode_body al hdr) (body_wire b) b"
proof -
  note def = rtcp_decode_body_def Let_def
  have c: "unat (rh_count hdr) < 32" using assms(4) by (simp add: word_less_nat_alt)
  have len: "4 * unat (rh_length hdr) < 2 ^ 20" proof -
    have "unat (rh_length hdr) < 2 ^ 16" using unsigned_less [of "rh_length hdr"] by simp
    then show ?thesis by simp
  qed
  show ?thesis
  proof (cases "(unat (rh_count hdr), b)" rule: body_ok.cases)
    case (1 c' i rrv)
    then show ?thesis using decode_sr_decodes [OF assms(1), of rrv i] assms(2,3) c by (simp add: def body_type_def)
  next
    case (2 c' ssrc rrv)
    then show ?thesis using assms(1-3) c
      by (auto intro!: decodes_need decodes_bind [OF decodes_get(3)] decodes_alloc decodes_then_return rr.roundtrip_list
          simp: def body_type_def MEM_SIZE_MAX_def)
  next
    case (3 c' v)
    then show ?thesis using sdes_list_decodes [OF assms(1), of v] assms(2,3) c by (auto simp: def body_type_def)
  next
    case (4 c' srcs reason)
    then show ?thesis using decode_bye_decodes [OF assms(1), of c' srcs reason] assms(2,3,5) c
      by (simp add: def body_type_def mult.commute)
  next
    case (5 c' src name data)
    then have "length (body_wire b) mod 4 = 0" using assms(2) by (auto split: option.splits simp: mod_add_eq)
    then show ?thesis using 5 decode_app_decodes [OF assms(1), of c' src name data] assms(2,3,5) len padding_step(2)
      by (simp add: def body_type_def mult.commute)
  next
    case (6 c' ssrc)
    then show ?thesis using assms(3)
      by (auto intro!: decodes_need decodes_then_return decodes_get simp: def body_type_def)
  next
    case (7 c' ssrc fsn blp)
    then show ?thesis using assms(3)
      by (auto intro!: decodes_need decodes_bind [OF decodes_get(3)] decodes_bind [OF decodes_get(2)]
          decodes_then_return decodes_get simp: def body_type_def)
  next
    case (8 c' s m f)
    then have f: "fci_ok (unat (rh_count hdr)) f" using assms(2) by auto
    have "length (body_wire b) mod 4 = 0" using 8 fci_wire_words [OF f] by (simp add: mod_add_right_eq [of 8, symmetric])
    then have n: "4 * unat (rh_length hdr) = 8 + length (fci_wire f)" using 8 assms(5) padding_step(2) by simp
    then have "decodes ((if fci_rtp f then rtcp_rtpfb_decode else rtcp_psfb_decode) al (rh_count hdr) (unat (rh_length hdr) - 2)) (fci_wire f) f"
      using len by (intro fci_decodes [OF assms(1) f]) auto
    then show ?thesis using 8 assms(3) n
      by (auto intro!: decode_fb_decodes simp: def body_type_def split: if_splits)
  qed (use assms(2) in auto)
qed

definition hdr_wire :: "byte \<Rightarrow> byte \<Rightarrow> 16 word \<Rightarrow> byte list" where
  "hdr_wire count ty len = [push_bit 6 2 OR count, ty] @ be16 len"

lemma length_hdr_wire [simp]: "length (hdr_wire count ty len) = 4"
  by (simp add: hdr_wire_def)

lemma rtcp_hdr_encode_emits:
  assumes "mbuf_wf mb" "mb_pos mb + 4 < 2 ^ 31"
  shows "emits al mb (hdr_wire count ty len) (rtcp_hdr_encode al mb count ty len)"
proof -
  have "emits al mb (([push_bit 6 2 OR count] @ [ty]) @ be16 len) (rtcp_hdr_encode al mb count ty len)"
    unfolding rtcp_hdr_encode_def using assms by (intro emits_err_or mbuf_write_uN_emits) auto
  then show ?thesis by (simp add: hdr_wire_def)
qed

lemma hdr_byte:
  assumes "count < (32 :: byte)"
  shows "drop_bit 6 (push_bit 6 2 OR count) AND 3 = 2" "drop_bit 5 (push_bit 6 2 OR count) AND 1 = 0"
    "(push_bit 6 2 OR count) AND 0x1f = count"
proof -
  have m: "x AND 3 = take_bit 2 x" "x AND 1 = take_bit 1 x" "x AND 0x1f = take_bit 5 x" for x :: byte
    by (simp_all add: take_bit_eq_mask mask_eq_exp_minus_1)
  have two: "(2 :: byte) = push_bit 1 1" by simp
  have "uint count < 2 ^ 5" using assms by (simp add: word_less_def)
  note b = bit_below [OF this]
  show "drop_bit 6 (push_bit 6 2 OR count) AND 3 = 2" "(push_bit 6 2 OR count) AND 0x1f = count"
    unfolding m two by (rule bit_word_eqI; auto simp: bit_simps dest: b)+
  have "\<not> bit count 5" using b [of 5] by auto
  then show "drop_bit 5 (push_bit 6 2 OR count) AND 1 = 0"
    unfolding m two by (intro bit_word_eqI) (auto simp: bit_simps simp flip: bit_iff_odd_drop_bit)
qed

lemma rtcp_hdr_decodes:
  assumes "count < 32"
  shows "decodes rtcp_hdr_decode (hdr_wire count ty len)
    \<lparr>rh_version = 2, rh_p = False, rh_count = count, rh_pt = ty, rh_length = len\<rparr>"
proof -
  let ?b = "push_bit 6 2 OR count"
  have "decodes rtcp_hdr_decode ([?b] @ [ty] @ be16 len @ []) \<lparr>rh_version = drop_bit 6 ?b AND 3, rh_p = (drop_bit 5 ?b AND 1 \<noteq> 0),
       rh_count = ?b AND 0x1f, rh_pt = ty, rh_length = len\<rparr>"
    unfolding rtcp_hdr_decode_def by (rule decodes_need, simp, (rule decodes_intros)+)
  then show ?thesis unfolding hdr_byte [OF assms] by (simp add: hdr_wire_def)
qed

text \<open>Encoding a packet leaves its wire format at the old position, and the position at its end.\<close>

lemma rtcp_encode_wire:
  assumes "mem_ok al" "mbuf_wf mb" "mb_pos mb + 4 \<le> mb_size mb" "body_ok (unat count) b"
    "mb_pos mb + 12 + length (body_wire b) < 2 ^ 31"
  shows "\<exists>mb'. rtcp_encode al mb count (args_of al b) = Some (0, mb') \<and> mbuf_wf mb' \<and> mb_pos mb' = mb_end mb' \<and>
     mb_pos mb \<le> mb_pos mb' \<and>
     mb_left (mb'\<lparr>mb_pos := mb_pos mb\<rparr>) =
       hdr_wire (ucast count) (args_type (args_of al b)) (of_nat ((length (body_wire b) + length (padding 0 (length (body_wire b)))) div 4)) @
       body_wire b @ padding 0 (length (body_wire b))"
proof -
  let ?pos = "mb_pos mb" and ?bw = "body_wire b" and ?pad = "padding 0 (length (body_wire b))"
  let ?len = "of_nat ((length ?bw + length ?pad) div 4)"
  let ?mb0 = "mb\<lparr>mb_pos := ?pos + 4, mb_end := ?pos + 4\<rparr>"
  have pad: "length ?pad < 4" by (rule length_padding)
  have wf0: "mbuf_wf ?mb0" using assms(2,3) by (simp add: mbuf_wf_def)
  obtain mb1 where 1: "rtcp_vencode_body al ?mb0 (unat count) (args_of al b) = Some (Inr (0, mb1))" "written ?mb0 ?bw mb1"
    using rtcp_vencode_body_written [OF assms(1) wf0 _ assms(4)] assms(5) by auto
  obtain mb2 where 2: "pad_loop al mb_end 0 ?pos (0, mb1) = Some (0, mb2)" "written ?mb0 (?bw @ ?pad) mb2"
    using pad_loop_written [OF assms(1) 1(2), of ?pos mb_end 0] assms(5) pad by (auto simp: written_def)
  have e2: "mb_end mb2 = ?pos + 4 + (length ?bw + length ?pad)" "mbuf_wf mb2" using 2(2) by (auto simp: written_def)
  have "mbuf_wf (mb2\<lparr>mb_pos := ?pos\<rparr>)" using e2(2) by (simp add: mbuf_wf_def)
  then have "emits al (mb2\<lparr>mb_pos := ?pos\<rparr>) (hdr_wire (ucast count) (args_type (args_of al b)) ?len)
      (rtcp_hdr_encode al (mb2\<lparr>mb_pos := ?pos\<rparr>) (ucast count) (args_type (args_of al b)) ?len)"
    using assms(5) by (intro rtcp_hdr_encode_emits) auto
  then obtain mb3 where 3: "rtcp_hdr_encode al (mb2\<lparr>mb_pos := ?pos\<rparr>) (ucast count) (args_type (args_of al b)) ?len = (0, mb3)"
    "written (mb2\<lparr>mb_pos := ?pos\<rparr>) (hdr_wire (ucast count) (args_type (args_of al b)) ?len) mb3"
    using emits_written [OF assms(1)] by metis
  have e3: "mb_end mb3 = mb_end mb2" "mb_pos mb3 = ?pos + 4" "mbuf_wf mb3" using 3(2) e2(1) by (auto simp: written_def)
  have same: "take (mb_end mb3 - mb_pos mb3) (drop (mb_pos mb3) (mb_buf mb3)) = ?bw @ ?pad"
  proof (rule nth_equalityI)
    show "length (take (mb_end mb3 - mb_pos mb3) (drop (mb_pos mb3) (mb_buf mb3))) = length (?bw @ ?pad)"
      using e3 e2 by (auto simp: mbuf_wf_def)
    fix i assume i: "i < length (take (mb_end mb3 - mb_pos mb3) (drop (mb_pos mb3) (mb_buf mb3)))"
    then have l: "i < length ?bw + length ?pad" using e3 e2 by auto
    have "mb_buf mb3 ! (?pos + 4 + i) = mb_buf mb2 ! (?pos + 4 + i)"
      using 3(2) l e2 by (auto simp: written_def mbuf_wf_def)
    then show "take (mb_end mb3 - mb_pos mb3) (drop (mb_pos mb3) (mb_buf mb3)) ! i = (?bw @ ?pad) ! i"
      using written_nth [OF 2(2), of i] i l e3 by (auto simp: nth_drop)
  qed
  have "rtcp_encode al mb count (args_of al b) = Some (0, mb3\<lparr>mb_pos := mb_end mb3\<rparr>)"
    using 1 2 3 e2 assms(5) pad by (simp add: rtcp_encode_def rtcp_vencode_def Let_def)
  moreover have "mb_left ((mb3\<lparr>mb_pos := mb_end mb3\<rparr>)\<lparr>mb_pos := ?pos\<rparr>) =
      hdr_wire (ucast count) (args_type (args_of al b)) ?len @ ?bw @ ?pad"
    using written_left [OF 3(2)] unfolding same by simp
  ultimately show ?thesis using e3 e2 by (auto simp: mbuf_wf_def)
qed

lemma args_type_of: "args_type (args_of al b) = body_type b"
  unfolding body_type_def by (cases b) auto

lemma rtcp_decode_packet:
  assumes "mem_ok al" "readable mb" "mb_left mb = hdr_wire count ty len @ bw @ padding 0 (length bw) @ rest" "count < 32"
    "unat len * 4 \<le> length bw + length (padding 0 (length bw)) + length rest"
    "decodes (rtcp_decode_body al \<lparr>rh_version = 2, rh_p = False, rh_count = count, rh_pt = ty, rh_length = len\<rparr>) bw b"
  shows "rtcp_decode al mb = (Inr \<lparr>msg_hdr = \<lparr>rh_version = 2, rh_p = False, rh_count = count, rh_pt = ty, rh_length = len\<rparr>,
      msg_r = b\<rparr>, mb_adv mb (4 + length bw + length (padding 0 (length bw))))"
proof -
  let ?hdr = "\<lparr>rh_version = 2, rh_p = False, rh_count = count, rh_pt = ty, rh_length = len\<rparr>"
  have "rtcp_hdr_decode mb = (Inr ?hdr, mb_adv mb 4)"
    using decodesD [OF rtcp_hdr_decodes [OF assms(4)] assms(2,3)] by simp
  moreover have "rtcp_decode_body al ?hdr (mb_adv mb 4) = (Inr b, mb_adv mb (4 + length bw))"
    using decodesD [OF assms(6) readable_adv [OF assms(2), of 4]] assms(3) by simp
  moreover have "slurp (mb_pos mb) (mb_adv mb (4 + length bw)) = mb_adv mb (4 + length bw + length (padding 0 (length bw)))"
    using slurp_padding [OF assms(2), of "hdr_wire count ty len @ bw" 0 rest] assms(3) by (simp add: padding_def)
  moreover have "mbuf_get_left mb = 4 + (length bw + length (padding 0 (length bw)) + length rest)"
    using mbuf_get_left_len [OF readable_wf [OF assms(2)]] assms(3) by simp
  ultimately show ?thesis using mem_alloc_total [OF assms(1), of 64] assms(5)
    by (auto simp: rtcp_decode_def dec_bind_def dec_need_def dec_alloc_def dec_pos_def dec_slurp_def dec_return_def MEM_SIZE_MAX_def)
qed

text \<open>
  C26. RTCP packets survive the wire.  For every sender report, receiver report, source
  description, goodbye, application, FIR and NACK packet, and for every feedback packet with generic
  NACKs, transport-wide congestion control, a picture loss indication, slice losses, full intra requests or
  application data, whose counts and lengths fit their fields, \<^verbatim>\<open>rtcp_encode\<close> ends with success when
  the allocator works, and \<^verbatim>\<open>rtcp_decode\<close> at the old position gives back the header
  (version 2, no padding bit, the count, the type, the length in words) and the body, and consumes
  the packet with its padding exactly.
\<close>

theorem rtcp_packet_roundtrip:
  assumes "mem_ok al" "mbuf_wf mb" "mb_pos mb + 4 \<le> mb_size mb" "body_ok (unat count) b" "count < 32"
    and len: "length (body_wire b) \<le> 4 * 65535" "mb_pos mb + 12 + length (body_wire b) < 2 ^ 31"
  shows "\<exists>mb'. rtcp_encode al mb count (args_of al b) = Some (0, mb') \<and>
    rtcp_decode al (mb'\<lparr>mb_pos := mb_pos mb\<rparr>) =
      (Inr \<lparr>msg_hdr = \<lparr>rh_version = 2, rh_p = False, rh_count = ucast count, rh_pt = body_type b,
          rh_length = of_nat ((length (body_wire b) + 3) div 4)\<rparr>, msg_r = b\<rparr>, mb')"
proof -
  let ?bw = "body_wire b" and ?pad = "padding 0 (length (body_wire b))"
  let ?words = "(length ?bw + length ?pad) div 4"
  let ?hdr = "\<lparr>rh_version = 2, rh_p = False, rh_count = ucast count, rh_pt = body_type b, rh_length = of_nat ?words\<rparr>"
  obtain mb' where mb': "rtcp_encode al mb count (args_of al b) = Some (0, mb')" "mbuf_wf mb'" "mb_pos mb' = mb_end mb'"
      "mb_pos mb \<le> mb_pos mb'"
      "mb_left (mb'\<lparr>mb_pos := mb_pos mb\<rparr>) = hdr_wire (ucast count) (body_type b) (of_nat ?words) @ ?bw @ ?pad"
    using rtcp_encode_wire [OF assms(1-4) len(2)] unfolding args_type_of by blast
  have words: "?words = (length ?bw + 3) div 4" "4 * ?words = length ?bw + length ?pad"
    by (rule padding_words)+
  have w: "unat (of_nat ?words :: 16 word) = ?words" using len(1) words(1) by (auto simp: unat_of_nat)
  have c: "unat (ucast count :: byte) = unat count" "(ucast count :: byte) < 32"
    using assms(5) by (simp_all add: word_less_nat_alt unsigned_ucast_eq take_bit_nat_eq_self)
  let ?mb = "mb'\<lparr>mb_pos := mb_pos mb\<rparr>"
  have rd: "readable ?mb" using mb'(2-4) by (simp add: readable_def mbuf_wf_def)
  have "rtcp_decode al ?mb = (Inr \<lparr>msg_hdr = ?hdr, msg_r = b\<rparr>, mb_adv ?mb (4 + length ?bw + length ?pad))"
    using rtcp_decode_packet [OF assms(1) rd, of "ucast count" "body_type b" "of_nat ?words" ?bw "[]"] mb'(5) c w words(2)
      rtcp_decode_body_decodes [of al ?hdr b] assms(1,4) by simp
  moreover have "mb_adv ?mb (4 + length ?bw + length ?pad) = mb'"
  proof -
    have "mb_end mb' - mb_pos mb = 4 + length ?bw + length ?pad"
      using arg_cong [OF mb'(5), of length] rd by (simp add: length_mb_left [OF readable_wf] mbuf_get_left_def split: if_splits)
    then show ?thesis using mb'(3,4) by (simp add: mb_adv_def)
  qed
  ultimately show ?thesis using mb'(1) words(1) by auto
qed

theorem rtcp_packet_roundtrip_witness:
  "(\<exists>mb'. rtcp_encode (\<lambda>n. Some (\<lambda>i. 0)) (mbuf_init\<lparr>mb_buf := replicate 16 0, mb_size := 16\<rparr>) 1
        (args_of (\<lambda>n. Some (\<lambda>i. 0)) (Msg_BYE [7] (Some [98, 121]))) = Some (0, mb') \<and>
    rtcp_decode (\<lambda>n. Some (\<lambda>i. 0)) (mb'\<lparr>mb_pos := 0\<rparr>) =
      (Inr \<lparr>msg_hdr = \<lparr>rh_version = 2, rh_p = False, rh_count = 1, rh_pt = RTCP_BYE, rh_length = 2\<rparr>,
        msg_r = Msg_BYE [7] (Some [98, 121])\<rparr>, mb')) \<and>
   (\<exists>mb'. rtcp_encode (\<lambda>n. Some (\<lambda>i. 0)) (mbuf_init\<lparr>mb_buf := replicate 16 0, mb_size := 16\<rparr>) 4
        (args_of (\<lambda>n. Some (\<lambda>i. 0)) (Msg_FB 1 0 (Firs [(7, 3)]))) = Some (0, mb') \<and>
    rtcp_decode (\<lambda>n. Some (\<lambda>i. 0)) (mb'\<lparr>mb_pos := 0\<rparr>) =
      (Inr \<lparr>msg_hdr = \<lparr>rh_version = 2, rh_p = False, rh_count = 4, rh_pt = RTCP_PSFB, rh_length = 4\<rparr>,
        msg_r = Msg_FB 1 0 (Firs [(7, 3)])\<rparr>, mb'))"
  using rtcp_packet_roundtrip [of "\<lambda>n. Some (\<lambda>i. 0)" "(mbuf_init\<lparr>mb_buf := replicate 16 0, mb_size := 16\<rparr>)" 1
    "Msg_BYE [7] (Some [98, 121])"]
    rtcp_packet_roundtrip [of "\<lambda>n. Some (\<lambda>i. 0)" "(mbuf_init\<lparr>mb_buf := replicate 16 0, mb_size := 16\<rparr>)" 4
    "Msg_FB 1 0 (Firs [(7, 3)])"]
  by (simp add: mem_ok_def mbuf_wf_def MEM_SIZE_MAX_def body_type_def mbuf_init_def fir_wire_def)

text \<open>
  C28. Feedback of an unknown format is not skipped.  For a transport-layer feedback packet whose
  format is neither generic NACK nor transport-wide congestion control, \<^verbatim>\<open>rtcp_decode\<close> accepts
  the packet and leaves the buffer right after the two sources, twelve bytes into the packet, so
  that the receive loop goes on with the feedback control information as if it were the next packet.
\<close>

theorem rtcp_unknown_feedback_desync:
  assumes "mem_ok al" "readable mb" "mb_left mb = hdr_wire fmt RTCP_RTPFB len @ be32 s @ be32 m @ fci @ rest"
    "fmt < 32" "fmt \<notin> {1, 15}" "4 * unat len = 8 + length fci"
  shows "rtcp_decode al mb =
    (Inr \<lparr>msg_hdr = \<lparr>rh_version = 2, rh_p = False, rh_count = fmt, rh_pt = RTCP_RTPFB, rh_length = len\<rparr>,
       msg_r = Msg_FB s m No_fci\<rparr>, mb_adv mb 12) \<and> mb_left (mb_adv mb 12) = fci @ rest"
proof -
  have p: "padding 0 8 = []" by (simp add: padding_def)
  have "2 \<le> unat len" using assms(6) by linarith
  then have "decodes (rtcp_decode_fb al rtcp_rtpfb_decode
      \<lparr>rh_version = 2, rh_p = False, rh_count = fmt, rh_pt = RTCP_RTPFB, rh_length = len\<rparr>) (be32 s @ be32 m @ []) (Msg_FB s m No_fci)"
    using assms(5) by (intro decode_fb_decodes) (auto simp: rtcp_rtpfb_decode_def decodes_return)
  then have "decodes (rtcp_decode_body al \<lparr>rh_version = 2, rh_p = False, rh_count = fmt, rh_pt = RTCP_RTPFB, rh_length = len\<rparr>)
      (be32 s @ be32 m) (Msg_FB s m No_fci)"
    by (simp add: rtcp_decode_body_def Let_def)
  from rtcp_decode_packet [OF assms(1,2) _ assms(4) _ this, of "fci @ rest"] assms(3,6) p
  show ?thesis by simp
qed

theorem rtcp_unknown_feedback_desync_witness:
  "rtcp_decode (\<lambda>n. Some (\<lambda>i. 0)) (mbuf_init\<lparr>mb_buf := hdr_wire 3 RTCP_RTPFB 3 @ be32 1 @ be32 2 @ [9, 9, 9, 9], mb_size := 16, mb_end := 16\<rparr>) =
    (Inr \<lparr>msg_hdr = \<lparr>rh_version = 2, rh_p = False, rh_count = 3, rh_pt = RTCP_RTPFB, rh_length = 3\<rparr>,
       msg_r = Msg_FB 1 2 No_fci\<rparr>,
     mb_adv (mbuf_init\<lparr>mb_buf := hdr_wire 3 RTCP_RTPFB 3 @ be32 1 @ be32 2 @ [9, 9, 9, 9], mb_size := 16, mb_end := 16\<rparr>) 12)"
  using rtcp_unknown_feedback_desync [of "\<lambda>n. Some (\<lambda>i. 0)"
      "mbuf_init\<lparr>mb_buf := hdr_wire 3 RTCP_RTPFB 3 @ be32 1 @ be32 2 @ [9, 9, 9, 9], mb_size := 16, mb_end := 16\<rparr>"
      3 3 1 2 "[9, 9, 9, 9]" "[]"]
  by (simp add: mem_ok_def readable_def mbuf_wf_def mbuf_init_def MEM_SIZE_MAX_def mb_left_def)

section \<open>Padding without memory\<close>

lemma write_full:
  assumes "mb_size mb < mb_pos mb + length bs" "mb_pos mb + length bs < 2 ^ 64"
  shows "mbuf_write_mem (\<lambda>_. None) mb bs = (ENOMEM, mb)"
proof -
  have "mem_alloc (\<lambda>_. None) n = None" "c_realloc (\<lambda>_. None) b n = None" for n b
    by (auto simp: mem_alloc_def c_realloc_def)
  then show ?thesis using assms by (auto simp: mbuf_write_mem_def mbuf_resize_def Let_def)
qed

lemma write_room:
  assumes "mbuf_wf mb" "mb_pos mb + length bs \<le> mb_size mb"
  shows "\<exists>mb'. mbuf_write_mem al mb bs = (0, mb') \<and> mbuf_wf mb' \<and> mb_size mb' = mb_size mb \<and> mb_pos mb' = mb_pos mb + length bs"
  using assms by (auto simp: mbuf_write_mem_def Let_def mbuf_wf_def mem_write_def MEM_SIZE_MAX_def)

text \<open>
  A buffer that cannot grow: it has room for \<open>r\<close> bytes from position \<open>p\<close> on, and \<open>q\<close> of them are
  used.  A write is done as a whole or not at all.
\<close>

definition fixed_buf :: "nat \<Rightarrow> nat \<Rightarrow> nat \<Rightarrow> mbuf \<Rightarrow> bool" where
  "fixed_buf p r q mb \<longleftrightarrow> mbuf_wf mb \<and> mb_size mb = p + r \<and> mb_pos mb = p + q \<and> q \<le> r"

definition put :: "nat \<Rightarrow> nat \<Rightarrow> nat \<Rightarrow> nat" where
  "put r q n = (if q + n \<le> r then q + n else q)"

text \<open>Where writing the items of a chunk stops: at their end, or within the first item that does not fit.\<close>

fun sdes_fill :: "nat \<Rightarrow> nat \<Rightarrow> (byte \<times> byte list option) list \<Rightarrow> nat" where
  "sdes_fill r q [] = q"
| "sdes_fill r q ((ty, None) # items) = sdes_fill r q items"
| "sdes_fill r q ((ty, Some txt) # items) =
     (let q' = put r (put r (put r q 1) 1) (length txt)
      in if q' = q + 2 + length txt then sdes_fill r q' items else q')"

lemma fixed_write:
  assumes "fixed_buf p r q mb" "length bs \<le> 255"
  shows "\<exists>mb'. mbuf_write_mem (\<lambda>_. None) mb bs = (if q + length bs \<le> r then 0 else ENOMEM, mb') \<and> fixed_buf p r (put r q (length bs)) mb'"
proof (cases "q + length bs \<le> r")
  case True
  then show ?thesis using assms write_room [of mb bs "\<lambda>_. None"] by (auto simp: fixed_buf_def put_def)
next
  case False
  have "mb_size mb \<le> MEM_SIZE_MAX" using assms(1) by (simp add: fixed_buf_def mbuf_wf_def)
  then show ?thesis using assms False write_full [of mb bs] by (auto simp: fixed_buf_def put_def MEM_SIZE_MAX_def)
qed

lemma pad_fixed:
  "fixed_buf p r q mb \<Longrightarrow> pad_loop (\<lambda>_. None) mb_pos 0 p (e, mb) = None \<longleftrightarrow> 4 * (r div 4) < q"
proof (induction "r - q" arbitrary: q mb e)
  case 0
  then have q: "q = r" "mb_pos mb = p + r" "p + r < 2 ^ 64" by (auto simp: fixed_buf_def mbuf_wf_def MEM_SIZE_MAX_def)
  have s: "szsub (mb_pos mb) p AND 3 = r mod 4" using q by (simp add: and_3_mod)
  have "mbuf_write_u8 (\<lambda>_. None) mb 0 = (ENOMEM, mb)"
    using write_full [of mb "[0]"] 0(2) q unfolding mbuf_write_u8_def by (auto simp: fixed_buf_def mbuf_wf_def MEM_SIZE_MAX_def)
  then have "r mod 4 \<noteq> 0 \<Longrightarrow> pad_loop (\<lambda>_. None) mb_pos 0 p (e, mb) = None"
    using pad_loop_stuck [of "\<lambda>_. None" mb_pos 0 p "(e, mb)"] s by (cases "pad_loop (\<lambda>_. None) mb_pos 0 p (e, mb)") auto
  moreover have "r mod 4 = 0 \<Longrightarrow> pad_loop (\<lambda>_. None) mb_pos 0 p (e, mb) \<noteq> None" using s by (subst pad_loop.simps) simp
  ultimately show ?case unfolding q(1) by (cases "r mod 4 = 0") (auto, presburger+)
next
  case (Suc k)
  then have q: "q < r" "mb_pos mb = p + q" "p + q < 2 ^ 64" by (auto simp: fixed_buf_def mbuf_wf_def MEM_SIZE_MAX_def)
  have s: "szsub (mb_pos mb) p AND 3 = q mod 4" using q by (simp add: and_3_mod)
  show ?case
  proof (cases "q mod 4 = 0")
    case True
    then have "pad_loop (\<lambda>_. None) mb_pos 0 p (e, mb) \<noteq> None" using s by (subst pad_loop.simps) simp
    moreover have "q div 4 \<le> r div 4" using q(1) by (intro div_le_mono) simp
    then have "q \<le> 4 * (r div 4)" using True by auto
    ultimately show ?thesis by simp
  next
    case False
    obtain mb' where w: "mbuf_write_u8 (\<lambda>_. None) mb 0 = (0, mb')" "fixed_buf p r (Suc q) mb'"
      using fixed_write [OF Suc.prems, of "[0]"] q(1) by (auto simp: mbuf_write_u8_def put_def)
    have "pad_loop (\<lambda>_. None) mb_pos 0 p (e, mb) = pad_loop (\<lambda>_. None) mb_pos 0 p (e, mb')"
      using False s w(1) by (subst pad_loop.simps) (simp add: err_or_def)
    moreover have "4 * (r div 4) < Suc q \<longleftrightarrow> 4 * (r div 4) < q" using False by presburger
    ultimately show ?thesis using Suc.hyps(1) [OF _ w(2)] Suc.hyps(2) by simp
  qed
qed

lemma put_item:
  "(((if q + 1 \<le> r then 0 else ENOMEM) OR (if put r q 1 + 1 \<le> r then 0 else ENOMEM)) OR
    (if put r (put r q 1) 1 + n \<le> r then 0 else ENOMEM) = 0) \<longleftrightarrow> put r (put r (put r q 1) 1) n = q + 2 + n"
  by (cases "q + 1 \<le> r"; cases "q + 2 \<le> r"; cases "q + 2 + n \<le> r") (simp_all add: put_def)

lemma items_fixed:
  "fixed_buf p r q mb \<Longrightarrow> list_all (\<lambda>it. case snd it of None \<Rightarrow> True | Some txt \<Rightarrow> length txt \<le> 255) items \<Longrightarrow>
   \<exists>e mb'. rtcp_sdes_items (\<lambda>_. None) items (0, mb) = Inr (e, mb') \<and> fixed_buf p r (sdes_fill r q items) mb'"
proof (induction items arbitrary: q mb)
  case (Cons it items)
  obtain ty v where it: "it = (ty, v)" by fastforce
  show ?case
  proof (cases v)
    case None
    then show ?thesis using Cons it by auto
  next
    case (Some text1)
    have l: "length text1 \<le> 255" using Cons.prems(2) it Some by simp
    obtain mb1 where 1: "mbuf_write_u8 (\<lambda>_. None) mb ty = (if q + 1 \<le> r then 0 else ENOMEM, mb1)" "fixed_buf p r (put r q 1) mb1"
      using fixed_write [OF Cons.prems(1), of "[ty]"] by (auto simp: mbuf_write_u8_def)
    let ?q1 = "put r q 1" and ?q2 = "put r (put r q 1) 1"
    let ?q3 = "put r ?q2 (length text1)"
    obtain mb2 where 2: "mbuf_write_u8 (\<lambda>_. None) mb1 (of_nat (length text1)) = (if ?q1 + 1 \<le> r then 0 else ENOMEM, mb2)" "fixed_buf p r ?q2 mb2"
      using fixed_write [OF 1(2), of "[of_nat (length text1)]"] by (auto simp: mbuf_write_u8_def)
    obtain mb3 where 3: "mbuf_write_mem (\<lambda>_. None) mb2 text1 = (if ?q2 + length text1 \<le> r then 0 else ENOMEM, mb3)" "fixed_buf p r ?q3 mb3"
      using fixed_write [OF 2(2) l] by auto
    let ?r = "err_or (err_or (mbuf_write_u8 (\<lambda>_. None) mb ty) (\<lambda>mb. mbuf_write_u8 (\<lambda>_. None) mb (of_nat (length text1))))
        (\<lambda>mb. mbuf_write_mem (\<lambda>_. None) mb text1)"
    obtain e where r: "?r = (e, mb3)" "e = 0 \<longleftrightarrow> ?q3 = q + 2 + length text1"
      using that [OF _ put_item [of q r "length text1"]] by (simp only: 1(1) 2(1) 3(1) err_or_def prod.case)
    show ?thesis
    proof (cases "e = 0")
      case True
      then show ?thesis using Cons.IH [of ?q3 mb3] Cons.prems(2) 3(2) r it Some l by (auto simp: Let_def)
    next
      case False
      then have "rtcp_sdes_items (\<lambda>_. None) items (e, mb3) = Inr (e, mb3)" by (cases items) auto
      then show ?thesis using False 3(2) r it Some l by (auto simp: Let_def)
    qed
  qed
qed simp

text \<open>
  C29. Running out of memory can make the SDES encoder loop forever.  In a buffer that cannot grow and
  has room for \<open>r\<close> bytes, writing stops at the first part of the chunk that does not fit; the
  zero behind the items and the padding are still tried.  \<^verbatim>\<open>rtcp_sdes_encode\<close> does not return exactly
  when the place where it stops lies behind the last multiple of four in the room: then the loop
  \<^verbatim>\<open>while ((mb->pos - start) & 0x3)\<close> waits for a position that no write can reach.  With room
  for a multiple of four bytes it always returns.
\<close>

theorem rtcp_sdes_encode_hangs:
  assumes "mbuf_wf mb" "mb_size mb = mb_pos mb + r" "items \<noteq> []"
    and "list_all (\<lambda>it. case snd it of None \<Rightarrow> True | Some txt \<Rightarrow> length txt \<le> 255) items"
  shows "(rtcp_sdes_encode (\<lambda>_. None) mb src items = None \<longleftrightarrow>
      4 * (r div 4) < put r (if 4 \<le> r then sdes_fill r 4 items else 0) 1) \<and>
    (r mod 4 = 0 \<longrightarrow> rtcp_sdes_encode (\<lambda>_. None) mb src items \<noteq> None)"
proof -
  let ?p = "mb_pos mb" and ?q = "if 4 \<le> r then sdes_fill r 4 items else 0"
  have "fixed_buf ?p r 0 mb" using assms(1,2) by (simp add: fixed_buf_def)
  then obtain mb1 where 1: "mbuf_write_u32 (\<lambda>_. None) mb (htonl src) = (if 4 \<le> r then 0 else ENOMEM, mb1)" "fixed_buf ?p r (put r 0 4) mb1"
    using fixed_write [of ?p r 0 mb "le32 (htonl src)"] by (auto simp: mbuf_write_u32_def)
  obtain e mb2 where 2: "rtcp_sdes_items (\<lambda>_. None) items (mbuf_write_u32 (\<lambda>_. None) mb (htonl src)) = Inr (e, mb2)" "fixed_buf ?p r ?q mb2"
  proof (cases "4 \<le> r")
    case True
    then show thesis using that items_fixed [of ?p r 4 mb1 items] 1 assms(4) by (auto simp: put_def)
  next
    case False
    then have "rtcp_sdes_items (\<lambda>_. None) items (mbuf_write_u32 (\<lambda>_. None) mb (htonl src)) = Inr (ENOMEM, mb1)"
      using 1(1) assms(3) by (cases items) auto
    then show thesis using that False 1(2) by (auto simp: put_def)
  qed
  obtain e2 mb3 where 3: "mbuf_write_u8 (\<lambda>_. None) mb2 0 = (e2, mb3)" "fixed_buf ?p r (put r ?q 1) mb3"
    using fixed_write [OF 2(2), of "[0]"] by (auto simp: mbuf_write_u8_def)
  have "rtcp_sdes_encode (\<lambda>_. None) mb src items = pad_loop (\<lambda>_. None) mb_pos 0 ?p (e OR e2, mb3)"
    using assms(3) 2(1) 3(1) by (simp add: rtcp_sdes_encode_def err_or_def)
  then have "rtcp_sdes_encode (\<lambda>_. None) mb src items = None \<longleftrightarrow> 4 * (r div 4) < put r ?q 1"
    using pad_fixed [OF 3(2)] by simp
  moreover have "put r ?q 1 \<le> r" using 3(2) by (simp add: fixed_buf_def)
  ultimately show ?thesis by auto
qed

text \<open>Six bytes of room: the item header fits, its text does not.  With eight bytes the encoder fails and returns.\<close>

theorem rtcp_sdes_encode_hangs_witness:
  "rtcp_sdes_encode (\<lambda>_. None) (mbuf_init\<lparr>mb_buf := replicate 6 0, mb_size := 6\<rparr>) 7 [(1, Some [120])] = None \<and>
   rtcp_sdes_encode (\<lambda>_. None) (mbuf_init\<lparr>mb_buf := replicate 8 0, mb_size := 8\<rparr>) 7 [(1, Some [120, 120, 120])] \<noteq> None"
  using rtcp_sdes_encode_hangs [of "mbuf_init\<lparr>mb_buf := replicate 6 0, mb_size := 6\<rparr>" 6 "[(1, Some [120])]" 7]
    rtcp_sdes_encode_hangs [of "mbuf_init\<lparr>mb_buf := replicate 8 0, mb_size := 8\<rparr>" 8 "[(1, Some [120, 120, 120])]" 7]
  by (simp add: mbuf_wf_def mbuf_init_def MEM_SIZE_MAX_def put_def Let_def)

end
