(* ===== verification/Tmr.thy ===== *)
theory Tmr
  imports Prelude Linked_List "HOL-Library.Sublist"
begin

text \<open>
  Timers (\<^verbatim>\<open>src/tmr/tmr.c\<close>): a list of running timers, kept in the order of their deadlines on the
  linked lists of \<^verbatim>\<open>src/list/list.c\<close>.  A timer is referred to by the address of its list element.
  The clock is an argument of the operations that read it.  One thread and its timer list are
  modelled, so the locks play no role.
\<close>

unbundle bit_operations_syntax

record 'h tmr =
  t_active :: bool
  t_th :: "'h option"
  t_jfs :: "64 word"

record 'h tmrs =
  t_store :: store
  t_tmr :: "addr \<Rightarrow> 'h tmr"

section \<open>Operations\<close>

definition set_tmr :: "addr \<Rightarrow> ('h tmr \<Rightarrow> 'h tmr) \<Rightarrow> 'h tmrs \<Rightarrow> 'h tmrs" where
  "set_tmr t g s = s\<lparr>t_tmr := (t_tmr s)(t := g (t_tmr s t))\<rparr>"

definition tmr_init :: "'h tmrs \<Rightarrow> addr \<Rightarrow> 'h tmrs" where
  "tmr_init s t = set_tmr t (\<lambda>_. \<lparr>t_active = False, t_th = None, t_jfs = 0\<rparr>)
     (s\<lparr>t_store := set_le t (\<lambda>r. r\<lparr>le_prev := None, le_next := None, le_list := None, le_data := None\<rparr>) (t_store s)\<rparr>)"

definition jfs_of :: "'h tmrs \<Rightarrow> addr \<Rightarrow> 64 word" where
  "jfs_of s e = (case le_data (les (t_store s) e) of None \<Rightarrow> 0 | Some t \<Rightarrow> t_jfs (t_tmr s t))"

definition inspos_handler :: "'h tmrs \<Rightarrow> 64 word \<Rightarrow> addr \<Rightarrow> bool" where
  "inspos_handler s now e \<longleftrightarrow> jfs_of s e \<le> now"

definition inspos_handler_0 :: "'h tmrs \<Rightarrow> 64 word \<Rightarrow> addr \<Rightarrow> bool" where
  "inspos_handler_0 s now e \<longleftrightarrow> jfs_of s e > now"

text \<open>The insertion of a timer whose deadline is set: behind all that are not later.\<close>

definition tmr_insert :: "addr \<Rightarrow> 'h tmrs \<Rightarrow> addr \<Rightarrow> 64 word \<Rightarrow> store option" where
  "tmr_insert l s t delay =
     (if delay = 0 then
        (case list_apply (t_store s) l True (inspos_handler_0 s (t_jfs (t_tmr s t))) of
           None \<Rightarrow> None
         | Some (Some le) \<Rightarrow> Some (list_insert_before (t_store s) l le t (Some t))
         | Some None \<Rightarrow> Some (list_append (t_store s) l t (Some t)))
      else
        (case list_apply (t_store s) l False (inspos_handler s (t_jfs (t_tmr s t))) of
           None \<Rightarrow> None
         | Some (Some le) \<Rightarrow> Some (list_insert_after (t_store s) l le t (Some t))
         | Some None \<Rightarrow> Some (list_prepend (t_store s) l t (Some t))))"

definition tmr_startcont_dbg ::
  "64 word \<Rightarrow> addr \<Rightarrow> 'h tmrs \<Rightarrow> addr \<Rightarrow> 64 word \<Rightarrow> bool \<Rightarrow> 'h option \<Rightarrow> 'h tmrs option" where
  "tmr_startcont_dbg clock l s t delay syncnow th =
     (if \<not> t_active (t_tmr s t) \<and> th = None then Some s
      else
        let s1 = set_tmr t (\<lambda>r. r\<lparr>t_active := False\<rparr>) s;
            s2 = (if t_th (t_tmr s1 t) \<noteq> None then s1\<lparr>t_store := list_unlink (t_store s1) t\<rparr> else s1);
            s3 = set_tmr t (\<lambda>r. r\<lparr>t_th := th\<rparr>) s2
        in if th = None then Some s3
           else
             let s4 = set_tmr t (\<lambda>r. r\<lparr>t_jfs := (if syncnow then clock else t_jfs r) + delay\<rparr>) s3
             in map_option (\<lambda>st. set_tmr t (\<lambda>r. r\<lparr>t_active := True\<rparr>) (s4\<lparr>t_store := st\<rparr>)) (tmr_insert l s4 t delay))"

definition tmr_start_dbg :: "64 word \<Rightarrow> addr \<Rightarrow> 'h tmrs \<Rightarrow> addr \<Rightarrow> 64 word \<Rightarrow> 'h option \<Rightarrow> 'h tmrs option" where
  "tmr_start_dbg clock l s t delay th = tmr_startcont_dbg clock l s t delay True th"

definition tmr_continue_dbg :: "64 word \<Rightarrow> addr \<Rightarrow> 'h tmrs \<Rightarrow> addr \<Rightarrow> 64 word \<Rightarrow> 'h option \<Rightarrow> 'h tmrs option" where
  "tmr_continue_dbg clock l s t delay th = tmr_startcont_dbg clock l s t delay False th"

definition tmr_cancel :: "64 word \<Rightarrow> addr \<Rightarrow> 'h tmrs \<Rightarrow> addr \<Rightarrow> 'h tmrs option" where
  "tmr_cancel clock l s t = tmr_start_dbg clock l s t 0 None"

definition list_ledata :: "store \<Rightarrow> addr option \<Rightarrow> addr option" where
  "list_ledata st le = (case le of None \<Rightarrow> None | Some e \<Rightarrow> le_data (les st e))"

text \<open>
  \<open>call\<close> is what a handler does to the timers, \<open>None\<close> when it does not return; the timers that fired
  are collected.
\<close>

partial_function (option) tmr_poll_loop ::
  "('h \<Rightarrow> 'h tmrs \<Rightarrow> 'h tmrs option) \<Rightarrow> addr \<Rightarrow> 64 word \<Rightarrow> 'h tmrs \<Rightarrow> (addr \<times> 'h) list \<Rightarrow> ('h tmrs \<times> (addr \<times> 'h) list) option" where
  "tmr_poll_loop call l jfs s log =
     (case list_ledata (t_store s) (list_head (t_store s) l) of
        None \<Rightarrow> Some (s, log)
      | Some t \<Rightarrow>
          if t_jfs (t_tmr s t) > jfs then Some (s, log)
          else
            let s1 = set_tmr t (\<lambda>r. r\<lparr>t_th := None\<rparr>) s;
                s2 = s1\<lparr>t_store := list_unlink (t_store s1) t\<rparr>
            in case t_th (t_tmr s t) of
                 None \<Rightarrow> tmr_poll_loop call l jfs s2 log
               | Some h \<Rightarrow> Option.bind (call h s2) (\<lambda>s3. tmr_poll_loop call l jfs s3 (log @ [(t, h)])))"

definition tmr_poll :: "('h \<Rightarrow> 'h tmrs \<Rightarrow> 'h tmrs option) \<Rightarrow> addr \<Rightarrow> 64 word \<Rightarrow> 'h tmrs \<Rightarrow> ('h tmrs \<times> (addr \<times> 'h) list) option" where
  "tmr_poll call l clock s = tmr_poll_loop call l clock s []"

definition tmr_next_timeout :: "addr \<Rightarrow> 64 word \<Rightarrow> 'h tmrs \<Rightarrow> 64 word" where
  "tmr_next_timeout l jif s =
     (case list_ledata (t_store s) (list_head (t_store s) l) of
        None \<Rightarrow> 0
      | Some t \<Rightarrow> if t_jfs (t_tmr s t) \<le> jif then 1 else t_jfs (t_tmr s t) - jif)"

definition tmr_get_expire :: "64 word \<Rightarrow> 'h tmrs \<Rightarrow> addr \<Rightarrow> 64 word" where
  "tmr_get_expire jfs s t =
     (if t_th (t_tmr s t) = None then 0
      else if t_jfs (t_tmr s t) > jfs then t_jfs (t_tmr s t) - jfs else 0)"

definition tmrl_count :: "addr \<Rightarrow> 'h tmrs \<Rightarrow> nat option" where
  "tmrl_count l s = list_count (t_store s) l"

text \<open>
  The normalisation of a time (seconds, nanoseconds) moved by an offset in milliseconds; the
  product is taken in 64 bits.  \<open>clock\<close> is the result of \<^verbatim>\<open>clock_gettime\<close>, an error or a time.
\<close>

function timespec_carry :: "int \<times> int \<Rightarrow> int \<times> int" where
  "timespec_carry (sec, nsec) =
     (if nsec > 1000000000 then timespec_carry (sec + 1, nsec - 1000000000) else (sec, nsec))"
  by auto
termination by (relation "measure (\<lambda>(sec, nsec). nat nsec)") auto

declare timespec_carry.simps [simp del]

definition tmr_timespec_get :: "errno + int \<times> int \<Rightarrow> 64 word \<Rightarrow> errno + int \<times> int" where
  "tmr_timespec_get clock offset =
     (case clock of
        Inl err \<Rightarrow> Inl err
      | Inr tp \<Rightarrow>
          Inr (if offset \<noteq> 0 then
                 timespec_carry (fst tp + uint (offset div 1000), snd tp + uint (offset * 1000000 mod 1000000000))
               else tp))"

section \<open>Invariant\<close>

text \<open>
  The store holds the lists \<open>f\<close>; the list \<open>l\<close> holds exactly the timers that have a handler, in
  the order of their deadlines, and each of them is active and the data of its element.
\<close>

definition tmr_inv :: "addr \<Rightarrow> 'h tmrs \<Rightarrow> (addr \<Rightarrow> addr list) \<Rightarrow> bool" where
  "tmr_inv l s f \<longleftrightarrow> store_wf (t_store s) f \<and> sorted (map (\<lambda>e. t_jfs (t_tmr s e)) (f l)) \<and>
     (\<forall>e. (e \<in> set (f l) \<longleftrightarrow> t_th (t_tmr s e) \<noteq> None)) \<and>
     (\<forall>e \<in> set (f l). t_active (t_tmr s e) \<and> le_data (les (t_store s) e) = Some e)"

text \<open>The timers of a list that are due.\<close>

definition due :: "64 word \<Rightarrow> 'h tmrs \<Rightarrow> addr list \<Rightarrow> addr list" where
  "due now s xs = takeWhile (\<lambda>e. t_jfs (t_tmr s e) \<le> now) xs"

lemma tmr_set_sel [simp]:
  "t_store (set_tmr t g s) = t_store s"
  "t_tmr (set_tmr t g s) e = (if e = t then g (t_tmr s t) else t_tmr s e)"
  by (simp_all add: set_tmr_def)

lemma le_data_ops:
  assumes "le_list (les st e) = None"
  shows "le_data (les (list_append st l e d) y) = (if y = e then d else le_data (les st y))"
    "le_data (les (list_prepend st l e d) y) = (if y = e then d else le_data (les st y))"
    "le_data (les (list_insert_before st l x e d) y) = (if y = e then d else le_data (les st y))"
    "le_data (les (list_insert_after st l x e d) y) = (if y = e then d else le_data (les st y))"
  using assms
  by (auto simp: list_append_def list_prepend_def list_insert_before_def list_insert_after_def Let_def split: option.splits)

lemma sorted_key_split:
  fixes k :: "'a \<Rightarrow> 'b::linorder"
  assumes "sorted (map k xs)"
  shows "\<And>e. e \<in> set (dropWhile (\<lambda>e. k e \<le> j) xs) \<Longrightarrow> j < k e"
    and "\<And>e. e \<in> set (takeWhile (\<lambda>e. k e \<le> j) xs) \<Longrightarrow> k e \<le> j"
proof -
  fix e assume "e \<in> set (dropWhile (\<lambda>e. k e \<le> j) xs)"
  then show "j < k e" using assms
    by (induction xs) (auto split: if_splits simp: not_le intro: less_le_trans)
qed (auto dest: set_takeWhileD)

lemma find_later:
  assumes "sorted (map k xs)"
  shows "find (\<lambda>e. j < k e) xs = (case dropWhile (\<lambda>e. k e \<le> j) xs of [] \<Rightarrow> None | y # ys \<Rightarrow> Some y)"
  by (induction xs) auto

lemma find_skip: "\<forall>x \<in> set xs. \<not> P x \<Longrightarrow> find P (xs @ ys) = find P ys"
  by (induction xs) auto

lemma find_last_not_later:
  assumes "sorted (map k xs)"
  shows "find (\<lambda>e. k e \<le> j) (rev xs) =
    (if takeWhile (\<lambda>e. k e \<le> j) xs = [] then None else Some (last (takeWhile (\<lambda>e. k e \<le> j) xs)))"
proof -
  let ?tw = "takeWhile (\<lambda>e. k e \<le> j) xs" and ?dw = "dropWhile (\<lambda>e. k e \<le> j) xs"
  have "find (\<lambda>e. k e \<le> j) (rev ?dw @ rev ?tw) = find (\<lambda>e. k e \<le> j) (rev ?tw)"
    using sorted_key_split(1) [OF assms, of _ j] by (intro find_skip) (auto simp: not_le)
  moreover have "find (\<lambda>e. k e \<le> j) (rev ?tw) = (if ?tw = [] then None else Some (last ?tw))"
    using sorted_key_split(2) [OF assms, of _ j] by (cases ?tw rule: rev_cases) auto
  ultimately show ?thesis by (metis rev_append takeWhile_dropWhile_id)
qed

lemma sorted_insert_split:
  fixes k :: "'a \<Rightarrow> 'b::linorder"
  assumes "sorted (map k xs)"
  shows "sorted (map k (takeWhile (\<lambda>e. k e \<le> k t) xs @ t # dropWhile (\<lambda>e. k e \<le> k t) xs))"
proof -
  have "sorted (map k (takeWhile (\<lambda>e. k e \<le> k t) xs)) \<and> sorted (map k (dropWhile (\<lambda>e. k e \<le> k t) xs))"
    using assms by (metis map_append sorted_append takeWhile_dropWhile_id)
  then show ?thesis using sorted_key_split [OF assms, of _ "k t"]
    by (force simp: sorted_append intro: less_imp_le order.trans)
qed

lemma tmr_insert_wf:
  assumes wf: "store_wf (t_store s) f" and free: "le_list (les (t_store s) t) = None"
    and srt: "sorted (map (\<lambda>e. t_jfs (t_tmr s e)) (f l))"
    and data: "\<And>e. e \<in> set (f l) \<Longrightarrow> le_data (les (t_store s) e) = Some e"
  defines "j \<equiv> t_jfs (t_tmr s t)"
  shows "\<exists>st. tmr_insert l s t delay = Some st \<and>
     store_wf st (f(l := takeWhile (\<lambda>e. t_jfs (t_tmr s e) \<le> j) (f l) @ t # dropWhile (\<lambda>e. t_jfs (t_tmr s e) \<le> j) (f l))) \<and>
     (\<forall>y. le_data (les st y) = (if y = t then Some t else le_data (les (t_store s) y)))"
proof -
  let ?k = "\<lambda>e. t_jfs (t_tmr s e)"
  define tw dw where d: "tw = takeWhile (\<lambda>e. ?k e \<le> j) (f l)" "dw = dropWhile (\<lambda>e. ?k e \<le> j) (f l)"
  have split: "f l = tw @ dw" unfolding d by simp
  have jfs: "jfs_of s e = ?k e" if "e \<in> set (f l)" for e using data [OF that] by (simp add: jfs_of_def)
  have "\<exists>st. tmr_insert l s t delay = Some st \<and> store_wf st (f(l := tw @ t # dw)) \<and>
     (\<forall>y. le_data (les st y) = (if y = t then Some t else le_data (les (t_store s) y)))"
  proof (cases "delay = 0")
    case True
    have "find (inspos_handler_0 s j) (f l) = find (\<lambda>e. j < ?k e) (f l)"
      using jfs by (intro find_cong) (auto simp: inspos_handler_0_def)
    then have find: "list_apply (t_store s) l True (inspos_handler_0 s j) = Some (case dw of [] \<Rightarrow> None | y # ys \<Rightarrow> Some y)"
      using list_apply_wf [OF wf, of l True] find_later [OF srt, of j] by (simp add: d)
    show ?thesis
    proof (cases dw)
      case Nil
      then have "f l = tw" using split by simp
      then show ?thesis using True find Nil list_append_wf [OF wf free, of l "Some t"] le_data_ops(1) [OF free]
        by (auto simp: tmr_insert_def j_def)
    next
      case (Cons y ys)
      then show ?thesis using True find list_insert_before_wf [OF wf free, of l tw y ys] split le_data_ops(3) [OF free]
        by (auto simp: tmr_insert_def j_def)
    qed
  next
    case False
    have "find (inspos_handler s j) (rev (f l)) = find (\<lambda>e. ?k e \<le> j) (rev (f l))"
      using jfs by (intro find_cong) (auto simp: inspos_handler_def)
    then have find: "list_apply (t_store s) l False (inspos_handler s j) = Some (if tw = [] then None else Some (last tw))"
      using list_apply_wf [OF wf, of l False] find_last_not_later [OF srt, of j] by (simp add: d)
    show ?thesis
    proof (cases tw rule: rev_cases)
      case Nil
      then have "f l = dw" using split by simp
      then show ?thesis using False find Nil list_prepend_wf [OF wf free, of l "Some t"] le_data_ops(2) [OF free]
        by (auto simp: tmr_insert_def j_def)
    next
      case (snoc ys y)
      then have "f l = ys @ y # dw" using split by simp
      then show ?thesis using False find snoc list_insert_after_wf [OF wf free, of l ys y dw] le_data_ops(4) [OF free]
        by (auto simp: tmr_insert_def j_def)
    qed
  qed
  then show ?thesis by (simp add: d)
qed

text \<open>The list with a timer removed, and with it put at its place again.\<close>

definition tmr_place :: "(addr \<Rightarrow> 64 word) \<Rightarrow> addr \<Rightarrow> addr list \<Rightarrow> addr list" where
  "tmr_place k t xs = takeWhile (\<lambda>e. k e \<le> k t) (remove1 t xs) @ t # dropWhile (\<lambda>e. k e \<le> k t) (remove1 t xs)"

lemma tmr_inv_wf: "tmr_inv l s f \<Longrightarrow> store_wf (t_store s) f"
  by (simp add: tmr_inv_def)

lemma tmr_unlink_wf:
  assumes "tmr_inv l s f" "t_th (t_tmr s t) \<noteq> None"
  shows "store_wf (list_unlink (t_store s) t) (f(l := remove1 t (f l)))"
    "le_list (les (list_unlink (t_store s) t) t) = None"
    "le_data (les (list_unlink (t_store s) t) y) = le_data (les (t_store s) y)"
proof -
  have "t \<in> set (f l)" using assms by (simp add: tmr_inv_def)
  then obtain xs ys where xy: "f l = xs @ t # ys" "t \<notin> set xs" by (metis split_list_first)
  then have r: "remove1 t (f l) = xs @ ys" by (simp add: remove1_append)
  show "store_wf (list_unlink (t_store s) t) (f(l := remove1 t (f l)))"
    "le_list (les (list_unlink (t_store s) t) t) = None"
    "le_data (les (list_unlink (t_store s) t) y) = le_data (les (t_store s) y)"
    using list_unlink_wf [OF tmr_inv_wf [OF assms(1)] xy(1)] r by simp_all
qed

lemma sorted_remove1_key: "distinct xs \<Longrightarrow> sorted (map k xs) \<Longrightarrow> sorted (map k (remove1 x xs))"
  by (simp add: distinct_remove1_removeAll removeAll_filter_not_eq sorted_filter)

text \<open>Starting, continuing and cancelling keep the invariant, and move only the timer they are about.\<close>

lemma tmr_startcont_inv:
  assumes inv: "tmr_inv l s f" and other: "\<And>l'. l' \<noteq> l \<Longrightarrow> t \<notin> set (f l')"
  shows "\<exists>s'. tmr_startcont_dbg clock l s t delay syncnow th = Some s' \<and>
     tmr_inv l s' (f(l := (if th = None then remove1 t (f l) else tmr_place (\<lambda>e. t_jfs (t_tmr s' e)) t (f l)))) \<and>
     (\<forall>e. e \<noteq> t \<longrightarrow> t_tmr s' e = t_tmr s e) \<and> t_th (t_tmr s' t) = th \<and>
     (th \<noteq> None \<longrightarrow> t_jfs (t_tmr s' t) = (if syncnow then clock else t_jfs (t_tmr s t)) + delay)"
proof -
  note i = inv [unfolded tmr_inv_def]
  define st where "st = (if t_th (t_tmr s t) \<noteq> None then list_unlink (t_store s) t else t_store s)"
  have wf: "store_wf st (f(l := remove1 t (f l)))" "le_list (les st t) = None"
    "\<And>y. le_data (les st y) = le_data (les (t_store s) y)"
  proof -
    have "remove1 t (f l) = f l" if "t_th (t_tmr s t) = None" using i that by (simp add: remove1_idem)
    then show "store_wf st (f(l := remove1 t (f l)))"
      using tmr_unlink_wf(1) [OF inv] i by (auto simp: st_def fun_upd_idem)
    show "le_list (les st t) = None"
    proof (cases "t_th (t_tmr s t)")
      case None
      then have "t \<notin> set (f l')" for l' using i other by (cases "l' = l") auto
      then show ?thesis using i None store_wf_mem [of "t_store s" f t] by (auto simp: st_def)
    qed (use tmr_unlink_wf(2) [OF inv] in \<open>auto simp: st_def\<close>)
    show "le_data (les st y) = le_data (les (t_store s) y)" for y
      using tmr_unlink_wf(3) [OF inv] by (auto simp: st_def)
  qed
  have dist: "distinct (f l)" using i store_wf_dlist [of "t_store s" f l] by (simp add: dlist_def)
  show ?thesis
  proof (cases th)
    case None
    show ?thesis
    proof (cases "t_active (t_tmr s t)")
      case False
      then have "t \<notin> set (f l)" using i by auto
      then show ?thesis using False None inv i by (auto simp: tmr_startcont_dbg_def remove1_idem fun_upd_idem)
    next
      case True
      let ?s = "set_tmr t (\<lambda>r. r\<lparr>t_active := False, t_th := None\<rparr>) (s\<lparr>t_store := st\<rparr>)"
      have "tmr_startcont_dbg clock l s t delay syncnow th = Some ?s"
        using True None by (auto simp: tmr_startcont_dbg_def st_def Let_def set_tmr_def)
      moreover have "tmr_inv l ?s (f(l := remove1 t (f l)))"
      proof -
        have "(\<lambda>e. t_jfs (t_tmr ?s e)) = (\<lambda>e. t_jfs (t_tmr s e))" by auto
        then show ?thesis using i wf dist sorted_remove1_key [OF dist, of "\<lambda>e. t_jfs (t_tmr s e)" t]
          unfolding tmr_inv_def by auto
      qed
      ultimately show ?thesis using None by auto
    qed
  next
    case (Some h)
    define s4 where "s4 = set_tmr t (\<lambda>r. r\<lparr>t_active := False, t_th := th,
        t_jfs := (if syncnow then clock else t_jfs r) + delay\<rparr>) (s\<lparr>t_store := st\<rparr>)"
    define k where "k e = t_jfs (t_tmr s4 e)" for e
    let ?f = "f(l := remove1 t (f l))"
    have s4: "t_store s4 = st" "\<And>e. e \<noteq> t \<Longrightarrow> t_tmr s4 e = t_tmr s e" by (simp_all add: s4_def)
    have t: "t \<notin> set (remove1 t (f l))" using dist by simp
    then have "k x = t_jfs (t_tmr s x)" if "x \<in> set (remove1 t (f l))" for x
      using that s4(2) [of x] unfolding k_def by metis
    then have km: "map k (remove1 t (f l)) = map (\<lambda>e. t_jfs (t_tmr s e)) (remove1 t (f l))" by simp
    have srt: "sorted (map k (?f l))"
      using sorted_remove1_key [OF dist, of "\<lambda>e. t_jfs (t_tmr s e)" t] i unfolding km fun_upd_same by simp
    have data: "le_data (les (t_store s4) e) = Some e" if "e \<in> set (?f l)" for e
      using that i wf(3) dist by (simp add: set_remove1_eq s4(1))
    obtain st' where st': "tmr_insert l s4 t delay = Some st'"
      "store_wf st' (f(l := tmr_place k t (f l)))"
      "\<And>y. le_data (les st' y) = (if y = t then Some t else le_data (les (t_store s) y))"
      using tmr_insert_wf [of s4 ?f t l delay] srt data wf unfolding tmr_place_def k_def s4(1) by auto
    define s' where "s' = set_tmr t (\<lambda>r. r\<lparr>t_active := True\<rparr>) (s4\<lparr>t_store := st'\<rparr>)"
    have s': "t_store s' = st'" "\<And>e. e \<noteq> t \<Longrightarrow> t_tmr s' e = t_tmr s e"
      "\<And>e. t_active (t_tmr s' e) = (e = t \<or> t_active (t_tmr s e))" "\<And>e. t_th (t_tmr s' e) = (if e = t then th else t_th (t_tmr s e))"
      "t_jfs (t_tmr s' t) = (if syncnow then clock else t_jfs (t_tmr s t)) + delay"
      by (simp_all add: s'_def s4_def)
    have k: "(\<lambda>e. t_jfs (t_tmr s' e)) = k" by (auto simp: s'_def k_def)
    have "tmr_startcont_dbg clock l s t delay syncnow th = Some s'"
      using Some st'(1) unfolding s'_def s4_def by (auto simp: tmr_startcont_dbg_def st_def Let_def set_tmr_def)
    moreover have "tmr_inv l s' (f(l := tmr_place k t (f l)))"
    proof -
      have "sorted (map k (tmr_place k t (f l)))"
        unfolding tmr_place_def using sorted_insert_split [of k "remove1 t (f l)" t] srt by simp
      moreover have "set (tmr_place k t (f l)) = insert t (set (f l))"
      proof -
        have "set (takeWhile P xs) \<union> set (dropWhile P xs) = set xs" for P and xs :: "addr list"
          by (metis set_append takeWhile_dropWhile_id)
        then show ?thesis using dist by (auto simp: tmr_place_def set_remove1_eq)
      qed
      ultimately show ?thesis using st'(2,3) i Some
        unfolding tmr_inv_def k s'(1,3,4) by auto
    qed
    ultimately show ?thesis using Some s' by (auto simp: k)
  qed
qed

section \<open>Polling\<close>

lemma tmr_head:
  assumes "tmr_inv l s f"
  shows "list_ledata (t_store s) (list_head (t_store s) l) = (case f l of [] \<Rightarrow> None | t # _ \<Rightarrow> Some t)"
  using assms store_wf_dlist [of "t_store s" f l]
  by (auto simp: tmr_inv_def list_ledata_def list_head_def dlist_def split: list.splits)

lemma tmr_fire_inv:
  assumes "tmr_inv l s f" "f l = t # xs"
  defines "s2 \<equiv> (set_tmr t (\<lambda>r. r\<lparr>t_th := None\<rparr>) s)\<lparr>t_store := list_unlink (t_store s) t\<rparr>"
  shows "tmr_inv l s2 (f(l := xs))" "due now s2 xs = due now s xs"
proof -
  have th: "t_th (t_tmr s t) \<noteq> None" using assms by (auto simp: tmr_inv_def)
  have "distinct (f l)" using assms(1) store_wf_dlist [of "t_store s" f l] by (simp add: tmr_inv_def dlist_def)
  then have t: "t \<notin> set xs" using assms(2) by simp
  have s2: "t_store s2 = list_unlink (t_store s) t" "\<And>e. t_jfs (t_tmr s2 e) = t_jfs (t_tmr s e)"
    "\<And>e. t_active (t_tmr s2 e) = t_active (t_tmr s e)" "\<And>e. t_th (t_tmr s2 e) = (if e = t then None else t_th (t_tmr s e))"
    by (simp_all add: s2_def set_tmr_def)
  have e: "e \<in> set (t # xs) \<longleftrightarrow> t_th (t_tmr s e) \<noteq> None" for e
    using assms(1,2) unfolding tmr_inv_def by metis
  show "tmr_inv l s2 (f(l := xs))"
    using assms(1,2) tmr_unlink_wf [OF assms(1) th] t e unfolding tmr_inv_def s2 by auto
  show "due now s2 xs = due now s xs" by (simp add: due_def s2)
qed

lemma due_filter:
  assumes "tmr_inv l s f"
  shows "due now s (f l) = filter (\<lambda>e. t_jfs (t_tmr s e) \<le> now) (f l)"
proof -
  have "takeWhile (\<lambda>e. k e \<le> now) xs = filter (\<lambda>e. k e \<le> now) xs" if "sorted (map k xs)" for k :: "addr \<Rightarrow> 64 word" and xs
    using that by (induction xs) (auto intro!: filter_False [symmetric] dest: order.trans)
  then show ?thesis using assms by (simp add: due_def tmr_inv_def)
qed

lemma subseq_remove1: "subseq (remove1 x xs) xs"
  by (induction xs) auto

lemma tmr_place_later:
  assumes "\<not> k t \<le> now"
  shows "filter (\<lambda>e. k e \<le> now) (tmr_place k t xs) = filter (\<lambda>e. k e \<le> now) (remove1 t xs)"
proof -
  have "filter P (takeWhile Q ys @ t # dropWhile Q ys) = filter P ys" if "\<not> P t" for P Q and ys :: "addr list"
    using that by (metis filter.simps(2) filter_append takeWhile_dropWhile_id)
  then show ?thesis using assms by (simp add: tmr_place_def)
qed

text \<open>
  C10. The running timers stay in the order of their deadlines.  Whatever the timer did before,
  \<^verbatim>\<open>tmr_start\<close>, \<^verbatim>\<open>tmr_continue\<close> and \<^verbatim>\<open>tmr_cancel\<close> return, keep the invariant of the timer
  list (its elements are exactly the timers with a handler, each once, by deadline), put the timer
  behind all timers that are not later, and leave all other timers as they were; a timer
  started for later, or cancelled, is not due, and makes no other timer due.
\<close>

theorem tmr_operations_invariant:
  assumes inv: "tmr_inv l s f" and other: "\<And>l'. l' \<noteq> l \<Longrightarrow> t \<notin> set (f l')"
  shows "(\<exists>s'. tmr_start_dbg clock l s t delay (Some h) = Some s' \<and> t_jfs (t_tmr s' t) = clock + delay \<and>
       tmr_inv l s' (f(l := tmr_place (\<lambda>e. t_jfs (t_tmr s' e)) t (f l))) \<and> (\<forall>e. e \<noteq> t \<longrightarrow> t_tmr s' e = t_tmr s e) \<and>
       (now < clock + delay \<longrightarrow> subseq (due now s' (tmr_place (\<lambda>e. t_jfs (t_tmr s' e)) t (f l))) (due now s (f l)))) \<and>
     (\<exists>s'. tmr_continue_dbg clock l s t delay (Some h) = Some s' \<and> t_jfs (t_tmr s' t) = t_jfs (t_tmr s t) + delay \<and>
       tmr_inv l s' (f(l := tmr_place (\<lambda>e. t_jfs (t_tmr s' e)) t (f l))) \<and> (\<forall>e. e \<noteq> t \<longrightarrow> t_tmr s' e = t_tmr s e)) \<and>
     (\<exists>s'. tmr_cancel clock l s t = Some s' \<and> t_th (t_tmr s' t) = None \<and>
       tmr_inv l s' (f(l := remove1 t (f l))) \<and> (\<forall>e. e \<noteq> t \<longrightarrow> t_tmr s' e = t_tmr s e) \<and>
       subseq (due now s' (remove1 t (f l))) (due now s (f l)))"
proof -
  have sub: "subseq (filter (\<lambda>e. t_jfs (t_tmr s' e) \<le> now) (remove1 t (f l))) (filter (\<lambda>e. t_jfs (t_tmr s e) \<le> now) (f l))"
    if "\<forall>e. e \<noteq> t \<longrightarrow> t_tmr s' e = t_tmr s e" for s'
  proof -
    have "t \<notin> set (remove1 t (f l))"
      using store_wf_dlist [OF tmr_inv_wf [OF inv], of l] by (simp add: dlist_def)
    then have "filter (\<lambda>e. t_jfs (t_tmr s' e) \<le> now) (remove1 t (f l)) = filter (\<lambda>e. t_jfs (t_tmr s e) \<le> now) (remove1 t (f l))"
      using that by (intro filter_cong [OF refl]) metis
    then show ?thesis by (simp add: subseq_filter subseq_remove1)
  qed
  obtain s1 where s1: "tmr_start_dbg clock l s t delay (Some h) = Some s1" "t_jfs (t_tmr s1 t) = clock + delay"
      "tmr_inv l s1 (f(l := tmr_place (\<lambda>e. t_jfs (t_tmr s1 e)) t (f l)))" "\<forall>e. e \<noteq> t \<longrightarrow> t_tmr s1 e = t_tmr s e"
    using tmr_startcont_inv [OF inv other, of clock delay True "Some h"] by (auto simp: tmr_start_dbg_def)
  obtain s2 where s2: "tmr_continue_dbg clock l s t delay (Some h) = Some s2" "t_jfs (t_tmr s2 t) = t_jfs (t_tmr s t) + delay"
      "tmr_inv l s2 (f(l := tmr_place (\<lambda>e. t_jfs (t_tmr s2 e)) t (f l)))" "\<forall>e. e \<noteq> t \<longrightarrow> t_tmr s2 e = t_tmr s e"
    using tmr_startcont_inv [OF inv other, of clock delay False "Some h"] by (auto simp: tmr_continue_dbg_def)
  obtain s3 where s3: "tmr_cancel clock l s t = Some s3" "t_th (t_tmr s3 t) = None" "tmr_inv l s3 (f(l := remove1 t (f l)))"
      "\<forall>e. e \<noteq> t \<longrightarrow> t_tmr s3 e = t_tmr s e"
    using tmr_startcont_inv [OF inv other, of clock 0 True None] by (auto simp: tmr_cancel_def tmr_start_dbg_def)
  have "now < clock + delay \<longrightarrow> subseq (due now s1 (tmr_place (\<lambda>e. t_jfs (t_tmr s1 e)) t (f l))) (due now s (f l))"
    using due_filter [OF s1(3), of now] due_filter [OF inv, of now] tmr_place_later [of "\<lambda>e. t_jfs (t_tmr s1 e)" t now "f l"]
      s1(2) sub [OF s1(4)] by (simp add: not_le)
  moreover have "subseq (due now s3 (remove1 t (f l))) (due now s (f l))"
    using due_filter [OF s3(3), of now] due_filter [OF inv, of now] sub [OF s3(4)] by simp
  ultimately show ?thesis using s1 s2 s3 by blast
qed

text \<open>An empty timer list.\<close>

definition no_timers :: "unit tmrs" where
  "no_timers = \<lparr>t_store = zero_store, t_tmr = (\<lambda>_. \<lparr>t_active = False, t_th = None, t_jfs = 0\<rparr>)\<rparr>"

lemma no_timers_inv: "tmr_inv 0 no_timers (\<lambda>_. [])"
  using zero_store_wf by (simp add: tmr_inv_def no_timers_def)

theorem tmr_operations_invariant_witness:
  "\<exists>s'. tmr_start_dbg 100 0 no_timers 7 50 (Some ()) = Some s' \<and> t_jfs (t_tmr s' 7) = 150"
  using tmr_operations_invariant [OF no_timers_inv, of 7 100 50 "()" 0] by auto

section \<open>Handlers\<close>

text \<open>
  A handler runs operations on timers, chosen by the state it finds, each with the clock at its
  time.  \<open>T\<close> are the addresses of timers: only timers are in the timer list, and no timer is in another
  list.
\<close>

datatype 'h tmr_op =
    Op_start "64 word" addr "64 word" 'h
  | Op_continue "64 word" addr "64 word" 'h
  | Op_cancel "64 word" addr

fun op_tmr :: "'h tmr_op \<Rightarrow> addr" where
  "op_tmr (Op_start clock t delay h) = t"
| "op_tmr (Op_continue clock t delay h) = t"
| "op_tmr (Op_cancel clock t) = t"

fun op_run :: "addr \<Rightarrow> 'h tmr_op \<Rightarrow> 'h tmrs \<Rightarrow> 'h tmrs option" where
  "op_run l (Op_start clock t delay h) s = tmr_start_dbg clock l s t delay (Some h)"
| "op_run l (Op_continue clock t delay h) s = tmr_continue_dbg clock l s t delay (Some h)"
| "op_run l (Op_cancel clock t) s = tmr_cancel clock l s t"

fun ops_run :: "addr \<Rightarrow> 'h tmr_op list \<Rightarrow> 'h tmrs \<Rightarrow> 'h tmrs option" where
  "ops_run l [] s = Some s"
| "ops_run l (op # ops) s = Option.bind (op_run l op s) (ops_run l ops)"

text \<open>Every timer that the operations start gets a deadline after \<open>now\<close>.\<close>

fun op_later :: "64 word \<Rightarrow> 'h tmrs \<Rightarrow> 'h tmr_op \<Rightarrow> bool" where
  "op_later now s (Op_start clock t delay h) \<longleftrightarrow> now < clock + delay"
| "op_later now s (Op_continue clock t delay h) \<longleftrightarrow> now < t_jfs (t_tmr s t) + delay"
| "op_later now s (Op_cancel clock t) \<longleftrightarrow> True"

fun ops_later :: "addr \<Rightarrow> 64 word \<Rightarrow> 'h tmr_op list \<Rightarrow> 'h tmrs \<Rightarrow> bool" where
  "ops_later l now [] s \<longleftrightarrow> True"
| "ops_later l now (op # ops) s \<longleftrightarrow> op_later now s op \<and> (case op_run l op s of None \<Rightarrow> True | Some s1 \<Rightarrow> ops_later l now ops s1)"

definition tmr_on :: "addr set \<Rightarrow> addr \<Rightarrow> 'h tmrs \<Rightarrow> (addr \<Rightarrow> addr list) \<Rightarrow> bool" where
  "tmr_on T l s f \<longleftrightarrow> tmr_inv l s f \<and> set (f l) \<subseteq> T \<and> (\<forall>l'. l' \<noteq> l \<longrightarrow> set (f l') \<inter> T = {})"

definition handlers_later :: "addr set \<Rightarrow> addr \<Rightarrow> 64 word \<Rightarrow> ('h \<Rightarrow> 'h tmrs \<Rightarrow> 'h tmr_op list) \<Rightarrow> bool" where
  "handlers_later T l now ops \<longleftrightarrow>
     (\<forall>h s f. tmr_on T l s f \<longrightarrow> op_tmr ` set (ops h s) \<subseteq> T \<and> ops_later l now (ops h s) s)"

lemma tmr_on_list: "tmr_on T l s f \<Longrightarrow> distinct (f l)" "tmr_on T l s f \<Longrightarrow> t \<in> T \<Longrightarrow> l' \<noteq> l \<Longrightarrow> t \<notin> set (f l')"
  using store_wf_dlist [of "t_store s" f l] by (auto simp: tmr_on_def tmr_inv_def dlist_def)

lemma tmr_startcont_on:
  assumes on: "tmr_on T l s f" and t: "t \<in> T"
    and later: "th \<noteq> None \<Longrightarrow> now < (if syncnow then clock else t_jfs (t_tmr s t)) + delay"
  shows "\<exists>s' f'. tmr_startcont_dbg clock l s t delay syncnow th = Some s' \<and> tmr_on T l s' f' \<and>
    due now s' (f' l) = filter (\<lambda>e. e \<noteq> t) (due now s (f l)) \<and> (\<forall>e. e \<noteq> t \<longrightarrow> t_tmr s' e = t_tmr s e)"
proof -
  have inv: "tmr_inv l s f" using on by (simp add: tmr_on_def)
  let ?f = "\<lambda>s'. f(l := (if th = None then remove1 t (f l) else tmr_place (\<lambda>e. t_jfs (t_tmr s' e)) t (f l)))"
  obtain s' where s': "tmr_startcont_dbg clock l s t delay syncnow th = Some s'" "tmr_inv l s' (?f s')"
    "\<forall>e. e \<noteq> t \<longrightarrow> t_tmr s' e = t_tmr s e"
    "th \<noteq> None \<longrightarrow> t_jfs (t_tmr s' t) = (if syncnow then clock else t_jfs (t_tmr s t)) + delay"
    using tmr_startcont_inv [OF inv tmr_on_list(2) [OF on t], of clock delay syncnow th] by blast
  let ?P = "\<lambda>s e. t_jfs (t_tmr s e) \<le> now"
  have "filter (?P s') (?f s' l) = filter (?P s') (remove1 t (f l))"
    using later s'(4) tmr_place_later [of "\<lambda>e. t_jfs (t_tmr s' e)" t now "f l"] by (auto simp: not_le)
  also have "\<dots> = filter (\<lambda>e. e \<noteq> t) (filter (?P s) (f l))"
    using s'(3) tmr_on_list(1) [OF on]
    by (auto simp: distinct_remove1_removeAll removeAll_filter_not_eq intro!: filter_cong)
  finally have "due now s' (?f s' l) = filter (\<lambda>e. e \<noteq> t) (due now s (f l))"
    unfolding due_filter [OF s'(2)] due_filter [OF inv] .
  moreover have "set (?f s' l) \<subseteq> T"
  proof -
    have "set (takeWhile P xs @ t # dropWhile P xs) = insert t (set xs)" for P and xs :: "addr list"
      by (metis insert_is_Un list.simps(15) set_append takeWhile_dropWhile_id Un_insert_right)
    then show ?thesis using on t set_remove1_subset [of t "f l"] by (auto simp: tmr_on_def tmr_place_def)
  qed
  then have "tmr_on T l s' (?f s')" using s'(2) on unfolding tmr_on_def by simp
  ultimately show ?thesis using s'(1,3) by blast
qed

lemma op_run_on:
  assumes "tmr_on T l s f" "op_tmr op \<in> T" "op_later now s op"
  shows "\<exists>s' f'. op_run l op s = Some s' \<and> tmr_on T l s' f' \<and>
    due now s' (f' l) = filter (\<lambda>e. e \<noteq> op_tmr op) (due now s (f l)) \<and> (\<forall>e. e \<noteq> op_tmr op \<longrightarrow> t_tmr s' e = t_tmr s e)"
  using assms
proof (cases op)
  case (Op_start clock t delay h)
  then show ?thesis using tmr_startcont_on [OF assms(1), of t "Some h" now True clock delay] assms by (simp add: tmr_start_dbg_def)
next
  case (Op_continue clock t delay h)
  then show ?thesis using tmr_startcont_on [OF assms(1), of t "Some h" now False clock delay] assms by (simp add: tmr_continue_dbg_def)
next
  case (Op_cancel clock t)
  then show ?thesis using tmr_startcont_on [OF assms(1), of t None now True clock 0] assms by (simp add: tmr_cancel_def tmr_start_dbg_def)
qed

lemma ops_run_on:
  "tmr_on T l s f \<Longrightarrow> op_tmr ` set ops \<subseteq> T \<Longrightarrow> ops_later l now ops s \<Longrightarrow>
   \<exists>s' f'. ops_run l ops s = Some s' \<and> tmr_on T l s' f' \<and>
     due now s' (f' l) = filter (\<lambda>e. e \<notin> op_tmr ` set ops) (due now s (f l)) \<and> (\<forall>e. e \<notin> op_tmr ` set ops \<longrightarrow> t_tmr s' e = t_tmr s e)"
proof (induction ops arbitrary: s f)
  case (Cons op ops)
  obtain s1 f1 where 1: "op_run l op s = Some s1" "tmr_on T l s1 f1"
    "due now s1 (f1 l) = filter (\<lambda>e. e \<noteq> op_tmr op) (due now s (f l))" "\<forall>e. e \<noteq> op_tmr op \<longrightarrow> t_tmr s1 e = t_tmr s e"
    using op_run_on [OF Cons.prems(1), of op now] Cons.prems(2,3) by auto
  from Cons.IH [OF 1(2)] Cons.prems(2,3) 1(1) obtain s2 f2 where "ops_run l ops s1 = Some s2" "tmr_on T l s2 f2"
    "due now s2 (f2 l) = filter (\<lambda>e. e \<notin> op_tmr ` set ops) (due now s1 (f1 l))" "\<forall>e. e \<notin> op_tmr ` set ops \<longrightarrow> t_tmr s2 e = t_tmr s1 e"
    by auto
  with 1 show ?case by (intro exI [of _ s2] exI [of _ f2]) (auto intro!: filter_cong)
qed auto

text \<open>What a run of the loop fires, from the due timers \<open>ds\<close>.\<close>

definition polled :: "('h \<Rightarrow> 'h tmrs \<Rightarrow> 'h tmr_op list) \<Rightarrow> 'h tmrs \<Rightarrow> addr list \<Rightarrow> (addr \<times> 'h) list \<Rightarrow> bool" where
  "polled ops s ds fired \<longleftrightarrow> subseq (map fst fired) ds \<and> (\<forall>(t, h) \<in> set fired. t_th (t_tmr s t) = Some h) \<and>
     (\<forall>e \<in> set ds. e \<in> fst ` set fired \<or> (\<exists>(t, h) \<in> set fired. \<exists>s1. e \<in> op_tmr ` set (ops h s1)))"

lemma subseq_set: "subseq xs ys \<Longrightarrow> set xs \<subseteq> set ys"
  by (auto elim: list_emb_set)

lemma polled_step:
  assumes "polled ops s'' (filter (\<lambda>e. e \<notin> op_tmr ` set (ops h s')) ds) fired" "t_th (t_tmr s t) = Some h" "t \<notin> set ds"
    and same: "\<And>e. e \<noteq> t \<Longrightarrow> e \<notin> op_tmr ` set (ops h s') \<Longrightarrow> t_tmr s'' e = t_tmr s e"
  shows "polled ops s (t # ds) ((t, h) # fired)"
proof -
  let ?ds = "filter (\<lambda>e. e \<notin> op_tmr ` set (ops h s')) ds"
  have p: "subseq (map fst fired) ?ds" "\<forall>(t, h) \<in> set fired. t_th (t_tmr s'' t) = Some h"
    "\<forall>e \<in> set ?ds. e \<in> fst ` set fired \<or> (\<exists>(t, h) \<in> set fired. \<exists>s1. e \<in> op_tmr ` set (ops h s1))"
    using assms(1) unfolding polled_def by blast+
  have th: "t_th (t_tmr s t') = Some h'" if "(t', h') \<in> set fired" for t' h'
  proof -
    have "t' \<in> set (map fst fired)" using that by force
    then have "t' \<in> set ds" "t' \<notin> op_tmr ` set (ops h s')" using subseq_set [OF p(1)] by auto
    then have "t_tmr s'' t' = t_tmr s t'" using same assms(3) by metis
    then show ?thesis using p(2) that by auto
  qed
  have all: "e \<in> fst ` set fired \<or> (\<exists>(t, h) \<in> set ((t, h) # fired). \<exists>s1. e \<in> op_tmr ` set (ops h s1))" if "e \<in> set ds" for e
  proof (cases "e \<in> op_tmr ` set (ops h s')")
    case True
    then have "case (t, h) of (t, h) \<Rightarrow> \<exists>s1. e \<in> op_tmr ` set (ops h s1)" by blast
    then show ?thesis by (intro disjI2 bexI [of _ "(t, h)"]) simp_all
  next
    case False
    then have "e \<in> set ?ds" using that by simp
    with p(3) show ?thesis by (meson list.set_intros(2))
  qed
  have "subseq (map fst fired) ds" using p(1) subseq_filter_left subseq_order.order_trans by blast
  then show ?thesis using th all assms(2) unfolding polled_def by (auto simp: subseq_Cons2)
qed

lemma tmr_poll_loop_runs:
  assumes later: "handlers_later T l now ops" and "tmr_on T l s f"
  shows "\<exists>s' f' fired. tmr_poll_loop (\<lambda>h s. ops_run l (ops h s) s) l now s log = Some (s', log @ fired) \<and> tmr_on T l s' f' \<and>
     due now s' (f' l) = [] \<and> polled ops s (due now s (f l)) fired"
  using assms(2)
proof (induction "length (due now s (f l))" arbitrary: s f log rule: less_induct)
  case less
  let ?poll = "tmr_poll_loop (\<lambda>h s. ops_run l (ops h s) s) l now"
  have inv: "tmr_inv l s f" using less.prems by (simp add: tmr_on_def)
  show ?case
  proof (cases "due now s (f l)")
    case Nil
    then have "?poll s log = Some (s, log)"
      using tmr_head [OF inv] by (subst tmr_poll_loop.simps) (auto simp: due_def not_le split: list.splits if_splits)
    then show ?thesis using less.prems Nil by (intro exI [of _ s] exI [of _ f] exI [of _ "[]"]) (simp add: polled_def)
  next
    case (Cons t ds)
    then obtain xs where xs: "f l = t # xs" "t_jfs (t_tmr s t) \<le> now" "ds = due now s xs"
      by (cases "f l") (auto simp: due_def split: if_splits)
    define s2 where "s2 = (set_tmr t (\<lambda>r. r\<lparr>t_th := None\<rparr>) s)\<lparr>t_store := list_unlink (t_store s) t\<rparr>"
    note fire = tmr_fire_inv [OF inv xs(1), folded s2_def]
    have t: "t \<in> set (f l)" "t \<notin> set xs" using xs(1) tmr_on_list(1) [OF less.prems] by auto
    then obtain h where h: "t_th (t_tmr s t) = Some h" using inv unfolding tmr_inv_def by blast
    have on2: "tmr_on T l s2 (f(l := xs))" using fire(1) less.prems xs(1) unfolding tmr_on_def by auto
    obtain s3 f3 where 3: "ops_run l (ops h s2) s2 = Some s3" "tmr_on T l s3 f3"
      "due now s3 (f3 l) = filter (\<lambda>e. e \<notin> op_tmr ` set (ops h s2)) ds" "\<forall>e. e \<notin> op_tmr ` set (ops h s2) \<longrightarrow> t_tmr s3 e = t_tmr s2 e"
      using ops_run_on [OF on2, of "ops h s2" now] later on2 fire(2) xs(3) unfolding handlers_later_def by auto
    have "length (due now s3 (f3 l)) < length (due now s (f l))" using 3(3) Cons by (simp add: le_imp_less_Suc)
    from less.hyps [OF this 3(2), of "log @ [(t, h)]"] obtain s' f' fired where r:
      "?poll s3 (log @ [(t, h)]) = Some (s', (log @ [(t, h)]) @ fired)" "tmr_on T l s' f'" "due now s' (f' l) = []"
      "polled ops s3 (due now s3 (f3 l)) fired" by blast
    have "?poll s log = Some (s', log @ (t, h) # fired)"
      using tmr_head [OF inv] xs(1,2) h r(1) 3(1) by (subst tmr_poll_loop.simps) (simp add: Let_def s2_def)
    moreover have "polled ops s (t # ds) ((t, h) # fired)"
    proof (rule polled_step [OF r(4) [unfolded 3(3)] h])
      show "t \<notin> set ds" using t(2) xs(3) by (auto simp: due_def dest: set_takeWhileD)
      show "t_tmr s3 e = t_tmr s e" if "e \<noteq> t" "e \<notin> op_tmr ` set (ops h s2)" for e
        using that 3(4) by (simp add: s2_def set_tmr_def)
    qed
    ultimately show ?thesis using r(2,3) Cons by (intro exI [of _ s'] exI [of _ f'] exI [of _ "(t, h) # fired"]) simp
  qed
qed

text \<open>
  C11. Due timers fire once, in the order of their deadlines, with the handler they were started with.
  The handlers may start, continue and cancel timers, also the one that fired, in any number and depending on
  the state; when no timer they start is due at the time of the poll, \<^verbatim>\<open>tmr_poll\<close> returns with no due
  timer left, what fired is a subsequence of the timers that were due, and a due timer did not fire
  only if a handler that ran started it again or cancelled it.
\<close>

theorem tmr_poll_fires:
  assumes "tmr_inv l s f" "set (f l) \<subseteq> T" "\<forall>l'. l' \<noteq> l \<longrightarrow> set (f l') \<inter> T = {}" "handlers_later T l now ops"
  shows "\<exists>s' f' fired. tmr_poll (\<lambda>h s. ops_run l (ops h s) s) l now s = Some (s', fired) \<and> tmr_inv l s' f' \<and>
     (\<forall>e \<in> set (f' l). now < t_jfs (t_tmr s' e)) \<and>
     subseq (map fst fired) (filter (\<lambda>e. t_jfs (t_tmr s e) \<le> now) (f l)) \<and>
     distinct (map fst fired) \<and> sorted (map (\<lambda>e. t_jfs (t_tmr s e)) (map fst fired)) \<and>
     (\<forall>(t, h) \<in> set fired. t_th (t_tmr s t) = Some h) \<and>
     (\<forall>e \<in> set (f l). t_jfs (t_tmr s e) \<le> now \<longrightarrow>
        e \<in> fst ` set fired \<or> (\<exists>(t, h) \<in> set fired. \<exists>s1. e \<in> op_tmr ` set (ops h s1)))"
proof -
  have on: "tmr_on T l s f" using assms(1-3) by (simp add: tmr_on_def)
  obtain s' f' fired where r: "tmr_poll_loop (\<lambda>h s. ops_run l (ops h s) s) l now s [] = Some (s', [] @ fired)" "tmr_on T l s' f'"
      "due now s' (f' l) = []" "polled ops s (due now s (f l)) fired"
    using tmr_poll_loop_runs [OF assms(4) on, of "[]"] by blast
  have inv': "tmr_inv l s' f'" using r(2) by (simp add: tmr_on_def)
  let ?ds = "filter (\<lambda>e. t_jfs (t_tmr s e) \<le> now) (f l)"
  have p: "polled ops s ?ds fired" using r(4) unfolding due_filter [OF assms(1)] .
  have sub: "subseq (map fst fired) ?ds" using p by (simp add: polled_def)
  have "sorted (map (\<lambda>e. t_jfs (t_tmr s e)) ?ds)" "distinct ?ds"
    using assms(1) tmr_on_list(1) [OF on] by (simp_all add: tmr_inv_def sorted_filter)
  moreover obtain N where "map fst fired = nths ?ds N" using sub subseq_conv_nths by blast
  ultimately have "sorted (map (\<lambda>e. t_jfs (t_tmr s e)) (map fst fired))" "distinct (map fst fired)"
    using sorted_nths [of "map (\<lambda>e. t_jfs (t_tmr s e)) ?ds" N] by (simp_all add: nths_map distinct_nthsI)
  then show ?thesis using r(1,3) inv' p sub unfolding due_filter [OF inv']
    by (intro exI [of _ s'] exI [of _ f'] exI [of _ fired]) (auto simp: polled_def tmr_poll_def filter_empty_conv not_le)
qed

text \<open>A periodic timer: its handler starts it again 50 ms after the time of the poll.\<close>

definition periodic :: "unit \<Rightarrow> unit tmrs \<Rightarrow> unit tmr_op list" where
  "periodic h s = [Op_start 200 7 50 ()]"

lemma periodic_later: "handlers_later {7} 0 200 periodic"
  by (auto simp: handlers_later_def periodic_def split: option.splits)

theorem tmr_poll_fires_witness:
  "\<exists>s s' f'. tmr_inv 0 s ((\<lambda>_. [])(0 := [7])) \<and> tmr_poll (\<lambda>h s. ops_run 0 (periodic h s) s) 0 200 s = Some (s', [(7, ())]) \<and>
     tmr_inv 0 s' f' \<and> (\<forall>e \<in> set (f' 0). 200 < t_jfs (t_tmr s' e))"
proof -
  obtain s :: "unit tmrs" where s: "tmr_inv 0 s ((\<lambda>_. [])(0 := [7]))" "t_jfs (t_tmr s 7) = 150"
    using tmr_startcont_inv [OF no_timers_inv, of 7 100 50 True "Some ()"] by (auto simp: tmr_place_def)
  obtain s' f' fired where r: "tmr_poll (\<lambda>h s. ops_run 0 (periodic h s) s) 0 200 s = Some (s', fired)" "tmr_inv 0 s' f'"
      "\<forall>e \<in> set (f' 0). 200 < t_jfs (t_tmr s' e)" "subseq (map fst fired) [7]" "fired \<noteq> []"
    using tmr_poll_fires [OF s(1) _ _ periodic_later] s(2) by fastforce
  have "fired = [(7, ())]" using r(4,5) by (cases fired) (auto dest: subseq_set split: if_splits)
  with s r(1-3) show ?thesis by blast
qed

text \<open>
  C12. The main loop never sleeps past a deadline.  \<^verbatim>\<open>tmr_next_timeout\<close> is 0 exactly when no timer
  runs; otherwise it is the time to the earliest deadline, or 1 when that has passed, so that no
  timer that is not due now gets due before the timeout is over.
\<close>

theorem tmr_next_timeout_exact:
  assumes "tmr_inv l s f"
  shows "(tmr_next_timeout l jif s = 0 \<longleftrightarrow> f l = []) \<and>
     (f l \<noteq> [] \<longrightarrow> uint (tmr_next_timeout l jif s) =
        max 1 (Min ((\<lambda>e. uint (t_jfs (t_tmr s e))) ` set (f l)) - uint jif)) \<and>
     (\<forall>now e. e \<in> set (f l) \<longrightarrow> uint now < uint jif + uint (tmr_next_timeout l jif s) \<longrightarrow> jif < t_jfs (t_tmr s e) \<longrightarrow>
        now < t_jfs (t_tmr s e))"
proof (cases "f l")
  case Nil
  then show ?thesis using tmr_head [OF assms] by (simp add: tmr_next_timeout_def)
next
  case (Cons t xs)
  let ?j = "uint (t_jfs (t_tmr s t))"
  have srt: "\<forall>e \<in> set xs. t_jfs (t_tmr s t) \<le> t_jfs (t_tmr s e)" using assms Cons by (simp add: tmr_inv_def)
  then have "Min ((\<lambda>e. uint (t_jfs (t_tmr s e))) ` set (f l)) = ?j"
    using Cons by (intro Min_eqI) (auto simp: word_le_def)
  moreover have "uint (t_jfs (t_tmr s t) - jif) = ?j - uint jif" if "jif < t_jfs (t_tmr s t)"
    using that by (simp add: uint_minus_simple_alt [THEN iffD1] less_imp_le)
  moreover have n: "tmr_next_timeout l jif s = (if t_jfs (t_tmr s t) \<le> jif then 1 else t_jfs (t_tmr s t) - jif)"
    using tmr_head [OF assms] Cons by (simp add: tmr_next_timeout_def)
  ultimately show ?thesis using Cons srt
    by (auto simp: word_le_def word_less_def not_le)
qed

theorem tmr_next_timeout_exact_witness: "tmr_next_timeout 0 5 no_timers = 0"
  using tmr_next_timeout_exact [OF no_timers_inv, of 5] by simp

section \<open>Absolute times\<close>

text \<open>
  C13. Moving an absolute time by an offset.  For a valid time and an offset whose product with one
  million fits 64 bits, \<^verbatim>\<open>tmr_timespec_get\<close> adds exactly the offset; the nanoseconds of the result are
  between 0 and one thousand million, and that upper bound, which is not a valid number of
  nanoseconds, is reached: exactly when the sum is a whole second.
\<close>

theorem tmr_timespec_get_exact:
  assumes "0 \<le> nsec" "nsec < 1000000000" "uint offset * 1000000 < 2 ^ 64" "offset \<noteq> 0"
    and tp: "tmr_timespec_get (Inr (sec, nsec)) offset = Inr (sec', nsec')"
  shows "sec' * 1000000000 + nsec' = sec * 1000000000 + nsec + uint offset * 1000000 \<and>
     0 \<le> nsec' \<and> nsec' \<le> 1000000000 \<and>
     (nsec' = 1000000000 \<longleftrightarrow> nsec + uint offset mod 1000 * 1000000 = 1000000000)"
proof -
  have o: "uint (offset * 1000000) = uint offset * 1000000"
    using assms(3) by (simp add: uint_word_ariths)
  have d: "uint (offset div 1000) = uint offset div 1000" by (simp add: uint_div)
  have m: "uint (offset * 1000000 mod 1000000000) = uint offset * 1000000 mod 1000000000" by (simp add: uint_mod o)
  have "uint offset * 1000000 mod 1000000000 = uint offset mod 1000 * 1000000"
    using mult_mod_left [of "uint offset" 1000 1000000] by simp
  then have m: "uint (offset * 1000000 mod 1000000000) = uint offset mod 1000 * 1000000" using m by simp
  let ?n = "nsec + uint offset mod 1000 * 1000000" and ?s = "sec + uint offset div 1000"
  have n: "0 \<le> ?n" "?n < 2000000000"
    using assms(1,2) pos_mod_bound [of 1000 "uint offset"] pos_mod_sign [of 1000 "uint offset"] by linarith+
  have "timespec_carry (?s, ?n) = (if ?n > 1000000000 then (?s + 1, ?n - 1000000000) else (?s, ?n))"
    using n(2) by (subst timespec_carry.simps) (subst timespec_carry.simps, simp)
  then have "sec' = (if ?n > 1000000000 then ?s + 1 else ?s)" "nsec' = (if ?n > 1000000000 then ?n - 1000000000 else ?n)"
    using tp assms(4) unfolding tmr_timespec_get_def d sum.case fst_conv snd_conv m by (auto split: if_splits)
  moreover have "uint offset * 1000000 = uint offset div 1000 * 1000000000 + uint offset mod 1000 * 1000000"
    using div_mult_mod_eq [of "uint offset" 1000] by linarith
  ultimately show ?thesis using n by (auto split: if_splits)
qed

theorem tmr_timespec_get_exact_witness: "tmr_timespec_get (Inr (5, 999000000)) 1 = Inr (5, 1000000000)"
proof -
  obtain a b where "tmr_timespec_get (Inr (5, 999000000)) 1 = Inr (a, b)" by (fastforce simp: tmr_timespec_get_def)
  from tmr_timespec_get_exact [OF _ _ _ _ this] this show ?thesis by simp
qed

end
