(* ===== verification/Sip_Trans.thy ===== *)
theory Sip_Trans
  imports Prelude
begin

text \<open>
  What the client and the server transactions of the SIP stack have in common: a table of
  transactions under the identity of their structure, in the order they were created, which is
  the order in which a lookup in a bucket of the hash table meets them; the time; and the trace of
  what was done outside of the transactions, with its time.  Timers are deadlines in milliseconds.
\<close>

section \<open>Constants and transports\<close>

datatype sip_transp = TP_UDP | TP_TCP | TP_TLS | TP_WS | TP_WSS | TP_OTHER

fun sip_transp_reliable :: "sip_transp \<Rightarrow> bool" where
  "sip_transp_reliable TP_UDP = False"
| "sip_transp_reliable TP_TCP = True"
| "sip_transp_reliable TP_TLS = True"
| "sip_transp_reliable TP_WS = True"
| "sip_transp_reliable TP_WSS = True"
| "sip_transp_reliable TP_OTHER = False"

abbreviation SIP_T1 :: nat where "SIP_T1 \<equiv> 500"
abbreviation SIP_T2 :: nat where "SIP_T2 \<equiv> 4000"
abbreviation SIP_T4 :: nat where "SIP_T4 \<equiv> 5000"
abbreviation ETIMEDOUT :: errno where "ETIMEDOUT \<equiv> 110"

text \<open>\<^verbatim>\<open>SIP_T1 << txc\<close> on a signed 32-bit integer is defined when the result is in range.\<close>

definition shift_t1 :: "nat \<Rightarrow> nat option" where
  "shift_t1 txc = (if txc < 32 \<and> SIP_T1 * 2 ^ txc < 2 ^ 31 then Some (SIP_T1 * 2 ^ txc) else None)"

lemma shift_t1_small: "txc \<le> 12 \<Longrightarrow> shift_t1 txc = Some (SIP_T1 * 2 ^ txc)"
proof -
  assume k: "txc \<le> 12"
  then have "(2 :: nat) ^ txc \<le> 2 ^ 12" by (intro power_increasing) auto
  then show ?thesis using k by (simp add: shift_t1_def)
qed

lemma t1_backoff: "3 \<le> n \<Longrightarrow> SIP_T2 \<le> SIP_T1 * 2 ^ (n + 1)"
  using power_increasing [of 4 "n + 1" "2 :: nat"] by simp

section \<open>Tables\<close>

record ('c, 'e) tsys =
  ts_now :: nat
  ts_tab :: "(nat \<times> 'c) list"
  ts_next :: nat
  ts_trace :: "(nat \<times> nat \<times> 'e) list"

definition ts_empty :: "('c, 'e) tsys" where
  "ts_empty = \<lparr>ts_now = 0, ts_tab = [], ts_next = 0, ts_trace = []\<rparr>"

definition ts_get :: "('c, 'e) tsys \<Rightarrow> nat \<Rightarrow> 'c option" where
  "ts_get s i = map_of (ts_tab s) i"

definition ts_upd :: "nat \<Rightarrow> ('c \<Rightarrow> 'c) \<Rightarrow> ('c, 'e) tsys \<Rightarrow> ('c, 'e) tsys" where
  "ts_upd i g s = s\<lparr>ts_tab := map (\<lambda>(j, c). (j, if j = i then g c else c)) (ts_tab s)\<rparr>"

definition ts_emit :: "nat \<Rightarrow> 'e \<Rightarrow> ('c, 'e) tsys \<Rightarrow> ('c, 'e) tsys" where
  "ts_emit i e s = s\<lparr>ts_trace := ts_trace s @ [(ts_now s, i, e)]\<rparr>"

text \<open>\<^verbatim>\<open>mem_deref\<close> of the only reference: the destructor unlinks the transaction and stops its timers.\<close>

definition ts_destroy :: "nat \<Rightarrow> ('c, 'e) tsys \<Rightarrow> ('c, 'e) tsys" where
  "ts_destroy i s = s\<lparr>ts_tab := filter (\<lambda>(j, c). j \<noteq> i) (ts_tab s)\<rparr>"

definition ts_new :: "'c \<Rightarrow> ('c, 'e) tsys \<Rightarrow> ('c, 'e) tsys" where
  "ts_new c s = s\<lparr>ts_tab := ts_tab s @ [(ts_next s, c)], ts_next := ts_next s + 1\<rparr>"

text \<open>The first transaction in the table that a handler accepts.\<close>

definition ts_find :: "('c \<Rightarrow> bool) \<Rightarrow> ('c, 'e) tsys \<Rightarrow> (nat \<times> 'c) option" where
  "ts_find p s = find (\<lambda>(i, c). p c) (ts_tab s)"

text \<open>The part of the trace that is about one transaction.\<close>

definition trace_of :: "nat \<Rightarrow> ('c, 'e) tsys \<Rightarrow> (nat \<times> 'e) list" where
  "trace_of i s = map (\<lambda>(t, j, e). (t, e)) (filter (\<lambda>(t, j, e). j = i) (ts_trace s))"

lemma ts_get_simps [simp]:
  "ts_get (ts_upd i g s) j = (if j = i then map_option g (ts_get s i) else ts_get s j)"
  "ts_get (ts_emit i e s) j = ts_get s j"
  "ts_get (ts_destroy i s) j = (if j = i then None else ts_get s j)"
  "ts_get (s\<lparr>ts_now := n\<rparr>) j = ts_get s j"
proof -
  have "map_of (map (\<lambda>(j, c). (j, if j = i then g c else c)) tab) j = (if j = i then map_option g (map_of tab i) else map_of tab j)" for tab
    by (induction tab) auto
  then show "ts_get (ts_upd i g s) j = (if j = i then map_option g (ts_get s i) else ts_get s j)"
    by (simp add: ts_get_def ts_upd_def)
  have "map_of (filter (\<lambda>(j, c). j \<noteq> i) tab) j = (if j = i then None else map_of tab j)" for tab :: "(nat \<times> 'a) list"
    by (induction tab) auto
  then show "ts_get (ts_destroy i s) j = (if j = i then None else ts_get s j)"
    by (simp add: ts_get_def ts_destroy_def)
qed (simp_all add: ts_get_def ts_emit_def)

lemma ts_prim_sel [simp]:
  "ts_now (ts_upd i g s) = ts_now s" "ts_now (ts_emit i e s) = ts_now s" "ts_now (ts_destroy i s) = ts_now s"
  "ts_now (ts_new c s) = ts_now s" "ts_next (ts_new c s) = Suc (ts_next s)" "ts_trace (ts_new c s) = ts_trace s"
  "ts_next (ts_upd i g s) = ts_next s" "ts_next (ts_emit i e s) = ts_next s" "ts_next (ts_destroy i s) = ts_next s"
  "ts_trace (ts_upd i g s) = ts_trace s" "ts_trace (ts_emit i e s) = ts_trace s @ [(ts_now s, i, e)]"
  "ts_trace (ts_destroy i s) = ts_trace s"
  "map fst (ts_tab (ts_upd i g s)) = map fst (ts_tab s)" "ts_tab (ts_emit i e s) = ts_tab s"
  "distinct (map fst (ts_tab s)) \<Longrightarrow> distinct (map fst (ts_tab (ts_destroy i s)))"
  by (simp_all add: ts_upd_def ts_emit_def ts_destroy_def ts_new_def distinct_map_filter)
    (metis (mono_tags, lifting) case_prod_beta comp_apply fst_conv)

lemma ts_upd_upd: "ts_upd i g (ts_upd i h s) = ts_upd i (\<lambda>c. g (h c)) s"
  by (simp add: ts_upd_def o_def case_prod_beta)

lemma ts_find_get:
  assumes "distinct (map fst (ts_tab s))" "ts_find p s = Some (i, c)"
  shows "ts_get s i = Some c" "p c"
  using assms by (auto simp: ts_find_def find_Some_iff ts_get_def) (metis map_of_eq_Some_iff nth_mem)

lemma ts_destroy_none: "ts_get s i = None \<Longrightarrow> ts_destroy i s = s"
proof -
  assume "ts_get s i = None"
  then have "ts_tab (ts_destroy i s) = ts_tab s"
    by (auto simp: ts_destroy_def ts_get_def map_of_eq_None_iff rev_image_eqI intro!: filter_True)
  then show ?thesis by (simp add: ts_destroy_def)
qed

section \<open>Changes of one transaction\<close>

text \<open>A change of one transaction that adds \<open>es\<close> to its trace.\<close>

definition ts_evolves :: "nat \<Rightarrow> (nat \<times> 'e) list \<Rightarrow> ('c, 'e) tsys \<Rightarrow> ('c, 'e) tsys \<Rightarrow> bool" where
  "ts_evolves i es s s' \<longleftrightarrow> ts_now s' = ts_now s \<and> ts_next s' = ts_next s \<and>
     (distinct (map fst (ts_tab s)) \<longrightarrow> distinct (map fst (ts_tab s'))) \<and>
     (\<forall>j. j \<noteq> i \<longrightarrow> ts_get s' j = ts_get s j) \<and>
     ts_trace s' = ts_trace s @ map (\<lambda>(t, e). (t, i, e)) es"

lemma ts_evolves_refl: "ts_evolves i [] s s"
  by (simp add: ts_evolves_def)

lemma ts_evolves_upd: "ts_evolves i es s s' \<Longrightarrow> ts_evolves i es s (ts_upd i g s')"
  by (auto simp: ts_evolves_def)

lemma ts_evolves_emit: "ts_evolves i es s s' \<Longrightarrow> ts_evolves i (es @ [(ts_now s, e)]) s (ts_emit i e s')"
  by (auto simp: ts_evolves_def)

lemma ts_evolves_destroy: "ts_evolves i es s s' \<Longrightarrow> ts_evolves i es s (ts_destroy i s')"
  by (auto simp: ts_evolves_def)

lemmas ts_evolves_intros = ts_evolves_refl ts_evolves_upd ts_evolves_emit ts_evolves_destroy

lemma ts_evolves_trace: "ts_evolves i es s s' \<Longrightarrow> trace_of j s' = (if j = i then trace_of i s @ es else trace_of j s)"
  by (auto simp: ts_evolves_def trace_of_def filter_map o_def case_prod_beta)

section \<open>Invariants of tables\<close>

text \<open>
  \<open>ok\<close> relates the time, the trace of a transaction and its state; \<open>over\<close> is what holds of the trace
  of a transaction that is gone; \<open>bad\<close> events never happen; \<open>timers\<close> are the deadlines of a
  transaction.
\<close>

definition ts_inv :: "(nat \<Rightarrow> (nat \<times> 'e) list \<Rightarrow> 'c \<Rightarrow> bool) \<Rightarrow> ((nat \<times> 'e) list \<Rightarrow> bool) \<Rightarrow> ('e \<Rightarrow> bool) \<Rightarrow> ('c, 'e) tsys \<Rightarrow> bool" where
  "ts_inv ok over bad s \<longleftrightarrow> distinct (map fst (ts_tab s)) \<and>
     (\<forall>i c. ts_get s i = Some c \<longrightarrow> i < ts_next s \<and> ok (ts_now s) (trace_of i s) c) \<and>
     (\<forall>i < ts_next s. ts_get s i = None \<longrightarrow> over (trace_of i s)) \<and>
     (\<forall>(t, i, e) \<in> set (ts_trace s). i < ts_next s \<and> \<not> bad e)"

definition deadlines :: "('c \<Rightarrow> nat set) \<Rightarrow> ('c, 'e) tsys \<Rightarrow> nat set" where
  "deadlines timers s = (\<Union>(i, c) \<in> set (ts_tab s). timers c)"

lemma ts_inv_get: "ts_inv ok over bad s \<Longrightarrow> ts_get s i = Some c \<Longrightarrow> i < ts_next s \<and> ok (ts_now s) (trace_of i s) c"
  by (simp add: ts_inv_def)

lemma ts_inv_distinct: "ts_inv ok over bad s \<Longrightarrow> distinct (map fst (ts_tab s))"
  by (simp add: ts_inv_def)

lemma ts_inv_empty: "ts_inv ok over bad ts_empty"
  by (simp add: ts_inv_def ts_empty_def ts_get_def)

lemma ts_inv_keep:
  assumes "ts_inv ok over bad s" "ts_evolves i es s s'" "i < ts_next s" "\<forall>e \<in> set es. \<not> bad (snd e)"
    "ts_get s' i = Some c" "ok (ts_now s) (trace_of i s @ es) c"
  shows "ts_inv ok over bad s'"
proof -
  note tr = ts_evolves_trace [OF assms(2)]
  have "ts_get s' j = Some c \<longrightarrow> j < ts_next s' \<and> ok (ts_now s') (trace_of j s') c" for j c
    using assms by (cases "j = i") (auto simp: ts_evolves_def ts_inv_def tr)
  moreover have "j < ts_next s' \<longrightarrow> ts_get s' j = None \<longrightarrow> over (trace_of j s')" for j
    using assms by (cases "j = i") (auto simp: ts_evolves_def ts_inv_def tr)
  ultimately show ?thesis using assms(1-4) by (auto simp: ts_inv_def ts_evolves_def)
qed

lemma ts_inv_drop:
  assumes "ts_inv ok over bad s" "ts_evolves i es s s'" "i < ts_next s" "\<forall>e \<in> set es. \<not> bad (snd e)"
    "ts_get s' i = None" "over (trace_of i s @ es)"
  shows "ts_inv ok over bad s'"
proof -
  note tr = ts_evolves_trace [OF assms(2)]
  have "ts_get s' j = Some c \<longrightarrow> j < ts_next s' \<and> ok (ts_now s') (trace_of j s') c" for j c
    using assms by (cases "j = i") (auto simp: ts_evolves_def ts_inv_def tr)
  moreover have "j < ts_next s' \<longrightarrow> ts_get s' j = None \<longrightarrow> over (trace_of j s')" for j
    using assms by (cases "j = i") (auto simp: ts_evolves_def ts_inv_def tr)
  ultimately show ?thesis using assms(1-4) by (auto simp: ts_inv_def ts_evolves_def)
qed

lemma ts_inv_new:
  assumes "ts_inv ok over bad s" "\<forall>e \<in> set es. \<not> bad (snd e)" "ok (ts_now s) es c"
    and s': "ts_now s' = ts_now s" "ts_next s' = Suc (ts_next s)" "ts_tab s' = ts_tab s @ [(ts_next s, c)]"
      "ts_trace s' = ts_trace s @ map (\<lambda>(t, e). (t, ts_next s, e)) es"
  shows "ts_inv ok over bad s'"
proof -
  let ?n = "ts_next s"
  have fresh: "ts_get s i = Some x \<Longrightarrow> i < ?n" "(t, i, e) \<in> set (ts_trace s) \<Longrightarrow> i < ?n" for i x t e
    using assms(1) by (auto simp: ts_inv_def)
  have mem: "i < ?n" if "i \<in> fst ` set (ts_tab s)" for i
    using that fresh(1) by (auto simp: ts_get_def dest: weak_map_of_SomeI)
  have g: "ts_get s' i = (if i = ?n then Some c else ts_get s i)" for i
    using fresh(1) [of ?n] by (auto simp: ts_get_def s'(3) map_add_def split: option.splits)
  have tr: "trace_of i s' = (if i = ?n then es else trace_of i s)" for i
    using fresh(2) by (auto simp: trace_of_def s'(4) filter_empty_conv filter_map o_def case_prod_beta dest: less_irrefl_nat [OF fresh(2)])
  have "distinct (map fst (ts_tab s'))" using assms(1) mem by (auto simp: ts_inv_def s'(3))
  then show ?thesis using assms(1-3) unfolding ts_inv_def s'(1,2,4) g tr
    by (auto simp: less_Suc_eq)
qed

lemma ts_inv_tick:
  assumes "ts_inv ok over bad s"
    and "\<And>i c. ts_get s i = Some c \<Longrightarrow> ok (ts_now s) (trace_of i s) c \<Longrightarrow> ok (ts_now s + k) (trace_of i s) c"
  shows "ts_inv ok over bad (s\<lparr>ts_now := ts_now s + k\<rparr>)"
proof -
  have "trace_of i (s\<lparr>ts_now := ts_now s + k\<rparr>) = trace_of i s" for i by (simp add: trace_of_def)
  then show ?thesis using assms by (auto simp: ts_inv_def)
qed

lemma deadlines_get: "ts_get s i = Some c \<Longrightarrow> d \<in> timers c \<Longrightarrow> d \<in> deadlines timers s"
  by (force simp: deadlines_def ts_get_def dest: map_of_SomeD)

section \<open>Progress of time\<close>

text \<open>The number of timers that are due, where a transaction has the timers \<open>tm\<close>.\<close>

definition tm_due :: "nat \<Rightarrow> nat option list \<Rightarrow> nat" where
  "tm_due now ts = length (filter (\<lambda>t. \<exists>d. t = Some d \<and> d \<le> now) ts)"

definition ts_due :: "('c \<Rightarrow> nat option list) \<Rightarrow> ('c, 'e) tsys \<Rightarrow> nat" where
  "ts_due tm s = sum_list (map (\<lambda>(i, c). tm_due (ts_now s) (tm c)) (ts_tab s))"

definition tm_set :: "('c \<Rightarrow> nat option list) \<Rightarrow> 'c \<Rightarrow> nat set" where
  "tm_set tm c = {d. Some d \<in> set (tm c)}"

lemma ts_due_upd:
  assumes "(i, c) \<in> set (ts_tab s)" "distinct (map fst (ts_tab s))" "tm_due (ts_now s) (tm (g c)) < tm_due (ts_now s) (tm c)"
  shows "ts_due tm (ts_upd i g s) < ts_due tm s"
proof -
  have "sum_list (map (\<lambda>(i, c). w c) (map (\<lambda>(j, c). (j, if j = i then g c else c)) tab)) < sum_list (map (\<lambda>(i, c). w c) tab)"
    if "(i, c) \<in> set tab" "distinct (map fst tab)" "w (g c) < w c" for w :: "'a \<Rightarrow> nat" and tab
    using that
  proof (induction tab)
    case (Cons x tab)
    have same: "map (\<lambda>(j, c). (j, if j = i then g c else c)) tab = tab" if "i \<notin> fst ` set tab"
      using that by (intro map_idI) (auto simp: rev_image_eqI)
    show ?case
    proof (cases "fst x = i")
      case True
      then have "x = (i, c)" "i \<notin> fst ` set tab" using Cons.prems by (auto simp: rev_image_eqI)
      then show ?thesis using Cons.prems(3) same by simp
    next
      case False
      then show ?thesis using Cons by (cases x) auto
    qed
  qed simp
  from this [OF assms(1,2), of "\<lambda>c. tm_due (ts_now s) (tm c)"] assms(3) show ?thesis
    by (simp add: ts_due_def ts_upd_def)
qed

lemma ts_due_destroy:
  assumes "(i, c) \<in> set (ts_tab s)" "0 < tm_due (ts_now s) (tm c)"
  shows "ts_due tm (ts_destroy i s) < ts_due tm s"
proof -
  have le: "sum_list (map (\<lambda>(i, c). w c) (filter P tab)) \<le> sum_list (map (\<lambda>(i, c). w c) tab)"
    for P and w :: "'a \<Rightarrow> nat" and tab :: "(nat \<times> 'a) list"
    by (induction tab) auto
  have "sum_list (map (\<lambda>(i, c). w c) (filter (\<lambda>(j, c). j \<noteq> i) tab)) < sum_list (map (\<lambda>(i, c). w c) tab)"
    if "(i, c) \<in> set tab" "0 < w c" for w :: "'a \<Rightarrow> nat" and tab
    using that
  proof (induction tab)
    case (Cons x tab)
    then show ?case using le [of w "\<lambda>(j, c). j \<noteq> i" tab] by (cases x) (auto simp: add_strict_increasing)
  qed simp
  from this [of "ts_tab s" "\<lambda>c. tm_due (ts_now s) (tm c)"] assms show ?thesis by (simp add: ts_due_def ts_destroy_def)
qed

lemma ts_due_destroy_upd: "ts_due tm (ts_destroy i (ts_upd i g s)) = ts_due tm (ts_destroy i s)"
proof -
  have "filter (\<lambda>(j, c). j \<noteq> i) (map (\<lambda>(j, c). (j, if j = i then g c else c)) tab) = filter (\<lambda>(j, c). j \<noteq> i) tab" for tab
    by (induction tab) auto
  then show ?thesis by (simp add: ts_due_def ts_destroy_def ts_upd_def)
qed

lemma ts_due_emit [simp]: "ts_due tm (ts_emit i e s) = ts_due tm s"
  by (simp add: ts_due_def)

lemma ts_due_zero: "ts_due tm s = 0 \<Longrightarrow> d \<in> deadlines (tm_set tm) s \<Longrightarrow> ts_now s < d"
  by (fastforce simp: ts_due_def deadlines_def tm_set_def tm_due_def filter_empty_conv)

text \<open>
  A system whose steps keep an invariant, that can always serve a timer that is due, and where
  the clock advances when none is due: time does not stop.  \<open>sys\<close> is the table within the state of
  the system.
\<close>

locale timed_system =
  fixes sys :: "'w \<Rightarrow> ('c, 'e) tsys"
    and step :: "'w \<Rightarrow> 'w \<Rightarrow> bool"
    and inv :: "'w \<Rightarrow> bool"
    and tm :: "'c \<Rightarrow> nat option list"
  assumes step_inv: "step w w' \<Longrightarrow> inv w \<Longrightarrow> inv w'"
    and tick_step: "\<forall>d \<in> deadlines (tm_set tm) (sys w). ts_now (sys w) + k \<le> d \<Longrightarrow>
      \<exists>w'. step w w' \<and> ts_now (sys w') = ts_now (sys w) + k"
    and inv_distinct: "inv w \<Longrightarrow> distinct (map fst (ts_tab (sys w)))"
    and serve: "inv w \<Longrightarrow> ts_get (sys w) i = Some c \<Longrightarrow> 0 < tm_due (ts_now (sys w)) (tm c) \<Longrightarrow>
      \<exists>w'. step w w' \<and> ts_now (sys w') = ts_now (sys w) \<and> ts_due tm (sys w') < ts_due tm (sys w)"
begin

lemma serve_all:
  "inv w \<Longrightarrow> \<exists>w'. step\<^sup>*\<^sup>* w w' \<and> inv w' \<and> ts_now (sys w') = ts_now (sys w) \<and> ts_due tm (sys w') = 0"
proof (induction "ts_due tm (sys w)" arbitrary: w rule: less_induct)
  case less
  show ?case
  proof (cases "ts_due tm (sys w) = 0")
    case False
    then obtain i c where ic: "(i, c) \<in> set (ts_tab (sys w))" "0 < tm_due (ts_now (sys w)) (tm c)"
      by (auto simp: ts_due_def)
    then have "ts_get (sys w) i = Some c" using inv_distinct [OF less.prems] by (simp add: ts_get_def)
    from serve [OF less.prems this ic(2)] obtain w1 where w1: "step w w1" "ts_now (sys w1) = ts_now (sys w)" "ts_due tm (sys w1) < ts_due tm (sys w)"
      by blast
    from less.hyps [OF w1(3) step_inv [OF w1(1) less.prems]] w1(1,2) show ?thesis
      by (metis converse_rtranclp_into_rtranclp)
  qed (use less.prems in blast)
qed

lemma time_advances:
  assumes "inv w"
  shows "\<exists>w'. step\<^sup>*\<^sup>* w w' \<and> inv w' \<and> ts_now (sys w') = ts_now (sys w) + k"
proof (induction k)
  case 0
  then show ?case using assms by auto
next
  case (Suc k)
  then obtain w1 where w1: "step\<^sup>*\<^sup>* w w1" "inv w1" "ts_now (sys w1) = ts_now (sys w) + k" by blast
  obtain w2 where w2: "step\<^sup>*\<^sup>* w1 w2" "inv w2" "ts_now (sys w2) = ts_now (sys w1)" "ts_due tm (sys w2) = 0"
    using serve_all [OF w1(2)] by blast
  obtain w3 where w3: "step w2 w3" "ts_now (sys w3) = ts_now (sys w2) + 1"
    using tick_step [of w2 1] ts_due_zero [OF w2(4)] by (auto simp: Suc_le_eq)
  then show ?case using w1 w2 step_inv [OF w3(1) w2(2)] by (intro exI [of _ w3]) auto
qed

end

end
