(* ===== verification/Sip_Ctrans.thy ===== *)
theory Sip_Ctrans
  imports Sip_Trans
begin

text \<open>
  SIP client transactions (\<^verbatim>\<open>src/sip/ctrans.c\<close>).  What the handlers do outside of the transaction is
  recorded in the trace: messages handed to the transport, and calls of the response handler of
  the user, and the start, cancellation and release of the transaction.  The results of
  the transport layer are arguments of the handlers.
\<close>

section \<open>State\<close>

datatype ct_state = TRYING | CALLING | PROCEEDING | COMPLETED

abbreviation COMPLETE_WAIT :: nat where "COMPLETE_WAIT \<equiv> 32000"

record sip_ctrans =
  ct_tmr :: "nat option"
  ct_tmre :: "nat option"
  ct_ack :: bool
  ct_met :: string
  ct_branch :: string
  ct_tp :: sip_transp
  ct_state :: ct_state
  ct_txc :: nat
  ct_invite :: bool

text \<open>The parts of a response that select and drive a transaction.\<close>

record sip_resp =
  r_branch :: string
  r_met :: string
  r_scode :: nat

datatype ct_eff =
    Eff_start
  | Eff_send
  | Eff_ack
  | Eff_resp errno "sip_resp option"
  | Eff_cancel
  | Eff_release
  | Eff_fault

type_synonym ct_sys = "(sip_ctrans, ct_eff) tsys"

section \<open>Handlers\<close>

definition ct_cmp_handler :: "sip_resp \<Rightarrow> sip_ctrans \<Rightarrow> bool" where
  "ct_cmp_handler msg ct \<longleftrightarrow> r_branch msg = ct_branch ct \<and> r_met msg = ct_met ct"

definition ct_terminate :: "nat \<Rightarrow> errno \<Rightarrow> ct_sys \<Rightarrow> ct_sys" where
  "ct_terminate i err s =
     (case ts_get s i of
        None \<Rightarrow> s
      | Some ct \<Rightarrow> if ct_state ct \<in> {TRYING, CALLING, PROCEEDING} then ts_emit i (Eff_resp err None) s else s)"

definition ct_transport_handler :: "nat \<Rightarrow> errno \<Rightarrow> ct_sys \<Rightarrow> ct_sys" where
  "ct_transport_handler i err s = ts_destroy i (ct_terminate i err s)"

definition ct_tmr_handler :: "nat \<Rightarrow> ct_sys \<Rightarrow> ct_sys" where
  "ct_tmr_handler i s = ts_destroy i (ct_terminate i ETIMEDOUT s)"

definition ct_timeout :: "ct_state \<Rightarrow> nat \<Rightarrow> nat option" where
  "ct_timeout st txc =
     (case st of
        TRYING \<Rightarrow> map_option (\<lambda>t. min t SIP_T2) (shift_t1 txc)
      | CALLING \<Rightarrow> shift_t1 txc
      | _ \<Rightarrow> Some SIP_T2)"

text \<open>\<open>serr\<close> is the result of \<^verbatim>\<open>sip_transp_send\<close>.\<close>

definition ct_retransmit_handler :: "errno \<Rightarrow> nat \<Rightarrow> ct_sys \<Rightarrow> ct_sys" where
  "ct_retransmit_handler serr i s =
     (case ts_get s i of
        None \<Rightarrow> s
      | Some ct0 \<Rightarrow>
          let ct = ct0\<lparr>ct_txc := ct_txc ct0 + 1\<rparr>;
              s1 = ts_upd i (\<lambda>_. ct) s
          in if ct_state ct = COMPLETED then s1
             else case ct_timeout (ct_state ct) (ct_txc ct) of
                 None \<Rightarrow> ts_emit i Eff_fault s1
               | Some timeout \<Rightarrow>
                   let s2 = ts_emit i Eff_send (ts_upd i (\<lambda>c. c\<lparr>ct_tmre := Some (ts_now s + timeout)\<rparr>) s1)
                   in if serr \<noteq> 0 then ts_destroy i (ct_terminate i serr s2) else s2)"

text \<open>\<open>aerr\<close> is the result of \<^verbatim>\<open>request_copy\<close>, which makes the ACK.\<close>

definition ct_invite_response :: "errno \<Rightarrow> nat \<Rightarrow> sip_ctrans \<Rightarrow> sip_resp \<Rightarrow> ct_sys \<Rightarrow> ct_sys" where
  "ct_invite_response aerr i ct msg s =
     (if ct_state ct = CALLING \<or> ct_state ct = PROCEEDING then
        let s1 = (if ct_state ct = CALLING then ts_upd i (\<lambda>c. c\<lparr>ct_tmr := None, ct_tmre := None\<rparr>) s else s)
        in if r_scode msg < 200 then
             ts_emit i (Eff_resp 0 (Some msg)) (ts_upd i (\<lambda>c. c\<lparr>ct_state := PROCEEDING\<rparr>) s1)
           else if r_scode msg < 300 then
             ts_destroy i (ts_emit i (Eff_resp 0 (Some msg)) s1)
           else
             let s2 = ts_upd i (\<lambda>c. c\<lparr>ct_state := COMPLETED, ct_ack := (aerr = 0)\<rparr>) s1;
                 s3 = (if aerr = 0 then ts_emit i Eff_ack s2 else s2);
                 s4 = ts_emit i (Eff_resp 0 (Some msg)) s3
             in if sip_transp_reliable (ct_tp ct) then ts_destroy i s4
                else ts_upd i (\<lambda>c. c\<lparr>ct_tmr := Some (ts_now s + COMPLETE_WAIT)\<rparr>) s4
      else if ct_state ct = COMPLETED then
        if r_scode msg < 300 then s
        else if ct_ack ct then ts_emit i Eff_ack s else s
      else s)"

definition ct_response_handler :: "errno \<Rightarrow> sip_resp \<Rightarrow> ct_sys \<Rightarrow> bool \<times> ct_sys" where
  "ct_response_handler aerr msg s =
     (case ts_find (ct_cmp_handler msg) s of
        None \<Rightarrow> (False, s)
      | Some (i, ct) \<Rightarrow>
          if ct_invite ct then (True, ct_invite_response aerr i ct msg s)
          else if ct_state ct = TRYING \<or> ct_state ct = PROCEEDING then
            if r_scode msg < 200 then
              (True, ts_emit i (Eff_resp 0 (Some msg)) (ts_upd i (\<lambda>c. c\<lparr>ct_state := PROCEEDING\<rparr>) s))
            else
              let s1 = ts_emit i (Eff_resp 0 (Some msg)) (ts_upd i (\<lambda>c. c\<lparr>ct_state := COMPLETED\<rparr>) s)
              in if sip_transp_reliable (ct_tp ct) then (True, ts_destroy i s1)
                 else (True, ts_upd i (\<lambda>c. c\<lparr>ct_tmr := Some (ts_now s + SIP_T4), ct_tmre := None\<rparr>) s1)
          else (True, s))"

text \<open>\<open>merr\<close> is the failure of the allocation, \<open>serr\<close> the result of the transport.\<close>

definition sip_ctrans_request ::
  "errno \<Rightarrow> errno \<Rightarrow> sip_transp \<Rightarrow> string \<Rightarrow> string \<Rightarrow> ct_sys \<Rightarrow> errno \<times> ct_sys" where
  "sip_ctrans_request merr serr tp met branch s =
     (if merr \<noteq> 0 then (ENOMEM, s)
      else if serr \<noteq> 0 then (serr, s)
      else
        let invite = (met = ''INVITE'');
            ct = \<lparr>ct_tmr = Some (ts_now s + 64 * SIP_T1),
                  ct_tmre = (if sip_transp_reliable tp then None else Some (ts_now s + SIP_T1)),
                  ct_ack = False, ct_met = met, ct_branch = branch, ct_tp = tp,
                  ct_state = (if invite then CALLING else TRYING), ct_txc = 0, ct_invite = invite\<rparr>
        in (0, ts_emit (ts_next s) Eff_send (ts_emit (ts_next s) Eff_start (ts_new ct s))))"

text \<open>\<open>cerr\<close> is the result of making the CANCEL request.\<close>

definition sip_ctrans_cancel :: "errno \<Rightarrow> errno \<Rightarrow> errno \<Rightarrow> nat \<Rightarrow> ct_sys \<Rightarrow> errno \<times> ct_sys" where
  "sip_ctrans_cancel cerr merr serr i s =
     (case ts_get s i of
        None \<Rightarrow> (EINVAL, s)
      | Some ct \<Rightarrow>
          if \<not> ct_invite ct then (0, s)
          else if ct_state ct \<noteq> PROCEEDING then (EPROTO, s)
          else
            let s1 = ts_emit i Eff_cancel (ts_upd i (\<lambda>c. c\<lparr>ct_tmr := Some (ts_now s + 64 * SIP_T1)\<rparr>) s)
            in if cerr \<noteq> 0 then (cerr, s1)
               else sip_ctrans_request merr serr (ct_tp ct) ''CANCEL'' (ct_branch ct) s1)"

text \<open>
  \<^verbatim>\<open>mem_deref\<close> of a transaction by its owner (\<^verbatim>\<open>src/sip/request.c\<close>), or when the tables of the stack are
  flushed (\<^verbatim>\<open>src/sip/sip.c\<close>): the destructor unlinks it and stops its timers, without a report.
\<close>

definition ct_release :: "nat \<Rightarrow> ct_sys \<Rightarrow> ct_sys" where
  "ct_release i s =
     (case ts_get s i of None \<Rightarrow> s | Some ct \<Rightarrow> ts_destroy i (ts_emit i Eff_release s))"

section \<open>Runs\<close>

text \<open>
  The events of a stack: requests, responses, errors of the transport, cancellation, release of
  a transaction at any time, expired timers, and the passing of time, which does not pass a deadline
  before its timer is served.
\<close>

definition ct_timers :: "sip_ctrans \<Rightarrow> nat option list" where
  "ct_timers c = [ct_tmr c, ct_tmre c]"

inductive ct_step :: "ct_sys \<Rightarrow> ct_sys \<Rightarrow> bool" where
  request: "ct_step s (snd (sip_ctrans_request merr serr tp met branch s))"
| response: "ct_step s (snd (ct_response_handler aerr msg s))"
| transport: "err \<noteq> 0 \<Longrightarrow> ct_step s (ct_transport_handler i err s)"
| cancel: "ct_step s (snd (sip_ctrans_cancel cerr merr serr i s))"
| release: "ct_step s (ct_release i s)"
| tmr: "ts_get s i = Some c \<Longrightarrow> ct_tmr c = Some d \<Longrightarrow> d \<le> ts_now s \<Longrightarrow>
    ct_step s (ct_tmr_handler i (ts_upd i (\<lambda>c. c\<lparr>ct_tmr := None\<rparr>) s))"
| tmre: "ts_get s i = Some c \<Longrightarrow> ct_tmre c = Some d \<Longrightarrow> d \<le> ts_now s \<Longrightarrow>
    ct_step s (ct_retransmit_handler serr i (ts_upd i (\<lambda>c. c\<lparr>ct_tmre := None\<rparr>) s))"
| tick: "\<forall>d \<in> deadlines (tm_set ct_timers) s. ts_now s + k \<le> d \<Longrightarrow> ct_step s (s\<lparr>ts_now := ts_now s + k\<rparr>)"

abbreviation ct_reachable :: "ct_sys \<Rightarrow> bool" where
  "ct_reachable s \<equiv> ct_step\<^sup>*\<^sup>* ts_empty s"

inductive_cases ct_stepE: "ct_step s s'"

section \<open>Invariant\<close>

text \<open>The calls of the response handler.\<close>

fun is_resp :: "nat \<times> ct_eff \<Rightarrow> bool" where
  "is_resp (t, Eff_resp err m) = True"
| "is_resp _ = False"

text \<open>A final report is an error or a response of class 2 or higher.\<close>

fun is_final :: "nat \<times> ct_eff \<Rightarrow> bool" where
  "is_final (t, Eff_resp err None) = True"
| "is_final (t, Eff_resp err (Some m)) = (200 \<le> r_scode m)"
| "is_final _ = False"

definition ct_open :: "(nat \<times> ct_eff) list \<Rightarrow> bool" where
  "ct_open tr \<longleftrightarrow> (\<forall>e \<in> set tr. \<not> is_final e)"

definition ct_done :: "(nat \<times> ct_eff) list \<Rightarrow> bool" where
  "ct_done tr \<longleftrightarrow> (\<exists>ps f. filter is_resp tr = ps @ [f] \<and> is_final f \<and> (\<forall>p \<in> set ps. \<not> is_final p))"

text \<open>A transaction that is gone reported its outcome, or was released before it had one.\<close>

definition ct_over :: "(nat \<times> ct_eff) list \<Rightarrow> bool" where
  "ct_over tr \<longleftrightarrow> ct_done tr \<or> ct_open tr \<and> Eff_release \<in> snd ` set tr"

text \<open>
  When a transaction has to end, read off its trace: after a final outcome it waits for
  retransmissions for a fixed time; without one it has 64 times T1 from its start, or, for an
  INVITE that had a response, from its last cancellation; an INVITE that had a response and
  was not cancelled may wait for ever.
\<close>

fun is_cancel :: "nat \<times> ct_eff \<Rightarrow> bool" where
  "is_cancel (t, Eff_cancel) = True"
| "is_cancel _ = False"

definition ct_due :: "bool \<Rightarrow> (nat \<times> ct_eff) list \<Rightarrow> nat option" where
  "ct_due invite tr =
     (case find is_final (rev tr) of
        Some e \<Rightarrow> Some (fst e + (if invite then COMPLETE_WAIT else SIP_T4))
      | None \<Rightarrow>
          if invite \<and> list_ex is_resp tr then map_option (\<lambda>e. fst e + 64 * SIP_T1) (find is_cancel (rev tr))
          else Some (fst (hd tr) + 64 * SIP_T1))"

definition ct_quiet :: "(nat \<times> ct_eff) list \<Rightarrow> bool" where
  "ct_quiet tr \<longleftrightarrow> \<not> list_ex is_resp tr \<and> \<not> list_ex is_cancel tr"

lemma is_final_resp: "is_final e \<Longrightarrow> is_resp e"
  by (cases e rule: is_final.cases) auto

lemma ct_due_final: "is_final e \<Longrightarrow> ct_due invite (tr @ [e]) = Some (fst e + (if invite then COMPLETE_WAIT else SIP_T4))"
  by (simp add: ct_due_def)

lemma ct_due_more: "tr \<noteq> [] \<Longrightarrow> \<not> is_resp e \<Longrightarrow> \<not> is_cancel e \<Longrightarrow> ct_due invite (tr @ [e]) = ct_due invite tr"
  using is_final_resp [of e] by (auto simp: ct_due_def split: option.splits)

lemma find_none: "\<not> list_ex P tr \<Longrightarrow> find P (rev tr) = None"
  by (auto simp: find_None_iff list_ex_iff)

lemma ct_due_response:
  assumes "tr \<noteq> []" "is_resp e" "\<not> is_final e" "\<not> is_cancel e"
  shows "ct_quiet tr \<Longrightarrow> ct_due True (tr @ [e]) = None"
    "list_ex is_resp tr \<or> \<not> invite \<Longrightarrow> ct_due invite (tr @ [e]) = ct_due invite tr"
proof -
  assume q: "ct_quiet tr"
  then have "\<not> list_ex is_final tr" using is_final_resp by (auto simp: ct_quiet_def list_ex_iff)
  then show "ct_due True (tr @ [e]) = None" using q assms find_none [of is_final tr] find_none [of is_cancel tr]
    by (simp add: ct_due_def ct_quiet_def)
qed (use assms in \<open>auto simp: ct_due_def split: option.splits\<close>)

lemma ct_due_cancel: "ct_open tr \<Longrightarrow> list_ex is_resp tr \<Longrightarrow> ct_due True (tr @ [(t, Eff_cancel)]) = Some (t + 64 * SIP_T1)"
  using find_none [of is_final tr] by (auto simp: ct_due_def ct_open_def list_ex_iff)

text \<open>
  The timers of a transaction that started at time \<open>b\<close>.  Until a response the first timer runs
  for \<^verbatim>\<open>64 * SIP_T1\<close>, and on an unreliable transport the next retransmission is the later the
  more there were.
\<close>

definition ct_times :: "nat \<Rightarrow> nat \<Rightarrow> sip_ctrans \<Rightarrow> bool" where
  "ct_times b now c \<longleftrightarrow>
     (\<forall>d. ct_tmr c = Some d \<longrightarrow> now \<le> d) \<and> (\<forall>d. ct_tmre c = Some d \<longrightarrow> now \<le> d) \<and>
     (case ct_state c of
        CALLING \<Rightarrow> ct_invite c \<and> ct_tmr c = Some (b + 64 * SIP_T1) \<and>
          (if sip_transp_reliable (ct_tp c) then ct_tmre c = None
           else \<exists>d. ct_tmre c = Some d \<and> b + SIP_T1 * 2 ^ (ct_txc c + 1) \<le> d + SIP_T1)
      | TRYING \<Rightarrow> \<not> ct_invite c \<and> ct_tmr c = Some (b + 64 * SIP_T1) \<and>
          (if sip_transp_reliable (ct_tp c) then ct_tmre c = None
           else \<exists>d. ct_tmre c = Some d \<and> b + SIP_T2 * (ct_txc c - 3) \<le> d)
      | PROCEEDING \<Rightarrow>
          if ct_invite c then ct_tmre c = None
          else ct_tmr c = Some (b + 64 * SIP_T1) \<and>
            (if sip_transp_reliable (ct_tp c) then ct_tmre c = None
             else \<exists>d. ct_tmre c = Some d \<and> b + SIP_T2 * (ct_txc c - 3) \<le> d)
      | COMPLETED \<Rightarrow> \<not> sip_transp_reliable (ct_tp c) \<and> ct_tmre c = None \<and>
          (\<exists>d. ct_tmr c = Some d \<and> (\<not> ct_invite c \<longrightarrow> d \<le> b + 64 * SIP_T1 + SIP_T4)))"

definition ct_deadline :: "(nat \<times> ct_eff) list \<Rightarrow> sip_ctrans \<Rightarrow> bool" where
  "ct_deadline tr c \<longleftrightarrow> ct_tmr c = ct_due (ct_invite c) tr \<and>
     (ct_state c = CALLING \<or> ct_state c = TRYING \<longrightarrow> ct_quiet tr) \<and> (ct_state c = PROCEEDING \<longrightarrow> list_ex is_resp tr)"

definition ct_ok :: "nat \<Rightarrow> (nat \<times> ct_eff) list \<Rightarrow> sip_ctrans \<Rightarrow> bool" where
  "ct_ok now tr c \<longleftrightarrow> (\<exists>b rest. tr = (b, Eff_start) # rest \<and> b \<le> now \<and> ct_times b now c) \<and>
     (if ct_state c = COMPLETED then ct_done tr else ct_open tr) \<and> ct_deadline tr c"

abbreviation ct_inv :: "ct_sys \<Rightarrow> bool" where
  "ct_inv \<equiv> ts_inv ct_ok ct_over (\<lambda>e. e = Eff_fault)"

lemma ct_done_final:
  assumes "ct_open tr" "is_resp e" "is_final e"
  shows "ct_done (tr @ [e])" "\<not> is_resp e' \<Longrightarrow> ct_done (tr @ [e', e])"
  using assms by (auto simp: ct_done_def ct_open_def intro!: exI [of _ "filter is_resp tr"])

lemma ct_done_more: "ct_done tr \<Longrightarrow> \<not> is_resp e \<Longrightarrow> ct_done (tr @ [e])"
  by (simp add: ct_done_def)

lemma ct_open_more: "ct_open tr \<Longrightarrow> \<not> is_final e \<Longrightarrow> ct_open (tr @ [e])"
  by (simp add: ct_open_def)

lemma ct_okE:
  assumes "ct_ok now tr c"
  obtains b rest where "tr = (b, Eff_start) # rest" "b \<le> now" "ct_times b now c"
    "ct_state c = COMPLETED \<Longrightarrow> ct_done tr" "ct_state c \<noteq> COMPLETED \<Longrightarrow> ct_open tr"
    "ct_deadline tr c"
  using assms by (auto simp: ct_ok_def split: if_splits)

lemma ct_deadline_more:
  assumes "ct_deadline tr c" "tr \<noteq> []" "\<not> is_resp e" "\<not> is_cancel e"
    "ct_tmr c' = ct_tmr c" "ct_invite c' = ct_invite c" "ct_state c' = ct_state c"
  shows "ct_deadline (tr @ [e]) c'"
  using assms by (simp add: ct_deadline_def ct_due_more ct_quiet_def)

lemma ct_deadline_final:
  assumes "is_final e" "ct_state c = COMPLETED" "ct_tmr c = Some (fst e + (if ct_invite c then COMPLETE_WAIT else SIP_T4))"
  shows "ct_deadline (tr @ [e]) c"
  using assms by (simp add: ct_deadline_def ct_due_final)

text \<open>Ending a transaction: the user hears of it unless a final response was reported before.\<close>

lemma ct_end_inv:
  assumes "ct_inv s" "ts_get s i = Some c" "ts_evolves i es s s1" "ts_get s1 i = Some c1" "ct_state c1 = ct_state c"
    "\<forall>e \<in> set es. \<not> is_resp e \<and> snd e \<noteq> Eff_fault"
  shows "ct_inv (ts_destroy i (ct_terminate i err s1))"
proof -
  have ok: "i < ts_next s" "ct_ok (ts_now s) (trace_of i s) c" using ts_inv_get [OF assms(1,2)] by auto
  have nr: "filter is_resp es = []" "\<And>e. e \<in> set es \<Longrightarrow> \<not> is_final e"
    using assms(6) by (auto simp: filter_empty_conv) (metis is_final.simps is_resp.elims(3))
  show ?thesis
  proof (cases "ct_state c = COMPLETED")
    case True
    then have "ct_done (trace_of i s @ es)" using ok(2) nr by (auto simp: ct_ok_def ct_done_def)
    moreover have "ct_terminate i err s1 = s1" using True assms(4,5) by (simp add: ct_terminate_def)
    ultimately show ?thesis
      using ts_inv_drop [OF assms(1) ts_evolves_destroy [OF assms(3)] ok(1)] assms(6) by (simp add: ct_over_def)
  next
    case False
    then have "ct_open (trace_of i s @ es)" using ok(2) nr by (auto simp: ct_ok_def ct_open_def)
    then have "ct_done ((trace_of i s @ es) @ [(ts_now s, Eff_resp err None)])" by (rule ct_done_final) simp_all
    moreover have "ct_terminate i err s1 = ts_emit i (Eff_resp err None) s1"
      using False assms(4,5) by (cases "ct_state c") (auto simp: ct_terminate_def)
    ultimately show ?thesis
      using ts_inv_drop [OF assms(1) ts_evolves_destroy [OF ts_evolves_emit [OF assms(3), of "Eff_resp err None"]] ok(1)] assms(6)
      by (simp add: ct_over_def)
  qed
qed

lemma ct_terminate_none: "ts_get s i = None \<Longrightarrow> ct_inv s \<Longrightarrow> ct_inv (ts_destroy i (ct_terminate i err s))"
  by (simp add: ct_terminate_def ts_destroy_none)

section \<open>Preservation\<close>

lemma ct_next_retransmission:
  assumes "ct_times b now c" "ct_tmre c = Some d" "d \<le> now"
  shows "ct_state c \<noteq> COMPLETED" "\<exists>t. ct_timeout (ct_state c) (ct_txc c + 1) = Some t \<and>
     ct_times b now (c\<lparr>ct_txc := ct_txc c + 1, ct_tmre := Some (now + t)\<rparr>)"
proof -
  show "ct_state c \<noteq> COMPLETED" using assms by (auto simp: ct_times_def)
  show "\<exists>t. ct_timeout (ct_state c) (ct_txc c + 1) = Some t \<and>
     ct_times b now (c\<lparr>ct_txc := ct_txc c + 1, ct_tmre := Some (now + t)\<rparr>)"
  proof (cases "ct_state c")
    case CALLING
    have "b + 500 * 2 ^ (ct_txc c + 1) \<le> now + 500" "now \<le> b + 32000"
      using assms CALLING by (auto simp: ct_times_def split: if_splits)
    then have n: "500 * 2 ^ (ct_txc c + 1) \<le> (32500 :: nat)" "b + 500 * 2 ^ (ct_txc c + 1) \<le> now + 500" by linarith+
    have "ct_txc c + 1 \<le> 6"
    proof (rule ccontr)
      assume "\<not> ct_txc c + 1 \<le> 6"
      then have "(2 :: nat) ^ 7 \<le> 2 ^ (ct_txc c + 1)" by (intro power_increasing) auto
      then show False using n(1) by simp
    qed
    then have t: "ct_timeout CALLING (ct_txc c + 1) = Some (500 * 2 ^ (ct_txc c + 1))"
      by (simp add: ct_timeout_def shift_t1_small)
    have "2 ^ (Suc (ct_txc c) + 1) = 2 * (2 :: nat) ^ (ct_txc c + 1)" by simp
    then have "b + 500 * 2 ^ (Suc (ct_txc c) + 1) \<le> (now + 500 * 2 ^ (ct_txc c + 1)) + 500" using n(2) by linarith
    then show ?thesis using assms CALLING t by (auto simp: ct_times_def split: if_splits)
  next
    case TRYING
    have l: "b + 4000 * (ct_txc c - 3) \<le> now" "now \<le> b + 32000"
      using assms TRYING by (auto simp: ct_times_def split: if_splits)
    then have k: "ct_txc c \<le> 11" by linarith
    then have t: "ct_timeout TRYING (ct_txc c + 1) = Some (min (500 * 2 ^ (ct_txc c + 1)) 4000)"
      by (simp add: ct_timeout_def shift_t1_small)
    have "b + 4000 * (ct_txc c + 1 - 3) \<le> now + min (500 * 2 ^ (ct_txc c + 1)) 4000"
      using l(1) t1_backoff [of "ct_txc c"] by (cases "3 \<le> ct_txc c") auto
    then show ?thesis using assms TRYING t by (auto simp: ct_times_def split: if_splits)
  next
    case PROCEEDING
    then show ?thesis using assms by (auto simp: ct_times_def ct_timeout_def split: if_splits)
  next
    case COMPLETED
    then show ?thesis using assms by (auto simp: ct_times_def)
  qed
qed

lemma ct_retransmit_inv:
  assumes "ct_inv s" "ts_get s i = Some c" "ct_tmre c = Some d" "d \<le> ts_now s"
  shows "ct_inv (ct_retransmit_handler serr i (ts_upd i (\<lambda>c. c\<lparr>ct_tmre := None\<rparr>) s))"
proof -
  let ?s0 = "ts_upd i (\<lambda>c. c\<lparr>ct_tmre := None\<rparr>) s"
  have ok: "i < ts_next s" "ct_ok (ts_now s) (trace_of i s) c" using ts_inv_get [OF assms(1,2)] by auto
  obtain b rest where b: "trace_of i s = (b, Eff_start) # rest" "b \<le> ts_now s" "ct_times b (ts_now s) c"
    "ct_state c \<noteq> COMPLETED \<Longrightarrow> ct_open (trace_of i s)" "ct_deadline (trace_of i s) c"
    using ok(2) by (elim ct_okE) blast
  note t = ct_next_retransmission [OF b(3) assms(3,4)]
  from t(2) obtain k where k: "ct_timeout (ct_state c) (ct_txc c + 1) = Some k"
    "ct_times b (ts_now s) (c\<lparr>ct_txc := ct_txc c + 1, ct_tmre := Some (ts_now s + k)\<rparr>)" by blast
  let ?c = "c\<lparr>ct_tmre := None, ct_txc := ct_txc c + 1\<rparr>"
  let ?s2 = "ts_emit i Eff_send (ts_upd i (\<lambda>c. c\<lparr>ct_tmre := Some (ts_now s + k)\<rparr>) (ts_upd i (\<lambda>_. ?c) ?s0))"
  have ev: "ts_evolves i ([] @ [(ts_now s, Eff_send)]) s ?s2" by (intro ts_evolves_intros)
  have g: "ts_get ?s2 i = Some (c\<lparr>ct_txc := ct_txc c + 1, ct_tmre := Some (ts_now s + k)\<rparr>)" using assms(2) by simp
  have "ct_ok (ts_now s) (trace_of i s @ [(ts_now s, Eff_send)]) (c\<lparr>ct_txc := ct_txc c + 1, ct_tmre := Some (ts_now s + k)\<rparr>)"
    using b k(2) t(1) ct_open_more [of "trace_of i s" "(ts_now s, Eff_send)"] ct_deadline_more [OF b(5)]
    by (auto simp: ct_ok_def)
  then have ok2: "ct_inv ?s2" by (intro ts_inv_keep [OF assms(1) ev ok(1) _ g]) simp_all
  have h: "ct_retransmit_handler serr i ?s0 = (if serr \<noteq> 0 then ts_destroy i (ct_terminate i serr ?s2) else ?s2)"
    using assms(2) t(1) k(1) by (simp add: ct_retransmit_handler_def Let_def)
  show ?thesis
    unfolding h using ok2 ct_end_inv [OF assms(1,2) ev g] by simp
qed

lemma ct_end_states:
  "ct_times b now c \<Longrightarrow> ct_invite c \<Longrightarrow> ct_state c \<noteq> TRYING"
  "ct_times b now c \<Longrightarrow> \<not> ct_invite c \<Longrightarrow> ct_state c \<noteq> CALLING"
  by (auto simp: ct_times_def)

text \<open>A response to an INVITE.\<close>

lemma ct_invite_response_inv:
  assumes "ct_inv s" "ts_get s i = Some c" "ct_invite c"
  shows "ct_inv (ct_invite_response aerr i c msg s)"
proof -
  have ok: "i < ts_next s" "ct_ok (ts_now s) (trace_of i s) c" using ts_inv_get [OF assms(1,2)] by auto
  obtain b rest where b: "trace_of i s = (b, Eff_start) # rest" "b \<le> ts_now s" "ct_times b (ts_now s) c"
    "ct_state c = COMPLETED \<Longrightarrow> ct_done (trace_of i s)" "ct_state c \<noteq> COMPLETED \<Longrightarrow> ct_open (trace_of i s)"
    "ct_deadline (trace_of i s) c"
    using ok(2) by (elim ct_okE) blast
  let ?r = "(ts_now s, Eff_resp 0 (Some msg))" and ?a = "(ts_now s, Eff_ack)"
  show ?thesis
  proof (cases "ct_state c = CALLING \<or> ct_state c = PROCEEDING")
    case st: True
    then have op: "ct_open (trace_of i s)" using b(5) by auto
    let ?s1 = "if ct_state c = CALLING then ts_upd i (\<lambda>c. c\<lparr>ct_tmr := None, ct_tmre := None\<rparr>) s else s"
    let ?c1 = "if ct_state c = CALLING then c\<lparr>ct_tmr := None, ct_tmre := None\<rparr> else c"
    have s1: "ts_evolves i [] s ?s1" "ts_get ?s1 i = Some ?c1" "ts_now ?s1 = ts_now s"
      using assms(2) by (auto intro: ts_evolves_intros)
    have tm: "ct_tmre ?c1 = None" "\<forall>d. ct_tmr ?c1 = Some d \<longrightarrow> ts_now s \<le> d" "ct_invite ?c1" "ct_tp ?c1 = ct_tp c"
      using b(3) st assms(3) by (auto simp: ct_times_def)
    consider "r_scode msg < 200" | "200 \<le> r_scode msg" "r_scode msg < 300" | "300 \<le> r_scode msg" by linarith
    then show ?thesis
    proof cases
      case 1
      have dl: "ct_deadline (trace_of i s @ [?r]) (?c1\<lparr>ct_state := PROCEEDING\<rparr>)"
        using b(1,6) st assms(3) 1 ct_due_response [of "trace_of i s" ?r] by (auto simp: ct_deadline_def)
      have "ct_ok (ts_now s) (trace_of i s @ [?r]) (?c1\<lparr>ct_state := PROCEEDING\<rparr>)"
        using b(1,2) tm ct_open_more [OF op, of ?r] 1 dl by (auto simp: ct_ok_def ct_times_def)
      then show ?thesis
        using st 1 s1(2,3) ts_inv_keep [OF assms(1) ts_evolves_emit [OF ts_evolves_upd [OF s1(1)]] ok(1)]
        by (auto simp: ct_invite_response_def Let_def)
    next
      case 2
      have "ct_done (trace_of i s @ [?r])" using ct_done_final(1) [OF op, of ?r] 2 by simp
      then show ?thesis
        using st 2 s1(2,3) ts_inv_drop [OF assms(1) ts_evolves_destroy [OF ts_evolves_emit [OF s1(1)]] ok(1)]
        by (auto simp: ct_invite_response_def Let_def ct_over_def)
    next
      case 3
      let ?es = "(if aerr = 0 then [?a] else []) @ [?r]"
      let ?s2 = "ts_upd i (\<lambda>c. c\<lparr>ct_state := COMPLETED, ct_ack := (aerr = 0)\<rparr>) ?s1"
      let ?s4 = "ts_emit i (Eff_resp 0 (Some msg)) (if aerr = 0 then ts_emit i Eff_ack ?s2 else ?s2)"
      let ?c4 = "?c1\<lparr>ct_state := COMPLETED, ct_ack := (aerr = 0)\<rparr>"
      have ev: "ts_evolves i ?es s ?s4"
        using ts_evolves_emit [OF ts_evolves_emit [OF ts_evolves_upd [OF s1(1)], of Eff_ack]]
          ts_evolves_emit [OF ts_evolves_upd [OF s1(1)]] by simp
      have g4: "ts_get ?s4 i = Some ?c4" "ts_now ?s4 = ts_now s" using s1(2,3) by auto
      have nf: "\<forall>e \<in> set ?es. snd e \<noteq> Eff_fault" by auto
      have dn: "ct_done (trace_of i s @ ?es)" using ct_done_final [OF op, of ?r] 3 by auto
      have r: "ct_invite_response aerr i c msg s = (if sip_transp_reliable (ct_tp c) then ts_destroy i ?s4
          else ts_upd i (\<lambda>c. c\<lparr>ct_tmr := Some (ts_now s + COMPLETE_WAIT)\<rparr>) ?s4)"
        using st 3 by (auto simp: ct_invite_response_def Let_def)
      show ?thesis
      proof (cases "sip_transp_reliable (ct_tp c)")
        case True
        then show ?thesis unfolding r using ts_inv_drop [OF assms(1) ts_evolves_destroy [OF ev] ok(1) nf] dn by (simp add: ct_over_def)
      next
        case False
        have "ct_ok (ts_now s) (trace_of i s @ ?es) (?c4\<lparr>ct_tmr := Some (ts_now s + COMPLETE_WAIT)\<rparr>)"
          using b(1,2) tm dn False 3 ct_deadline_final [of ?r _ "trace_of i s @ (if aerr = 0 then [?a] else [])"]
          by (simp add: ct_ok_def ct_times_def)
        then show ?thesis unfolding r using False g4
          ts_inv_keep [OF assms(1) ts_evolves_upd [OF ev, of "\<lambda>c. c\<lparr>ct_tmr := Some (ts_now s + COMPLETE_WAIT)\<rparr>"] ok(1) nf]
          by simp
      qed
    qed
  next
    case False
    then have "ct_state c = COMPLETED" using ct_end_states(1) [OF b(3) assms(3)] by (cases "ct_state c") auto
    moreover from this have "ct_done (trace_of i s @ [?a])" using b(4) ct_done_more [of _ ?a] by simp
    moreover from calculation have "ct_ok (ts_now s) (trace_of i s @ [?a]) c"
      using b(1-3) ct_deadline_more [OF b(6), of ?a] by (auto simp: ct_ok_def)
    ultimately show ?thesis
      using assms ts_inv_keep [OF assms(1) ts_evolves_emit [OF ts_evolves_refl] ok(1)]
      by (auto simp: ct_invite_response_def)
  qed
qed

lemma ct_response_inv:
  assumes "ct_inv s"
  shows "ct_inv (snd (ct_response_handler aerr msg s))"
proof (cases "ts_find (ct_cmp_handler msg) s")
  case None
  then show ?thesis using assms by (simp add: ct_response_handler_def)
next
  case (Some ic)
  obtain i c where ic: "ic = (i, c)" by fastforce
  then have g: "ts_get s i = Some c" using ts_find_get(1) [of s "ct_cmp_handler msg" i c] assms Some by (simp add: ts_inv_def)
  have ok: "i < ts_next s" "ct_ok (ts_now s) (trace_of i s) c" using ts_inv_get [OF assms g] by auto
  obtain b rest where b: "trace_of i s = (b, Eff_start) # rest" "b \<le> ts_now s" "ct_times b (ts_now s) c"
    "ct_state c = COMPLETED \<Longrightarrow> ct_done (trace_of i s)" "ct_state c \<noteq> COMPLETED \<Longrightarrow> ct_open (trace_of i s)"
    "ct_deadline (trace_of i s) c"
    using ok(2) by (elim ct_okE) blast
  let ?r = "(ts_now s, Eff_resp 0 (Some msg))"
  show ?thesis
  proof (cases "ct_invite c")
    case True
    then show ?thesis using Some ic ct_invite_response_inv [OF assms g] by (simp add: ct_response_handler_def)
  next
    case False
    show ?thesis
    proof (cases "ct_state c = TRYING \<or> ct_state c = PROCEEDING")
      case True
      then have op: "ct_open (trace_of i s)" using b(5) by auto
      show ?thesis
      proof (cases "r_scode msg < 200")
        case prov: True
        let ?c = "c\<lparr>ct_state := PROCEEDING\<rparr>"
        have dl: "ct_deadline (trace_of i s @ [?r]) ?c"
          using b(1,6) prov False ct_due_response(2) [of "trace_of i s" ?r False] by (simp add: ct_deadline_def)
        have "ct_ok (ts_now s) (trace_of i s @ [?r]) ?c"
          using b(1-3) True False ct_open_more [OF op, of ?r] prov dl by (auto simp: ct_ok_def ct_times_def)
        then show ?thesis
          using Some ic True False prov g ts_inv_keep [OF assms ts_evolves_emit [OF ts_evolves_upd [OF ts_evolves_refl]] ok(1)]
          by (auto simp: ct_response_handler_def)
      next
        case fin: False
        have dn: "ct_done (trace_of i s @ [?r])" using ct_done_final(1) [OF op, of ?r] fin by simp
        let ?c = "c\<lparr>ct_state := COMPLETED, ct_tmr := Some (ts_now s + SIP_T4), ct_tmre := None\<rparr>"
        have "ct_ok (ts_now s) (trace_of i s @ [?r]) ?c" if "\<not> sip_transp_reliable (ct_tp c)"
          using b(1-3) True False dn that ct_deadline_final [of ?r ?c "trace_of i s"] fin by (auto simp: ct_ok_def ct_times_def)
        then show ?thesis
          using Some ic True False fin g dn
            ts_inv_keep [OF assms ts_evolves_upd [OF ts_evolves_emit [OF ts_evolves_upd [OF ts_evolves_refl]]] ok(1)]
            ts_inv_drop [OF assms ts_evolves_destroy [OF ts_evolves_emit [OF ts_evolves_upd [OF ts_evolves_refl]]] ok(1)]
          by (auto simp: ct_response_handler_def Let_def ct_over_def)
      qed
    next
      case f2: False
      then show ?thesis using Some ic False assms by (simp add: ct_response_handler_def)
    qed
  qed
qed

lemma ct_request_inv:
  assumes "ct_inv s"
  shows "ct_inv (snd (sip_ctrans_request merr serr tp met branch s))"
proof (cases "merr \<noteq> 0 \<or> serr \<noteq> 0")
  case True
  then show ?thesis using assms by (auto simp: sip_ctrans_request_def)
next
  case False
  let ?c = "\<lparr>ct_tmr = Some (ts_now s + 64 * SIP_T1),
                  ct_tmre = (if sip_transp_reliable tp then None else Some (ts_now s + SIP_T1)),
                  ct_ack = False, ct_met = met, ct_branch = branch, ct_tp = tp,
                  ct_state = (if met = ''INVITE'' then CALLING else TRYING), ct_txc = 0, ct_invite = (met = ''INVITE'')\<rparr>"
  let ?es = "[(ts_now s, Eff_start), (ts_now s, Eff_send)]"
  have "ct_ok (ts_now s) ?es ?c" by (auto simp: ct_ok_def ct_times_def ct_open_def ct_deadline_def ct_due_def ct_quiet_def)
  then show ?thesis using False
    by (intro ts_inv_new [OF assms, of ?es ?c]) (auto simp: sip_ctrans_request_def Let_def ts_new_def)
qed

lemma ct_cancel_inv:
  assumes "ct_inv s"
  shows "ct_inv (snd (sip_ctrans_cancel cerr merr serr i s))"
proof (cases "ts_get s i")
  case (Some c)
  have ok: "i < ts_next s" "ct_ok (ts_now s) (trace_of i s) c" using ts_inv_get [OF assms Some] by auto
  let ?s1 = "ts_emit i Eff_cancel (ts_upd i (\<lambda>c. c\<lparr>ct_tmr := Some (ts_now s + 64 * SIP_T1)\<rparr>) s)"
  let ?c = "c\<lparr>ct_tmr := Some (ts_now s + 64 * SIP_T1)\<rparr>" and ?e = "(ts_now s, Eff_cancel)"
  have "ct_inv ?s1" if "ct_invite c" "ct_state c = PROCEEDING"
  proof (rule ts_inv_keep [OF assms ts_evolves_emit [OF ts_evolves_upd [OF ts_evolves_refl]] ok(1)])
    show "ts_get ?s1 i = Some ?c" using Some by simp
    have op: "ct_open (trace_of i s)" using ok(2) that by (simp add: ct_ok_def)
    then have "ct_deadline (trace_of i s @ [?e]) ?c"
      using ok(2) that ct_due_cancel by (simp add: ct_ok_def ct_deadline_def)
    then show "ct_ok (ts_now s) (trace_of i s @ [] @ [?e]) ?c"
      using ok(2) that ct_open_more [OF op, of ?e] by (auto simp: ct_ok_def ct_times_def)
  qed simp
  then show ?thesis using Some assms ct_request_inv [of ?s1] by (auto simp: sip_ctrans_cancel_def Let_def)
qed (use assms in \<open>simp add: sip_ctrans_cancel_def\<close>)

lemma ct_release_inv:
  assumes "ct_inv s"
  shows "ct_inv (ct_release i s)"
proof (cases "ts_get s i")
  case (Some c)
  let ?e = "(ts_now s, Eff_release)"
  have ok: "i < ts_next s" "ct_ok (ts_now s) (trace_of i s) c" using ts_inv_get [OF assms Some] by auto
  have "ct_over (trace_of i s @ [?e])"
    using ok(2) ct_done_more [of "trace_of i s" ?e] ct_open_more [of "trace_of i s" ?e]
    by (auto simp: ct_ok_def ct_over_def split: if_splits)
  then show ?thesis
    using ts_inv_drop [OF assms ts_evolves_destroy [OF ts_evolves_emit [OF ts_evolves_refl]] ok(1)] Some
    by (simp add: ct_release_def)
qed (use assms in \<open>simp add: ct_release_def\<close>)

lemma ct_tick_inv:
  assumes "ct_inv s" "\<forall>d \<in> deadlines (tm_set ct_timers) s. ts_now s + k \<le> d"
  shows "ct_inv (s\<lparr>ts_now := ts_now s + k\<rparr>)"
proof (rule ts_inv_tick [OF assms(1)])
  fix i c assume c: "ts_get s i = Some c" "ct_ok (ts_now s) (trace_of i s) c"
  have "ts_now s + k \<le> d" if "ct_tmr c = Some d \<or> ct_tmre c = Some d" for d
    using that assms(2) deadlines_get [OF c(1), of d "tm_set ct_timers"] by (auto simp: tm_set_def ct_timers_def)
  then have "ct_times b (ts_now s + k) c" if "ct_times b (ts_now s) c" for b
    using that by (auto simp: ct_times_def)
  with c(2) show "ct_ok (ts_now s + k) (trace_of i s) c" by (fastforce simp: ct_ok_def)
qed

lemma ct_step_inv: "ct_step s s' \<Longrightarrow> ct_inv s \<Longrightarrow> ct_inv s'"
proof (induction rule: ct_step.induct)
  case (transport err s i)
  then show ?case
    using ct_end_inv [OF transport(2) _ ts_evolves_refl] ct_terminate_none
    by (cases "ts_get s i") (auto simp: ct_transport_handler_def)
next
  case (tmr s i c d)
  then show ?case
    using ct_end_inv [OF tmr(4,1) ts_evolves_upd [OF ts_evolves_refl], of "\<lambda>c. c\<lparr>ct_tmr := None\<rparr>" "c\<lparr>ct_tmr := None\<rparr>"]
    by (simp add: ct_tmr_handler_def)
next
  case (tick s k)
  then show ?case by (intro ct_tick_inv)
qed (simp_all add: ct_request_inv ct_response_inv ct_cancel_inv ct_release_inv ct_retransmit_inv)

lemma ct_reachable_inv: "ct_reachable s \<Longrightarrow> ct_inv s"
proof (induction rule: rtranclp_induct)
  case base
  show ?case by (rule ts_inv_empty)
qed (rule ct_step_inv)

section \<open>Progress\<close>

lemma ct_timeout_pos: "ct_timeout st n = Some k \<Longrightarrow> 0 < k"
  by (auto simp: ct_timeout_def shift_t1_def split: ct_state.splits if_splits)

lemma ct_terminate_due: "ts_due ct_timers (ts_destroy i (ct_terminate i err s)) = ts_due ct_timers (ts_destroy i s)"
  "ts_now (ct_terminate i err s) = ts_now s"
  by (auto simp: ct_terminate_def ts_due_def ts_destroy_def ts_emit_def split: option.splits)

lemma ct_serve:
  assumes "ct_inv s" "ts_get s i = Some c" "0 < tm_due (ts_now s) (ct_timers c)"
  shows "\<exists>s'. ct_step s s' \<and> ts_now s' = ts_now s \<and> ts_due ct_timers s' < ts_due ct_timers s"
proof (cases "\<exists>d. ct_tmr c = Some d \<and> d \<le> ts_now s")
  case True
  then obtain d where d: "ct_tmr c = Some d" "d \<le> ts_now s" by blast
  let ?s1 = "ct_tmr_handler i (ts_upd i (\<lambda>c. c\<lparr>ct_tmr := None\<rparr>) s)"
  have "ts_due ct_timers ?s1 < ts_due ct_timers s"
    using ts_due_destroy [OF map_of_SomeD [OF assms(2) [unfolded ts_get_def]], of ct_timers] assms(3)
    by (simp add: ct_tmr_handler_def ct_terminate_due(1) ts_due_destroy_upd)
  then show ?thesis using ct_step.tmr [OF assms(2) d]
    by (intro exI [of _ ?s1]) (simp add: ct_tmr_handler_def ct_terminate_due(2))
next
  case False
  then obtain d where d: "ct_tmre c = Some d" "d \<le> ts_now s" using assms(3) by (auto simp: tm_due_def ct_timers_def split: if_splits)
  obtain b where b: "ct_times b (ts_now s) c" using ts_inv_get [OF assms(1,2)] by (auto elim: ct_okE)
  obtain k where k: "ct_timeout (ct_state c) (ct_txc c + 1) = Some k"
    using ct_next_retransmission(2) [OF b d] by blast
  let ?s1 = "ct_retransmit_handler 0 i (ts_upd i (\<lambda>c. c\<lparr>ct_tmre := None\<rparr>) s)"
  let ?c = "c\<lparr>ct_txc := ct_txc c + 1, ct_tmre := Some (ts_now s + k)\<rparr>"
  have s1: "?s1 = ts_emit i Eff_send (ts_upd i (\<lambda>_. ?c) s)"
    using assms(2) k ct_next_retransmission(1) [OF b d] by (simp add: ct_retransmit_handler_def Let_def ts_upd_upd)
  have "tm_due (ts_now s) (ct_timers ?c) < tm_due (ts_now s) (ct_timers c)"
    using False d ct_timeout_pos [OF k] by (auto simp: tm_due_def ct_timers_def)
  then have "ts_due ct_timers (ts_upd i (\<lambda>_. ?c) s) < ts_due ct_timers s"
    using ts_due_upd [OF map_of_SomeD [OF assms(2) [unfolded ts_get_def]], of ct_timers "\<lambda>_. ?c"] assms(1) by (simp add: ts_inv_def)
  then show ?thesis using ct_step.tmre [OF assms(2) d, of 0] unfolding s1 by (intro exI) auto
qed

lemma ct_tick:
  "\<forall>d \<in> deadlines (tm_set ct_timers) s. ts_now s + k \<le> d \<Longrightarrow> \<exists>s'. ct_step s s' \<and> ts_now s' = ts_now s + k"
  by (intro exI [of _ "s\<lparr>ts_now := ts_now s + k\<rparr>"]) (simp add: ct_step.tick)

interpretation ct: timed_system "\<lambda>s. s" ct_step ct_inv ct_timers
  by unfold_locales (auto intro: ct_step_inv ct_tick ct_serve ts_inv_distinct)

section \<open>Properties\<close>

lemma ct_done_count: "ct_done tr \<Longrightarrow> length (filter is_final tr) = 1"
proof -
  assume "ct_done tr"
  then obtain ps f where f: "filter is_resp tr = ps @ [f]" "is_final f" "\<forall>p \<in> set ps. \<not> is_final p"
    by (auto simp: ct_done_def)
  have "is_final e \<Longrightarrow> is_resp e" for e by (cases e rule: is_final.cases) auto
  then have "filter is_final tr = filter is_final (filter is_resp tr)" by (auto simp: intro!: filter_cong)
  then show ?thesis using f by (simp add: filter_empty_conv)
qed

lemma ct_open_butlast: "ct_open tr \<Longrightarrow> p \<in> set (butlast (filter is_resp tr)) \<Longrightarrow> \<not> is_final p"
  by (auto simp: ct_open_def dest: in_set_butlastD)

lemma ct_due_done:
  assumes "ct_done tr" "f \<in> set tr" "is_final f"
  shows "ct_due invite tr = Some (fst f + (if invite then COMPLETE_WAIT else SIP_T4))"
proof -
  have "find is_final (rev tr) \<noteq> None" using assms(2,3) by (metis find_None_iff set_rev)
  then obtain g where g: "find is_final (rev tr) = Some g" by blast
  then have "g \<in> set tr" "is_final g" by (auto simp: find_Some_iff) (metis length_rev nth_mem set_rev)
  then have "g \<in> set (filter is_final tr)" "f \<in> set (filter is_final tr)" using assms(2,3) by auto
  moreover have "length (filter is_final tr) = 1" using assms(1) by (rule ct_done_count)
  then obtain x where "filter is_final tr = [x]" by (auto simp: length_Suc_conv)
  ultimately have "g = f" by simp
  then show ?thesis using g by (simp add: ct_due_def)
qed

lemma ct_due_none:
  assumes "ct_times b now c" "ct_state c = COMPLETED \<Longrightarrow> ct_done tr" "ct_state c \<noteq> COMPLETED \<Longrightarrow> ct_open tr" "ct_deadline tr c"
  shows "ct_due (ct_invite c) tr = None \<longleftrightarrow> ct_invite c \<and> ct_state c = PROCEEDING \<and> Eff_cancel \<notin> snd ` set tr"
proof -
  have t: "ct_tmr c = ct_due (ct_invite c) tr" using assms(4) by (simp add: ct_deadline_def)
  have n: "find is_cancel (rev tr) = None \<longleftrightarrow> Eff_cancel \<notin> snd ` set tr"
    by (force simp: find_None_iff elim: is_cancel.elims)
  show ?thesis
  proof (cases "ct_state c = PROCEEDING \<and> ct_invite c")
    case True
    then have "ct_open tr" "list_ex is_resp tr" using assms(3,4) by (auto simp: ct_deadline_def)
    then show ?thesis using True n find_none [of is_final tr] by (auto simp: ct_due_def ct_open_def list_ex_iff)
  next
    case False
    then show ?thesis using assms(1) t by (cases "ct_state c") (auto simp: ct_times_def split: if_splits)
  qed
qed

text \<open>
  C5. Every client transaction reports exactly one outcome.  In every state that requests,
  responses, cancellations, transport errors, retransmissions, timeouts and releases of
  transactions in any order lead to, the response handler of a transaction has been called with at
  most one final outcome (an error or a response of class 2 to 6), nothing was reported after it,
  it has been called with one when the transaction is completed or gone, unless its owner released it
  before, it has not been called with one while the transaction is in another state, and no shift of the
  retransmission interval was out of range.
\<close>

theorem sip_ctrans_one_outcome:
  assumes "ct_reachable s" "i < ts_next s"
  shows "(if ts_get s i = None \<and> Eff_release \<notin> snd ` set (trace_of i s) \<or> (\<exists>c. ts_get s i = Some c \<and> ct_state c = COMPLETED)
      then \<exists>ps f. filter is_resp (trace_of i s) = ps @ [f] \<and> is_final f \<and> (\<forall>p \<in> set ps. \<not> is_final p)
      else \<forall>p \<in> set (if ts_get s i = None then butlast (filter is_resp (trace_of i s)) else trace_of i s). \<not> is_final p) \<and>
    length (filter is_final (trace_of i s)) \<le> 1 \<and> Eff_fault \<notin> (\<lambda>(t, j, e). e) ` set (ts_trace s)"
proof -
  note inv = ct_reachable_inv [OF assms(1), unfolded ts_inv_def]
  have no_fault: "Eff_fault \<notin> (\<lambda>(t, j, e). e) ` set (ts_trace s)" using inv by fastforce
  note dn = ct_done_count [of "trace_of i s"] and op = ct_open_butlast [of "trace_of i s"]
  show ?thesis
  proof (cases "ts_get s i")
    case None
    then have "ct_over (trace_of i s)" using inv assms(2) by blast
    then show ?thesis using None no_fault dn op
      by (auto simp: ct_over_def ct_done_def ct_open_def filter_False)
  next
    case (Some c)
    then have ok: "ct_ok (ts_now s) (trace_of i s) c" using inv by blast
    show ?thesis
    proof (cases "ct_state c = COMPLETED")
      case True
      then have "ct_done (trace_of i s)" using ok by (simp add: ct_ok_def)
      then show ?thesis using Some True no_fault dn by (simp add: ct_done_def)
    next
      case False
      then have "ct_open (trace_of i s)" using ok by (simp add: ct_ok_def)
      then show ?thesis using Some False no_fault by (simp add: ct_open_def filter_False)
    qed
  qed
qed

theorem sip_ctrans_one_outcome_witness:
  "filter is_final (trace_of 0 (snd (sip_ctrans_request 0 0 TP_UDP ''INVITE'' ''b'' ts_empty))) = []"
proof -
  let ?s = "snd (sip_ctrans_request 0 0 TP_UDP ''INVITE'' ''b'' ts_empty)"
  have "ct_reachable ?s" by (intro r_into_rtranclp ct_step.request)
  from sip_ctrans_one_outcome [OF this, of 0] show ?thesis
    by (simp add: filter_empty_conv sip_ctrans_request_def ts_empty_def Let_def ts_get_def ts_emit_def ts_new_def)
qed

text \<open>
  C8. Transactions end in time, and time goes on.  From every reachable state the clock can be
  advanced by any amount with all timers served.  A transaction that is alive has its timer set to
  the deadline that its trace gives it, and the clock has not passed it: after a final outcome the
  wait for retransmissions (32 seconds for an INVITE, T4 otherwise), before one 64 times T1 from
  the start, or, for an INVITE with a provisional response, from the last cancellation.  A
  transaction that is not an INVITE is gone 64 times T1 plus T4 after its start, whatever happens; only
  an INVITE in the proceeding state that was never cancelled has no deadline.
\<close>

theorem sip_ctrans_ends_in_time:
  assumes "ct_reachable s" "ts_get s i = Some c"
  shows "(\<exists>s'. ct_step\<^sup>*\<^sup>* s s' \<and> ts_now s' = ts_now s + k) \<and>
    ct_tmr c = ct_due (ct_invite c) (trace_of i s) \<and>
    (\<forall>d. ct_due (ct_invite c) (trace_of i s) = Some d \<longrightarrow> ts_now s \<le> d) \<and>
    (\<forall>f \<in> set (trace_of i s). is_final f \<longrightarrow> ts_now s \<le> fst f + (if ct_invite c then COMPLETE_WAIT else SIP_T4)) \<and>
    (\<not> ct_invite c \<longrightarrow> ts_now s \<le> fst (hd (trace_of i s)) + 64 * SIP_T1 + SIP_T4) \<and>
    (ct_due (ct_invite c) (trace_of i s) = None \<longleftrightarrow>
       ct_invite c \<and> ct_state c = PROCEEDING \<and> Eff_cancel \<notin> snd ` set (trace_of i s))"
proof -
  have inv: "ct_inv s" using assms(1) by (rule ct_reachable_inv)
  obtain b rest where b: "trace_of i s = (b, Eff_start) # rest" "ct_times b (ts_now s) c"
    "ct_state c = COMPLETED \<Longrightarrow> ct_done (trace_of i s)" "ct_state c \<noteq> COMPLETED \<Longrightarrow> ct_open (trace_of i s)"
    "ct_deadline (trace_of i s) c"
    using ts_inv_get [OF inv assms(2)] by (auto elim: ct_okE)
  have tm: "ct_tmr c = ct_due (ct_invite c) (trace_of i s)" using b(5) by (simp add: ct_deadline_def)
  have le: "ct_due (ct_invite c) (trace_of i s) = Some d \<Longrightarrow> ts_now s \<le> d" for d
    using b(2) tm by (simp add: ct_times_def)
  have "\<exists>s'. ct_step\<^sup>*\<^sup>* s s' \<and> ts_now s' = ts_now s + k" using ct.time_advances [OF inv] by blast
  moreover have "ts_now s \<le> fst f + (if ct_invite c then COMPLETE_WAIT else SIP_T4)"
    if f: "f \<in> set (trace_of i s)" "is_final f" for f
  proof -
    have "ct_done (trace_of i s)" using b(3,4) f by (auto simp: ct_open_def)
    then show ?thesis using le ct_due_done [OF _ f] by simp
  qed
  moreover have "\<not> ct_invite c \<longrightarrow> ts_now s \<le> fst (hd (trace_of i s)) + 64 * SIP_T1 + SIP_T4"
    using b(1,2) by (cases "ct_state c") (auto simp: ct_times_def split: if_splits)
  moreover have "ct_due (ct_invite c) (trace_of i s) = None \<longleftrightarrow>
       ct_invite c \<and> ct_state c = PROCEEDING \<and> Eff_cancel \<notin> snd ` set (trace_of i s)"
    using b(2-5) by (rule ct_due_none)
  ultimately show ?thesis using tm le by blast
qed

theorem sip_ctrans_ends_in_time_witness:
  "\<exists>s c. ct_reachable s \<and> ts_get s 0 = Some c \<and> ct_state c = COMPLETED \<and> ct_tmr c = Some 32000 \<and>
     (\<exists>s'. ct_step\<^sup>*\<^sup>* s s' \<and> ts_now s' = 60000)"
proof -
  let ?init = "snd (sip_ctrans_request 0 0 TP_UDP ''INVITE'' ''b'' ts_empty)"
  let ?m = "\<lparr>r_branch = ''b'', r_met = ''INVITE'', r_scode = 486\<rparr>"
  let ?s = "snd (ct_response_handler 0 ?m ?init)"
  let ?c = "\<lparr>ct_tmr = Some 32000, ct_tmre = None, ct_ack = True, ct_met = ''INVITE'', ct_branch = ''b'', ct_tp = TP_UDP,
      ct_state = COMPLETED, ct_txc = 0, ct_invite = True\<rparr>"
  have "ct_step ts_empty ?init" "ct_step ?init ?s" by (rule ct_step.request, rule ct_step.response)
  then have r: "ct_reachable ?s" by (meson rtranclp.rtrancl_into_rtrancl rtranclp.rtrancl_refl)
  have g: "ts_get ?s 0 = Some ?c" and n: "ts_now ?s = 0"
    by (simp_all add: sip_ctrans_request_def ct_response_handler_def ct_invite_response_def ct_cmp_handler_def ts_empty_def
        ts_find_def ts_get_def ts_emit_def ts_new_def ts_upd_def Let_def)
  from sip_ctrans_ends_in_time [OF r g, of 60000] r g n show ?thesis
    by (intro exI [of _ ?s] exI [of _ ?c]) simp
qed

end
