(* ===== verification/Sip_Strans.thy ===== *)
theory Sip_Strans
  imports Sip_Trans
begin

text \<open>
  SIP server transactions (\<^verbatim>\<open>src/sip/strans.c\<close>) and the dispatch of received requests
  (\<^verbatim>\<open>sip_recv\<close> in \<^verbatim>\<open>src/sip/transp.c\<close>).  The trace records the responses that are sent, the
  replies without transaction, and the calls of the cancel handler of the user.
\<close>

section \<open>State\<close>

datatype st_state = S_TRYING | S_PROCEEDING | S_ACCEPTED | S_COMPLETED | S_CONFIRMED

text \<open>The parts of a request that select and drive a transaction.\<close>

record sip_req =
  q_met :: string
  q_ruri :: string
  q_branch :: string
  q_sentby :: string
  q_callid :: string
  q_from_tag :: string
  q_to_tag :: "string option"
  q_cseq_met :: string
  q_cseq_num :: "32 word"
  q_tp :: sip_transp

text \<open>A response is represented by its status code.\<close>

record sip_strans =
  st_tmr :: "nat option"
  st_tmrg :: "nat option"
  st_msg :: sip_req
  st_mb :: "nat option"
  st_state :: st_state
  st_txc :: nat
  st_invite :: bool

datatype st_eff =
    SEff_send nat
  | SEff_reply nat
  | SEff_cancel
  | SEff_fault

type_synonym st_sys = "(sip_strans, st_eff) tsys"

section \<open>Handlers\<close>

definition strans_cmp :: "sip_req \<Rightarrow> sip_req \<Rightarrow> bool" where
  "strans_cmp msg1 msg2 \<longleftrightarrow> q_branch msg1 = q_branch msg2 \<and> q_sentby msg1 = q_sentby msg2"

definition st_cmp_handler :: "sip_req \<Rightarrow> sip_strans \<Rightarrow> bool" where
  "st_cmp_handler msg st \<longleftrightarrow> strans_cmp (st_msg st) msg \<and> q_cseq_met (st_msg st) = q_cseq_met msg"

definition cmp_ack_handler :: "sip_req \<Rightarrow> sip_strans \<Rightarrow> bool" where
  "cmp_ack_handler msg st \<longleftrightarrow> strans_cmp (st_msg st) msg \<and> q_cseq_met (st_msg st) = ''INVITE''"

definition cmp_cancel_handler :: "sip_req \<Rightarrow> sip_strans \<Rightarrow> bool" where
  "cmp_cancel_handler msg st \<longleftrightarrow> strans_cmp (st_msg st) msg \<and> q_cseq_met (st_msg st) \<noteq> ''CANCEL''"

definition cmp_merge_handler :: "sip_req \<Rightarrow> sip_strans \<Rightarrow> bool" where
  "cmp_merge_handler msg st \<longleftrightarrow>
     q_cseq_met (st_msg st) = q_cseq_met msg \<and> q_cseq_num (st_msg st) = q_cseq_num msg \<and>
     q_callid (st_msg st) = q_callid msg \<and> q_from_tag (st_msg st) = q_from_tag msg \<and> q_ruri (st_msg st) = q_ruri msg"

definition st_tmr_handler :: "nat \<Rightarrow> st_sys \<Rightarrow> st_sys" where
  "st_tmr_handler i s = ts_destroy i s"

definition st_resend :: "nat \<Rightarrow> st_sys \<Rightarrow> st_sys" where
  "st_resend i s =
     (case ts_get s i of
        None \<Rightarrow> s
      | Some st \<Rightarrow> (case st_mb st of None \<Rightarrow> s | Some sc \<Rightarrow> ts_emit i (SEff_send sc) s))"

definition st_retransmit_handler :: "nat \<Rightarrow> st_sys \<Rightarrow> st_sys" where
  "st_retransmit_handler i s =
     (case ts_get s i of
        None \<Rightarrow> s
      | Some st \<Rightarrow>
          let s1 = st_resend i s;
              s2 = ts_upd i (\<lambda>r. r\<lparr>st_txc := st_txc r + 1\<rparr>) s1
          in case shift_t1 (st_txc st + 1) of
               None \<Rightarrow> ts_emit i SEff_fault s2
             | Some t \<Rightarrow> ts_upd i (\<lambda>r. r\<lparr>st_tmrg := Some (ts_now s + min t SIP_T2)\<rparr>) s2)"

definition ack_handler :: "sip_req \<Rightarrow> st_sys \<Rightarrow> bool \<times> st_sys" where
  "ack_handler msg s =
     (case ts_find (cmp_ack_handler msg) s of
        None \<Rightarrow> (False, s)
      | Some (i, st) \<Rightarrow>
          if st_state st = S_ACCEPTED then (False, s)
          else if st_state st = S_COMPLETED then
            if sip_transp_reliable (q_tp (st_msg st)) then (True, ts_destroy i s)
            else (True, ts_upd i (\<lambda>r. r\<lparr>st_tmr := Some (ts_now s + SIP_T4), st_tmrg := None, st_state := S_CONFIRMED\<rparr>) s)
          else (True, s))"

definition cancel_handler :: "sip_req \<Rightarrow> st_sys \<Rightarrow> bool \<times> st_sys" where
  "cancel_handler msg s =
     (case ts_find (cmp_cancel_handler msg) s of
        None \<Rightarrow> (False, s)
      | Some (i, st) \<Rightarrow>
          let s1 = ts_emit i (SEff_reply 200) s
          in if st_state st = S_TRYING \<or> st_state st = S_PROCEEDING then (True, ts_emit i SEff_cancel s1)
             else (True, s1))"

definition request_handler :: "sip_req \<Rightarrow> st_sys \<Rightarrow> bool \<times> st_sys" where
  "request_handler msg s =
     (if q_met msg = ''ACK'' then ack_handler msg s
      else case ts_find (st_cmp_handler msg) s of
        Some (i, st) \<Rightarrow>
          if st_state st = S_PROCEEDING \<or> st_state st = S_COMPLETED then (True, st_resend i s) else (True, s)
      | None \<Rightarrow>
          case (if q_to_tag msg = None then ts_find (cmp_merge_handler msg) s else None) of
            Some (i, st) \<Rightarrow> (True, ts_emit i (SEff_reply 482) s)
          | None \<Rightarrow> if q_met msg = ''CANCEL'' then cancel_handler msg s else (False, s))"

text \<open>\<open>merr\<close> is the failure of the allocation.\<close>

definition sip_strans_alloc :: "errno \<Rightarrow> sip_req \<Rightarrow> st_sys \<Rightarrow> errno \<times> nat option \<times> st_sys" where
  "sip_strans_alloc merr msg s =
     (if merr \<noteq> 0 then (ENOMEM, None, s)
      else
        let st = \<lparr>st_tmr = None, st_tmrg = None, st_msg = msg, st_mb = None, st_state = S_TRYING, st_txc = 0,
                  st_invite = (q_met msg = ''INVITE'')\<rparr>
        in (0, Some (ts_next s), ts_new st s))"

text \<open>The state after a response was sent.\<close>

definition st_replied :: "nat \<Rightarrow> nat \<Rightarrow> st_sys \<Rightarrow> st_sys" where
  "st_replied i scode s =
     (case ts_get s i of
        None \<Rightarrow> s
      | Some st \<Rightarrow>
          if scode < 200 then ts_upd i (\<lambda>r. r\<lparr>st_state := S_PROCEEDING\<rparr>) s
          else if st_invite st then
            if scode < 300 then
              ts_upd i (\<lambda>r. r\<lparr>st_tmr := Some (ts_now s + 64 * SIP_T1), st_state := S_ACCEPTED\<rparr>) s
            else
              ts_upd i (\<lambda>r. r\<lparr>st_tmr := Some (ts_now s + 64 * SIP_T1), st_state := S_COMPLETED,
                 st_tmrg := (if sip_transp_reliable (q_tp (st_msg r)) then st_tmrg r else Some (ts_now s + SIP_T1))\<rparr>) s
          else if \<not> sip_transp_reliable (q_tp (st_msg st)) then
            ts_upd i (\<lambda>r. r\<lparr>st_tmr := Some (ts_now s + 64 * SIP_T1), st_state := S_COMPLETED\<rparr>) s
          else ts_destroy i s)"

text \<open>
  The handle variable of the caller: none, or one that holds a transaction or NULL.  The new
  value of the variable is returned.  A handle of a transaction that is gone is a fault.  \<open>serr\<close>
  is the result of \<^verbatim>\<open>sip_send\<close>.
\<close>

definition sip_strans_reply ::
  "errno \<Rightarrow> errno \<Rightarrow> nat option option \<Rightarrow> sip_req \<Rightarrow> nat \<Rightarrow> st_sys \<Rightarrow> errno \<times> nat option option \<times> st_sys" where
  "sip_strans_reply merr serr stp msg scode s =
     (if scode < 200 \<and> stp = None then (EINVAL, stp, s)
      else
        case (case stp of
                Some (Some i) \<Rightarrow> (0, Some i, s)
              | _ \<Rightarrow> sip_strans_alloc merr msg s) of
          (err, None, s1) \<Rightarrow> (err, stp, s1)
        | (err, Some i, s1) \<Rightarrow>
            if ts_get s1 i = None then (err, stp, ts_emit i SEff_fault s1)
            else
            let s2 = ts_upd i (\<lambda>r. r\<lparr>st_mb := Some scode\<rparr>) s1;
                stp' = map_option (\<lambda>_. if serr \<noteq> 0 \<or> scode \<ge> 200 then None else Some i) stp
            in if serr \<noteq> 0 then (serr, stp', ts_destroy i s2)
               else (0, stp', st_replied i scode (ts_emit i (SEff_send scode) s2)))"

text \<open>
  The dispatch of a request: bad requests are answered, then the transactions and then the users
  of the stack, \<open>tu\<close>, are asked; who accepts the request, and the reply without transaction
  otherwise.  \<open>lower\<close> maps to lower case.
\<close>

datatype recv_result = Recv_reply nat | Recv_trans | Recv_user

definition sip_recv :: "(string \<Rightarrow> string) \<Rightarrow> (sip_req \<Rightarrow> bool) \<Rightarrow> bool \<Rightarrow> sip_req \<Rightarrow> st_sys \<Rightarrow> recv_result \<times> st_sys" where
  "sip_recv lower tu essential msg s =
     (if \<not> essential then (Recv_reply 400, s)
      else if lower (q_cseq_met msg) \<noteq> lower (q_met msg) then (Recv_reply 400, s)
      else case request_handler msg s of
        (True, s1) \<Rightarrow> (Recv_trans, s1)
      | (False, s1) \<Rightarrow>
          if tu msg then (Recv_user, s1)
          else (Recv_reply (if q_met msg = ''CANCEL'' then 481 else 501), s1))"

section \<open>Runs\<close>

definition st_timers :: "sip_strans \<Rightarrow> nat option list" where
  "st_timers st = [st_tmr st, st_tmrg st]"

text \<open>
  The stack runs with the variables in which its users keep handles (\<^verbatim>\<open>sess->st\<close> in
  \<^verbatim>\<open>src/sipsess\<close>), each with a transaction or NULL.  A request that no transaction takes may be given to
  the user, who may make a transaction for it, or answer it at once, with or without a variable.
  Through a variable that is not NULL the user replies at any time, in whatever state the
  transaction is, and the variable then has the value that the reply left in it.  A reply that cannot be
  formatted releases the transaction of the variable and clears it (\<^verbatim>\<open>vreplyf\<close> in \<^verbatim>\<open>src/sip/reply.c\<close>).
\<close>

type_synonym st_handles = "nat \<Rightarrow> nat option"

definition st_release :: "nat option \<Rightarrow> st_sys \<Rightarrow> nat option \<times> st_sys" where
  "st_release stp s = (None, case stp of None \<Rightarrow> s | Some i \<Rightarrow> ts_destroy i s)"

inductive st_step :: "st_sys \<times> st_handles \<Rightarrow> st_sys \<times> st_handles \<Rightarrow> bool" where
  request: "st_step (s, hs) (snd (request_handler msg s), hs)"
| accept: "\<not> fst (request_handler msg s) \<Longrightarrow> q_met msg \<noteq> ''ACK'' \<Longrightarrow> sip_strans_alloc merr msg s = (err, st, s') \<Longrightarrow>
    st_step (s, hs) (s', hs(h := if err = 0 then st else hs h))"
| answer: "\<not> fst (request_handler msg s) \<Longrightarrow> q_met msg \<noteq> ''ACK'' \<Longrightarrow>
    st_step (s, hs) (snd (snd (sip_strans_reply merr serr None msg scode s)), hs)"
| answer_handle: "\<not> fst (request_handler msg s) \<Longrightarrow> q_met msg \<noteq> ''ACK'' \<Longrightarrow> hs h = None \<Longrightarrow>
    sip_strans_reply merr serr (Some (hs h)) msg scode s = (err, Some st, s') \<Longrightarrow> st_step (s, hs) (s', hs(h := st))"
| reply: "hs h = Some i \<Longrightarrow>
    sip_strans_reply merr serr (Some (hs h)) msg scode s = (err, Some st, s') \<Longrightarrow> st_step (s, hs) (s', hs(h := st))"
| release: "st_release (hs h) s = (st, s') \<Longrightarrow> st_step (s, hs) (s', hs(h := st))"
| tmr: "ts_get s i = Some st \<Longrightarrow> st_tmr st = Some d \<Longrightarrow> d \<le> ts_now s \<Longrightarrow>
    st_step (s, hs) (st_tmr_handler i (ts_upd i (\<lambda>r. r\<lparr>st_tmr := None\<rparr>) s), hs)"
| tmrg: "ts_get s i = Some st \<Longrightarrow> st_tmrg st = Some d \<Longrightarrow> d \<le> ts_now s \<Longrightarrow>
    st_step (s, hs) (st_retransmit_handler i (ts_upd i (\<lambda>r. r\<lparr>st_tmrg := None\<rparr>) s), hs)"
| tick: "\<forall>d \<in> deadlines (tm_set st_timers) s. ts_now s + k \<le> d \<Longrightarrow> st_step (s, hs) (s\<lparr>ts_now := ts_now s + k\<rparr>, hs)"

abbreviation st_run :: "st_sys \<Rightarrow> st_handles \<Rightarrow> bool" where
  "st_run s hs \<equiv> st_step\<^sup>*\<^sup>* (ts_empty, \<lambda>_. None) (s, hs)"

abbreviation st_reachable :: "st_sys \<Rightarrow> bool" where
  "st_reachable s \<equiv> \<exists>hs. st_run s hs"

inductive_cases st_stepE: "st_step w w'"

section \<open>Invariant\<close>

text \<open>
  Reading the trace of a transaction: the time and code of its final response, if there was one.
  It is undefined when a different response was sent or the user was told of a cancellation after
  the final response, or when a shift was out of range.
\<close>

definition scan_step :: "(nat \<times> nat) option option \<Rightarrow> nat \<times> st_eff \<Rightarrow> (nat \<times> nat) option option" where
  "scan_step a e =
     (case a of
        None \<Rightarrow> None
      | Some None \<Rightarrow>
          (case e of
             (t, SEff_send sc) \<Rightarrow> Some (if sc < 200 then None else Some (t, sc))
           | (t, SEff_fault) \<Rightarrow> None
           | _ \<Rightarrow> Some None)
      | Some (Some (f, fc)) \<Rightarrow>
          (case e of
             (t, SEff_send sc) \<Rightarrow> if sc = fc then Some (Some (f, fc)) else None
           | (t, SEff_reply sc) \<Rightarrow> Some (Some (f, fc))
           | _ \<Rightarrow> None))"

definition st_final :: "(nat \<times> st_eff) list \<Rightarrow> (nat \<times> nat) option option" where
  "st_final tr = foldl scan_step (Some None) tr"

lemma st_final_simps [simp]: "st_final [] = Some None" "st_final (tr @ [e]) = scan_step (st_final tr) e"
  by (simp_all add: st_final_def)

definition st_sane :: "(nat \<times> st_eff) list \<Rightarrow> bool" where
  "st_sane tr \<longleftrightarrow> st_final tr \<noteq> None"

text \<open>The timers and the response that a transaction holds in each of its states.\<close>

definition st_times :: "nat \<Rightarrow> (nat \<times> nat) option \<Rightarrow> sip_strans \<Rightarrow> bool" where
  "st_times now fin st \<longleftrightarrow>
     (case st_state st of
        S_TRYING \<Rightarrow> fin = None \<and> st_tmr st = None \<and> st_tmrg st = None \<and> st_mb st = None \<and> st_txc st = 0
      | S_PROCEEDING \<Rightarrow>
          fin = None \<and> st_tmr st = None \<and> st_tmrg st = None \<and> (\<exists>sc < 200. st_mb st = Some sc) \<and> st_txc st = 0
      | S_ACCEPTED \<Rightarrow>
          st_invite st \<and> (\<exists>f sc. fin = Some (f, sc) \<and> 200 \<le> sc \<and> sc < 300 \<and> st_mb st = Some sc \<and> f \<le> now \<and> now \<le> f + 64 * SIP_T1 \<and>
            st_tmr st = Some (f + 64 * SIP_T1) \<and> st_tmrg st = None)
      | S_COMPLETED \<Rightarrow>
          (\<exists>f sc. fin = Some (f, sc) \<and> 200 \<le> sc \<and> (st_invite st \<longrightarrow> 300 \<le> sc) \<and> st_mb st = Some sc \<and> f \<le> now \<and> now \<le> f + 64 * SIP_T1 \<and>
            st_tmr st = Some (f + 64 * SIP_T1) \<and>
            (if st_invite st \<and> \<not> sip_transp_reliable (q_tp (st_msg st))
             then \<exists>d. st_tmrg st = Some d \<and> now \<le> d \<and> f + SIP_T2 * (st_txc st - 3) \<le> d else st_tmrg st = None) \<and>
            (st_invite st \<or> \<not> sip_transp_reliable (q_tp (st_msg st))))
      | S_CONFIRMED \<Rightarrow>
          (\<exists>f sc d. fin = Some (f, sc) \<and> 200 \<le> sc \<and> st_mb st = Some sc \<and> f \<le> now \<and> now \<le> d \<and> d \<le> f + 64 * SIP_T1 + SIP_T4 \<and>
            st_tmr st = Some d \<and> st_tmrg st = None))"

definition st_ok :: "nat \<Rightarrow> (nat \<times> st_eff) list \<Rightarrow> sip_strans \<Rightarrow> bool" where
  "st_ok now tr st \<longleftrightarrow> (\<exists>fin. st_final tr = Some fin \<and> st_times now fin st)"

text \<open>No two transactions have the same branch, sender and method.\<close>

definition st_key :: "sip_req \<Rightarrow> string \<times> string \<times> string" where
  "st_key msg = (q_branch msg, q_sentby msg, q_cseq_met msg)"

definition st_keys :: "st_sys \<Rightarrow> bool" where
  "st_keys s \<longleftrightarrow> distinct (map (\<lambda>x. st_key (st_msg (snd x))) (ts_tab s))"

abbreviation st_tinv :: "st_sys \<Rightarrow> bool" where
  "st_tinv \<equiv> ts_inv st_ok st_sane (\<lambda>e. e = SEff_fault)"

definition st_inv :: "st_sys \<Rightarrow> bool" where
  "st_inv s \<longleftrightarrow> st_tinv s \<and> st_keys s"

text \<open>
  A variable that is not NULL holds a transaction that is alive and had no final response, and no two
  variables hold the same.
\<close>

definition st_live :: "st_sys \<Rightarrow> nat \<Rightarrow> bool" where
  "st_live s i \<longleftrightarrow> (\<exists>st. ts_get s i = Some st \<and> (st_state st = S_TRYING \<or> st_state st = S_PROCEEDING))"

definition st_held :: "st_sys \<Rightarrow> st_handles \<Rightarrow> bool" where
  "st_held s hs \<longleftrightarrow> (\<forall>h i. hs h = Some i \<longrightarrow> st_live s i) \<and> (\<forall>h h' i. hs h = Some i \<and> hs h' = Some i \<longrightarrow> h = h')"

definition st_winv :: "st_sys \<times> st_handles \<Rightarrow> bool" where
  "st_winv w \<longleftrightarrow> st_inv (fst w) \<and> st_held (fst w) (snd w)"

lemma st_key_cmp: "st_cmp_handler msg st \<longleftrightarrow> st_key (st_msg st) = st_key msg"
  by (auto simp: st_cmp_handler_def strans_cmp_def st_key_def)

lemma st_keys_upd: "(\<And>r. st_msg (g r) = st_msg r) \<Longrightarrow> st_keys s \<Longrightarrow> st_keys (ts_upd i g s)"
  by (simp add: st_keys_def ts_upd_def o_def case_prod_beta if_distrib cong: if_cong)

lemma st_keys_emit: "st_keys s \<Longrightarrow> st_keys (ts_emit i e s)"
  by (simp add: st_keys_def)

lemma st_keys_destroy: "st_keys s \<Longrightarrow> st_keys (ts_destroy i s)"
  by (simp add: st_keys_def ts_destroy_def distinct_map_filter)

lemmas st_keys_intros = st_keys_upd st_keys_emit st_keys_destroy

lemma st_keys_new: "st_keys s \<Longrightarrow> ts_find (st_cmp_handler (st_msg st)) s = None \<Longrightarrow> st_keys (ts_new st s)"
  by (fastforce simp: st_keys_def ts_new_def ts_find_def find_None_iff st_key_cmp)

lemma st_find_key:
  assumes "st_inv s" "ts_get s i = Some st" "st_cmp_handler msg st"
  shows "ts_find (st_cmp_handler msg) s = Some (i, st)"
proof -
  have mem: "(i, st) \<in> set (ts_tab s)" using assms(2) by (auto simp: ts_get_def dest: map_of_SomeD)
  then obtain y where y: "ts_find (st_cmp_handler msg) s = Some y"
    using assms(3) by (cases "ts_find (st_cmp_handler msg) s") (auto simp: ts_find_def find_None_iff)
  then have "y \<in> set (ts_tab s)" "st_cmp_handler msg (snd y)" by (auto simp: ts_find_def find_Some_iff) (metis nth_mem)
  then have "y = (i, st)"
    using assms(1,3) mem inj_onD [of "\<lambda>x. st_key (st_msg (snd x))" "set (ts_tab s)" y "(i, st)"]
    by (auto simp: st_inv_def st_keys_def distinct_map st_key_cmp split: prod.splits)
  then show ?thesis using y by simp
qed

text \<open>Getting from the table what holds of a transaction.\<close>

lemma st_inv_get:
  assumes "st_tinv s" "ts_get s i = Some st"
  shows "i < ts_next s \<and> (\<exists>fin. st_final (trace_of i s) = Some fin \<and> st_times (ts_now s) fin st)"
  using ts_inv_get [OF assms] by (simp add: st_ok_def)

section \<open>Preservation\<close>

lemma st_emit_inv:
  assumes "st_tinv s" "ts_get s i = Some st" "scan_step (st_final (trace_of i s)) (ts_now s, e) = st_final (trace_of i s)" "e \<noteq> SEff_fault"
  shows "st_tinv (ts_emit i e s)"
  using ts_inv_keep [OF assms(1) ts_evolves_emit [OF ts_evolves_refl, of i s e], of st] st_inv_get [OF assms(1,2)] assms(2-4)
  by (auto simp: st_ok_def)

lemma st_final_get: "st_tinv s \<Longrightarrow> ts_get s i = Some st \<Longrightarrow> st_final (trace_of i s) \<noteq> None"
  using st_inv_get by blast

lemma st_reply_inv:
  assumes "st_tinv s" "ts_get s i = Some st"
  shows "st_tinv (ts_emit i (SEff_reply sc) s)"
  by (rule st_emit_inv [OF assms]) (use st_final_get [OF assms] in \<open>auto simp: scan_step_def split: option.splits\<close>)

lemma st_resend_inv:
  assumes "st_tinv s"
  shows "st_tinv (st_resend i s)"
proof (cases "ts_get s i")
  case (Some st)
  obtain fin where fin: "st_final (trace_of i s) = Some fin" "st_times (ts_now s) fin st" using st_inv_get [OF assms Some] by blast
  have "st_tinv (ts_emit i (SEff_send sc) s)" if "st_mb st = Some sc" for sc
    by (rule st_emit_inv [OF assms Some])
      (use fin that in \<open>auto simp: scan_step_def st_times_def split: st_state.splits option.splits\<close>)
  then show ?thesis using Some assms by (auto simp: st_resend_def split: option.split)
qed (use assms in \<open>simp add: st_resend_def\<close>)

lemma st_drop_inv:
  assumes "st_tinv s" "ts_get s i = Some st"
  shows "st_tinv (ts_destroy i (ts_upd i g s))" "st_tinv (ts_destroy i s)"
  using ts_inv_drop [OF assms(1) ts_evolves_destroy [OF ts_evolves_upd [OF ts_evolves_refl]], of i]
    ts_inv_drop [OF assms(1) ts_evolves_destroy [OF ts_evolves_refl], of i] st_inv_get [OF assms] by (auto simp: st_sane_def)

lemma st_next_retransmission:
  assumes "st_times now fin st" "st_tmrg st = Some d" "d \<le> now"
  shows "\<exists>t > 0. shift_t1 (st_txc st + 1) = Some t \<and>
     st_times now fin (st\<lparr>st_txc := st_txc st + 1, st_tmrg := Some (now + min t SIP_T2)\<rparr>)"
proof -
  obtain f sc where f: "st_state st = S_COMPLETED" "fin = Some (f, sc)" "f + 4000 * (st_txc st - 3) \<le> now" "now \<le> f + 32000"
    using assms by (auto simp: st_times_def split: st_state.splits if_splits)
  then have k: "shift_t1 (st_txc st + 1) = Some (500 * 2 ^ (st_txc st + 1))" by (intro shift_t1_small) linarith
  have "f + 4000 * (st_txc st + 1 - 3) \<le> now + min (500 * 2 ^ (st_txc st + 1)) 4000"
    using f(3) t1_backoff [of "st_txc st"] by (cases "3 \<le> st_txc st") auto
  then show ?thesis using assms f k by (auto simp: st_times_def split: if_splits)
qed

lemma st_retransmit_eq:
  assumes "st_tinv s" "ts_get s i = Some st" "st_tmrg st = Some d" "d \<le> ts_now s"
  shows "\<exists>t sc. t > 0 \<and> st_mb st = Some sc \<and>
    st_times (ts_now s) (the (st_final (trace_of i s))) (st\<lparr>st_txc := st_txc st + 1, st_tmrg := Some (ts_now s + min t SIP_T2)\<rparr>) \<and>
    st_retransmit_handler i (ts_upd i (\<lambda>r. r\<lparr>st_tmrg := None\<rparr>) s) =
      ts_upd i (\<lambda>r. r\<lparr>st_txc := st_txc r + 1, st_tmrg := Some (ts_now s + min t SIP_T2)\<rparr>) (ts_emit i (SEff_send sc) s)"
proof -
  obtain fin where fin: "st_final (trace_of i s) = Some fin" "st_times (ts_now s) fin st" using st_inv_get [OF assms(1,2)] by blast
  obtain t where t: "t > 0" "shift_t1 (st_txc st + 1) = Some t"
    "st_times (ts_now s) fin (st\<lparr>st_txc := st_txc st + 1, st_tmrg := Some (ts_now s + min t SIP_T2)\<rparr>)"
    using st_next_retransmission [OF fin(2) assms(3,4)] by blast
  obtain sc where sc: "st_mb st = Some sc"
    using fin(2) assms(3) by (auto simp: st_times_def split: st_state.splits)
  have "ts_upd i g (ts_emit i e (ts_upd i h s)) = ts_upd i (\<lambda>r. g (h r)) (ts_emit i e s)" for g h e
    by (simp add: ts_upd_def ts_emit_def o_def case_prod_beta if_distrib cong: if_cong)
  then show ?thesis using t sc fin(1) assms(2)
    by (intro exI [of _ t] exI [of _ sc]) (simp add: st_retransmit_handler_def st_resend_def Let_def ts_upd_upd)
qed

lemma st_retransmit_inv:
  assumes "st_tinv s" "ts_get s i = Some st" "st_tmrg st = Some d" "d \<le> ts_now s"
  shows "st_tinv (st_retransmit_handler i (ts_upd i (\<lambda>r. r\<lparr>st_tmrg := None\<rparr>) s))"
proof -
  obtain t sc where t: "st_mb st = Some sc"
    "st_times (ts_now s) (the (st_final (trace_of i s))) (st\<lparr>st_txc := st_txc st + 1, st_tmrg := Some (ts_now s + min t SIP_T2)\<rparr>)"
    and eq: "st_retransmit_handler i (ts_upd i (\<lambda>r. r\<lparr>st_tmrg := None\<rparr>) s) =
      ts_upd i (\<lambda>r. r\<lparr>st_txc := st_txc r + 1, st_tmrg := Some (ts_now s + min t SIP_T2)\<rparr>) (ts_emit i (SEff_send sc) s)"
    using st_retransmit_eq [OF assms] by blast
  let ?s1 = "ts_emit i (SEff_send sc) s"
  have s1: "st_tinv ?s1" using st_resend_inv [OF assms(1), of i] assms(2) t(1) by (simp add: st_resend_def)
  have g1: "ts_get ?s1 i = Some st" using assms(2) by simp
  obtain fin where fin: "st_final (trace_of i s) = Some fin" "st_times (ts_now s) fin st" using st_inv_get [OF assms(1,2)] by blast
  have "st_final (trace_of i ?s1) = Some fin"
    using fin t(1) ts_evolves_trace [OF ts_evolves_emit [OF ts_evolves_refl, of i s "SEff_send sc"], of i]
    by (auto simp: scan_step_def st_times_def split: st_state.splits)
  then show ?thesis unfolding eq using t fin st_inv_get [OF s1 g1] g1
    by (intro ts_inv_keep [OF s1 ts_evolves_upd [OF ts_evolves_refl]]) (auto simp: st_ok_def)
qed

lemma st_ack_inv:
  assumes "st_tinv s"
  shows "st_tinv (snd (ack_handler msg s))"
proof (cases "ts_find (cmp_ack_handler msg) s")
  case (Some x)
  obtain i st where x: "x = (i, st)" by fastforce
  have g: "ts_get s i = Some st" using ts_find_get(1) [OF ts_inv_distinct [OF assms]] Some x by simp
  obtain fin where fin: "i < ts_next s" "st_final (trace_of i s) = Some fin" "st_times (ts_now s) fin st"
    using st_inv_get [OF assms g] by blast
  let ?g = "\<lambda>r. r\<lparr>st_tmr := Some (ts_now s + SIP_T4), st_tmrg := None, st_state := S_CONFIRMED\<rparr>"
  have "st_tinv (ts_upd i ?g s)" if "st_state st = S_COMPLETED"
    using g fin that
    by (intro ts_inv_keep [OF assms ts_evolves_upd [OF ts_evolves_refl], of i _ "?g st"]) (auto simp: st_ok_def st_times_def)
  then show ?thesis using Some x assms st_drop_inv(2) [OF assms g] by (auto simp: ack_handler_def)
qed (use assms in \<open>simp add: ack_handler_def\<close>)

lemma st_cancel_inv:
  assumes "st_tinv s"
  shows "st_tinv (snd (cancel_handler msg s))"
proof (cases "ts_find (cmp_cancel_handler msg) s")
  case (Some x)
  obtain i st where x: "x = (i, st)" by fastforce
  have g: "ts_get s i = Some st" using ts_find_get(1) [OF ts_inv_distinct [OF assms]] Some x by simp
  let ?s1 = "ts_emit i (SEff_reply 200) s"
  have s1: "st_tinv ?s1" "ts_get ?s1 i = Some st" using st_reply_inv [OF assms g] g by auto
  have "st_tinv (ts_emit i SEff_cancel ?s1)" if "st_state st = S_TRYING \<or> st_state st = S_PROCEEDING"
    by (rule st_emit_inv [OF s1]) (use that st_inv_get [OF s1] in \<open>auto simp: scan_step_def st_times_def\<close>)
  then show ?thesis using Some x s1(1) by (auto simp: cancel_handler_def Let_def)
qed (use assms in \<open>simp add: cancel_handler_def\<close>)

lemma st_keys_handlers: "st_keys s \<Longrightarrow> st_keys (snd (request_handler msg s))"
  "st_keys s \<Longrightarrow> st_keys (st_resend i s)" "st_keys s \<Longrightarrow> st_keys (st_retransmit_handler i s)" "st_keys s \<Longrightarrow> st_keys (st_replied i sc s)"
proof -
  show r: "st_keys s \<Longrightarrow> st_keys (st_resend i s)" for i s
    by (auto simp: st_resend_def split: option.splits intro: st_keys_intros)
  then show "st_keys s \<Longrightarrow> st_keys (st_retransmit_handler i s)"
    by (auto simp: st_retransmit_handler_def Let_def split: option.splits intro!: st_keys_intros)
  show "st_keys s \<Longrightarrow> st_keys (st_replied i sc s)"
    by (auto simp: st_replied_def split: option.splits intro!: st_keys_intros)
  have a: "st_keys s \<Longrightarrow> st_keys (snd (ack_handler msg s))"
    by (simp add: ack_handler_def st_keys_upd st_keys_destroy split: option.split)
  have c: "st_keys s \<Longrightarrow> st_keys (snd (cancel_handler msg s))"
    by (simp add: cancel_handler_def Let_def st_keys_emit split: option.split)
  show "st_keys s \<Longrightarrow> st_keys (snd (request_handler msg s))"
    by (simp add: request_handler_def a c r st_keys_emit split: option.split)
qed

lemma st_request_inv:
  assumes "st_inv s"
  shows "st_inv (snd (request_handler msg s))"
proof -
  have inv: "st_tinv s" using assms by (simp add: st_inv_def)
  have "st_tinv (ts_emit i (SEff_reply sc) s)" if "ts_find p s = Some (i, st)" for i st p sc
    using st_reply_inv [OF inv ts_find_get(1) [OF ts_inv_distinct [OF inv] that]] .
  then have "st_tinv (snd (request_handler msg s))"
    using inv st_ack_inv st_cancel_inv st_resend_inv by (auto simp: request_handler_def split: option.split)
  then show ?thesis using assms st_keys_handlers(1) by (simp add: st_inv_def)
qed

text \<open>What no transaction takes has no transaction.\<close>

lemma request_not_taken: "\<not> fst (request_handler msg s) \<Longrightarrow> q_met msg \<noteq> ''ACK'' \<Longrightarrow>
   snd (request_handler msg s) = s \<and> ts_find (st_cmp_handler msg) s = None"
  by (auto simp: request_handler_def cancel_handler_def Let_def split: option.splits if_splits)

lemma st_alloc_inv:
  assumes "st_inv s" "ts_find (st_cmp_handler msg) s = None"
  shows "st_inv (snd (snd (sip_strans_alloc merr msg s)))"
proof (cases "merr = 0")
  case True
  let ?st = "\<lparr>st_tmr = None, st_tmrg = None, st_msg = msg, st_mb = None, st_state = S_TRYING, st_txc = 0,
                  st_invite = (q_met msg = ''INVITE'')\<rparr>"
  have "st_tinv (ts_new ?st s)"
  proof (rule ts_inv_new)
    show "st_tinv s" using assms(1) by (simp add: st_inv_def)
    show "st_ok (ts_now s) [] ?st" by (simp add: st_ok_def st_times_def)
  qed (simp_all add: ts_new_def)
  then show ?thesis using assms True st_keys_new [of s ?st] by (simp add: sip_strans_alloc_def st_inv_def Let_def)
qed (use assms in \<open>simp add: sip_strans_alloc_def\<close>)

text \<open>A reply in a transaction that had no final response yet.\<close>

lemma st_replied_inv:
  assumes "st_tinv s" "ts_get s i = Some st" "st_state st = S_TRYING \<or> st_state st = S_PROCEEDING"
  shows "st_tinv (st_replied i sc (ts_emit i (SEff_send sc) (ts_upd i (\<lambda>r. r\<lparr>st_mb := Some sc\<rparr>) s)))"
proof -
  define s1 where "s1 = ts_emit i (SEff_send sc) (ts_upd i (\<lambda>r. r\<lparr>st_mb := Some sc\<rparr>) s)"
  have s1: "ts_evolves i ([] @ [(ts_now s, SEff_send sc)]) s s1" "ts_get s1 i = Some (st\<lparr>st_mb := Some sc\<rparr>)" "ts_now s1 = ts_now s"
    unfolding s1_def by (intro ts_evolves_intros) (simp_all add: assms(2))
  have st: "i < ts_next s" "st_final (trace_of i s) = Some None" "st_times (ts_now s) None st"
    using st_inv_get [OF assms(1,2)] assms(3) by (auto simp: st_times_def)
  have keep: "st_tinv (ts_upd i g s1)"
    if "st_times (ts_now s) (if sc < 200 then None else Some (ts_now s, sc)) (g (st\<lparr>st_mb := Some sc\<rparr>))" for g
    using st that s1(2)
    by (intro ts_inv_keep [OF assms(1) ts_evolves_upd [OF s1(1)]]) (auto simp: st_ok_def scan_step_def)
  have "st_tinv (ts_destroy i s1)"
    using ts_inv_drop [OF assms(1) ts_evolves_destroy [OF s1(1)] st(1)] st(2) by (simp add: scan_step_def st_sane_def)
  then show ?thesis unfolding s1_def [symmetric] st_replied_def
    using s1(2,3) st(3) assms(3) by (auto intro!: keep simp: st_times_def)
qed

lemma st_alloc_eq:
  assumes "st_inv s" "sip_strans_alloc merr msg s = (err, ip, s1)"
  shows "err \<noteq> 0 \<and> ip = None \<and> s1 = s \<or>
    err = 0 \<and> ip = Some (ts_next s) \<and> st_live s1 (ts_next s) \<and> (\<forall>j. j \<noteq> ts_next s \<longrightarrow> ts_get s1 j = ts_get s j)"
proof -
  have "ts_get s (ts_next s) = None" using st_inv_get [of s "ts_next s"] assms(1) by (cases "ts_get s (ts_next s)") (auto simp: st_inv_def)
  then show ?thesis using assms(2)
    by (auto simp: sip_strans_alloc_def Let_def ts_get_def ts_new_def map_add_def st_live_def split: if_splits option.splits)
qed

text \<open>
  A reply through no variable or one that is NULL, when the request has no transaction, or through a
  variable with a transaction that had no final response: the variable is NULL or holds a
  transaction without final response, and no other transaction changed.
\<close>

lemma st_reply_strans_inv:
  assumes "st_inv s" "sip_strans_reply merr serr stp msg sc s = (err, stp', s')"
    "if stp = None \<or> stp = Some None then ts_find (st_cmp_handler msg) s = None \<and> new = ts_next s
     else stp = Some (Some new) \<and> st_live s new"
  shows "st_inv s'" "\<forall>j. j \<noteq> new \<longrightarrow> ts_get s' j = ts_get s j"
    "stp' = None \<or> stp' = Some None \<or> stp' = Some (Some new) \<and> st_live s' new"
proof -
  have run: "st_inv (ts_destroy j (ts_upd j (\<lambda>r. r\<lparr>st_mb := Some sc\<rparr>) t))"
    "st_inv (st_replied j sc (ts_emit j (SEff_send sc) (ts_upd j (\<lambda>r. r\<lparr>st_mb := Some sc\<rparr>) t)))"
    if "st_inv t" "st_live t j" for t j
    using that st_drop_inv(1) st_replied_inv by (auto simp: st_inv_def st_live_def intro!: st_keys_handlers st_keys_intros)
  have others: "k \<noteq> j \<Longrightarrow> ts_get (st_replied j sc t) k = ts_get t k" for j k t
    by (simp add: st_replied_def split: option.split)
  have prov: "sc < 200 \<Longrightarrow> st_live t j \<Longrightarrow> st_live (st_replied j sc (ts_emit j (SEff_send sc) (ts_upd j (\<lambda>r. r\<lparr>st_mb := Some sc\<rparr>) t))) j" for j t
    by (auto simp: st_replied_def st_live_def)
  obtain aerr ip s1 where a: "(case stp of Some (Some i) \<Rightarrow> (0, Some i, s) | _ \<Rightarrow> sip_strans_alloc merr msg s) = (aerr, ip, s1)"
    by (metis prod_cases3)
  have s1: "st_inv s1" "\<forall>j. j \<noteq> new \<longrightarrow> ts_get s1 j = ts_get s j" "ip = None \<or> ip = Some new \<and> st_live s1 new"
    "\<not> (\<exists>i. stp = Some (Some i) \<and> i \<noteq> new)"
    using a assms(1,3) st_alloc_inv [OF assms(1), of msg merr] st_alloc_eq [OF assms(1), of merr msg aerr ip s1]
    by (auto split: option.splits if_splits)
  have l: "st_live s1 new \<Longrightarrow> ts_get s1 new \<noteq> None" by (auto simp: st_live_def)
  show "st_inv s'" using assms(2) a s1(1,3) run [OF s1(1)] l assms(1)
    by (auto simp: sip_strans_reply_def Let_def split: if_splits)
  show "\<forall>j. j \<noteq> new \<longrightarrow> ts_get s' j = ts_get s j" using assms(2) a s1(2,3) l
    by (auto simp: sip_strans_reply_def Let_def others split: if_splits)
  show "stp' = None \<or> stp' = Some None \<or> stp' = Some (Some new) \<and> st_live s' new"
    using assms(2,3) a s1(3) l prov [of s1 new]
    by (auto simp: sip_strans_reply_def Let_def split: if_splits)
qed

lemma st_tick_inv:
  assumes "st_tinv s" "\<forall>d \<in> deadlines (tm_set st_timers) s. ts_now s + k \<le> d"
  shows "st_tinv (s\<lparr>ts_now := ts_now s + k\<rparr>)"
proof (rule ts_inv_tick [OF assms(1)])
  fix i c assume c: "ts_get s i = Some c" "st_ok (ts_now s) (trace_of i s) c"
  have "ts_now s + k \<le> d" if "st_tmr c = Some d \<or> st_tmrg c = Some d" for d
    using that assms(2) deadlines_get [OF c(1), of d "tm_set st_timers"] by (auto simp: tm_set_def st_timers_def)
  then have "st_times (ts_now s + k) fin c" if "st_times (ts_now s) fin c" for fin
    using that by (auto simp: st_times_def trans_le_add1 split: st_state.splits if_splits)
  with c(2) show "st_ok (ts_now s + k) (trace_of i s) c" by (auto simp: st_ok_def)
qed

text \<open>The requests of the network and the timers leave the transactions without final response alone.\<close>

lemma st_request_live:
  assumes "st_inv s" "st_live s j"
  shows "st_live (snd (request_handler msg s)) j"
proof -
  have d: "distinct (map fst (ts_tab s))" using assms(1) by (simp add: st_inv_def ts_inv_def)
  have r: "st_live (st_resend i s) j" for i using assms(2) by (auto simp: st_resend_def st_live_def split: option.split)
  have e: "st_live s' j \<Longrightarrow> st_live (ts_emit i x s') j" for i x s' by (simp add: st_live_def)
  have "st_live (snd (ack_handler msg s)) j"
    using assms(2) ts_find_get(1) [OF d] by (auto simp: ack_handler_def st_live_def split: option.split)
  moreover have "st_live (snd (cancel_handler msg s)) j"
    using assms(2) by (auto simp: cancel_handler_def Let_def e split: option.split)
  ultimately show ?thesis using assms(2) r e by (auto simp: request_handler_def split: option.split)
qed

lemma st_timer_live:
  assumes "st_inv s" "ts_get s i = Some st" "st_tmr st = Some d \<or> st_tmrg st = Some d"
  shows "\<not> st_live s i"
  using st_inv_get [of s i st] assms by (auto simp: st_inv_def st_live_def st_times_def split: st_state.splits)

lemma st_held_mono: "st_held s hs \<Longrightarrow> (\<And>j. st_live s j \<Longrightarrow> st_live s' j) \<Longrightarrow> st_held s' hs"
  by (auto simp: st_held_def)

lemma st_held_other:
  assumes "st_held s hs" "\<forall>j. j \<noteq> i \<longrightarrow> ts_get s' j = ts_get s j" "\<not> st_live s i"
  shows "st_held s' hs"
  using assms(1) by (rule st_held_mono) (use assms(2,3) in \<open>auto simp: st_live_def\<close>)

lemma st_held_set:
  assumes "st_held s hs" "\<forall>j. j \<noteq> i \<longrightarrow> ts_get s' j = ts_get s j" "hs h = Some i \<or> \<not> st_live s i"
    "st = None \<or> st = Some i \<and> st_live s' i"
  shows "st_held s' (hs(h := st))"
proof -
  have "hs k = Some i \<Longrightarrow> k = h" for k using assms(1,3) by (auto simp: st_held_def)
  moreover have "st_live s j \<Longrightarrow> j \<noteq> i \<Longrightarrow> st_live s' j" for j using assms(2) by (simp add: st_live_def)
  ultimately show ?thesis using assms(1,4) unfolding st_held_def fun_upd_apply by (metis option.distinct(1) option.inject)
qed

lemma st_fresh_live: "st_inv s \<Longrightarrow> \<not> st_live s (ts_next s)"
  using st_inv_get [of s "ts_next s"] by (auto simp: st_inv_def st_live_def)

lemma st_step_winv: "st_step w w' \<Longrightarrow> st_winv w \<Longrightarrow> st_winv w'"
proof (induction rule: st_step.induct)
  case (request s hs msg)
  then show ?case using st_request_inv st_request_live st_held_mono by (auto simp: st_winv_def)
next
  case (accept msg s merr err st s' hs h)
  then have "st_inv s'" using request_not_taken st_alloc_inv [of s msg merr] by (auto simp: st_winv_def)
  moreover have "st_held s' (hs(h := if err = 0 then st else hs h))"
    using accept st_alloc_eq [OF _ accept(3)] st_fresh_live [of s] st_held_set [of s hs "ts_next s" s' h st]
    by (auto simp: st_winv_def)
  ultimately show ?case by (simp add: st_winv_def)
next
  case (answer msg s hs merr serr scode)
  obtain err stp s' where r: "sip_strans_reply merr serr None msg scode s = (err, stp, s')" by (metis prod_cases3)
  note n = st_reply_strans_inv [OF _ r, of "ts_next s"]
  show ?case using answer r n request_not_taken [of msg s] st_fresh_live [of s] st_held_other [of s hs "ts_next s" s']
    by (auto simp: st_winv_def)
next
  case (answer_handle msg s hs h merr serr scode err st s')
  note n = st_reply_strans_inv [OF _ answer_handle(4), of "ts_next s"]
  show ?case
    using answer_handle n request_not_taken [of msg s] st_fresh_live [of s] st_held_set [of s hs "ts_next s" s' h st]
    by (auto simp: st_winv_def)
next
  case (reply hs h i merr serr msg scode s err st s')
  have inv: "st_inv s" "st_held s hs" "st_live s i" using reply by (auto simp: st_winv_def st_held_def)
  note n = st_reply_strans_inv [OF inv(1) reply(2), of i]
  show ?case using reply inv n st_held_set [OF inv(2), of i s' h st] by (auto simp: st_winv_def)
next
  case (release hs h s st s')
  then have inv: "st_inv s" "st_held s hs" and r: "st = None" "s' = (case hs h of None \<Rightarrow> s | Some i \<Rightarrow> ts_destroy i s)"
    by (auto simp: st_winv_def st_release_def)
  show ?case
  proof (cases "hs h")
    case None
    then show ?thesis using inv r by (simp add: st_winv_def fun_upd_idem)
  next
    case (Some i)
    then have "st_live s i" using inv(2) by (auto simp: st_held_def)
    then obtain c where "ts_get s i = Some c" by (auto simp: st_live_def)
    then have "st_inv (ts_destroy i s)" using inv(1) st_drop_inv(2) by (auto simp: st_inv_def intro: st_keys_intros)
    then show ?thesis using Some r st_held_set [OF inv(2), of i "ts_destroy i s" h None] by (simp add: st_winv_def)
  qed
next
  case (tmr s i st d hs)
  then have "\<not> st_live s i" using st_timer_live by (auto simp: st_winv_def)
  then show ?case using tmr st_drop_inv(1) st_held_other [of s hs i]
    by (auto simp: st_winv_def st_tmr_handler_def st_inv_def intro!: st_keys_intros)
next
  case (tmrg s i st d hs)
  let ?s' = "st_retransmit_handler i (ts_upd i (\<lambda>r. r\<lparr>st_tmrg := None\<rparr>) s)"
  have l: "\<not> st_live s i" using tmrg st_timer_live by (auto simp: st_winv_def)
  have "\<forall>j. j \<noteq> i \<longrightarrow> ts_get ?s' j = ts_get s j"
    by (simp add: st_retransmit_handler_def st_resend_def Let_def split: option.split)
  then show ?case using tmrg st_retransmit_inv st_held_other [OF _ _ l, of hs ?s']
    by (auto simp: st_winv_def st_inv_def intro!: st_keys_handlers st_keys_intros)
next
  case (tick s k hs)
  then show ?case using st_tick_inv by (auto simp: st_winv_def st_inv_def st_keys_def st_held_def st_live_def)
qed

lemma st_run_winv: "st_run s hs \<Longrightarrow> st_winv (s, hs)"
proof (induction "(s, hs)" arbitrary: s hs rule: rtranclp_induct)
  case base
  then show ?case by (simp add: st_winv_def st_inv_def ts_inv_empty) (simp add: st_keys_def ts_empty_def st_held_def)
qed (metis prod.collapse st_step_winv)

lemma st_reachable_inv: "st_reachable s \<Longrightarrow> st_inv s"
  using st_run_winv by (auto simp: st_winv_def)

section \<open>Progress\<close>

lemma st_serve:
  assumes "st_inv s" "ts_get s i = Some c" "0 < tm_due (ts_now s) (st_timers c)"
  shows "\<exists>s'. st_step (s, hs) (s', hs) \<and> ts_now s' = ts_now s \<and> ts_due st_timers s' < ts_due st_timers s"
proof (cases "\<exists>d. st_tmr c = Some d \<and> d \<le> ts_now s")
  case True
  then obtain d where d: "st_tmr c = Some d" "d \<le> ts_now s" by blast
  have "ts_due st_timers (ts_destroy i s) < ts_due st_timers s"
    using ts_due_destroy [OF map_of_SomeD [OF assms(2) [unfolded ts_get_def]]] assms(3) by blast
  then show ?thesis
    by (intro exI [of _ "st_tmr_handler i (ts_upd i (\<lambda>r. r\<lparr>st_tmr := None\<rparr>) s)"] conjI st_step.tmr [OF assms(2) d])
      (auto simp: st_tmr_handler_def ts_due_destroy_upd)
next
  case False
  then obtain d where d: "st_tmrg c = Some d" "d \<le> ts_now s" using assms(3) by (auto simp: tm_due_def st_timers_def split: if_splits)
  have inv: "st_tinv s" using assms(1) by (simp add: st_inv_def)
  obtain t sc where t: "t > 0" and eq: "st_retransmit_handler i (ts_upd i (\<lambda>r. r\<lparr>st_tmrg := None\<rparr>) s) =
      ts_upd i (\<lambda>r. r\<lparr>st_txc := st_txc r + 1, st_tmrg := Some (ts_now s + min t SIP_T2)\<rparr>) (ts_emit i (SEff_send sc) s)"
    using st_retransmit_eq [OF inv assms(2) d] by blast
  let ?g = "\<lambda>r. r\<lparr>st_txc := st_txc r + 1, st_tmrg := Some (ts_now s + min t SIP_T2)\<rparr>"
  have "tm_due (ts_now s) (st_timers (?g c)) < tm_due (ts_now s) (st_timers c)"
    using False d t by (auto simp: tm_due_def st_timers_def)
  then have "ts_due st_timers (ts_upd i ?g (ts_emit i (SEff_send sc) s)) < ts_due st_timers (ts_emit i (SEff_send sc) s)"
    using map_of_SomeD [OF assms(2) [unfolded ts_get_def]] ts_inv_distinct [OF inv] by (intro ts_due_upd [of _ c]) auto
  then show ?thesis
    by (intro exI [of _ "st_retransmit_handler i (ts_upd i (\<lambda>r. r\<lparr>st_tmrg := None\<rparr>) s)"] conjI st_step.tmrg [OF assms(2) d])
      (auto simp: eq)
qed

interpretation st: timed_system fst st_step st_winv st_timers
proof unfold_locales
  fix w :: "st_sys \<times> st_handles" and w' k i c
  show "st_step w w' \<Longrightarrow> st_winv w \<Longrightarrow> st_winv w'" by (rule st_step_winv)
  show "\<exists>w'. st_step w w' \<and> ts_now (fst w') = ts_now (fst w) + k"
    if "\<forall>d \<in> deadlines (tm_set st_timers) (fst w). ts_now (fst w) + k \<le> d"
    using st_step.tick [OF that, of "snd w"] by (intro exI [of _ "((fst w)\<lparr>ts_now := ts_now (fst w) + k\<rparr>, snd w)"]) simp
  show "st_winv w \<Longrightarrow> distinct (map fst (ts_tab (fst w)))" by (auto simp: st_winv_def st_inv_def ts_inv_def)
  show "\<exists>w'. st_step w w' \<and> ts_now (fst w') = ts_now (fst w) \<and> ts_due st_timers (fst w') < ts_due st_timers (fst w)"
    if w: "st_winv w" "ts_get (fst w) i = Some c" "0 < tm_due (ts_now (fst w)) (st_timers c)"
  proof -
    have "st_inv (fst w)" using w(1) by (simp add: st_winv_def)
    from st_serve [OF this w(2,3), of "snd w"] show ?thesis by (metis fst_conv prod.collapse)
  qed
qed

section \<open>A call that is refused\<close>

text \<open>An INVITE over UDP is answered with 486 at once.\<close>

definition busy_req :: sip_req where
  "busy_req = \<lparr>q_met = ''INVITE'', q_ruri = ''u'', q_branch = ''b'', q_sentby = ''h'', q_callid = ''c'', q_from_tag = ''f'',
     q_to_tag = None, q_cseq_met = ''INVITE'', q_cseq_num = 1, q_tp = TP_UDP\<rparr>"

definition busy_sys :: st_sys where
  "busy_sys = snd (snd (sip_strans_reply 0 0 None busy_req 486 ts_empty))"

definition busy_trans :: sip_strans where
  "busy_trans = \<lparr>st_tmr = Some 32000, st_tmrg = Some 500, st_msg = busy_req, st_mb = Some 486, st_state = S_COMPLETED, st_txc = 0,
     st_invite = True\<rparr>"

lemma busy_sys_facts:
  "ts_get busy_sys 0 = Some busy_trans" "trace_of 0 busy_sys = [(0, SEff_send 486)]" "ts_next busy_sys = 1" "ts_now busy_sys = 0"
  by (simp_all add: busy_sys_def sip_strans_reply_def sip_strans_alloc_def Let_def st_replied_def ts_get_def ts_empty_def ts_new_def
        ts_upd_def ts_emit_def trace_of_def busy_req_def busy_trans_def)

lemma busy_run: "st_run busy_sys (\<lambda>_. None)"
proof -
  have "\<not> fst (request_handler busy_req ts_empty)" "q_met busy_req \<noteq> ''ACK''"
    by (simp_all add: request_handler_def ts_find_def ts_empty_def busy_req_def)
  from st_step.answer [OF this, of "\<lambda>_. None" 0 0 486] show ?thesis unfolding busy_sys_def by simp
qed

lemma busy_reachable: "st_reachable busy_sys"
  using busy_run by blast

text \<open>The same INVITE is answered with 180, and the transaction kept in the variable 7.\<close>

definition ring_sys :: st_sys where
  "ring_sys = snd (snd (sip_strans_reply 0 0 (Some None) busy_req 180 ts_empty))"

lemma ring_run: "st_run ring_sys ((\<lambda>_. None)(7 := Some 0))" "ts_next ring_sys = 1"
proof -
  have "\<not> fst (request_handler busy_req ts_empty)" "q_met busy_req \<noteq> ''ACK''"
    by (simp_all add: request_handler_def ts_find_def ts_empty_def busy_req_def)
  from st_step.answer_handle [OF this, of "\<lambda>_. None" 7 0 0 180 0 "Some 0" ring_sys] show "st_run ring_sys ((\<lambda>_. None)(7 := Some 0))"
    by (intro r_into_rtranclp) (simp add: ring_sys_def sip_strans_reply_def sip_strans_alloc_def Let_def ts_get_def ts_empty_def ts_new_def)
  show "ts_next ring_sys = 1"
    by (simp add: ring_sys_def sip_strans_reply_def sip_strans_alloc_def Let_def st_replied_def ts_get_def ts_empty_def ts_new_def ts_upd_def ts_emit_def)
qed

section \<open>Properties\<close>

lemma st_inv_final: "st_inv s \<Longrightarrow> i < ts_next s \<Longrightarrow> st_final (trace_of i s) \<noteq> None"
proof (cases "ts_get s i")
  case None
  assume "st_inv s" "i < ts_next s"
  then have "st_sane (trace_of i s)" using None by (simp add: st_inv_def ts_inv_def)
  then show ?thesis by (simp add: st_sane_def)
qed (use st_final_get in \<open>simp add: st_inv_def\<close>)

text \<open>What may happen before, and after, the final response \<open>sc\<close>.\<close>

fun st_before :: "st_eff \<Rightarrow> bool" where
  "st_before (SEff_send c) = (c < 200)"
| "st_before SEff_fault = False"
| "st_before _ = True"

fun st_after :: "nat \<Rightarrow> st_eff \<Rightarrow> bool" where
  "st_after sc (SEff_send c) = (c = sc)"
| "st_after sc (SEff_reply c) = True"
| "st_after sc _ = False"

lemma scan_step_none: "scan_step a (t, e) = Some None \<Longrightarrow> a = Some None \<and> st_before e"
  by (cases e) (auto simp: scan_step_def split: option.splits if_splits)

lemma scan_step_some: "scan_step a (t, e) = Some (Some (f, sc)) \<Longrightarrow>
    a = Some None \<and> e = SEff_send sc \<and> f = t \<and> 200 \<le> sc \<or> a = Some (Some (f, sc)) \<and> st_after sc e"
  by (cases e) (auto simp: scan_step_def split: option.splits if_splits)

lemma st_final_none: "st_final tr = Some None \<Longrightarrow> x \<in> set tr \<Longrightarrow> st_before (snd x)"
proof (induction tr rule: rev_induct)
  case (snoc e tr)
  then show ?case using scan_step_none [of "st_final tr" "fst e" "snd e"] by auto
qed simp

lemma st_final_some:
  "st_final tr = Some (Some (f, sc)) \<Longrightarrow>
     \<exists>ps qs. tr = ps @ (f, SEff_send sc) # qs \<and> 200 \<le> sc \<and> (\<forall>e \<in> set ps. st_before (snd e)) \<and> (\<forall>e \<in> set qs. st_after sc (snd e))"
proof (induction tr rule: rev_induct)
  case (snoc x tr)
  obtain t e where x: "x = (t, e)" by fastforce
  have "scan_step (st_final tr) (t, e) = Some (Some (f, sc))" using snoc.prems x by simp
  then consider (first) "st_final tr = Some None" "e = SEff_send sc" "f = t" "200 \<le> sc"
    | (later) "st_final tr = Some (Some (f, sc))" "st_after sc e"
    by (drule_tac scan_step_some) (elim disjE conjE, simp_all)
  then show ?case
  proof cases
    case first
    then show ?thesis using x st_final_none by (intro exI [of _ tr] exI [of _ "[]"]) simp
  next
    case later
    then obtain ps qs where "tr = ps @ (f, SEff_send sc) # qs" "200 \<le> sc" "\<forall>e \<in> set ps. st_before (snd e)" "\<forall>e \<in> set qs. st_after sc (snd e)"
      using snoc.IH [OF later(1)] by (elim exE conjE)
    then show ?thesis using later(2) x by (intro exI [of _ ps] exI [of _ "qs @ [x]"]) simp
  qed
qed simp

lemma st_live_open:
  assumes "st_inv s" "st_live s i"
  shows "ts_get s i \<noteq> None \<and> (\<forall>e \<in> set (trace_of i s). st_before (snd e))"
proof -
  obtain st where st: "ts_get s i = Some st" "st_state st = S_TRYING \<or> st_state st = S_PROCEEDING"
    using assms(2) by (auto simp: st_live_def)
  then have "st_final (trace_of i s) = Some None"
    using st_inv_get [of s i st] assms(1) by (auto simp: st_inv_def st_times_def)
  then show ?thesis using st(1) st_final_none [of "trace_of i s"] by simp
qed

text \<open>
  C6. A server transaction sends one final response.  In every state that requests,
  retransmissions, ACKs, CANCELs, replies of the user and timeouts in any order lead to, where the
  user replies with any status code through any handle variable that is not NULL, what a
  transaction has done is: provisional responses, replies to CANCEL and calls of the cancel
  handler, then at most one final response, and after it only retransmissions of that same
  response and replies to other requests; the cancel handler of the user is not called any more,
  no handle of a transaction that is gone was used, and no shift of the retransmission interval was
  out of range.  It rests on the handle variables: one that is not NULL holds a transaction that is alive
  and has not sent a final response.
\<close>

theorem sip_strans_one_final:
  assumes "st_run s hs" "i < ts_next s"
  shows "((\<forall>e \<in> set (trace_of i s). st_before (snd e)) \<or>
     (\<exists>ps f sc qs. trace_of i s = ps @ (f, SEff_send sc) # qs \<and> 200 \<le> sc \<and>
       (\<forall>e \<in> set ps. st_before (snd e)) \<and> (\<forall>e \<in> set qs. st_after sc (snd e)))) \<and>
    (\<forall>h. hs h = Some i \<longrightarrow> ts_get s i \<noteq> None \<and> (\<forall>e \<in> set (trace_of i s). st_before (snd e)))"
proof
  have inv: "st_inv s" using st_run_winv [OF assms(1)] by (simp add: st_winv_def)
  have "st_live s i" if "hs h = Some i" for h using st_run_winv [OF assms(1)] that by (auto simp: st_winv_def st_held_def)
  then show "\<forall>h. hs h = Some i \<longrightarrow> ts_get s i \<noteq> None \<and> (\<forall>e \<in> set (trace_of i s). st_before (snd e))"
    using st_live_open [OF inv] by blast
  obtain fin where fin: "st_final (trace_of i s) = Some fin" using st_inv_final [OF inv assms(2)] by blast
  show "(\<forall>e \<in> set (trace_of i s). st_before (snd e)) \<or>
     (\<exists>ps f sc qs. trace_of i s = ps @ (f, SEff_send sc) # qs \<and> 200 \<le> sc \<and>
       (\<forall>e \<in> set ps. st_before (snd e)) \<and> (\<forall>e \<in> set qs. st_after sc (snd e)))"
  proof (cases fin)
    case None
    then show ?thesis using fin st_final_none [of "trace_of i s"] by simp
  next
    case (Some x)
    then have "st_final (trace_of i s) = Some (Some (fst x, snd x))" using fin by simp
    from st_final_some [OF this] show ?thesis by (intro disjI2) (elim exE, intro exI)
  qed
qed

theorem sip_strans_one_final_witness:
  "(\<exists>ps f sc qs. trace_of 0 busy_sys = ps @ (f, SEff_send sc) # qs \<and> 200 \<le> sc \<and>
     list_all (\<lambda>e. st_before (snd e)) ps \<and> list_all (\<lambda>e. st_after sc (snd e)) qs) \<and>
   ts_get ring_sys 0 \<noteq> None \<and> list_all (\<lambda>e. st_before (snd e)) (trace_of 0 ring_sys)"
proof
  have "\<not> (\<forall>e \<in> set (trace_of 0 busy_sys). st_before (snd e))" by (simp add: busy_sys_facts)
  with sip_strans_one_final [OF busy_run, of 0]
  show "\<exists>ps f sc qs. trace_of 0 busy_sys = ps @ (f, SEff_send sc) # qs \<and> 200 \<le> sc \<and>
     list_all (\<lambda>e. st_before (snd e)) ps \<and> list_all (\<lambda>e. st_after sc (snd e)) qs" by (simp add: busy_sys_facts(3) list_all_iff)
  show "ts_get ring_sys 0 \<noteq> None \<and> list_all (\<lambda>e. st_before (snd e)) (trace_of 0 ring_sys)"
    using sip_strans_one_final [OF ring_run(1), of 0] by (simp add: ring_run(2) list_all_iff)
qed

lemma st_find_ack:
  assumes "st_inv s" "ts_get s i = Some st" "cmp_ack_handler msg st"
  shows "ts_find (cmp_ack_handler msg) s = Some (i, st)"
proof -
  let ?m = "msg\<lparr>q_cseq_met := ''INVITE''\<rparr>"
  have "cmp_ack_handler msg = st_cmp_handler ?m" by (auto simp: cmp_ack_handler_def st_cmp_handler_def strans_cmp_def)
  then show ?thesis using st_find_key [OF assms(1,2), of ?m] assms(3) by simp
qed

text \<open>
  C7. Retransmitted requests and ACKs are absorbed.  A request with the branch, sender and method
  of a transaction that is alive never reaches the user: the transaction answers it with the last
  response when it has one that may be sent again, and is silent otherwise.  The ACK for a
  response of class 3 to 6 is absorbed as well, and stops the retransmissions of the response; the ACK for a
  response of class 2 does reach the user.
\<close>

theorem sip_strans_absorbs:
  assumes "st_reachable s" "ts_get s i = Some st"
  shows "(q_met msg \<noteq> ''ACK'' \<and> st_cmp_handler msg st \<and> lower (q_cseq_met msg) = lower (q_met msg) \<longrightarrow>
      sip_recv lower tu True msg s =
        (Recv_trans, if st_state st = S_PROCEEDING \<or> st_state st = S_COMPLETED then ts_emit i (SEff_send (the (st_mb st))) s else s)) \<and>
    (q_met msg = ''ACK'' \<and> cmp_ack_handler msg st \<and> lower (q_cseq_met msg) = lower (q_met msg) \<longrightarrow>
      (if st_state st = S_ACCEPTED
       then \<exists>sc. st_mb st = Some sc \<and> 200 \<le> sc \<and> sc < 300 \<and>
         sip_recv lower tu True msg s = (if tu msg then Recv_user else Recv_reply 501, s)
       else \<exists>s'. sip_recv lower tu True msg s = (Recv_trans, s') \<and> ts_trace s' = ts_trace s \<and>
         (\<forall>st'. ts_get s' i = Some st' \<longrightarrow> st_tmrg st' = None) \<and>
         (st_state st = S_COMPLETED \<longrightarrow>
            (if sip_transp_reliable (q_tp (st_msg st)) then ts_get s' i = None
             else \<exists>st'. ts_get s' i = Some st' \<and> st_state st' = S_CONFIRMED \<and> st_tmr st' = Some (ts_now s + SIP_T4)))))"
proof (intro conjI impI)
  have inv: "st_inv s" using assms(1) by (rule st_reachable_inv)
  obtain fin where fin: "st_times (ts_now s) fin st" using st_inv_get [of s i st] inv assms(2) by (auto simp: st_inv_def)
  { assume m: "q_met msg \<noteq> ''ACK'' \<and> st_cmp_handler msg st \<and> lower (q_cseq_met msg) = lower (q_met msg)"
    have "st_state st = S_PROCEEDING \<or> st_state st = S_COMPLETED \<Longrightarrow> \<exists>sc. st_mb st = Some sc"
      using fin by (auto simp: st_times_def)
    then show "sip_recv lower tu True msg s =
        (Recv_trans, if st_state st = S_PROCEEDING \<or> st_state st = S_COMPLETED then ts_emit i (SEff_send (the (st_mb st))) s else s)"
      using m st_find_key [OF inv assms(2), of msg] assms(2) by (auto simp: sip_recv_def request_handler_def st_resend_def) }
  { assume m: "q_met msg = ''ACK'' \<and> cmp_ack_handler msg st \<and> lower (q_cseq_met msg) = lower (q_met msg)"
    then have f: "ts_find (cmp_ack_handler msg) s = Some (i, st)" using st_find_ack [OF inv assms(2)] by blast
    show "if st_state st = S_ACCEPTED
       then \<exists>sc. st_mb st = Some sc \<and> 200 \<le> sc \<and> sc < 300 \<and>
         sip_recv lower tu True msg s = (if tu msg then Recv_user else Recv_reply 501, s)
       else \<exists>s'. sip_recv lower tu True msg s = (Recv_trans, s') \<and> ts_trace s' = ts_trace s \<and>
         (\<forall>st'. ts_get s' i = Some st' \<longrightarrow> st_tmrg st' = None) \<and>
         (st_state st = S_COMPLETED \<longrightarrow>
            (if sip_transp_reliable (q_tp (st_msg st)) then ts_get s' i = None
             else \<exists>st'. ts_get s' i = Some st' \<and> st_state st' = S_CONFIRMED \<and> st_tmr st' = Some (ts_now s + SIP_T4)))"
      using m f fin assms(2)
      by (cases "st_state st") (auto simp: sip_recv_def request_handler_def ack_handler_def st_times_def) }
qed

theorem sip_strans_absorbs_witness:
  "sip_recv id (\<lambda>_. True) True busy_req busy_sys = (Recv_trans, ts_emit 0 (SEff_send 486) busy_sys) \<and>
   (\<exists>s' st'. sip_recv id (\<lambda>_. True) True (busy_req\<lparr>q_met := ''ACK'', q_cseq_met := ''ACK''\<rparr>) busy_sys = (Recv_trans, s') \<and>
     ts_get s' 0 = Some st' \<and> st_state st' = S_CONFIRMED \<and> st_tmrg st' = None)"
  using sip_strans_absorbs [OF busy_reachable busy_sys_facts(1), of busy_req id "\<lambda>_. True"]
    sip_strans_absorbs [OF busy_reachable busy_sys_facts(1), of "busy_req\<lparr>q_met := ''ACK'', q_cseq_met := ''ACK''\<rparr>" id "\<lambda>_. True"]
  by (auto simp: busy_trans_def busy_req_def st_cmp_handler_def cmp_ack_handler_def strans_cmp_def)

text \<open>
  C9. Server transactions end in time, and time goes on.  From every reachable state the clock can
  be advanced by any amount with all timers served.  Before its final response a transaction has
  no timer, it waits for the user; afterwards its timer is set, and the clock has not passed it, to at
  most 64 times T1 after the first final response that was sent, and T4 more when the response was
  acknowledged, whatever was retransmitted in between.
\<close>

theorem sip_strans_ends_in_time:
  assumes "st_run s hs" "ts_get s i = Some st"
  shows "(\<exists>s' hs'. st_step\<^sup>*\<^sup>* (s, hs) (s', hs') \<and> ts_now s' = ts_now s + k) \<and>
    (if \<forall>e \<in> set (trace_of i s). st_before (snd e) then st_tmr st = None \<and> st_tmrg st = None
     else \<exists>ps f sc qs d. trace_of i s = ps @ (f, SEff_send sc) # qs \<and> (\<forall>e \<in> set ps. st_before (snd e)) \<and> 200 \<le> sc \<and>
       f \<le> ts_now s \<and> st_tmr st = Some d \<and> ts_now s \<le> d \<and>
       d \<le> f + 64 * SIP_T1 + (if st_state st = S_CONFIRMED then SIP_T4 else 0))"
proof
  have winv: "st_winv (s, hs)" using assms(1) by (rule st_run_winv)
  then show "\<exists>s' hs'. st_step\<^sup>*\<^sup>* (s, hs) (s', hs') \<and> ts_now s' = ts_now s + k"
    using st.time_advances [OF winv, of k] by (metis fst_conv prod.collapse)
  obtain fin where fin: "st_final (trace_of i s) = Some fin" "st_times (ts_now s) fin st"
    using st_inv_get [of s i st] winv assms(2) by (auto simp: st_winv_def st_inv_def)
  show "if \<forall>e \<in> set (trace_of i s). st_before (snd e) then st_tmr st = None \<and> st_tmrg st = None
     else \<exists>ps f sc qs d. trace_of i s = ps @ (f, SEff_send sc) # qs \<and> (\<forall>e \<in> set ps. st_before (snd e)) \<and> 200 \<le> sc \<and>
       f \<le> ts_now s \<and> st_tmr st = Some d \<and> ts_now s \<le> d \<and>
       d \<le> f + 64 * SIP_T1 + (if st_state st = S_CONFIRMED then SIP_T4 else 0)"
  proof (cases fin)
    case None
    then have "\<forall>e \<in> set (trace_of i s). st_before (snd e)" using st_final_none fin(1) by simp
    then show ?thesis using None fin(2) by (simp add: st_times_def split: st_state.splits)
  next
    case (Some x)
    then obtain f sc where x: "fin = Some (f, sc)" by (cases x) simp
    then obtain ps qs where m: "trace_of i s = ps @ (f, SEff_send sc) # qs" "\<forall>e \<in> set ps. st_before (snd e)" "200 \<le> sc"
      using st_final_some [of "trace_of i s" f sc] fin(1) by auto
    then have "\<not> (\<forall>e \<in> set (trace_of i s). st_before (snd e))" by force
    moreover have "\<exists>d. f \<le> ts_now s \<and> st_tmr st = Some d \<and> ts_now s \<le> d \<and>
        d \<le> f + 64 * SIP_T1 + (if st_state st = S_CONFIRMED then SIP_T4 else 0)"
      using fin(2) x by (auto simp: st_times_def split: st_state.splits)
    ultimately show ?thesis using m by (simp only: if_False) blast
  qed
qed

theorem sip_strans_ends_in_time_witness:
  "\<exists>s' hs'. st_step\<^sup>*\<^sup>* (busy_sys, \<lambda>_. None) (s', hs') \<and> ts_now s' = 40000"
  using sip_strans_ends_in_time [OF busy_run busy_sys_facts(1), of 40000] by (simp add: busy_sys_facts)

end
