(* ===== verification/Sa.thy ===== *)
theory Sa
  imports Prelude
begin

text \<open>
  Socket addresses (\<^verbatim>\<open>src/sa/sa.c\<close>): the union of the address structures of Linux as the family and
  the bytes behind it.  The port is at the start of these bytes, an IPv4 address 2 bytes, an IPv6
  address 6 bytes and its scope 22 bytes into them; the path of a Unix socket begins where the
  port does.
\<close>

record sa =
  sa_family :: "16 word"
  sa_data :: "byte list"
  sa_len :: nat

abbreviation (input) AF_UNIX :: "16 word" where "AF_UNIX \<equiv> 1"
abbreviation (input) AF_INET :: "16 word" where "AF_INET \<equiv> 2"
abbreviation (input) AF_INET6 :: "16 word" where "AF_INET6 \<equiv> 10"
abbreviation (input) SA_ADDR :: nat where "SA_ADDR \<equiv> 1"
abbreviation (input) SA_PORT :: nat where "SA_PORT \<equiv> 2"
abbreviation (input) SA_ALL :: nat where "SA_ALL \<equiv> 3"

definition sa_bytes :: "sa \<Rightarrow> nat \<Rightarrow> nat \<Rightarrow> byte list" where
  "sa_bytes sa off n = take n (drop off (sa_data sa))"

definition sa_store :: "sa \<Rightarrow> nat \<Rightarrow> byte list \<Rightarrow> sa" where
  "sa_store sa off bs = sa\<lparr>sa_data := take off (sa_data sa) @ bs @ drop (off + length bs) (sa_data sa)\<rparr>"

section \<open>Operations\<close>

definition sa_init :: "16 word \<Rightarrow> sa" where
  "sa_init af = \<lparr>sa_family = af, sa_data = replicate 108 0, sa_len = 110\<rparr>"

definition sa_set_in :: "32 word \<Rightarrow> 16 word \<Rightarrow> sa" where
  "sa_set_in addr port =
     (sa_store (sa_store \<lparr>sa_family = AF_INET, sa_data = replicate 108 0, sa_len = 0\<rparr> 2 (le32 (htonl addr)))
        0 (le16 (htons port)))\<lparr>sa_len := 16\<rparr>"

definition sa_set_in6 :: "byte list \<Rightarrow> 16 word \<Rightarrow> sa" where
  "sa_set_in6 addr port =
     (sa_store (sa_store \<lparr>sa_family = AF_INET6, sa_data = replicate 108 0, sa_len = 0\<rparr> 6 (take 16 addr))
        0 (le16 (htons port)))\<lparr>sa_len := 28\<rparr>"

text \<open>The argument is the family and the bytes behind it.\<close>

definition sa_set_sa :: "16 word \<Rightarrow> byte list \<Rightarrow> errno \<times> sa" where
  "sa_set_sa fam bs =
     (let z = \<lparr>sa_family = 0, sa_data = replicate 108 0, sa_len = 0\<rparr>
      in if fam = AF_INET then (0, (sa_store z 0 (take 14 bs))\<lparr>sa_family := fam, sa_len := 16\<rparr>)
         else if fam = AF_INET6 then (0, (sa_store z 0 (take 26 bs))\<lparr>sa_family := fam, sa_len := 28\<rparr>)
         else (EAFNOSUPPORT, z))"

definition sa_set_port :: "sa \<Rightarrow> 16 word \<Rightarrow> sa" where
  "sa_set_port sa port =
     (if sa_family sa = AF_INET \<or> sa_family sa = AF_INET6 then sa_store sa 0 (le16 (htons port)) else sa)"

definition sa_af :: "sa \<Rightarrow> 16 word" where
  "sa_af sa = sa_family sa"

definition sa_in :: "sa \<Rightarrow> 32 word" where
  "sa_in sa = ntohl (unle32 (sa_bytes sa 2 4))"

definition sa_in6 :: "sa \<Rightarrow> byte list" where
  "sa_in6 sa = sa_bytes sa 6 16"

definition sa_port :: "sa \<Rightarrow> 16 word" where
  "sa_port sa =
     (if sa_family sa = AF_INET \<or> sa_family sa = AF_INET6 then ntohs (unle16 (sa_bytes sa 0 2)) else 0)"

definition sa_isset :: "sa \<Rightarrow> nat \<Rightarrow> bool" where
  "sa_isset sa flag =
     (if sa_family sa = AF_UNIX then sa_bytes sa 0 1 \<noteq> [0]
      else if sa_family sa = AF_INET then
        \<not> (flag AND SA_ADDR \<noteq> 0 \<and> unle32 (sa_bytes sa 2 4) = 0) \<and> \<not> (flag AND SA_PORT \<noteq> 0 \<and> unle16 (sa_bytes sa 0 2) = 0)
      else if sa_family sa = AF_INET6 then
        \<not> (flag AND SA_ADDR \<noteq> 0 \<and> sa_bytes sa 6 16 = replicate 16 0) \<and>
        \<not> (flag AND SA_PORT \<noteq> 0 \<and> unle16 (sa_bytes sa 0 2) = 0)
      else False)"

definition sa_hash :: "sa \<Rightarrow> nat \<Rightarrow> 32 word" where
  "sa_hash sa flag =
     (if sa_family sa = AF_INET then
        (if flag AND SA_ADDR \<noteq> 0 then ntohl (unle32 (sa_bytes sa 2 4)) else 0) +
        (if flag AND SA_PORT \<noteq> 0 then ucast (ntohs (unle16 (sa_bytes sa 0 2))) else 0)
      else if sa_family sa = AF_INET6 then
        (if flag AND SA_ADDR \<noteq> 0
         then unle32 (sa_bytes sa 6 4) XOR unle32 (sa_bytes sa 10 4) XOR unle32 (sa_bytes sa 14 4) XOR unle32 (sa_bytes sa 18 4)
         else 0) +
        (if flag AND SA_PORT \<noteq> 0 then ucast (ntohs (unle16 (sa_bytes sa 0 2))) else 0)
      else 0)"

text \<open>\<open>same\<close> says that both pointers are the same.\<close>

definition sa_cmp :: "bool \<Rightarrow> sa \<Rightarrow> sa \<Rightarrow> nat \<Rightarrow> bool" where
  "sa_cmp same l r flag =
     (if same then True
      else if sa_family l \<noteq> sa_family r then False
      else if sa_family l = AF_UNIX then takeWhile (\<lambda>c. c \<noteq> 0) (sa_data l) = takeWhile (\<lambda>c. c \<noteq> 0) (sa_data r)
      else if sa_family l = AF_INET then
        \<not> (flag AND SA_ADDR \<noteq> 0 \<and> unle32 (sa_bytes l 2 4) \<noteq> unle32 (sa_bytes r 2 4)) \<and>
        \<not> (flag AND SA_PORT \<noteq> 0 \<and> unle16 (sa_bytes l 0 2) \<noteq> unle16 (sa_bytes r 0 2))
      else if sa_family l = AF_INET6 then
        \<not> (flag AND SA_ADDR \<noteq> 0 \<and> sa_bytes l 6 16 \<noteq> sa_bytes r 6 16) \<and>
        \<not> (flag AND SA_PORT \<noteq> 0 \<and> unle16 (sa_bytes l 0 2) \<noteq> unle16 (sa_bytes r 0 2))
      else False)"

definition sa_is_linklocal :: "sa \<Rightarrow> bool" where
  "sa_is_linklocal sa =
     (if sa_af sa = AF_INET then unle32 (sa_bytes sa 2 4) AND htonl 0xffff0000 = htonl 0xa9fe0000
      else if sa_af sa = AF_INET6 then
        (case sa_bytes sa 6 2 of [a, b] \<Rightarrow> a = 0xfe \<and> b AND 0xc0 = 0x80 | _ \<Rightarrow> False)
      else False)"

definition sa_is_loopback :: "sa \<Rightarrow> bool" where
  "sa_is_loopback sa =
     (if sa_af sa = AF_INET then ntohl (unle32 (sa_bytes sa 2 4)) AND 0xff000000 = 0x7f000000
      else if sa_af sa = AF_INET6 then sa_bytes sa 6 16 = replicate 15 0 @ [1]
      else False)"

definition sa_is_any :: "sa \<Rightarrow> bool" where
  "sa_is_any sa =
     (if sa_af sa = AF_INET then ntohl (unle32 (sa_bytes sa 2 4)) = 0
      else if sa_af sa = AF_INET6 then sa_bytes sa 6 16 = replicate 16 0
      else False)"

definition sa_set_scopeid :: "sa \<Rightarrow> 32 word \<Rightarrow> sa" where
  "sa_set_scopeid sa scopeid = (if sa_af sa \<noteq> AF_INET6 then sa else sa_store sa 22 (le32 scopeid))"

definition sa_scopeid :: "sa \<Rightarrow> 32 word" where
  "sa_scopeid sa = (if sa_af sa \<noteq> AF_INET6 then 0 else unle32 (sa_bytes sa 22 4))"

section \<open>Lemmas\<close>

definition sa_wf :: "sa \<Rightarrow> bool" where
  "sa_wf sa \<longleftrightarrow> length (sa_data sa) = 108"

lemma sa_store_wf [wf_intros]: "sa_wf sa \<Longrightarrow> off + length bs \<le> 108 \<Longrightarrow> sa_wf (sa_store sa off bs)"
  by (simp add: sa_wf_def sa_store_def)

lemma sa_bytes_store:
  assumes "sa_wf sa" "off + length bs \<le> 108"
  shows "sa_bytes (sa_store sa off bs) off (length bs) = bs"
    and "p + n \<le> off \<or> off + length bs \<le> p \<Longrightarrow> sa_bytes (sa_store sa off bs) p n = sa_bytes sa p n"
proof -
  show "sa_bytes (sa_store sa off bs) off (length bs) = bs"
    using assms by (simp add: sa_bytes_def sa_store_def sa_wf_def)
  assume "p + n \<le> off \<or> off + length bs \<le> p"
  then show "sa_bytes (sa_store sa off bs) p n = sa_bytes sa p n"
  proof
    assume "p + n \<le> off"
    then show ?thesis using assms by (auto simp: sa_bytes_def sa_store_def sa_wf_def drop_take min_def)
  next
    assume "off + length bs \<le> p"
    then show ?thesis using assms by (simp add: sa_bytes_def sa_store_def sa_wf_def)
  qed
qed

lemma sa_family_store [simp]: "sa_family (sa_store sa off bs) = sa_family sa"
  by (simp add: sa_store_def)

text \<open>What is set is what is read.\<close>

lemma sa_bytes_set:
  "sa_bytes (sa_set_in a p) 0 2 = be16 p" "sa_bytes (sa_set_in a p) 2 4 = be32 a"
  "sa_bytes (sa_set_in6 c p) 0 2 = be16 p" "length c = 16 \<Longrightarrow> sa_bytes (sa_set_in6 c p) 6 16 = c"
  by (simp_all add: sa_set_in_def sa_set_in6_def sa_bytes_def sa_store_def)

lemma sa_set_family [simp]:
  "sa_family (sa_set_in a p) = AF_INET" "sa_af (sa_set_in a p) = AF_INET"
  "sa_family (sa_set_in6 c p) = AF_INET6" "sa_af (sa_set_in6 c p) = AF_INET6"
  by (simp_all add: sa_set_in_def sa_set_in6_def sa_af_def)

lemma sa_set_get [simp]:
  "sa_in (sa_set_in a p) = a" "sa_port (sa_set_in a p) = p"
  "length c = 16 \<Longrightarrow> sa_in6 (sa_set_in6 c p) = c" "sa_port (sa_set_in6 c p) = p"
  by (simp_all add: sa_in_def sa_in6_def sa_port_def sa_bytes_set)

lemma sa_set_wf [wf_intros]: "sa_wf (sa_init af)" "sa_wf (sa_set_in a p)" "sa_wf (sa_set_in6 b p)" "sa_wf sa \<Longrightarrow> sa_wf (sa_set_port sa p)"
  by (auto simp: sa_wf_def sa_init_def sa_set_in_def sa_set_in6_def sa_set_port_def sa_store_def)

lemma sa_bytes_split: "sa_bytes sa 6 16 = sa_bytes sa 6 4 @ sa_bytes sa 10 4 @ sa_bytes sa 14 4 @ sa_bytes sa 18 4"
  using take_add [of 4 12 "drop 6 (sa_data sa)"] take_add [of 4 8 "drop 10 (sa_data sa)"] take_add [of 4 4 "drop 14 (sa_data sa)"]
  by (simp add: sa_bytes_def)

lemma sa_bytes_16_eq:
  assumes "sa_wf l" "sa_wf r" "sa_bytes l 6 16 = sa_bytes r 6 16"
  shows "sa_bytes l 6 4 = sa_bytes r 6 4" "sa_bytes l 10 4 = sa_bytes r 10 4" "sa_bytes l 14 4 = sa_bytes r 14 4"
    "sa_bytes l 18 4 = sa_bytes r 18 4"
  using assms(3) assms(1,2) [unfolded sa_wf_def] by (simp_all add: sa_bytes_split) (simp_all add: sa_bytes_def)

text \<open>The fields that a comparison selects, read with the accessors.\<close>

definition sa_same :: "sa \<Rightarrow> sa \<Rightarrow> nat \<Rightarrow> bool" where
  "sa_same x y flag \<longleftrightarrow> sa_af x = sa_af y \<and>
     (flag AND SA_ADDR \<noteq> 0 \<longrightarrow> (if sa_af x = AF_INET then sa_in x = sa_in y else sa_in6 x = sa_in6 y)) \<and>
     (flag AND SA_PORT \<noteq> 0 \<longrightarrow> sa_port x = sa_port y)"

lemma hton_eq: "htonl a = htonl b \<longleftrightarrow> a = b" "htons c = htons d \<longleftrightarrow> c = d"
  by (metis htonl_htonl) (metis htons_htons)

lemma sa_cmp_same:
  assumes "sa_wf x" "sa_wf y" "sa_family x = AF_INET \<or> sa_family x = AF_INET6"
  shows "sa_cmp False x y flag \<longleftrightarrow> sa_same x y flag"
  using assms(3)
  by (auto simp: hton_eq sa_cmp_def sa_same_def sa_af_def sa_in_def sa_in6_def sa_port_def)

text \<open>
  C39. Comparison and hashing of socket addresses fit together.  For addresses of the Internet
  families and every choice of the compared fields, \<^verbatim>\<open>sa_cmp\<close> holds exactly when the families
  agree and the chosen fields do: the address when \<^verbatim>\<open>SA_ADDR\<close> is chosen, the port when
  \<^verbatim>\<open>SA_PORT\<close> is chosen, and no others; addresses that compare equal have the same hash value for
  the same choice, as lookups in the tables keyed by address need it; and what was set as address
  and port is what is read.
\<close>

theorem sa_cmp_hash:
  assumes "sa_wf x" "sa_wf y" "sa_family x = AF_INET \<or> sa_family x = AF_INET6"
  shows "(sa_cmp False x y flag \<longleftrightarrow> sa_af x = sa_af y \<and>
      (flag AND SA_ADDR \<noteq> 0 \<longrightarrow> (if sa_af x = AF_INET then sa_in x = sa_in y else sa_in6 x = sa_in6 y)) \<and>
      (flag AND SA_PORT \<noteq> 0 \<longrightarrow> sa_port x = sa_port y)) \<and>
    (sa_cmp False x y flag \<longrightarrow> sa_hash x flag = sa_hash y flag) \<and>
    sa_af (sa_set_in a p) = AF_INET \<and> sa_in (sa_set_in a p) = a \<and> sa_port (sa_set_in a p) = p \<and>
    (length c = 16 \<longrightarrow> sa_af (sa_set_in6 c p) = AF_INET6 \<and> sa_in6 (sa_set_in6 c p) = c \<and> sa_port (sa_set_in6 c p) = p)"
proof (intro conjI impI)
  show "sa_cmp False x y flag \<longleftrightarrow> sa_af x = sa_af y \<and>
      (flag AND SA_ADDR \<noteq> 0 \<longrightarrow> (if sa_af x = AF_INET then sa_in x = sa_in y else sa_in6 x = sa_in6 y)) \<and>
      (flag AND SA_PORT \<noteq> 0 \<longrightarrow> sa_port x = sa_port y)"
    using sa_cmp_same [OF assms] by (simp only: sa_same_def)
  show "sa_cmp False x y flag \<Longrightarrow> sa_hash x flag = sa_hash y flag"
    using assms(3) sa_bytes_16_eq [OF assms(1,2)] by (auto simp: sa_cmp_def sa_hash_def split: if_splits)
qed simp_all

text \<open>Two services of one host: the same address, but not the same address and port.\<close>

theorem sa_cmp_hash_witness:
  "sa_cmp False (sa_set_in 0x7f000001 5060) (sa_set_in 0x7f000001 5061) SA_ADDR \<and>
   \<not> sa_cmp False (sa_set_in 0x7f000001 5060) (sa_set_in 0x7f000001 5061) SA_PORT \<and>
   \<not> sa_cmp False (sa_set_in 0x7f000001 5060) (sa_set_in 0x7f000001 5061) SA_ALL \<and>
   sa_cmp False (sa_set_in6 (replicate 16 1) 5060) (sa_set_in6 (replicate 16 2) 5060) SA_PORT"
proof -
  let ?x = "sa_set_in 0x7f000001 5060" and ?y = "sa_set_in 0x7f000001 5061"
  let ?v = "sa_set_in6 (replicate 16 1) 5060" and ?w = "sa_set_in6 (replicate 16 2) 5060"
  have x: "sa_wf ?x" "sa_wf ?y" "sa_family ?x = AF_INET \<or> sa_family ?x = AF_INET6"
    "sa_wf ?v" "sa_wf ?w" "sa_family ?v = AF_INET \<or> sa_family ?v = AF_INET6" by (simp_all add: sa_set_wf)
  show ?thesis
    using sa_cmp_hash [OF x(1-3), of SA_ADDR 0 0 "[]"] sa_cmp_hash [OF x(1-3), of SA_PORT 0 0 "[]"]
      sa_cmp_hash [OF x(1-3), of SA_ALL 0 0 "[]"] sa_cmp_hash [OF x(4-6), of SA_PORT 0 0 "[]"] by simp
qed

end
