(* ===== verification/Stun.thy ===== *)
theory Stun
  imports Wire Sa Crc32
begin

text \<open>
  STUN messages: header (\<^verbatim>\<open>src/stun/hdr.c\<close>), addresses (\<^verbatim>\<open>src/stun/addr.c\<close>), attributes
  (\<^verbatim>\<open>src/stun/attr.c\<close>), and whole messages with their integrity and fingerprint checks
  (\<^verbatim>\<open>src/stun/msg.c\<close>).  The union of attribute values is a datatype with one constructor per member;
  an attribute whose value is of another member than its type demands is a use of the interface
  that C leaves undefined, and gives \<open>FAULT\<close>.  HMAC-SHA1 is a parameter.
\<close>

section \<open>Data\<close>

record stun_hdr =
  sh_type :: "16 word"
  sh_len :: "16 word"
  sh_cookie :: "32 word"
  sh_tid :: "byte list"

text \<open>The value of a DATA attribute may be the buffer that is written itself, \<open>SV_self\<close>.\<close>

datatype stun_val =
    SV_sa sa
  | SV_change bool bool
  | SV_str "byte list"
  | SV_mi "byte list"
  | SV_err "16 word" "byte list"
  | SV_unknown "16 word list"
  | SV_u16 "16 word"
  | SV_u32 "32 word"
  | SV_u64 "64 word"
  | SV_u8 byte
  | SV_data "byte list"
  | SV_self
  | SV_even bool
  | SV_none

record stun_attr =
  sa_type :: "16 word"
  sa_v :: stun_val

record stun_msg =
  sm_hdr :: stun_hdr
  sm_attrl :: "stun_attr list"
  sm_mb :: mbuf
  sm_start :: nat

abbreviation STUN_MAGIC_COOKIE :: "32 word" where "STUN_MAGIC_COOKIE \<equiv> 0x2112a442"
abbreviation STUN_ATTR_MSG_INTEGRITY :: "16 word" where "STUN_ATTR_MSG_INTEGRITY \<equiv> 0x0008"
abbreviation STUN_ATTR_ERR_CODE :: "16 word" where "STUN_ATTR_ERR_CODE \<equiv> 0x0009"
abbreviation STUN_ATTR_FINGERPRINT :: "16 word" where "STUN_ATTR_FINGERPRINT \<equiv> 0x8028"

text \<open>The groups of attribute types that the switches of encoder and decoder treat alike.\<close>

datatype stun_kind =
  K_addr | K_xaddr | K_change | K_str | K_mi | K_err | K_unknown | K_u16 | K_u32 | K_data | K_u8 | K_even | K_none | K_u64 | K_other

definition stun_attr_kind :: "16 word \<Rightarrow> stun_kind" where
  "stun_attr_kind ty =
     (if ty = 0x0001 \<or> ty = 0x8023 \<or> ty = 0x802b \<or> ty = 0x802c then K_addr
      else if ty = 0x0012 \<or> ty = 0x0016 \<or> ty = 0x0020 then K_xaddr
      else if ty = 0x0003 then K_change
      else if ty = 0x0006 \<or> ty = 0x0014 \<or> ty = 0x0015 \<or> ty = 0x8022 then K_str
      else if ty = STUN_ATTR_MSG_INTEGRITY then K_mi
      else if ty = STUN_ATTR_ERR_CODE then K_err
      else if ty = 0x000a then K_unknown
      else if ty = 0x000c \<or> ty = 0x0027 then K_u16
      else if ty = 0x000d \<or> ty = 0x0024 \<or> ty = STUN_ATTR_FINGERPRINT then K_u32
      else if ty = 0x0013 \<or> ty = 0x0026 then K_data
      else if ty = 0x0017 \<or> ty = 0x0019 then K_u8
      else if ty = 0x0018 then K_even
      else if ty = 0x001a \<or> ty = 0x0025 then K_none
      else if ty = 0x0022 \<or> ty = 0x8029 \<or> ty = 0x802a then K_u64
      else K_other)"

section \<open>Header\<close>

definition STUN_TYPE :: "16 word \<Rightarrow> byte \<Rightarrow> 16 word" where
  "STUN_TYPE method cls =
     push_bit 2 (method AND 0x0f80) OR push_bit 1 (method AND 0x0070) OR (method AND 0x000f) OR
     push_bit 7 (ucast cls AND 0x2) OR push_bit 4 (ucast cls AND 0x1)"

definition STUN_CLASS :: "16 word \<Rightarrow> 16 word" where
  "STUN_CLASS ty = (drop_bit 7 ty OR drop_bit 4 ty) AND 0x3"

definition STUN_METHOD :: "16 word \<Rightarrow> 16 word" where
  "STUN_METHOD ty = drop_bit 2 (ty AND 0x3e00) OR drop_bit 1 (ty AND 0x00e0) OR (ty AND 0x000f)"

definition stun_hdr_encode :: "alloc \<Rightarrow> mbuf \<Rightarrow> stun_hdr \<Rightarrow> errno \<times> mbuf" where
  "stun_hdr_encode al mb hdr =
     err_or (err_or (err_or (mbuf_write_u16 al mb (htons (sh_type hdr AND 0x3fff)))
       (\<lambda>mb. mbuf_write_u16 al mb (htons (sh_len hdr))))
       (\<lambda>mb. mbuf_write_u32 al mb (htonl (sh_cookie hdr))))
       (\<lambda>mb. mbuf_write_mem al mb (sh_tid hdr))"

definition stun_hdr_decode :: "stun_hdr dec" where
  "stun_hdr_decode =
     dec_bind (dec_need 20 EBADMSG) (\<lambda>_.
     dec_bind get_be16 (\<lambda>ty.
     if ty AND 0xc000 \<noteq> 0 then dec_fail EBADMSG else
     dec_bind get_be16 (\<lambda>len.
     if len AND 0x3 \<noteq> 0 then dec_fail EBADMSG else
     dec_bind get_be32 (\<lambda>cookie.
     dec_bind (get_mem 12) (\<lambda>tid.
     dec_bind (dec_need (unat len) EBADMSG) (\<lambda>_.
     dec_return \<lparr>sh_type = ty, sh_len = len, sh_cookie = cookie, sh_tid = tid\<rparr>))))))"

section \<open>Addresses\<close>

definition in6_xor_tid :: "byte list \<Rightarrow> byte list \<Rightarrow> byte list" where
  "in6_xor_tid in6 tid = map2 (XOR) in6 ([0x21, 0x12, 0xa4, 0x42] @ tid)"

definition stun_addr_encode :: "alloc \<Rightarrow> mbuf \<Rightarrow> sa \<Rightarrow> byte list option \<Rightarrow> errno \<times> mbuf" where
  "stun_addr_encode al mb addr tid =
     (let port = (if tid \<noteq> None then sa_port addr XOR 0x2112 else sa_port addr)
      in if sa_af addr = AF_INET then
           let addr4 = (if tid \<noteq> None then sa_in addr XOR STUN_MAGIC_COOKIE else sa_in addr)
           in err_or (err_or (err_or (mbuf_write_u8 al mb 0) (\<lambda>mb. mbuf_write_u8 al mb 1))
                (\<lambda>mb. mbuf_write_u16 al mb (htons port))) (\<lambda>mb. mbuf_write_u32 al mb (htonl addr4))
         else if sa_af addr = AF_INET6 then
           let addr6 = (case tid of None \<Rightarrow> sa_in6 addr | Some t \<Rightarrow> in6_xor_tid (sa_in6 addr) t)
           in err_or (err_or (err_or (mbuf_write_u8 al mb 0) (\<lambda>mb. mbuf_write_u8 al mb 2))
                (\<lambda>mb. mbuf_write_u16 al mb (htons port))) (\<lambda>mb. mbuf_write_mem al mb addr6)
         else (EAFNOSUPPORT, mb))"

definition stun_addr_decode :: "byte list option \<Rightarrow> sa dec" where
  "stun_addr_decode tid =
     dec_bind (dec_need 4 EBADMSG) (\<lambda>_.
     dec_bind get_u8 (\<lambda>_.
     dec_bind get_u8 (\<lambda>family.
     dec_bind get_be16 (\<lambda>port0.
     let port = (if tid \<noteq> None then port0 XOR 0x2112 else port0)
     in if family = 1 then
          dec_bind (dec_need 4 EBADMSG) (\<lambda>_.
          dec_bind get_be32 (\<lambda>addr4.
          dec_return (sa_set_in (if tid \<noteq> None then addr4 XOR STUN_MAGIC_COOKIE else addr4) port)))
        else if family = 2 then
          dec_bind (dec_need 16 EBADMSG) (\<lambda>_.
          dec_bind (get_mem 16) (\<lambda>addr6.
          dec_return (sa_set_in6 (case tid of None \<Rightarrow> addr6 | Some t \<Rightarrow> in6_xor_tid addr6 t) port)))
        else dec_fail EAFNOSUPPORT))))"

section \<open>Attributes\<close>

definition stun_value_encode :: "alloc \<Rightarrow> mbuf \<Rightarrow> 16 word \<Rightarrow> stun_val \<Rightarrow> byte list option \<Rightarrow> errno \<times> mbuf" where
  "stun_value_encode al mb ty v tid =
     (case (stun_attr_kind ty, v) of
        (K_addr, SV_sa a) \<Rightarrow> stun_addr_encode al mb a None
      | (K_xaddr, SV_sa a) \<Rightarrow> stun_addr_encode al mb a tid
      | (K_change, SV_change ip port) \<Rightarrow>
          mbuf_write_u32 al mb (htonl (push_bit 2 (of_bool ip) OR push_bit 1 (of_bool port)))
      | (K_str, SV_str s) \<Rightarrow> mbuf_write_str al mb (Some s)
      | (K_mi, SV_mi m) \<Rightarrow> mbuf_write_mem al mb (take 20 m)
      | (K_err, SV_err code reason) \<Rightarrow>
          err_or (err_or (err_or (mbuf_write_u16 al mb 0)
            (\<lambda>mb. mbuf_write_u8 al mb (ucast (code div 100)))) (\<lambda>mb. mbuf_write_u8 al mb (ucast (code mod 100))))
            (\<lambda>mb. mbuf_write_str al mb (Some reason))
      | (K_unknown, SV_unknown ts) \<Rightarrow> err_each (\<lambda>mb t. mbuf_write_u16 al mb (htons t)) ts (0, mb)
      | (K_u16, SV_u16 n) \<Rightarrow> err_or (mbuf_write_u16 al mb (htons n)) (\<lambda>mb. mbuf_write_u16 al mb 0)
      | (K_u32, SV_u32 n) \<Rightarrow> mbuf_write_u32 al mb (htonl n)
      | (K_data, SV_data d) \<Rightarrow> mbuf_write_mem al mb d
      | (K_data, SV_self) \<Rightarrow> (0, mb\<lparr>mb_pos := mb_end mb\<rparr>)
      | (K_u8, SV_u8 n) \<Rightarrow>
          err_or (err_or (mbuf_write_u8 al mb n) (\<lambda>mb. mbuf_write_u8 al mb 0)) (\<lambda>mb. mbuf_write_u16 al mb 0)
      | (K_even, SV_even r) \<Rightarrow> mbuf_write_u8 al mb (push_bit 7 (of_bool r))
      | (K_none, SV_none) \<Rightarrow> (0, mb)
      | (K_u64, SV_u64 n) \<Rightarrow> mbuf_write_u64 al mb (sys_htonll n)
      | (K_other, _) \<Rightarrow> (EINVAL, mb)
      | _ \<Rightarrow> (FAULT, mb))"

text \<open>The padding loop may not end when memory runs out: no result.\<close>

definition stun_attr_encode ::
  "alloc \<Rightarrow> mbuf \<Rightarrow> 16 word \<Rightarrow> stun_val \<Rightarrow> byte list option \<Rightarrow> byte \<Rightarrow> (errno \<times> mbuf) option" where
  "stun_attr_encode al mb ty v tid pad =
     (let start = szadd (mb_pos mb) 4;
          r = stun_value_encode al (mb\<lparr>mb_pos := start\<rparr>) ty v tid;
          len = szsub (mb_pos (snd r)) start;
          r1 = err_or r (\<lambda>mb. mbuf_write_u16 al (mb\<lparr>mb_pos := szsub start 4\<rparr>) (htons ty));
          r2 = err_or r1 (\<lambda>mb. mbuf_write_u16 al mb (htons (of_nat len)))
      in pad_loop al mb_pos pad start (fst r2, (snd r2)\<lparr>mb_pos := szadd (mb_pos (snd r2)) len\<rparr>))"

definition dec_strdup :: "alloc \<Rightarrow> nat \<Rightarrow> byte list dec" where
  "dec_strdup al n = (\<lambda>mb. case mbuf_strdup al mb n of (e, s, mb1) \<Rightarrow> (if e \<noteq> 0 then Inl e else Inr s, mb1))"

definition str_decode :: "alloc \<Rightarrow> nat \<Rightarrow> byte list dec" where
  "str_decode al len = dec_bind (dec_need len EBADMSG) (\<lambda>_. dec_strdup al len)"

definition stun_value_decode :: "alloc \<Rightarrow> byte list \<Rightarrow> 16 word \<Rightarrow> nat \<Rightarrow> stun_val dec" where
  "stun_value_decode al tid ty len =
     (case stun_attr_kind ty of
        K_addr \<Rightarrow> dec_bind (stun_addr_decode None) (\<lambda>a. dec_return (SV_sa a))
      | K_xaddr \<Rightarrow> dec_bind (stun_addr_decode (Some tid)) (\<lambda>a. dec_return (SV_sa a))
      | K_change \<Rightarrow>
          if len \<noteq> 4 then dec_fail EBADMSG
          else dec_bind get_be32 (\<lambda>n. dec_return (SV_change (drop_bit 2 n AND 1 \<noteq> 0) (drop_bit 1 n AND 1 \<noteq> 0)))
      | K_str \<Rightarrow> dec_bind (str_decode al len) (\<lambda>s. dec_return (SV_str s))
      | K_mi \<Rightarrow> if len \<noteq> 20 then dec_fail EBADMSG else dec_bind (get_mem 20) (\<lambda>m. dec_return (SV_mi m))
      | K_err \<Rightarrow>
          if len < 4 then dec_fail EBADMSG
          else dec_bind (dec_advance 2) (\<lambda>_. dec_bind get_u8 (\<lambda>c. dec_bind get_u8 (\<lambda>n.
               dec_bind (str_decode al (len - 4)) (\<lambda>s.
               dec_return (SV_err (ucast (c AND 7) * 100 + ucast n) s)))))
      | K_unknown \<Rightarrow> dec_bind (dec_many (len div 2) get_be16) (\<lambda>ts. dec_return (SV_unknown (take 8 ts)))
      | K_u16 \<Rightarrow> if len < 2 then dec_fail EBADMSG else dec_bind get_be16 (\<lambda>n. dec_return (SV_u16 n))
      | K_u32 \<Rightarrow> if len \<noteq> 4 then dec_fail EBADMSG else dec_bind get_be32 (\<lambda>n. dec_return (SV_u32 n))
      | K_data \<Rightarrow> dec_bind (dec_peek len) (\<lambda>d. dec_bind (dec_advance len) (\<lambda>_. dec_return (SV_data d)))
      | K_u8 \<Rightarrow> if len < 1 then dec_fail EBADMSG else dec_bind get_u8 (\<lambda>n. dec_return (SV_u8 n))
      | K_even \<Rightarrow> if len < 1 then dec_fail EBADMSG else dec_bind get_u8 (\<lambda>n. dec_return (SV_even (drop_bit 7 n AND 1 \<noteq> 0)))
      | K_none \<Rightarrow> if len > 0 then dec_fail EBADMSG else dec_return SV_none
      | K_u64 \<Rightarrow> if len \<noteq> 8 then dec_fail EBADMSG else dec_bind get_be64 (\<lambda>n. dec_return (SV_u64 n))
      | K_other \<Rightarrow> dec_bind (dec_advance len) (\<lambda>_. dec_return SV_none))"

text \<open>The types of attributes that were not understood but have to be; at most eight are kept.\<close>

definition ua_add :: "16 word \<Rightarrow> 16 word list option \<Rightarrow> 16 word list option" where
  "ua_add ty ua =
     (if stun_attr_kind ty = K_other \<and> ty < 0x8000
      then map_option (\<lambda>ts. if length ts < 8 then ts @ [ty] else ts) ua else ua)"

abbreviation (input) STUN_ATTR_SIZEOF :: nat where "STUN_ATTR_SIZEOF \<equiv> 160"

definition stun_attr_decode :: "alloc \<Rightarrow> byte list \<Rightarrow> 16 word list option \<Rightarrow> (stun_attr \<times> 16 word list option) dec" where
  "stun_attr_decode al tid ua =
     dec_bind (dec_need 4 EBADMSG) (\<lambda>_.
     dec_bind (dec_alloc al STUN_ATTR_SIZEOF) (\<lambda>_.
     dec_bind get_be16 (\<lambda>ty.
     dec_bind get_be16 (\<lambda>len.
     dec_bind (dec_need (unat len) EBADMSG) (\<lambda>_.
     dec_bind dec_pos (\<lambda>start.
     dec_bind (stun_value_decode al tid ty (unat len)) (\<lambda>v.
     dec_bind (dec_slurp start) (\<lambda>_.
     dec_return (\<lparr>sa_type = ty, sa_v = v\<rparr>, ua_add ty ua)))))))))"

section \<open>Messages\<close>

definition fingerprint :: "byte list \<Rightarrow> 32 word" where
  "fingerprint buf = re_crc32 0 buf XOR 0x5354554e"

text \<open>
  Attributes are decoded while four bytes of the declared length are left; the subtraction of the
  bytes behind the message wraps.  Every attribute takes four bytes at least, so the number of
  bytes left bounds the number of rounds.
\<close>

fun stun_attrs_decode ::
  "alloc \<Rightarrow> byte list \<Rightarrow> nat \<Rightarrow> nat \<Rightarrow> 16 word list option \<Rightarrow> stun_attr list \<Rightarrow> (stun_attr list \<times> 16 word list option) dec" where
  "stun_attrs_decode al tid extra 0 ua attrs = dec_fail FAULT"
| "stun_attrs_decode al tid extra (Suc fuel) ua attrs =
     dec_bind dec_left (\<lambda>left.
     if szsub left extra < 4 then dec_return (attrs, ua)
     else dec_bind (stun_attr_decode al tid ua) (\<lambda>(a, ua').
          stun_attrs_decode al tid extra fuel ua' (attrs @ [a])))"

abbreviation (input) STUN_MSG_SIZEOF :: nat where "STUN_MSG_SIZEOF \<equiv> 56"

definition stun_msg_decode :: "alloc \<Rightarrow> 16 word list option \<Rightarrow> mbuf \<Rightarrow> (errno + stun_msg \<times> 16 word list option) \<times> mbuf" where
  "stun_msg_decode al ua mb =
     (case dec_bind stun_hdr_decode (\<lambda>hdr.
           dec_bind (dec_alloc al STUN_MSG_SIZEOF) (\<lambda>_.
           dec_bind dec_left (\<lambda>left.
           let extra = left - unat (sh_len hdr)
           in dec_bind (stun_attrs_decode al (sh_tid hdr) extra (Suc left) (map_option (\<lambda>_. []) ua) []) (\<lambda>(attrs, ua').
              dec_return (hdr, attrs, ua'))))) mb of
        (Inl e, mb1) \<Rightarrow> (Inl e, mb1\<lparr>mb_pos := mb_pos mb\<rparr>)
      | (Inr (hdr, attrs, ua'), mb1) \<Rightarrow>
          let mb2 = mb1\<lparr>mb_pos := mb_pos mb\<rparr>
          in (Inr (\<lparr>sm_hdr = hdr, sm_attrl = attrs, sm_mb = mb2, sm_start = mb_pos mb\<rparr>, ua'), mb2))"

definition stun_msg_type :: "stun_msg \<Rightarrow> 16 word" where
  "stun_msg_type msg = sh_type (sm_hdr msg)"

definition stun_msg_class :: "stun_msg \<Rightarrow> 16 word" where
  "stun_msg_class msg = STUN_CLASS (stun_msg_type msg)"

definition stun_msg_method :: "stun_msg \<Rightarrow> 16 word" where
  "stun_msg_method msg = STUN_METHOD (stun_msg_type msg)"

definition stun_msg_mcookie :: "stun_msg \<Rightarrow> bool" where
  "stun_msg_mcookie msg \<longleftrightarrow> sh_cookie (sm_hdr msg) = STUN_MAGIC_COOKIE"

definition stun_msg_attr :: "stun_msg \<Rightarrow> 16 word \<Rightarrow> stun_attr option" where
  "stun_msg_attr msg ty = find (\<lambda>a. sa_type a = ty) (sm_attrl msg)"

definition stun_msg_attr_apply :: "stun_msg \<Rightarrow> (stun_attr \<Rightarrow> bool) \<Rightarrow> stun_attr option" where
  "stun_msg_attr_apply msg h = find h (sm_attrl msg)"

text \<open>Attributes without a value are skipped.\<close>

fun stun_attrs_encode ::
  "alloc \<Rightarrow> byte list \<Rightarrow> byte \<Rightarrow> (16 word \<times> stun_val option) list \<Rightarrow> errno \<times> mbuf \<Rightarrow> (errno \<times> mbuf) option" where
  "stun_attrs_encode al tid pad [] r = Some r"
| "stun_attrs_encode al tid pad ((ty, None) # as) r = stun_attrs_encode al tid pad as r"
| "stun_attrs_encode al tid pad ((ty, Some v) # as) r =
     Option.bind (stun_attr_encode al (snd r) ty v (Some tid) pad) (\<lambda>r1.
     stun_attrs_encode al tid pad as (fst r OR fst r1, snd r1))"

text \<open>The contents of the buffer from its position to its end.\<close>

definition mbuf_rest :: "mbuf \<Rightarrow> byte list option" where
  "mbuf_rest mb = mem_read (mb_buf mb) (mb_pos mb) (mbuf_get_left mb)"

text \<open>Adding the integrity attribute, and the fingerprint; \<open>start\<close> is where the message begins.\<close>

definition stun_add_mi ::
  "(byte list \<Rightarrow> byte list \<Rightarrow> byte list) \<Rightarrow> alloc \<Rightarrow> byte list \<Rightarrow> byte \<Rightarrow> nat \<Rightarrow> stun_hdr \<Rightarrow> errno \<times> mbuf \<Rightarrow> (errno \<times> mbuf) option" where
  "stun_add_mi hmac al key pad start hdr r =
     (let mb = (snd r)\<lparr>mb_pos := start\<rparr>
      in case mbuf_rest mb of
           None \<Rightarrow> Some (FAULT, mb)
         | Some bs \<Rightarrow>
             map_option (\<lambda>r1. (fst r OR fst r1, snd r1))
               (stun_attr_encode al (mb\<lparr>mb_pos := szsub (szadd start (20 + unat (sh_len hdr))) 24\<rparr>)
                  STUN_ATTR_MSG_INTEGRITY (SV_mi (hmac key bs)) None pad))"

definition stun_add_fp :: "alloc \<Rightarrow> byte \<Rightarrow> nat \<Rightarrow> stun_hdr \<Rightarrow> errno \<times> mbuf \<Rightarrow> (errno \<times> mbuf) option" where
  "stun_add_fp al pad start hdr r =
     (let hdr1 = hdr\<lparr>sh_len := of_nat (szadd (szsub (szsub (mb_pos (snd r)) start) 20) 8)\<rparr>;
          r1 = err_or r (\<lambda>mb. stun_hdr_encode al (mb\<lparr>mb_pos := start\<rparr>) hdr1);
          mb = (snd r1)\<lparr>mb_pos := start\<rparr>
      in case mbuf_rest mb of
           None \<Rightarrow> Some (FAULT, mb)
         | Some bs \<Rightarrow>
             map_option (\<lambda>r2. (fst r1 OR fst r2, snd r2))
               (stun_attr_encode al (mb\<lparr>mb_pos := szsub (szadd start (20 + unat (sh_len hdr1))) 8\<rparr>)
                  STUN_ATTR_FINGERPRINT (SV_u32 (fingerprint bs)) None pad))"

definition stun_msg_vencode ::
  "(byte list \<Rightarrow> byte list \<Rightarrow> byte list) \<Rightarrow> alloc \<Rightarrow> mbuf \<Rightarrow> 16 word \<Rightarrow> byte \<Rightarrow> byte list \<Rightarrow> (16 word \<times> byte list) option \<Rightarrow>
   byte list option \<Rightarrow> bool \<Rightarrow> byte \<Rightarrow> (16 word \<times> stun_val option) list \<Rightarrow> (errno \<times> mbuf) option" where
  "stun_msg_vencode hmac al mb method cls tid ec key fp pad as =
     (let start = mb_pos mb;
          mb0 = mb\<lparr>mb_pos := szadd start 20\<rparr>
      in Option.bind
           (case ec of None \<Rightarrow> Some (0, mb0)
            | Some (code, reason) \<Rightarrow> stun_attr_encode al mb0 STUN_ATTR_ERR_CODE (SV_err code reason) None pad) (\<lambda>r0.
         Option.bind (stun_attrs_encode al tid pad as r0) (\<lambda>r1.
         let len = szadd (szsub (szsub (mb_pos (snd r1)) start) 20) (if key \<noteq> None then 24 else 0);
             hdr = \<lparr>sh_type = STUN_TYPE method cls, sh_len = of_nat len, sh_cookie = STUN_MAGIC_COOKIE, sh_tid = tid\<rparr>;
             r2 = err_or r1 (\<lambda>mb. stun_hdr_encode al (mb\<lparr>mb_pos := start\<rparr>) hdr);
             r3 = (fst r2, (snd r2)\<lparr>mb_pos := szsub (szadd (mb_pos (snd r2)) (unat (sh_len hdr))) (if key \<noteq> None then 24 else 0)\<rparr>)
         in Option.bind (case key of None \<Rightarrow> Some r3 | Some k \<Rightarrow> stun_add_mi hmac al k pad start hdr r3) (\<lambda>r4.
            if fp then stun_add_fp al pad start hdr r4 else Some r4))))"

section \<open>Checks\<close>

text \<open>
  The length that is read is an \<^verbatim>\<open>int\<close> converted to \<^verbatim>\<open>size_t\<close>; a negative one, and one that reaches
  outside of the memory block, is a fault.
\<close>

definition stun_read :: "mbuf \<Rightarrow> int \<Rightarrow> byte list option" where
  "stun_read mb n = (if n < 0 then None else mem_read (mb_buf mb) (mb_pos mb) (nat n))"

text \<open>With a fingerprint behind it the header is rewritten for the computation, and restored.\<close>

definition stun_hdr_adjust :: "alloc \<Rightarrow> 16 word \<Rightarrow> stun_msg \<Rightarrow> stun_msg" where
  "stun_hdr_adjust al d msg =
     (let hdr = (sm_hdr msg)\<lparr>sh_len := sh_len (sm_hdr msg) + d\<rparr>;
          mb = snd (stun_hdr_encode al (sm_mb msg) hdr)
      in msg\<lparr>sm_hdr := hdr, sm_mb := mb\<lparr>mb_pos := szsub (mb_pos mb) 20\<rparr>\<rparr>)"

definition stun_msg_chk_mi ::
  "(byte list \<Rightarrow> byte list \<Rightarrow> byte list) \<Rightarrow> alloc \<Rightarrow> byte list \<Rightarrow> stun_msg \<Rightarrow> errno \<times> stun_msg" where
  "stun_msg_chk_mi hmac al key msg =
     (case stun_msg_attr msg STUN_ATTR_MSG_INTEGRITY of
        None \<Rightarrow> (EPROTO, msg)
      | Some mi \<Rightarrow>
          let msg0 = msg\<lparr>sm_mb := (sm_mb msg)\<lparr>mb_pos := sm_start msg\<rparr>\<rparr>;
              fp = (stun_msg_attr msg STUN_ATTR_FINGERPRINT \<noteq> None);
              msg1 = (if fp then stun_hdr_adjust al (- 8) msg0 else msg0)
          in case stun_read (sm_mb msg1) (20 + uint (sh_len (sm_hdr msg1)) - 24) of
               None \<Rightarrow> (FAULT, msg1)
             | Some bs \<Rightarrow>
                 let msg2 = (if fp then stun_hdr_adjust al 8 msg1 else msg1)
                 in (if sa_v mi \<noteq> SV_mi (hmac key bs) then EBADMSG else 0, msg2))"

definition stun_msg_chk_fingerprint :: "stun_msg \<Rightarrow> errno \<times> stun_msg" where
  "stun_msg_chk_fingerprint msg =
     (case stun_msg_attr msg STUN_ATTR_FINGERPRINT of
        None \<Rightarrow> (EPROTO, msg)
      | Some fp \<Rightarrow>
          let msg0 = msg\<lparr>sm_mb := (sm_mb msg)\<lparr>mb_pos := sm_start msg\<rparr>\<rparr>
          in case stun_read (sm_mb msg0) (20 + uint (sh_len (sm_hdr msg0)) - 8) of
               None \<Rightarrow> (FAULT, msg0)
             | Some bs \<Rightarrow> (if sa_v fp \<noteq> SV_u32 (fingerprint bs) then EBADMSG else 0, msg0))"

end
