(* ===== verification/Stun_Safety.thy ===== *)
theory Stun_Safety
  imports Stun "HOL-Library.Code_Target_Numeral"
begin

text \<open>
  What the STUN decoder promises for any datagram: it stays inside the data, every attribute has a
  value of the member that belongs to its type, the attributes fit into the declared length, and
  the checks that run on a decoded message stay inside the buffer and leave it as it was.
\<close>

section \<open>Safety\<close>

lemma stun_hdr_decode_safe [safe_intros]: "dec_safe stun_hdr_decode"
  by (auto simp: stun_hdr_decode_def intro!: safe_intros)

lemma stun_addr_decode_safe [safe_intros]: "dec_safe (stun_addr_decode tid)"
  by (auto simp: stun_addr_decode_def Let_def intro!: safe_intros)

lemma dec_safe_strdup [safe_intros]: "dec_safe (dec_strdup al n)"
  by (rule dec_safeI)
     (auto simp: dec_strdup_def mbuf_strdup_def mbuf_read_mem_readable intro!: mb_adv_ex_0 intro: exI [of _ n]
           split: option.splits if_splits)

lemma str_decode_safe [safe_intros]: "dec_safe (str_decode al len)"
  by (auto simp: str_decode_def intro!: safe_intros)

lemma stun_value_decode_safe:
  assumes "readable mb" "len \<le> length (mb_left mb)"
  shows "dec_safe_at (stun_value_decode al tid ty len) mb"
proof (cases "stun_attr_kind ty")
  case K_err
  have "dec_safe (dec_bind get_u8 (\<lambda>c. dec_bind get_u8 (\<lambda>n. dec_bind (str_decode al (len - 4)) (\<lambda>s.
      dec_return (SV_err (ucast (c AND 7) * 100 + ucast n) s)))))"
    by (auto intro!: safe_intros)
  then show ?thesis using assms K_err
    by (auto simp: stun_value_decode_def intro!: dec_safe_at_basic dec_safe_at_advance_bind dest: dec_safe_at)
next
  case K_data
  then show ?thesis using assms
    by (auto simp: stun_value_decode_def intro!: dec_safe_at_peek dec_safe_at_advance_bind dec_safe_at_basic)
next
  case K_other
  then show ?thesis using assms by (auto simp: stun_value_decode_def intro!: dec_safe_at_advance_bind dec_safe_at_basic)
qed (auto simp: stun_value_decode_def intro!: safe_intros dec_safe_at [OF _ assms(1)])

lemma stun_attr_decode_safe [safe_intros]: "dec_safe (stun_attr_decode al tid ua)"
  unfolding stun_attr_decode_def
  by (rule dec_safe_atI)
     (auto intro!: safe_at_intros dec_safe_at_bind [OF _ stun_value_decode_safe] dec_safe_at_bind [OF _ dec_safe_at [OF dec_safe_slurp]])

section \<open>Types\<close>

text \<open>The values that belong to a group of attribute types.\<close>

definition val_typed :: "stun_kind \<Rightarrow> stun_val \<Rightarrow> bool" where
  "val_typed k v =
     (case v of
        SV_sa a \<Rightarrow> (k = K_addr \<or> k = K_xaddr) \<and> sa_wf a \<and> (sa_family a = AF_INET \<or> sa_family a = AF_INET6)
      | SV_change ip port \<Rightarrow> k = K_change
      | SV_str s \<Rightarrow> k = K_str \<and> length s < 65536
      | SV_mi m \<Rightarrow> k = K_mi \<and> length m = 20
      | SV_err code reason \<Rightarrow> k = K_err \<and> code < 1000 \<and> length reason < 65536
      | SV_unknown ts \<Rightarrow> k = K_unknown \<and> length ts \<le> 8
      | SV_u16 n \<Rightarrow> k = K_u16
      | SV_u32 n \<Rightarrow> k = K_u32
      | SV_u64 n \<Rightarrow> k = K_u64
      | SV_u8 n \<Rightarrow> k = K_u8
      | SV_data d \<Rightarrow> k = K_data \<and> length d < 65536
      | SV_self \<Rightarrow> False
      | SV_even r \<Rightarrow> k = K_even
      | SV_none \<Rightarrow> k = K_none \<or> k = K_other)"

definition attr_typed :: "stun_attr \<Rightarrow> bool" where
  "attr_typed a \<longleftrightarrow> val_typed (stun_attr_kind (sa_type a)) (sa_v a)"

lemma dec_strdup_length: "readable mb \<Longrightarrow> dec_strdup al n mb = (Inr bs, mb1) \<Longrightarrow> length bs = n"
  by (auto simp: dec_strdup_def mbuf_strdup_def mbuf_read_mem_readable split: if_splits option.splits)

lemma dec_peek_length: "dec_peek n mb = (Inr bs, mb1) \<Longrightarrow> length bs = n"
  by (auto simp: dec_peek_def mem_read_def split: option.splits if_splits)

text \<open>A decoder that succeeds leaves a buffer that can be read.\<close>

lemma dec_safe_Inr:
  assumes "dec_safe_at d mb" "readable mb" "d mb = (Inr x, mb1)"
  shows "\<exists>n \<le> length (mb_left mb). mb1 = mb_adv mb n \<and> readable mb1"
  using assms readable_adv by (auto simp: dec_safe_at_def)

lemma dec_readable:
  assumes "dec_safe d" "readable mb" "d mb = (Inr x, mb1)"
  shows "readable mb1"
  using dec_safe_Inr [OF dec_safe_at [OF assms(1,2)] assms(2,3)] by auto

lemma in6_xor_length: "length a = 16 \<Longrightarrow> length t = 12 \<Longrightarrow> length (in6_xor_tid a t) = 16"
  by (simp add: in6_xor_tid_def)

lemma sa_set_in6_typed: "sa_wf (sa_set_in6 a p)" by (rule sa_set_wf)

lemma stun_addr_decode_typed:
  "stun_addr_decode tid mb = (Inr a, mb1) \<Longrightarrow> sa_wf a \<and> (sa_family a = AF_INET \<or> sa_family a = AF_INET6)"
  by (auto simp: stun_addr_decode_def Let_def dec_bind_Inr dec_return_def dec_fail_def sa_set_wf split: if_splits)

lemma err_code_bound: "(ucast ((c :: byte) AND 7) * 100 + ucast (n :: byte) :: 16 word) < 1000"
proof -
  have "c AND 7 \<le> 7" by (rule word_and_le1)
  then have c: "unat (c AND 7) \<le> 7" by (simp add: word_le_nat_alt)
  have n: "unat n < 256" using unsigned_less [of n] by simp
  have "unat (ucast (c AND 7) * 100 + ucast n :: 16 word) = unat (c AND 7) * 100 + unat n"
    using c n by (simp add: unat_word_ariths unsigned_ucast_eq take_bit_nat_eq_self)
  then show ?thesis using c n by (simp add: word_less_nat_alt)
qed

lemma str_decode_length: "readable mb \<Longrightarrow> str_decode al n mb = (Inr s, mb1) \<Longrightarrow> length s = n"
  by (auto simp: str_decode_def dec_bind_Inr dec_need_def dest: dec_strdup_length split: if_splits)

lemma stun_value_decode_typed:
  assumes "readable mb" "len < 65536" "stun_value_decode al tid ty len mb = (Inr v, mb1)"
  shows "val_typed (stun_attr_kind ty) v"
proof (cases "stun_attr_kind ty")
  case K_err
  have "\<exists>s (c :: byte) (n :: byte) mb2 mb3. v = SV_err (ucast (c AND 7) * 100 + ucast n) s \<and> str_decode al (len - 4) mb2 = (Inr s, mb3)"
    using assms(3) K_err by (auto simp: stun_value_decode_def dec_bind_Inr dec_return_def dec_fail_def split: if_splits)
  then obtain s and c n :: byte and mb2 mb3 where v: "v = SV_err (ucast (c AND 7) * 100 + ucast n) s" "str_decode al (len - 4) mb2 = (Inr s, mb3)"
    by blast
  then have "length s = len - 4 \<or> length s = 0"
    by (auto simp: str_decode_def dec_bind_Inr dec_strdup_def mbuf_strdup_def mbuf_read_mem_def mem_read_def split: option.splits if_splits)
  then show ?thesis using K_err v err_code_bound assms(2) by (auto simp: val_typed_def)
next
  case K_str
  then have "\<exists>s mb2. v = SV_str s \<and> str_decode al len mb = (Inr s, mb2)"
    using assms(3) by (auto simp: stun_value_decode_def dec_bind_Inr dec_return_def)
  then obtain s mb2 where s: "v = SV_str s" "str_decode al len mb = (Inr s, mb2)" by blast
  show ?thesis using K_str s(1) str_decode_length [OF assms(1) s(2)] assms(2) by (simp add: val_typed_def)
next
  case K_mi
  then have "\<exists>m mb2. v = SV_mi m \<and> get_mem 20 mb = (Inr m, mb2)"
    using assms(3) by (auto simp: stun_value_decode_def dec_bind_Inr dec_return_def dec_fail_def split: if_splits)
  then obtain m mb2 where m: "v = SV_mi m" "get_mem 20 mb = (Inr m, mb2)" by blast
  show ?thesis using K_mi m(1) get_mem_length [OF assms(1) m(2)] by (simp add: val_typed_def)
next
  case K_data
  then have "\<exists>d mb2. v = SV_data d \<and> dec_peek len mb = (Inr d, mb2)"
    using assms(3) by (auto simp: stun_value_decode_def dec_bind_Inr dec_return_def)
  then obtain d mb2 where d: "v = SV_data d" "dec_peek len mb = (Inr d, mb2)" by blast
  show ?thesis using K_data d(1) dec_peek_length [OF d(2)] assms(2) by (simp add: val_typed_def)
next
  case K_addr
  then have "\<exists>a mb2. v = SV_sa a \<and> stun_addr_decode None mb = (Inr a, mb2)"
    using assms(3) by (auto simp: stun_value_decode_def dec_bind_Inr dec_return_def)
  then obtain a mb2 where a: "v = SV_sa a" "stun_addr_decode None mb = (Inr a, mb2)" by blast
  show ?thesis using K_addr a(1) stun_addr_decode_typed [OF a(2)] by (simp add: val_typed_def)
next
  case K_xaddr
  then have "\<exists>a mb2. v = SV_sa a \<and> stun_addr_decode (Some tid) mb = (Inr a, mb2)"
    using assms(3) by (auto simp: stun_value_decode_def dec_bind_Inr dec_return_def)
  then obtain a mb2 where a: "v = SV_sa a" "stun_addr_decode (Some tid) mb = (Inr a, mb2)" by blast
  show ?thesis using K_xaddr a(1) stun_addr_decode_typed [OF a(2)] by (simp add: val_typed_def)
next
  case K_change
  then show ?thesis using assms(3)
    by (auto simp: stun_value_decode_def val_typed_def dec_bind_Inr dec_return_def dec_fail_def split: if_splits)
next
  case K_unknown
  then show ?thesis using assms(3)
    by (auto simp: stun_value_decode_def val_typed_def dec_bind_Inr dec_return_def dec_fail_def split: if_splits)
next
  case K_u16
  then show ?thesis using assms(3)
    by (auto simp: stun_value_decode_def val_typed_def dec_bind_Inr dec_return_def dec_fail_def split: if_splits)
next
  case K_u32
  then show ?thesis using assms(3)
    by (auto simp: stun_value_decode_def val_typed_def dec_bind_Inr dec_return_def dec_fail_def split: if_splits)
next
  case K_u8
  then show ?thesis using assms(3)
    by (auto simp: stun_value_decode_def val_typed_def dec_bind_Inr dec_return_def dec_fail_def split: if_splits)
next
  case K_even
  then show ?thesis using assms(3)
    by (auto simp: stun_value_decode_def val_typed_def dec_bind_Inr dec_return_def dec_fail_def split: if_splits)
next
  case K_none
  then show ?thesis using assms(3)
    by (auto simp: stun_value_decode_def val_typed_def dec_bind_Inr dec_return_def dec_fail_def split: if_splits)
next
  case K_u64
  then show ?thesis using assms(3)
    by (auto simp: stun_value_decode_def val_typed_def dec_bind_Inr dec_return_def dec_fail_def split: if_splits)
next
  case K_other
  then show ?thesis using assms(3)
    by (auto simp: stun_value_decode_def val_typed_def dec_bind_Inr dec_return_def dec_fail_def split: if_splits)
qed

text \<open>The bytes that an attribute takes at least.\<close>

definition attr_min :: "stun_attr \<Rightarrow> nat" where
  "attr_min a =
     (if sa_type a = STUN_ATTR_MSG_INTEGRITY then 24 else if sa_type a = STUN_ATTR_FINGERPRINT then 8 else 4)"

lemma stun_value_size:
  assumes "readable mb" "len \<le> length (mb_left mb)" "stun_value_decode al tid ty len mb = (Inr v, mb1)"
  shows "ty = STUN_ATTR_MSG_INTEGRITY \<Longrightarrow> mb1 = mb_adv mb 20" "ty = STUN_ATTR_FINGERPRINT \<Longrightarrow> mb1 = mb_adv mb 4"
proof -
  show "mb1 = mb_adv mb 20" if "ty = STUN_ATTR_MSG_INTEGRITY"
    using that assms get_mem_length [OF assms(1)]
    by (auto simp: stun_value_decode_def stun_attr_kind_def dec_bind_Inr dec_return_def dec_fail_def split: if_splits)
  show "mb1 = mb_adv mb 4" if "ty = STUN_ATTR_FINGERPRINT"
    using that assms get_adv(3) [OF assms(1)]
    by (auto simp: stun_value_decode_def stun_attr_kind_def dec_bind_Inr dec_return_def dec_fail_def split: if_splits)
qed

lemma mb_adv_inj: "mb_adv mb n = mb_adv mb m \<Longrightarrow> n = m"
  by (drule arg_cong [where f = mb_pos]) simp

lemma stun_attr_decode_step:
  assumes "readable mb" "stun_attr_decode al tid ua mb = (Inr (a, ua'), mb1)"
  shows "attr_typed a \<and> ua' = ua_add (sa_type a) ua \<and> (\<exists>n \<le> length (mb_left mb). mb1 = mb_adv mb n \<and> attr_min a \<le> n)"
proof -
  obtain n where n: "n \<le> length (mb_left mb)" "mb1 = mb_adv mb n"
    using dec_safe_Inr [OF dec_safe_at [OF stun_attr_decode_safe assms(1)] assms] by blast
  obtain ty len mba mbb v mb2 where g: "get_be16 mb = (Inr ty, mba)" "get_be16 mba = (Inr len, mbb)" "4 \<le> mbuf_get_left mb"
    and d0: "unat len \<le> mbuf_get_left mbb" "a = \<lparr>sa_type = ty, sa_v = v\<rparr>" and u: "ua' = ua_add ty ua"
    and v0: "stun_value_decode al tid ty (unat len) mbb = (Inr v, mb2)" "mb1 = slurp (mb_pos mbb) mb2"
    using assms(2) unfolding stun_attr_decode_def dec_bind_Inr dec_need_Inr dec_alloc_Inr dec_pos_Inr dec_slurp_Inr dec_return_Inr
    by blast
  have 4: "4 \<le> length (mb_left mb)" using g(3) mbuf_get_left_len [OF readable_wf [OF assms(1)]] by simp
  have r2: "readable (mb_adv mb 2)" "readable (mb_adv mb 4)" using readable_adv [OF assms(1)] 4 by auto
  have "mba = mb_adv mb 2" using get_adv(2) [OF assms(1)] 4 g(1) by simp
  then have b: "mbb = mb_adv mb 4" using get_adv(2) [OF r2(1)] 4 g(2) by simp
  have d: "unat len \<le> length (mb_left (mb_adv mb 4))" "a = \<lparr>sa_type = ty, sa_v = v\<rparr>"
    using d0 b mbuf_get_left_len [OF readable_wf [OF r2(2)]] by simp_all
  have v: "stun_value_decode al tid ty (unat len) (mb_adv mb 4) = (Inr v, mb2)" "mb1 = slurp (mb_pos mb + 4) mb2"
    using v0 b by simp_all
  have "unat len < 65536" using unsigned_less [of len] by simp
  from stun_value_decode_typed [OF r2(2) this v(1)] have t: "attr_typed a" using d(2) by (simp add: attr_typed_def)
  obtain k where k: "k \<le> length (mb_left (mb_adv mb 4))" "mb2 = mb_adv mb (4 + k)" "readable mb2"
    using dec_safe_Inr [OF stun_value_decode_safe [OF r2(2) d(1)] r2(2) v(1)] by auto
  obtain j where j: "mb1 = mb_adv mb (4 + k + j)" using slurp_adv [OF k(3)] v(2) k(2) by auto
  then have "n = 4 + k + j" using n(2) mb_adv_inj by blast
  moreover have "attr_min a \<le> 4 + k"
  proof -
    have e: "k = m" if "mb2 = mb_adv (mb_adv mb 4) m" for m
      using that k(2) mb_adv_inj [of mb "4 + k" "4 + m"] by simp
    have 1: "k = 20" if "ty = STUN_ATTR_MSG_INTEGRITY" by (rule e) (rule stun_value_size(1) [OF r2(2) d(1) v(1) that])
    have 2: "k = 4" if "ty = STUN_ATTR_FINGERPRINT" by (rule e) (rule stun_value_size(2) [OF r2(2) d(1) v(1) that])
    have ty: "sa_type a = ty" using d(2) by simp
    show ?thesis using 1 2 unfolding attr_min_def ty by simp
  qed
  ultimately show ?thesis using n t u d(2) by auto
qed

lemma stun_attrs_decode_step:
  assumes "readable mb" "length (mb_left mb) < fuel"
  shows "dec_safe_at (stun_attrs_decode al tid extra fuel ua attrs) mb \<and>
    (\<forall>as ua' mb1. stun_attrs_decode al tid extra fuel ua attrs mb = (Inr (as, ua'), mb1) \<longrightarrow>
       (\<exists>new n. as = attrs @ new \<and> ua' = fold (ua_add \<circ> sa_type) new ua \<and> (\<forall>a \<in> set new. attr_typed a) \<and> n \<le> length (mb_left mb) \<and> mb1 = mb_adv mb n \<and>
          sum_list (map attr_min new) \<le> n \<and> szsub (length (mb_left mb) - n) extra < 4))"
  using assms
proof (induction fuel arbitrary: mb ua attrs)
  case (Suc fuel)
  let ?left = "length (mb_left mb)"
  have l: "mbuf_get_left mb = ?left" using Suc.prems(1) by (simp add: mbuf_get_left_len [OF readable_wf])
  show ?case
  proof (cases "szsub ?left extra < 4")
    case True
    then show ?thesis using l mb_adv_ex_0 [of mb]
      by (auto simp: dec_bind_def dec_left_def dec_return_def dec_safe_at_def intro!: exI [of _ 0])
  next
    case False
    obtain r mb1 where d: "stun_attr_decode al tid ua mb = (r, mb1)" by fastforce
    have s: "dec_safe_at (stun_attr_decode al tid ua) mb" by (rule dec_safe_at [OF stun_attr_decode_safe Suc.prems(1)])
    show ?thesis
    proof (cases r)
      case (Inl e)
      then show ?thesis using s d False l by (auto simp: dec_bind_def dec_left_def dec_safe_at_def)
    next
      case (Inr x)
      obtain a ua' where x: "x = (a, ua')" by fastforce
      obtain n where n: "attr_typed a" "ua' = ua_add (sa_type a) ua" "n \<le> ?left" "mb1 = mb_adv mb n" "attr_min a \<le> n"
        using stun_attr_decode_step [OF Suc.prems(1)] d Inr x by blast
      then have r1: "readable mb1" "length (mb_left mb1) < fuel" "length (mb_left mb1) = ?left - n"
        using readable_adv [OF Suc.prems(1) n(3)] Suc.prems(2) by (auto simp: attr_min_def split: if_splits)
      have eq: "stun_attrs_decode al tid extra (Suc fuel) ua attrs mb = stun_attrs_decode al tid extra fuel ua' (attrs @ [a]) mb1"
        using False l d Inr x by (simp add: dec_bind_def dec_left_def)
      note IH = Suc.IH [OF r1(1,2), of ua' "attrs @ [a]"]
      obtain m where "m \<le> length (mb_left mb1)" "snd (stun_attrs_decode al tid extra fuel ua' (attrs @ [a]) mb1) = mb_adv mb1 m"
        "fst (stun_attrs_decode al tid extra fuel ua' (attrs @ [a]) mb1) \<noteq> Inl FAULT"
        using IH by (auto simp: dec_safe_at_def)
      then have "dec_safe_at (stun_attrs_decode al tid extra (Suc fuel) ua attrs) mb"
        unfolding dec_safe_at_def eq using r1(3) n(3,4) by (intro conjI exI [of _ "n + m"]) auto
      moreover have "\<exists>new n'. as = attrs @ new \<and> ua'' = fold (ua_add \<circ> sa_type) new ua \<and> (\<forall>a \<in> set new. attr_typed a) \<and> n' \<le> ?left \<and> mb2 = mb_adv mb n' \<and>
          sum_list (map attr_min new) \<le> n' \<and> szsub (?left - n') extra < 4"
        if h: "stun_attrs_decode al tid extra (Suc fuel) ua attrs mb = (Inr (as, ua''), mb2)" for as ua'' mb2
      proof -
        obtain new m where m: "as = (attrs @ [a]) @ new" "ua'' = fold (ua_add \<circ> sa_type) new ua'" "\<forall>a \<in> set new. attr_typed a" "m \<le> length (mb_left mb1)" "mb2 = mb_adv mb1 m"
          "sum_list (map attr_min new) \<le> m" "szsub (length (mb_left mb1) - m) extra < 4"
          using IH [THEN conjunct2, rule_format, of as ua'' mb2, OF h [unfolded eq]] by blast
        then show ?thesis using n r1(3) by (intro exI [of _ "a # new"] exI [of _ "n + m"]) auto
      qed
      ultimately show ?thesis by blast
    qed
  qed
qed simp


section \<open>Reading back\<close>

text \<open>What was read is what was there, in network byte order.\<close>

lemma le16_unle16: "length bs = 2 \<Longrightarrow> le16 (unle16 bs) = bs"
  by (auto simp: le16_def unle16_def bit_simps not_bit_beyond numeral_2_eq_2 length_Suc_conv intro!: bit_word_eqI)

lemma le32_unle32: "length bs = 4 \<Longrightarrow> le32 (unle32 bs) = bs"
proof -
  assume l: "length bs = 4"
  have "ucast (unle32 bs) = unle16 (take 2 bs)" "ucast (drop_bit 16 (unle32 bs)) = unle16 (drop 2 bs)"
    by (auto simp: unle32_def bit_simps not_bit_beyond intro!: bit_word_eqI)
  then show ?thesis using l by (simp add: le32_def le16_unle16)
qed

lemma get_be16_take: "readable mb \<Longrightarrow> 2 \<le> length (mb_left mb) \<Longrightarrow> get_be16 mb = (Inr v, mb1) \<Longrightarrow> take 2 (mb_left mb) = be16 v"
  by (auto simp: get_be16_def mbuf_read_left [OF readable_wf] le16_unle16 simp flip: le16_htons)

lemma get_be32_take: "readable mb \<Longrightarrow> 4 \<le> length (mb_left mb) \<Longrightarrow> get_be32 mb = (Inr v, mb1) \<Longrightarrow> take 4 (mb_left mb) = be32 v"
  by (auto simp: get_be32_def mbuf_read_left [OF readable_wf] le32_unle32 simp flip: le32_htonl)

lemma get_mem_take: "readable mb \<Longrightarrow> get_mem n mb = (Inr bs, mb1) \<Longrightarrow> take n (mb_left mb) = bs"
  by (auto simp: get_mem_def mbuf_read_mem_readable split: if_splits)

definition hdr_wire :: "stun_hdr \<Rightarrow> byte list" where
  "hdr_wire hdr = be16 (sh_type hdr) @ be16 (sh_len hdr) @ be32 (sh_cookie hdr) @ sh_tid hdr"

definition hdr_typed :: "stun_hdr \<Rightarrow> bool" where
  "hdr_typed hdr \<longleftrightarrow> sh_type hdr AND 0xc000 = 0 \<and> sh_len hdr AND 3 = 0 \<and> length (sh_tid hdr) = 12"

lemma hdr_wire_length: "hdr_typed hdr \<Longrightarrow> length (hdr_wire hdr) = 20"
  by (simp add: hdr_wire_def hdr_typed_def)

lemma take_parts: "take n xs = as \<Longrightarrow> take m (drop n xs) = bs \<Longrightarrow> take (n + m) xs = as @ bs"
  by (simp add: take_add)

lemma stun_hdr_decode_step:
  assumes "readable mb" "stun_hdr_decode mb = (Inr hdr, mb1)"
  shows "hdr_typed hdr \<and> take 20 (mb_left mb) = hdr_wire hdr \<and> mb1 = mb_adv mb 20 \<and> 20 + unat (sh_len hdr) \<le> length (mb_left mb)"
proof -
  obtain ty ma len mc cookie md tid me where 0: "20 \<le> mbuf_get_left mb"
    and g: "get_be16 mb = (Inr ty, ma)" "get_be16 ma = (Inr len, mc)" "get_be32 mc = (Inr cookie, md)" "get_mem 12 md = (Inr tid, me)"
    and c: "ty AND 0xc000 = 0" "len AND 3 = 0" "unat len \<le> mbuf_get_left me" "mb1 = me"
    and h: "hdr = \<lparr>sh_type = ty, sh_len = len, sh_cookie = cookie, sh_tid = tid\<rparr>"
    using assms(2) by (auto simp: stun_hdr_decode_def dec_bind_Inr dec_need_Inr dec_return_Inr dec_fail_def split: if_splits)
  have l: "20 \<le> length (mb_left mb)" using 0 mbuf_get_left_len [OF readable_wf [OF assms(1)]] by simp
  have r: "readable (mb_adv mb 2)" "readable (mb_adv mb 4)" "readable (mb_adv mb 8)" "readable (mb_adv mb 20)"
    using readable_adv [OF assms(1)] l by auto
  have m: "ma = mb_adv mb 2" using get_adv(2) [OF assms(1)] l g(1) by simp
  then have mc: "mc = mb_adv mb 4" using get_adv(2) [OF r(1)] l g(2) by simp
  then have md: "md = mb_adv mb 8" using get_adv(3) [OF r(2)] l g(3) by simp
  then have me: "me = mb_adv mb 20" "length tid = 12" using get_mem_length [of md 12] r(3) g(4) by auto
  have "take 2 (mb_left mb) = be16 ty" using get_be16_take [OF assms(1) _ g(1)] l by simp
  moreover have "take 2 (drop 2 (mb_left mb)) = be16 len" using get_be16_take [OF r(1) _ g(2) [unfolded m]] l by simp
  ultimately have "take (2 + 2) (mb_left mb) = be16 ty @ be16 len" by (rule take_parts)
  moreover have "take 4 (drop (2 + 2) (mb_left mb)) = be32 cookie" using get_be32_take [OF r(2) _ g(3) [unfolded mc]] l by simp
  ultimately have "take ((2 + 2) + 4) (mb_left mb) = (be16 ty @ be16 len) @ be32 cookie" by (rule take_parts)
  moreover have "take 12 (drop ((2 + 2) + 4) (mb_left mb)) = tid" using get_mem_take [OF r(3) g(4) [unfolded md]] by simp
  ultimately have "take (((2 + 2) + 4) + 12) (mb_left mb) = ((be16 ty @ be16 len) @ be32 cookie) @ tid" by (rule take_parts)
  then show ?thesis using c h me mbuf_get_left_len [OF readable_wf [OF r(4)]] l by (simp add: hdr_wire_def hdr_typed_def)
qed

section \<open>The whole message\<close>

text \<open>Once the loop has run past the declared length the subtraction wraps and it cannot end there any more.\<close>

lemma szsub_small: "szsub a b < 4 \<Longrightarrow> a < 2 ^ 63 \<Longrightarrow> b < 2 ^ 63 \<Longrightarrow> b \<le> a"
  by (rule ccontr) (auto simp: szsub_def)

lemma left_bound: "mbuf_wf mb \<Longrightarrow> length (mb_left mb) < 2 ^ 63"
  by (auto simp: mb_left_def mbuf_wf_def MEM_SIZE_MAX_def)

text \<open>The list of unknown types: the first eight of those that have to be understood.\<close>

definition ua_types :: "stun_attr list \<Rightarrow> 16 word list" where
  "ua_types as = take 8 (filter (\<lambda>t. stun_attr_kind t = K_other \<and> t < 0x8000) (map sa_type as))"

lemma ua_add_fold: "length ts \<le> 8 \<Longrightarrow>
  fold (ua_add \<circ> sa_type) as (Some ts) = Some (take 8 (ts @ filter (\<lambda>t. stun_attr_kind t = K_other \<and> t < 0x8000) (map sa_type as)))"
  by (induction as arbitrary: ts) (auto simp: ua_add_def take_Cons')

lemma ua_add_None: "fold (ua_add \<circ> sa_type) as None = None"
  by (induction as) (auto simp: ua_add_def)

definition msg_typed :: "stun_msg \<Rightarrow> bool" where
  "msg_typed msg \<longleftrightarrow>
     hdr_typed (sm_hdr msg) \<and> readable (sm_mb msg) \<and> sm_start msg = mb_pos (sm_mb msg) \<and>
     take 20 (mb_left (sm_mb msg)) = hdr_wire (sm_hdr msg) \<and>
     20 + unat (sh_len (sm_hdr msg)) \<le> length (mb_left (sm_mb msg)) \<and>
     list_all attr_typed (sm_attrl msg) \<and> sum_list (map attr_min (sm_attrl msg)) \<le> unat (sh_len (sm_hdr msg))"

lemma mb_adv_reset [simp]: "(mb_adv mb n)\<lparr>mb_pos := mb_pos mb\<rparr> = mb"
  by (simp add: mb_adv_def)

lemma stun_body_decode:
  assumes "readable mb" "hdr_typed hdr" "20 + unat (sh_len hdr) \<le> length (mb_left mb)"
    "take 20 (mb_left mb) = hdr_wire hdr" "extra = length (mb_left mb) - 20 - unat (sh_len hdr)"
    "stun_attrs_decode al tid extra (Suc (length (mb_left mb) - 20)) ua [] (mb_adv mb 20) = (r, mb1)"
  shows "\<exists>n. mb1 = mb_adv mb n" "r \<noteq> Inl FAULT"
    "r = Inr (as, ua') \<Longrightarrow> ua' = fold (ua_add \<circ> sa_type) as ua \<and>
      msg_typed \<lparr>sm_hdr = hdr, sm_attrl = as, sm_mb = mb, sm_start = mb_pos mb\<rparr>"
proof -
  have r: "readable (mb_adv mb 20)" using readable_adv [OF assms(1)] assms(3) by simp
  have l: "length (mb_left (mb_adv mb 20)) = length (mb_left mb) - 20" by simp
  note st = stun_attrs_decode_step [OF r, of "Suc (length (mb_left mb) - 20)" al tid extra ua "[]"]
  show "\<exists>n. mb1 = mb_adv mb n" "r \<noteq> Inl FAULT"
    using st l assms(6) unfolding dec_safe_at_def by auto
  assume e: "r = Inr (as, ua')"
  obtain n where n: "ua' = fold (ua_add \<circ> sa_type) as ua" "\<forall>a \<in> set as. attr_typed a" "n \<le> length (mb_left mb) - 20"
     "sum_list (map attr_min as) \<le> n" "szsub (length (mb_left mb) - 20 - n) extra < 4"
    using st l assms(6) e by auto
  have "extra \<le> length (mb_left mb) - 20 - n"
    by (rule szsub_small [OF n(5)]) (use left_bound [OF readable_wf [OF assms(1)]] assms(5) in auto)
  then have "n \<le> unat (sh_len hdr)" using assms(3,5) n(3) by simp
  then show "ua' = fold (ua_add \<circ> sa_type) as ua \<and> msg_typed \<lparr>sm_hdr = hdr, sm_attrl = as, sm_mb = mb, sm_start = mb_pos mb\<rparr>"
    using n(1,2,4) assms(1-4) by (simp add: msg_typed_def list_all_iff)
qed

lemma stun_msg_decode_step:
  assumes "readable mb" "stun_msg_decode al ua mb = (r, mb')"
  shows "mb' = mb" "r \<noteq> Inl FAULT"
    "r = Inr (msg, ua') \<Longrightarrow> msg_typed msg \<and> sm_mb msg = mb \<and> ua' = map_option (\<lambda>_. ua_types (sm_attrl msg)) ua"
proof -
  have hs: "dec_safe_at stun_hdr_decode mb" by (rule dec_safe_at [OF stun_hdr_decode_safe assms(1)])
  obtain rh mh where h: "stun_hdr_decode mb = (rh, mh)" by fastforce
  have "mb' = mb \<and> r \<noteq> Inl FAULT \<and>
    (r = Inr (msg, ua') \<longrightarrow> msg_typed msg \<and> sm_mb msg = mb \<and> ua' = map_option (\<lambda>_. ua_types (sm_attrl msg)) ua)"
  proof (cases rh)
    case (Inl e)
    then show ?thesis using assms(2) h hs by (auto simp: stun_msg_decode_def dec_bind_def dec_safe_at_def)
  next
    case (Inr hdr)
    note st = stun_hdr_decode_step [OF assms(1), of hdr mh, unfolded h Inr, OF refl]
    show ?thesis
    proof (cases "mem_alloc al STUN_MSG_SIZEOF")
      case None
      then show ?thesis using assms(2) h Inr st by (auto simp: stun_msg_decode_def dec_bind_def dec_alloc_def)
    next
      case (Some m)
      let ?ua = "map_option (\<lambda>_. []) ua :: 16 word list option"
      obtain ra ma where a: "stun_attrs_decode al (sh_tid hdr) (length (mb_left mb) - 20 - unat (sh_len hdr))
          (Suc (length (mb_left mb) - 20)) ?ua [] (mb_adv mb 20) = (ra, ma)" by fastforce
      note b = stun_body_decode [OF assms(1) _ _ _ refl a]
      have t: "hdr_typed hdr" "20 + unat (sh_len hdr) \<le> length (mb_left mb)" "take 20 (mb_left mb) = hdr_wire hdr" using st by auto
      have r: "(r, mb') = (case ra of Inl e \<Rightarrow> (Inl e, mb) | Inr (attrs, ua'') \<Rightarrow>
          (Inr (\<lparr>sm_hdr = hdr, sm_attrl = attrs, sm_mb = mb, sm_start = mb_pos mb\<rparr>, ua''), mb))"
        using assms(2) h Inr st Some a b(1) [OF t] mbuf_get_left_len [OF readable_wf [OF assms(1)]]
        by (auto simp: stun_msg_decode_def dec_bind_def dec_alloc_def dec_left_def dec_return_def Let_def
            simp del: stun_attrs_decode.simps split: sum.splits)
      show ?thesis
      proof (cases ra)
        case (Inl e)
        then show ?thesis using r b(2) [OF t] by simp
      next
        case (Inr x)
        obtain as ua'' where x: "x = (as, ua'')" by fastforce
        have "ua'' = map_option (\<lambda>_. ua_types as) ua"
          using b(3) [OF t, of as ua''] Inr x by (cases ua) (simp_all add: ua_add_None ua_add_fold ua_types_def)
        then show ?thesis using r b(3) [OF t, of as ua''] Inr x by auto
      qed
    qed
  qed
  then show "mb' = mb" "r \<noteq> Inl FAULT"
    "r = Inr (msg, ua') \<Longrightarrow> msg_typed msg \<and> sm_mb msg = mb \<and> ua' = map_option (\<lambda>_. ua_types (sm_attrl msg)) ua" by auto
qed

section \<open>Writing in place\<close>

definition overwrite :: "mbuf \<Rightarrow> byte list \<Rightarrow> mbuf" where
  "overwrite mb bs =
     mb\<lparr>mb_buf := take (mb_pos mb) (mb_buf mb) @ bs @ drop (mb_pos mb + length bs) (mb_buf mb), mb_pos := mb_pos mb + length bs\<rparr>"

lemma overwrite_sel [simp]:
  "mb_pos (overwrite mb bs) = mb_pos mb + length bs" "mb_end (overwrite mb bs) = mb_end mb"
  by (simp_all add: overwrite_def)

lemma overwrite_wf: "mbuf_wf mb \<Longrightarrow> mb_pos mb + length bs \<le> mb_end mb \<Longrightarrow> mbuf_wf (overwrite mb bs)"
  by (auto simp: overwrite_def mbuf_wf_def)

lemma overwrite_overwrite:
  "mbuf_wf mb \<Longrightarrow> mb_pos mb + length as + length bs \<le> mb_end mb \<Longrightarrow> overwrite (overwrite mb as) bs = overwrite mb (as @ bs)"
  by (auto simp: overwrite_def mbuf_wf_def min_absorb1 min_absorb2 ac_simps)

lemma overwrite_again:
  assumes "mbuf_wf mb" "mb_pos mb + length as \<le> mb_end mb" "length bs = length as"
  shows "overwrite ((overwrite mb as)\<lparr>mb_pos := mb_pos mb\<rparr>) bs = overwrite mb bs"
  using assms by (auto simp: overwrite_def mbuf_wf_def min_absorb1 min_absorb2)

lemma overwrite_same:
  assumes "take (length bs) (mb_left mb) = bs"
  shows "(overwrite mb bs)\<lparr>mb_pos := mb_pos mb\<rparr> = mb"
proof -
  have l: "length bs \<le> mb_end mb - mb_pos mb" using arg_cong [OF assms, of length] by (simp add: mb_left_def)
  have "take (length bs) (drop (mb_pos mb) (mb_buf mb)) = bs"
    using assms l by (simp add: mb_left_def min_absorb1)
  then have "bs @ drop (mb_pos mb + length bs) (mb_buf mb) = drop (mb_pos mb) (mb_buf mb)"
    by (metis append_take_drop_id drop_drop add.commute)
  then show ?thesis by (simp add: overwrite_def)
qed

lemma mbuf_write_mem_overwrite:
  assumes "mbuf_wf mb" "mb_pos mb + length bs \<le> mb_end mb"
  shows "mbuf_write_mem al mb bs = (0, overwrite mb bs)"
  using assms by (auto simp: mbuf_write_mem_def overwrite_def mbuf_wf_def mem_write_def MEM_SIZE_MAX_def max_absorb1 Let_def)

lemma hdr_typed_mask:
  assumes "hdr_typed hdr"
  shows "sh_type hdr AND 0x3fff = sh_type hdr"
proof -
  have "(0xc000 :: 16 word) OR 0x3fff = - 1" by simp
  then have "sh_type hdr = (sh_type hdr AND 0xc000) OR (sh_type hdr AND 0x3fff)"
    by (simp only: bit.conj_disj_distrib [symmetric] bit.conj_one_right)
  then show ?thesis using assms by (simp add: hdr_typed_def)
qed

lemma stun_hdr_encode_overwrite:
  assumes "mbuf_wf mb" "mb_pos mb + 20 \<le> mb_end mb" "hdr_typed hdr"
  shows "stun_hdr_encode al mb hdr = (0, overwrite mb (hdr_wire hdr))"
proof -
  have l: "length (sh_tid hdr) = 12" using assms(3) by (simp add: hdr_typed_def)
  note w = mbuf_write_mem_overwrite overwrite_wf overwrite_overwrite
  show ?thesis
    unfolding stun_hdr_encode_def hdr_typed_mask [OF assms(3)] hdr_wire_def mbuf_write_u16_def mbuf_write_u32_def le16_htons le32_htonl
    using assms(1,2) l by (simp add: err_or_def w)
qed

section \<open>The checks\<close>

lemma stun_hdr_adjust_overwrite:
  assumes "mbuf_wf (sm_mb msg)" "mb_pos (sm_mb msg) + 20 \<le> mb_end (sm_mb msg)"
    "hdr_typed ((sm_hdr msg)\<lparr>sh_len := sh_len (sm_hdr msg) + d\<rparr>)"
  shows "stun_hdr_adjust al d msg =
    (let hdr = (sm_hdr msg)\<lparr>sh_len := sh_len (sm_hdr msg) + d\<rparr>
     in msg\<lparr>sm_hdr := hdr, sm_mb := (overwrite (sm_mb msg) (hdr_wire hdr))\<lparr>mb_pos := mb_pos (sm_mb msg)\<rparr>\<rparr>)"
proof -
  have p: "mb_pos (sm_mb msg) + 20 < 2 ^ 64" using assms(1,2) by (simp add: mbuf_wf_def MEM_SIZE_MAX_def)
  show ?thesis
    using stun_hdr_encode_overwrite [OF assms] hdr_wire_length [OF assms(3)] p by (simp add: stun_hdr_adjust_def Let_def)
qed

text \<open>Taking the fingerprint off the length and putting it back gives the message itself.\<close>

lemma stun_hdr_adjust_back:
  assumes "msg_typed msg" "hdr_typed ((sm_hdr msg)\<lparr>sh_len := sh_len (sm_hdr msg) + d\<rparr>)"
  shows "stun_hdr_adjust al (- d) (stun_hdr_adjust al d msg) = msg"
proof -
  let ?hdr = "(sm_hdr msg)\<lparr>sh_len := sh_len (sm_hdr msg) + d\<rparr>" and ?mb = "sm_mb msg"
  have t: "hdr_typed (sm_hdr msg)" "readable ?mb" "take 20 (mb_left ?mb) = hdr_wire (sm_hdr msg)"
    and l: "20 \<le> length (mb_left ?mb)" using assms(1) by (auto simp: msg_typed_def)
  have r: "mb_pos ?mb + 20 \<le> mb_end ?mb" using l by (auto simp: mb_left_def)
  have w: "mbuf_wf ?mb" using t(2) by auto
  note n = hdr_wire_length [OF t(1)] hdr_wire_length [OF assms(2)]
  have o: "mbuf_wf (overwrite ?mb (hdr_wire ?hdr))" by (rule overwrite_wf) (use w r n in auto)
  have "(overwrite ?mb (hdr_wire (sm_hdr msg)))\<lparr>mb_pos := mb_pos ?mb\<rparr> = ?mb"
    by (rule overwrite_same) (use t(3) n in simp)
  then show ?thesis
    using stun_hdr_adjust_overwrite [OF w r assms(2)] w r n o t(1)
    by (simp add: stun_hdr_adjust_overwrite Let_def overwrite_again)
qed

lemma attr_min_le: "a \<in> set as \<Longrightarrow> attr_min a \<le> sum_list (map attr_min as)"
  by (induction as) auto

lemma attr_min_le2:
  "a \<in> set as \<Longrightarrow> b \<in> set as \<Longrightarrow> a \<noteq> b \<Longrightarrow> attr_min a + attr_min b \<le> sum_list (map attr_min as)"
proof (induction as)
  case (Cons c as)
  then show ?case using attr_min_le [of a as] attr_min_le [of b as] by auto
qed simp

lemma stun_msg_attr_found: "stun_msg_attr msg ty = Some a \<Longrightarrow> a \<in> set (sm_attrl msg) \<and> sa_type a = ty"
  by (auto simp: stun_msg_attr_def find_Some_iff)

text \<open>A message with an integrity attribute has room for it, and for a fingerprint behind it.\<close>

lemma msg_room:
  assumes "msg_typed msg" "stun_msg_attr msg STUN_ATTR_MSG_INTEGRITY = Some mi"
  shows "24 \<le> unat (sh_len (sm_hdr msg))"
    "stun_msg_attr msg STUN_ATTR_FINGERPRINT = Some fp \<Longrightarrow> 32 \<le> unat (sh_len (sm_hdr msg))"
proof -
  note m = stun_msg_attr_found [OF assms(2)]
  have s: "sum_list (map attr_min (sm_attrl msg)) \<le> unat (sh_len (sm_hdr msg))" using assms(1) by (simp add: msg_typed_def)
  then show "24 \<le> unat (sh_len (sm_hdr msg))" using attr_min_le [OF conjunct1 [OF m]] m by (simp add: attr_min_def)
  assume f: "stun_msg_attr msg STUN_ATTR_FINGERPRINT = Some fp"
  note f = stun_msg_attr_found [OF f]
  have "mi \<noteq> fp" using m f by auto
  then show "32 \<le> unat (sh_len (sm_hdr msg))"
    using attr_min_le2 [OF conjunct1 [OF m] conjunct1 [OF f]] s m f by (simp add: attr_min_def)
qed

text \<open>
  The bytes that the integrity attribute protects: the message up to the attribute, with the length
  in the header counting everything up to the end of the attribute, and no fingerprint.
\<close>

definition mi_input :: "stun_msg \<Rightarrow> byte list" where
  "mi_input msg =
     (let hdr = (sm_hdr msg)\<lparr>sh_len := sh_len (sm_hdr msg) - (if stun_msg_attr msg STUN_ATTR_FINGERPRINT = None then 0 else 8)\<rparr>
      in take (unat (sh_len hdr) - 4) (hdr_wire hdr @ drop 20 (mb_left (sm_mb msg))))"

lemma stun_read_left:
  assumes "readable mb" "n \<le> length (mb_left mb)" "k = int n"
  shows "stun_read mb k = Some (take n (mb_left mb))"
  using assms by (auto simp: stun_read_def mem_read_def mb_left_def readable_def mbuf_wf_def min_absorb1)

lemma overwrite_left:
  assumes "readable mb" "length bs \<le> length (mb_left mb)"
  shows "mb_left ((overwrite mb bs)\<lparr>mb_pos := mb_pos mb\<rparr>) = bs @ drop (length bs) (mb_left mb)"
  using assms by (auto simp: mb_left_def overwrite_def readable_def mbuf_wf_def min_absorb1 min_absorb2 drop_take add.commute)

lemma msg_typed_pos: "msg_typed msg \<Longrightarrow> msg\<lparr>sm_mb := (sm_mb msg)\<lparr>mb_pos := sm_start msg\<rparr>\<rparr> = msg"
  by (simp add: msg_typed_def)

lemma and_3_unat: "x AND 3 = 0 \<longleftrightarrow> unat x mod 4 = 0" for x :: "16 word"
  using and_3_mod [of "unat x"] by (simp flip: unat_eq_0 add: unsigned_and_eq)

lemma hdr_typed_minus8:
  assumes "hdr_typed hdr" "8 \<le> unat (sh_len hdr)"
  shows "hdr_typed (hdr\<lparr>sh_len := sh_len hdr - 8\<rparr>)" "unat (sh_len hdr - 8) = unat (sh_len hdr) - 8"
proof -
  show u: "unat (sh_len hdr - 8) = unat (sh_len hdr) - 8" using assms(2) by (subst unat_sub) (auto simp: word_le_nat_alt)
  show "hdr_typed (hdr\<lparr>sh_len := sh_len hdr - 8\<rparr>)" using assms u by (auto simp: hdr_typed_def and_3_unat)
qed

lemma stun_msg_chk_mi_spec:
  assumes "msg_typed msg"
  shows "stun_msg_chk_mi hmac al key msg =
    (case stun_msg_attr msg STUN_ATTR_MSG_INTEGRITY of None \<Rightarrow> EPROTO
     | Some mi \<Rightarrow> if sa_v mi = SV_mi (hmac key (mi_input msg)) then 0 else EBADMSG, msg)"
proof (cases "stun_msg_attr msg STUN_ATTR_MSG_INTEGRITY")
  case (Some mi)
  have t: "readable (sm_mb msg)" "take 20 (mb_left (sm_mb msg)) = hdr_wire (sm_hdr msg)"
     "20 + unat (sh_len (sm_hdr msg)) \<le> length (mb_left (sm_mb msg))" "hdr_typed (sm_hdr msg)" using assms by (auto simp: msg_typed_def)
  note room = msg_room [OF assms Some]
  show ?thesis
  proof (cases "stun_msg_attr msg STUN_ATTR_FINGERPRINT")
    case None
    have "hdr_wire (sm_hdr msg) @ drop 20 (mb_left (sm_mb msg)) = mb_left (sm_mb msg)"
      unfolding t(2) [symmetric] by (rule append_take_drop_id)
    then have "mi_input msg = take (unat (sh_len (sm_hdr msg)) - 4) (mb_left (sm_mb msg))"
      using None by (simp add: mi_input_def Let_def del: take_append)
    then have "stun_read (sm_mb msg) (20 + uint (sh_len (sm_hdr msg)) - 24) = Some (mi_input msg)"
      using stun_read_left [OF t(1), of "unat (sh_len (sm_hdr msg)) - 4"] t(3) room(1) by simp
    then show ?thesis using Some None by (simp add: stun_msg_chk_mi_def msg_typed_pos [OF assms])
  next
    case fp: (Some fp)
    let ?hdr = "(sm_hdr msg)\<lparr>sh_len := sh_len (sm_hdr msg) + - 8\<rparr>"
    let ?mb = "(overwrite (sm_mb msg) (hdr_wire ?hdr))\<lparr>mb_pos := mb_pos (sm_mb msg)\<rparr>"
    have h: "hdr_typed ?hdr" "unat (sh_len ?hdr) = unat (sh_len (sm_hdr msg)) - 8"
      using hdr_typed_minus8 [OF t(4)] room(2) [OF fp] by simp_all
    have r: "mb_pos (sm_mb msg) + 20 \<le> mb_end (sm_mb msg)" using t(3) by (auto simp: mb_left_def)
    note adj = stun_hdr_adjust_overwrite [OF readable_wf [OF t(1)] r h(1), unfolded Let_def]
    have restored: "stun_hdr_adjust al 8 (stun_hdr_adjust al (- 8) msg) = msg"
      using stun_hdr_adjust_back [OF assms h(1)] by simp
    have n: "length (hdr_wire ?hdr) = 20" by (rule hdr_wire_length [OF h(1)])
    have left: "mb_left ?mb = hdr_wire ?hdr @ drop 20 (mb_left (sm_mb msg))"
      using overwrite_left [OF t(1), of "hdr_wire ?hdr"] n t(3) by simp
    have w: "readable ?mb" using overwrite_wf [OF readable_wf [OF t(1)], of "hdr_wire ?hdr"] n r by (simp add: readable_def)
    have "uint (sh_len ?hdr) = uint (sh_len (sm_hdr msg)) - 8"
      using arg_cong [OF h(2), of int] room(2) [OF fp] by (simp add: of_nat_diff)
    then have "stun_read ?mb (20 + uint (sh_len ?hdr) - 24) = Some (take (unat (sh_len ?hdr) - 4) (mb_left ?mb))"
      by (intro stun_read_left [OF w]) (use left n t(3) h(2) room(2) [OF fp] in simp_all)
    then have "stun_read ?mb (20 + uint (sh_len ?hdr) - 24) = Some (mi_input msg)"
      using fp left by (simp add: mi_input_def Let_def)
    then show ?thesis using Some fp adj restored by (simp add: stun_msg_chk_mi_def msg_typed_pos [OF assms])
  qed
qed (simp add: stun_msg_chk_mi_def)

lemma stun_msg_chk_fingerprint_spec:
  assumes "msg_typed msg"
  shows "stun_msg_chk_fingerprint msg =
    (case stun_msg_attr msg STUN_ATTR_FINGERPRINT of None \<Rightarrow> EPROTO
     | Some fp \<Rightarrow> if sa_v fp = SV_u32 (fingerprint (take (12 + unat (sh_len (sm_hdr msg))) (mb_left (sm_mb msg)))) then 0 else EBADMSG, msg)"
proof (cases "stun_msg_attr msg STUN_ATTR_FINGERPRINT")
  case (Some fp)
  have t: "readable (sm_mb msg)" "20 + unat (sh_len (sm_hdr msg)) \<le> length (mb_left (sm_mb msg))" using assms by (auto simp: msg_typed_def)
  have "stun_read (sm_mb msg) (20 + uint (sh_len (sm_hdr msg)) - 8) = Some (take (12 + unat (sh_len (sm_hdr msg))) (mb_left (sm_mb msg)))"
    by (rule stun_read_left [OF t(1)]) (use t(2) in simp_all)
  then show ?thesis using Some by (simp add: stun_msg_chk_fingerprint_def msg_typed_pos [OF assms])
qed (simp add: stun_msg_chk_fingerprint_def)

text \<open>
  C19.  Types of decoded messages.  For any datagram, \<^verbatim>\<open>stun_msg_decode\<close> never reads outside of the
  data and puts the position back.  A message that it accepts has a header whose two top bits and
  two low bits of the length are clear and which is the first twenty bytes; every attribute holds the
  member that belongs to its type, within its bounds; the attributes fit into the declared length,
  although the loop subtracts unsigned sizes; the list of unknown types is the first eight of those
  that have to be understood.  On such a message \<^verbatim>\<open>stun_msg_chk_mi\<close>, which rewrites the header in the
  received data when there is a fingerprint, compares the attribute with the HMAC of the protected
  bytes and gives the data back as they were, and \<^verbatim>\<open>stun_msg_chk_fingerprint\<close> compares the checksum
  of everything in front of the last eight bytes.
\<close>

theorem stun_msg_decode_typed:
  assumes "readable mb" "stun_msg_decode al ua mb = (r, mb')"
  shows "mb' = mb \<and> r \<noteq> Inl FAULT \<and>
    (\<forall>msg ua'. r = Inr (msg, ua') \<longrightarrow>
       msg_typed msg \<and> sm_mb msg = mb \<and> ua' = map_option (\<lambda>_. ua_types (sm_attrl msg)) ua \<and>
       stun_msg_chk_mi hmac al key msg =
         (case stun_msg_attr msg STUN_ATTR_MSG_INTEGRITY of None \<Rightarrow> EPROTO
          | Some mi \<Rightarrow> if sa_v mi = SV_mi (hmac key (mi_input msg)) then 0 else EBADMSG, msg) \<and>
       stun_msg_chk_fingerprint msg =
         (case stun_msg_attr msg STUN_ATTR_FINGERPRINT of None \<Rightarrow> EPROTO
          | Some fp \<Rightarrow>
              if sa_v fp = SV_u32 (fingerprint (take (12 + unat (sh_len (sm_hdr msg))) (mb_left mb))) then 0 else EBADMSG, msg))"
proof (intro conjI allI impI)
  show "mb' = mb" "r \<noteq> Inl FAULT" using stun_msg_decode_step(1,2) [OF assms] by auto
  fix msg ua' assume "r = Inr (msg, ua')"
  note d = stun_msg_decode_step(3) [OF assms this]
  then show "msg_typed msg" "sm_mb msg = mb" "ua' = map_option (\<lambda>_. ua_types (sm_attrl msg)) ua" by auto
  note t = \<open>msg_typed msg\<close> and m = \<open>sm_mb msg = mb\<close>
  show "stun_msg_chk_mi hmac al key msg =
      (case stun_msg_attr msg STUN_ATTR_MSG_INTEGRITY of None \<Rightarrow> EPROTO
       | Some mi \<Rightarrow> if sa_v mi = SV_mi (hmac key (mi_input msg)) then 0 else EBADMSG, msg)"
    by (rule stun_msg_chk_mi_spec [OF t])
  show "stun_msg_chk_fingerprint msg =
      (case stun_msg_attr msg STUN_ATTR_FINGERPRINT of None \<Rightarrow> EPROTO
       | Some fp \<Rightarrow>
           if sa_v fp = SV_u32 (fingerprint (take (12 + unat (sh_len (sm_hdr msg))) (mb_left mb))) then 0 else EBADMSG, msg)"
    by (rule stun_msg_chk_fingerprint_spec [OF t, unfolded m])
qed

text \<open>A message with an unknown attribute and a lifetime, in front of four bytes that do not belong to it.\<close>

definition ex_stun :: mbuf where
  "ex_stun = (let bs = [0x01, 0x03, 0, 16, 0x21, 0x12, 0xa4, 0x42] @ [1 ..< 13] @ [0x7f, 0xff, 0, 3, 1, 2, 3, 0, 0, 0x0d, 0, 4, 0, 0, 2, 0x58, 9, 9, 9, 9]
     in \<lparr>mb_buf = map of_nat bs, mb_size = length bs, mb_pos = 0, mb_end = length bs, mb_shared = False\<rparr>)"

definition ex_stun_msg :: stun_msg where
  "ex_stun_msg = \<lparr>sm_hdr = \<lparr>sh_type = 0x0103, sh_len = 16, sh_cookie = 0x2112a442, sh_tid = map of_nat [1 ..< 13]\<rparr>,
     sm_attrl = [\<lparr>sa_type = 0x7fff, sa_v = SV_none\<rparr>, \<lparr>sa_type = 0x000d, sa_v = SV_u32 600\<rparr>], sm_mb = ex_stun, sm_start = 0\<rparr>"

lemma ex_stun_decode: "stun_msg_decode (\<lambda>n. Some (\<lambda>i. 0)) (Some []) ex_stun = (Inr (ex_stun_msg, Some [0x7fff]), ex_stun)"
  by code_simp

theorem stun_msg_decode_typed_witness:
  "msg_typed ex_stun_msg \<and> map (\<lambda>a. unat (sa_type a)) (sm_attrl ex_stun_msg) = [0x7fff, 0x000d] \<and>
   stun_msg_decode (\<lambda>n. Some (\<lambda>i. 0)) (Some []) ex_stun = (Inr (ex_stun_msg, Some [0x7fff]), ex_stun) \<and>
   stun_msg_chk_fingerprint ex_stun_msg = (EPROTO, ex_stun_msg)"
proof -
  have "readable ex_stun" by (simp add: ex_stun_def readable_def mbuf_wf_def MEM_SIZE_MAX_def)
  from stun_msg_decode_typed [OF this ex_stun_decode, of "\<lambda>k m. m" "[]"] ex_stun_decode show ?thesis
    by (simp add: ex_stun_msg_def stun_msg_attr_def)
qed

end
