(* ===== verification/Stun_Roundtrip.thy ===== *)
theory Stun_Roundtrip
  imports Stun_Safety
begin

text \<open>
  A STUN message that \<^verbatim>\<open>stun_msg_vencode\<close> writes is decoded by \<^verbatim>\<open>stun_msg_decode\<close> to the same header and
  attributes, and passes the integrity check and the fingerprint check.
\<close>

section \<open>Values on the wire\<close>

text \<open>The bytes of a value that the decoder reads, and the bytes behind them that only the encoder knows.\<close>

definition addr_wire :: "byte list option \<Rightarrow> sa \<Rightarrow> byte list" where
  "addr_wire tid a =
     (let port = (if tid = None then sa_port a else sa_port a XOR 0x2112)
      in if sa_af a = AF_INET then [0, 1] @ be16 port @ be32 (if tid = None then sa_in a else sa_in a XOR STUN_MAGIC_COOKIE)
         else [0, 2] @ be16 port @ (case tid of None \<Rightarrow> sa_in6 a | Some t \<Rightarrow> in6_xor_tid (sa_in6 a) t))"

definition val_wire :: "stun_kind \<Rightarrow> byte list option \<Rightarrow> stun_val \<Rightarrow> byte list" where
  "val_wire k tid v =
     (case v of
        SV_sa a \<Rightarrow> addr_wire (if k = K_xaddr then tid else None) a
      | SV_change ip port \<Rightarrow> be32 (push_bit 2 (of_bool ip) OR push_bit 1 (of_bool port))
      | SV_str s \<Rightarrow> s
      | SV_mi m \<Rightarrow> m
      | SV_err code reason \<Rightarrow> [0, 0, ucast (code div 100), ucast (code mod 100)] @ reason
      | SV_unknown ts \<Rightarrow> concat (map be16 ts)
      | SV_u16 n \<Rightarrow> be16 n
      | SV_u32 n \<Rightarrow> be32 n
      | SV_u64 n \<Rightarrow> be64 n
      | SV_u8 n \<Rightarrow> [n]
      | SV_data d \<Rightarrow> d
      | SV_even r \<Rightarrow> [push_bit 7 (of_bool r)]
      | _ \<Rightarrow> [])"

definition val_fill :: "stun_val \<Rightarrow> byte list" where
  "val_fill v = (case v of SV_u16 n \<Rightarrow> [0, 0] | SV_u8 n \<Rightarrow> [0, 0, 0] | _ \<Rightarrow> [])"

text \<open>The values that can be sent under a type: addresses as the library makes them, strings without a zero byte.\<close>

definition val_ok :: "stun_kind \<Rightarrow> stun_val \<Rightarrow> bool" where
  "val_ok k v =
     (case v of
        SV_sa a \<Rightarrow> (k = K_addr \<or> k = K_xaddr) \<and>
          (a = sa_set_in (sa_in a) (sa_port a) \<or> length (sa_in6 a) = 16 \<and> a = sa_set_in6 (sa_in6 a) (sa_port a))
      | SV_change ip port \<Rightarrow> k = K_change
      | SV_str s \<Rightarrow> k = K_str \<and> 0 \<notin> set s
      | SV_mi m \<Rightarrow> k = K_mi \<and> length m = 20
      | SV_err code reason \<Rightarrow> k = K_err \<and> code < 800 \<and> 0 \<notin> set reason
      | SV_unknown ts \<Rightarrow> k = K_unknown \<and> length ts \<le> 8
      | SV_u16 n \<Rightarrow> k = K_u16
      | SV_u32 n \<Rightarrow> k = K_u32
      | SV_u64 n \<Rightarrow> k = K_u64
      | SV_u8 n \<Rightarrow> k = K_u8
      | SV_data d \<Rightarrow> k = K_data
      | SV_self \<Rightarrow> False
      | SV_even r \<Rightarrow> k = K_even
      | SV_none \<Rightarrow> k = K_none)"

lemma xor_twice [simp]: "(a XOR b) XOR b = a" for a b :: "'a::len word"
  by (simp add: xor.assoc)

lemma in6_xor_twice: "length a = 16 \<Longrightarrow> length t = 12 \<Longrightarrow> in6_xor_tid (in6_xor_tid a t) t = a"
  by (auto simp: in6_xor_tid_def intro!: nth_equalityI)

text \<open>Two bytes and a short in front of something else.\<close>

lemma four_emits:
  assumes "mbuf_wf mb" "mb_pos mb + 4 < 2 ^ 31"
    "\<And>mb1. mbuf_wf mb1 \<Longrightarrow> mb_pos mb1 \<le> mb_pos mb + 4 \<Longrightarrow> emits al mb1 xs (f mb1)"
  shows "emits al mb (a # b # be16 p @ xs)
    (err_or (err_or (err_or (mbuf_write_u8 al mb a) (\<lambda>mb. mbuf_write_u8 al mb b)) (\<lambda>mb. mbuf_write_u16 al mb (htons p))) f)"
proof -
  have "emits al mb ((([a] @ [b]) @ be16 p) @ xs)
    (err_or (err_or (err_or (mbuf_write_u8 al mb a) (\<lambda>mb. mbuf_write_u8 al mb b)) (\<lambda>mb. mbuf_write_u16 al mb (htons p))) f)"
    by (intro emits_err_or mbuf_write_uN_emits) (use assms in auto)
  then show ?thesis by simp
qed

lemma addr_emits:
  assumes "mbuf_wf mb" "mb_pos mb + length (addr_wire tid a) < 2 ^ 31" "sa_af a = AF_INET \<or> sa_af a = AF_INET6"
  shows "emits al mb (addr_wire tid a) (stun_addr_encode al mb a tid)"
  using assms unfolding addr_wire_def stun_addr_encode_def Let_def
  by (auto intro!: four_emits mbuf_write_uN_emits mbuf_write_mem_emits)

text \<open>Reading the front of what is there.\<close>

lemma decodes_front:
  "decodes (f b) bs x \<Longrightarrow> decodes (dec_bind get_u8 f) (b # bs) x"
  "decodes (g v) bs x \<Longrightarrow> decodes (dec_bind get_be16 g) (be16 v @ bs) x"
  "decodes (h w) bs x \<Longrightarrow> decodes (dec_bind get_be32 h) (be32 w @ bs) x"
  "decodes (g v) [] x \<Longrightarrow> decodes (dec_bind get_be16 g) (be16 v) x"
  "decodes (h w) [] x \<Longrightarrow> decodes (dec_bind get_be32 h) (be32 w) x"
  "decodes (k q) [] x \<Longrightarrow> decodes (dec_bind get_be64 k) (be64 q) x"
  using decodes_bind [OF decodes_get(1), of f b bs x] decodes_bind [OF decodes_get(2), of g v bs x] decodes_bind [OF decodes_get(3), of h w bs x]
    decodes_bind [OF decodes_get(2), of g v "[]" x] decodes_bind [OF decodes_get(3), of h w "[]" x] decodes_bind [OF decodes_get(4), of k q "[]" x]
  by simp_all

lemma addr4_decodes:
  "decodes (stun_addr_decode tid) (0 # 1 # be16 p @ be32 w)
     (sa_set_in (if tid \<noteq> None then w XOR STUN_MAGIC_COOKIE else w) (if tid \<noteq> None then p XOR 0x2112 else p))"
  unfolding stun_addr_decode_def
  by (intro decodes_need decodes_front) (auto intro!: decodes_need decodes_front decodes_return)

lemma addr6_decodes:
  assumes "length c = 16"
  shows "decodes (stun_addr_decode tid) (0 # 2 # be16 p @ c)
     (sa_set_in6 (case tid of None \<Rightarrow> c | Some t \<Rightarrow> in6_xor_tid c t) (if tid \<noteq> None then p XOR 0x2112 else p))"
  unfolding stun_addr_decode_def using assms
  by (intro decodes_need decodes_front) (auto intro!: decodes_need decodes_then_return decodes_mem)

lemma addr_decodes:
  assumes "a = sa_set_in (sa_in a) (sa_port a) \<or> length (sa_in6 a) = 16 \<and> a = sa_set_in6 (sa_in6 a) (sa_port a)"
    "\<And>t. tid = Some t \<Longrightarrow> length t = 12"
  shows "decodes (stun_addr_decode tid) (addr_wire tid a) a"
  using assms(1)
proof
  assume a: "a = sa_set_in (sa_in a) (sa_port a)"
  have af: "sa_af a = AF_INET" by (subst a) simp
  show ?thesis
    using addr4_decodes [of tid "if tid = None then sa_port a else sa_port a XOR 0x2112" "if tid = None then sa_in a else sa_in a XOR STUN_MAGIC_COOKIE"]
    af a by (cases tid) (simp_all add: addr_wire_def)
next
  assume a: "length (sa_in6 a) = 16 \<and> a = sa_set_in6 (sa_in6 a) (sa_port a)"
  have af: "sa_af a = AF_INET6" by (subst conjunct2 [OF a]) simp
  let ?a = "case tid of None \<Rightarrow> sa_in6 a | Some t \<Rightarrow> in6_xor_tid (sa_in6 a) t"
  have l: "length ?a = 16" using a assms(2) by (auto simp: in6_xor_length split: option.splits)
  show ?thesis
    using addr6_decodes [OF l, of tid "if tid = None then sa_port a else sa_port a XOR 0x2112"] af a assms(2)
    by (cases tid) (simp_all add: addr_wire_def in6_xor_twice)
qed

lemma val_ok_kind: "val_ok k v \<Longrightarrow> k \<noteq> K_other"
  by (auto simp: val_ok_def split: stun_val.splits)

text \<open>Nothing at all is written for a value without bytes, if it is not a string or data.\<close>

definition val_silent :: "stun_val \<Rightarrow> bool" where
  "val_silent v \<longleftrightarrow> v = SV_none \<or> v = SV_unknown []"

lemma stun_value_encode_silent:
  "val_ok (stun_attr_kind ty) v \<Longrightarrow> val_silent v \<Longrightarrow> stun_value_encode al mb ty v tid = (0, mb)"
  by (auto simp: val_ok_def val_silent_def stun_value_encode_def)

lemma zero16_emits: "mbuf_wf mb \<Longrightarrow> mb_pos mb + 2 < 2 ^ 31 \<Longrightarrow> emits al mb [0, 0] (mbuf_write_u16 al mb 0)"
  using mbuf_write_mem_emits [of mb "le16 0" al] by (simp add: mbuf_write_u16_def le16_def)

lemma mbuf_write_str_emits: "mbuf_wf mb \<Longrightarrow> mb_pos mb + length s < 2 ^ 31 \<Longrightarrow> emits al mb s (mbuf_write_str al mb (Some s))"
  by (simp add: mbuf_write_str_def mbuf_write_mem_emits)

lemma stun_value_encode_emits:
  assumes "mbuf_wf mb" "val_ok (stun_attr_kind ty) v" "\<not> val_silent v"
    "mb_pos mb + length (val_wire (stun_attr_kind ty) tid v @ val_fill v) < 2 ^ 31"
  shows "emits al mb (val_wire (stun_attr_kind ty) tid v @ val_fill v) (stun_value_encode al mb ty v tid)"
proof (cases v)
  case (SV_sa a)
  then have "(\<exists>x p. a = sa_set_in x p) \<or> (\<exists>x p. a = sa_set_in6 x p)" using assms(2) by (auto simp: val_ok_def)
  then have "sa_af a = AF_INET \<or> sa_af a = AF_INET6" by auto
  then show ?thesis using SV_sa assms
    by (auto simp: val_ok_def val_wire_def val_fill_def stun_value_encode_def intro!: addr_emits)
next
  case (SV_err code reason)
  let ?c = "ucast (code div 100) :: byte" and ?n = "ucast (code mod 100) :: byte"
  have k: "stun_attr_kind ty = K_err" "mb_pos mb + (4 + length reason) < 2 ^ 31"
    using SV_err assms by (auto simp: val_ok_def val_wire_def val_fill_def)
  then have "emits al mb ((([0, 0] @ [?c]) @ [?n]) @ reason) (stun_value_encode al mb ty v tid)"
    unfolding SV_err stun_value_encode_def
    using assms(1) by (auto simp del: append.simps append_assoc intro!: emits_err_or zero16_emits mbuf_write_uN_emits mbuf_write_str_emits)
  then show ?thesis using SV_err k by (simp add: val_wire_def val_fill_def)
next
  case (SV_unknown ts)
  then obtain t us where ts: "ts = t # us" using assms(3) by (cases ts) (auto simp: val_silent_def)
  have k: "stun_attr_kind ty = K_unknown" using SV_unknown assms(2) by (simp add: val_ok_def)
  have "emits al mb (be16 t @ concat (map be16 us)) (err_each (\<lambda>mb t. mbuf_write_u16 al mb (htons t)) us (mbuf_write_u16 al mb (htons t)))"
    using assms(1,4) SV_unknown ts by (intro emits_err_each mbuf_write_uN_emits) (auto simp: val_wire_def)
  then show ?thesis using SV_unknown k ts by (simp add: stun_value_encode_def val_wire_def val_fill_def err_or_def)
next
  case (SV_u16 n)
  have "emits al mb (be16 n @ [0, 0]) (err_or (mbuf_write_u16 al mb (htons n)) (\<lambda>mb. mbuf_write_u16 al mb 0))"
    using assms SV_u16 by (intro emits_err_or mbuf_write_uN_emits zero16_emits) (auto simp: val_wire_def val_fill_def)
  then show ?thesis using SV_u16 assms(2) by (simp add: stun_value_encode_def val_ok_def val_wire_def val_fill_def)
next
  case (SV_u8 n)
  have "emits al mb (([n] @ [0]) @ [0, 0]) (err_or (err_or (mbuf_write_u8 al mb n) (\<lambda>mb. mbuf_write_u8 al mb 0)) (\<lambda>mb. mbuf_write_u16 al mb 0))"
    using assms SV_u8 by (intro emits_err_or mbuf_write_uN_emits zero16_emits) (auto simp: val_wire_def val_fill_def)
  then show ?thesis using SV_u8 assms(2) by (simp add: stun_value_encode_def val_ok_def val_wire_def val_fill_def)
qed (use assms in \<open>auto simp: val_ok_def val_wire_def val_fill_def val_silent_def stun_value_encode_def mbuf_write_str_def
       intro!: mbuf_write_uN_emits mbuf_write_mem_emits\<close>)


text \<open>The length field: what the decoder is told.\<close>

lemma decodes_peek: "length bs = n \<Longrightarrow> decodes (dec_bind (dec_peek n) (\<lambda>d. dec_bind (dec_advance n) (\<lambda>_. dec_return (f d)))) bs (f bs)"
proof (intro decodesI)
  fix mb rest assume l: "length bs = n" and mb: "readable mb" "mb_left mb = bs @ rest"
  then have "mb_pos mb + n \<le> mb_end mb"
    using length_mb_left [OF readable_wf [OF mb(1)]] by (auto simp: readable_def mbuf_get_left_def split: if_splits)
  then have "mem_read (mb_buf mb) (mb_pos mb) n = Some bs"
    using mem_read_data [OF readable_wf [OF mb(1)]] mb(2) l by (simp flip: mb_left_data)
  then show "dec_bind (dec_peek n) (\<lambda>d. dec_bind (dec_advance n) (\<lambda>_. dec_return (f d))) mb = (Inr (f bs), mb_adv mb (length bs))"
    using l mb by (simp add: dec_bind_def dec_peek_def dec_advance_def dec_return_def readable_advance)
qed

lemma str_decodes:
  assumes "mem_ok al" "length s \<le> 65536"
  shows "decodes (str_decode al (length s)) s s"
  unfolding str_decode_def
proof (intro decodes_need decodesI)
  fix mb rest assume mb: "readable mb" "mb_left mb = s @ rest"
  then show "dec_strdup al (length s) mb = (Inr s, mb_adv mb (length s))"
    using mem_alloc_total [OF assms(1), of "Suc (length s)"] assms(2)
    by (auto simp: dec_strdup_def mbuf_strdup_def mbuf_read_mem_readable MEM_SIZE_MAX_def)
qed simp

lemma bool_bits:
  "drop_bit 2 (push_bit 2 (of_bool a) OR push_bit 1 (of_bool b) :: 32 word) AND 1 \<noteq> 0 \<longleftrightarrow> a"
  "drop_bit 1 (push_bit 2 (of_bool a) OR push_bit 1 (of_bool b) :: 32 word) AND 1 \<noteq> 0 \<longleftrightarrow> b"
  "drop_bit 7 (push_bit 7 (of_bool a) :: byte) AND 1 \<noteq> 0 \<longleftrightarrow> a"
  by (cases a; cases b; simp)+

lemma err_code_parts:
  fixes x y :: "16 word"
  assumes "unat x < 8" "unat y < 100"
  shows "unat (ucast ((ucast x :: byte) AND 7) * 100 + ucast (ucast y :: byte) :: 16 word) = unat x * 100 + unat y"
proof -
  have "n AND 7 = n mod 8" for n :: nat
    using take_bit_eq_mask [of 3 n] by (simp add: take_bit_eq_mod mask_eq_exp_minus_1)
  then have 1: "unat ((ucast x :: byte) AND 7) = unat x"
    using assms(1) by (simp add: unsigned_and_eq unsigned_ucast_eq take_bit_nat_eq_self)
  have 2: "unat (ucast y :: byte) = unat y"
    using assms(2) by (simp add: unsigned_ucast_eq take_bit_nat_eq_self)
  have "unat (ucast b :: 16 word) = unat b" for b :: byte
  proof -
    have "unat b < 256" using unsigned_less [of b] by simp
    then show ?thesis by (simp add: unsigned_ucast_eq take_bit_nat_eq_self)
  qed
  then show ?thesis using 1 2 assms by (simp only: unat_word_ariths) simp
qed

lemma err_code_split:
  assumes "code < (800 :: 16 word)"
  shows "ucast ((ucast (code div 100) :: byte) AND 7) * 100 + ucast (ucast (code mod 100) :: byte) = code"
proof -
  have u: "unat (code div 100) = unat code div 100" "unat (code mod 100) = unat code mod 100"
    by (simp_all add: unat_div_distrib unat_mod_distrib)
  have "unat (code div 100) < 8" "unat (code mod 100) < 100" using assms by (simp_all only: u) (simp_all add: word_less_nat_alt)
  from err_code_parts [OF this] u show ?thesis by (simp add: word_unat_eq_iff)
qed

lemma stun_value_decodes:
  assumes "mem_ok al" "val_ok (stun_attr_kind ty) v" "length tid = 12" "len = length (val_wire (stun_attr_kind ty) (Some tid) v @ val_fill v)" "len < 65536"
  shows "decodes (stun_value_decode al tid ty len) (val_wire (stun_attr_kind ty) (Some tid) v) v"
proof (cases v)
  case (SV_sa a)
  then show ?thesis using assms(2,3)
    by (auto simp: val_ok_def val_wire_def stun_value_decode_def intro!: decodes_then_return addr_decodes)
next
  case (SV_err code reason)
  let ?c = "ucast (code div 100) :: byte" and ?n = "ucast (code mod 100) :: byte"
  have k: "stun_attr_kind ty = K_err" "len = 4 + length reason" "code < 800"
    using SV_err assms by (auto simp: val_ok_def val_wire_def val_fill_def)
  have "decodes (dec_bind get_u8 (\<lambda>c. dec_bind get_u8 (\<lambda>n. dec_bind (str_decode al (length reason)) (\<lambda>s.
      dec_return (SV_err (ucast (c AND 7) * 100 + ucast n) s))))) (?c # ?n # reason) (SV_err (ucast (?c AND 7) * 100 + ucast ?n) reason)"
    using assms(1,5) k by (intro decodes_front decodes_then_return str_decodes) auto
  from decodes_bind [OF decodes_advance [of "[0, 0]" 2], OF _ this] show ?thesis
    using SV_err k err_code_split [OF k(3)] by (simp add: stun_value_decode_def val_wire_def)
next
  case (SV_unknown ts)
  have "decodes (dec_many (length ts) get_be16) (concat (map be16 ts)) ts" by (intro decodes_many decodes_get)
  moreover have "length (concat (map be16 ts)) = 2 * length ts" by (induction ts) auto
  ultimately show ?thesis using SV_unknown assms(2,4) decodes_then_return [where f = "\<lambda>ts. SV_unknown (take 8 ts)"]
    by (force simp: val_ok_def val_wire_def val_fill_def stun_value_decode_def)
qed (use assms in \<open>auto simp: val_ok_def val_wire_def val_fill_def stun_value_decode_def bool_bits
       intro!: decodes_front decodes_return decodes_then_return str_decodes decodes_mem decodes_get decodes_peek\<close>)

section \<open>Attributes on the wire\<close>

definition attr_wire :: "byte \<Rightarrow> byte list option \<Rightarrow> 16 word \<Rightarrow> stun_val \<Rightarrow> byte list" where
  "attr_wire pad tid ty v =
     (let bs = val_wire (stun_attr_kind ty) tid v @ val_fill v
      in be16 ty @ be16 (of_nat (length bs)) @ bs @ padding pad (length bs))"

text \<open>The value is written behind the place of its header, or there is none and nothing happens.\<close>

lemma stun_value_behind:
  assumes "mem_ok al" "mbuf_wf mb" "val_ok (stun_attr_kind ty) v" "bs = val_wire (stun_attr_kind ty) tid v @ val_fill v"
    "mb_pos mb + 4 + length bs < 2 ^ 31" "length h = 4"
  shows "\<exists>mb1. stun_value_encode al (mb\<lparr>mb_pos := mb_pos mb + 4\<rparr>) ty v tid = (0, mb1) \<and> mbuf_wf mb1 \<and>
    mb_pos mb1 = mb_pos mb + 4 + length bs \<and>
    (\<forall>mb2. written (mb1\<lparr>mb_pos := mb_pos mb\<rparr>) h mb2 \<longrightarrow> written mb (h @ bs) (mb2\<lparr>mb_pos := mb_pos mb + 4 + length bs\<rparr>))"
proof (cases "val_silent v")
  case True
  have bs: "bs = []" using True by (auto simp: assms(4) val_silent_def val_wire_def val_fill_def)
  have "written mb h (mb2\<lparr>mb_pos := mb_pos mb + 4\<rparr>)" if "written (mb\<lparr>mb_pos := mb_pos mb\<rparr>) h mb2" for mb2
    using that assms(6) by (simp add: written_def)
  then show ?thesis using stun_value_encode_silent [OF assms(3) True] assms(2) bs by simp
next
  case False
  have "emits al (mb\<lparr>mb_pos := mb_pos mb + 4\<rparr>) bs (stun_value_encode al (mb\<lparr>mb_pos := mb_pos mb + 4\<rparr>) ty v tid)"
    unfolding assms(4) by (rule stun_value_encode_emits) (use assms False in auto)
  from emits_ex [OF assms(1) this] obtain mb1 where w: "stun_value_encode al (mb\<lparr>mb_pos := mb_pos mb + 4\<rparr>) ty v tid = (0, mb1)"
      "written (mb\<lparr>mb_pos := mb_pos mb + length h\<rparr>) bs mb1" using assms(6) by auto
  have "written mb (h @ bs) (mb2\<lparr>mb_pos := mb_pos mb + 4 + length bs\<rparr>)" if "written (mb1\<lparr>mb_pos := mb_pos mb\<rparr>) h mb2" for mb2
    using written_header [OF w(2) that] assms(6) by simp
  then show ?thesis using w written_pos [OF w(2)] written_wf [OF w(2)] assms(6) by auto
qed

lemma stun_attr_encode_written:
  assumes "mem_ok al" "mbuf_wf mb" "val_ok (stun_attr_kind ty) v" "mb_pos mb + length (attr_wire pad tid ty v) < 2 ^ 31"
  shows "\<exists>mb'. stun_attr_encode al mb ty v tid pad = Some (0, mb') \<and> written mb (attr_wire pad tid ty v) mb'"
proof -
  define bs where bs: "bs = val_wire (stun_attr_kind ty) tid v @ val_fill v"
  let ?h = "be16 ty @ be16 (of_nat (length bs))"
  have "length (?h @ bs) = 4 + length bs" by simp
  then have wire: "attr_wire pad tid ty v = (?h @ bs) @ padding pad (length (?h @ bs))"
    by (simp only: attr_wire_def bs [symmetric] Let_def padding_add4 append_assoc)
  have p: "mb_pos mb + 4 + length bs < 2 ^ 31" using assms(4) by (simp add: wire)
  obtain mb1 where 1: "stun_value_encode al (mb\<lparr>mb_pos := mb_pos mb + 4\<rparr>) ty v tid = (0, mb1)" "mbuf_wf mb1"
      "mb_pos mb1 = mb_pos mb + 4 + length bs"
    and h: "\<And>mb2. written (mb1\<lparr>mb_pos := mb_pos mb\<rparr>) ?h mb2 \<Longrightarrow> written mb (?h @ bs) (mb2\<lparr>mb_pos := mb_pos mb + 4 + length bs\<rparr>)"
    using stun_value_behind [OF assms(1-3) bs p, of ?h] by auto
  have "emits al (mb1\<lparr>mb_pos := mb_pos mb\<rparr>) ?h (err_or (mbuf_write_u16 al (mb1\<lparr>mb_pos := mb_pos mb\<rparr>) (htons ty))
      (\<lambda>mb. mbuf_write_u16 al mb (htons (of_nat (length bs)))))"
    by (intro emits_err_or mbuf_write_uN_emits) (use 1 p in auto)
  from emits_ex [OF assms(1) this] obtain mb2 where 2: "err_or (mbuf_write_u16 al (mb1\<lparr>mb_pos := mb_pos mb\<rparr>) (htons ty))
      (\<lambda>mb. mbuf_write_u16 al mb (htons (of_nat (length bs)))) = (0, mb2)" "written (mb1\<lparr>mb_pos := mb_pos mb\<rparr>) ?h mb2" by auto
  have w: "written mb (?h @ bs) (mb2\<lparr>mb_pos := mb_pos mb + 4 + length bs\<rparr>)" by (rule h [OF 2(2)])
  obtain mb3 where 3: "pad_loop al mb_pos pad (mb_pos mb + 4) (0, mb2\<lparr>mb_pos := mb_pos mb + 4 + length bs\<rparr>) = Some (0, mb3)"
      "written mb ((?h @ bs) @ padding pad (length (?h @ bs))) mb3"
    using pad_loop_written [OF assms(1) w, of "mb_pos mb + 4" mb_pos pad] assms(4) unfolding wire by auto
  have "stun_attr_encode al mb ty v tid pad = Some (0, mb3)"
    using 1 2 3(1) p written_pos [OF 2(2)] by (auto simp: stun_attr_encode_def Let_def err_or_def split: prod.splits)
  then show ?thesis using 3(2) wire by auto
qed

lemma padding_short: "padding p (Suc 0) = [p, p, p]" "padding p 2 = [p, p]" "padding p (2 + 2) = []" "padding p (Suc (Suc (Suc (Suc 0)))) = []"
proof -
  show 2: "padding p 2 = [p, p]" using padding_step(1) [of 2 p] padding_step(1) [of 3 p] padding_step(2) [of 4 p] by simp
  show "padding p (Suc 0) = [p, p, p]" using padding_step(1) [of "Suc 0" p] 2 by (simp add: numeral_2_eq_2)
  show "padding p (2 + 2) = []" "padding p (Suc (Suc (Suc (Suc 0)))) = []" by (simp_all add: padding_def)
qed

lemma fill_padding: "val_ok k v \<Longrightarrow> val_fill v = [] \<or>
    val_fill v = padding 0 (length (val_wire k tid v)) \<and> padding p (length (val_wire k tid v @ val_fill v)) = []"
proof (cases v)
  case (SV_u16 n)
  then show ?thesis using padding_short(2) [of 0] padding_short(3) [of p] by (simp add: val_fill_def val_wire_def)
next
  case (SV_u8 n)
  then show ?thesis using padding_short(1) [of 0] padding_short(4) [of p] by (simp add: val_fill_def val_wire_def)
qed (simp_all add: val_fill_def)

lemma attr_wire_length: "4 \<le> length (attr_wire pad tid ty v)"
  by (simp add: attr_wire_def Let_def)

lemma slurp_val:
  assumes "readable mb" "val_ok k v" "mb_left mb = val_wire k tid v @ val_fill v @ padding p (length (val_wire k tid v @ val_fill v)) @ rest"
  shows "slurp (mb_pos mb) (mb_adv mb (length (val_wire k tid v))) =
    mb_adv mb (length (val_wire k tid v @ val_fill v @ padding p (length (val_wire k tid v @ val_fill v))))"
  using fill_padding [OF assms(2), of tid p]
proof
  assume "val_fill v = []"
  then show ?thesis using slurp_padding [OF assms(1), of "val_wire k tid v" p rest] assms(3) by simp
next
  assume f: "val_fill v = padding 0 (length (val_wire k tid v)) \<and> padding p (length (val_wire k tid v @ val_fill v)) = []"
  have "mb_left mb = val_wire k tid v @ val_fill v @ rest" using assms(3) by (simp only: conjunct2 [OF f] append_Nil)
  then have "mb_left mb = val_wire k tid v @ padding 0 (length (val_wire k tid v)) @ rest" by (simp only: conjunct1 [OF f])
  from slurp_padding [OF assms(1) this] have "slurp (mb_pos mb) (mb_adv mb (length (val_wire k tid v))) =
      mb_adv mb (length (val_wire k tid v) + length (val_fill v))" by (simp only: conjunct1 [OF f])
  then show ?thesis using conjunct2 [OF f] by simp
qed

lemma stun_attr_decodes:
  assumes "mem_ok al" "val_ok (stun_attr_kind ty) v" "length tid = 12" "length (attr_wire pad (Some tid) ty v) < 65536"
  shows "decodes (stun_attr_decode al tid ua) (attr_wire pad (Some tid) ty v) (\<lparr>sa_type = ty, sa_v = v\<rparr>, ua)"
proof (rule decodesI)
  fix mb rest assume mb: "readable mb" "mb_left mb = attr_wire pad (Some tid) ty v @ rest"
  define c where "c = val_wire (stun_attr_kind ty) (Some tid) v"
  define len where "len = length (c @ val_fill v)"
  have l: "mb_left mb = be16 ty @ be16 (of_nat len) @ c @ val_fill v @ padding pad len @ rest" "len < 65536"
    and n: "length (attr_wire pad (Some tid) ty v) = 4 + length (c @ val_fill v @ padding pad len)"
    using mb(2) assms(4) by (simp_all add: attr_wire_def Let_def c_def len_def)
  have r: "readable (mb_adv mb 2)" "readable (mb_adv mb 4)" using readable_adv [OF mb(1)] l(1) by auto
  have left: "mb_left (mb_adv mb 2) = be16 (of_nat len) @ c @ val_fill v @ padding pad len @ rest"
    "mb_left (mb_adv mb 4) = c @ val_fill v @ padding pad len @ rest" using l(1) by simp_all
  have u: "unat (of_nat len :: 16 word) = len" using l(2) by (simp add: unat_of_nat)
  have 1: "get_be16 mb = (Inr ty, mb_adv mb 2)" using decodesD [OF decodes_get(2) mb(1) l(1)] by simp
  have 2: "get_be16 (mb_adv mb 2) = (Inr (of_nat len), mb_adv mb 4)" using decodesD [OF decodes_get(2) r(1) left(1)] by simp
  have 3: "stun_value_decode al tid ty len (mb_adv mb 4) = (Inr v, mb_adv mb (4 + length c))"
    using decodesD [OF stun_value_decodes [OF assms(1-3) _ l(2)] r(2)] left(2) by (simp add: len_def c_def)
  have 4: "slurp (mb_pos (mb_adv mb 4)) (mb_adv (mb_adv mb 4) (length c)) = mb_adv (mb_adv mb 4) (length (c @ val_fill v @ padding pad len))"
    using slurp_val [OF r(2) assms(2), of "Some tid" pad rest] left(2) by (simp add: c_def len_def)
  have ua: "ua_add ty ua = ua" using val_ok_kind [OF assms(2)] by (simp add: ua_add_def)
  have need: "mbuf_get_left mb = length (mb_left mb)" "mbuf_get_left (mb_adv mb 4) = length (mb_left (mb_adv mb 4))"
    using mbuf_get_left_len readable_wf mb(1) r(2) by auto
  obtain a where a: "mem_alloc al STUN_ATTR_SIZEOF = Some a" using mem_alloc_total [OF assms(1), of STUN_ATTR_SIZEOF] by (auto simp: MEM_SIZE_MAX_def)
  show "stun_attr_decode al tid ua mb = (Inr (\<lparr>sa_type = ty, sa_v = v\<rparr>, ua), mb_adv mb (length (attr_wire pad (Some tid) ty v)))"
    unfolding stun_attr_decode_def dec_bind_def dec_need_def dec_alloc_def dec_pos_def dec_slurp_def dec_return_def
    using 1 2 3 4 ua need l(1) u n a by (simp add: len_def)
qed

section \<open>Messages on the wire\<close>

abbreviation attrs_wire :: "byte \<Rightarrow> byte list \<Rightarrow> (16 word \<times> stun_val) list \<Rightarrow> byte list" where
  "attrs_wire pad tid as \<equiv> concat (map (\<lambda>(ty, v). attr_wire pad (Some tid) ty v) as)"

definition attrs_ok :: "(16 word \<times> stun_val) list \<Rightarrow> bool" where
  "attrs_ok as = list_all (\<lambda>(ty, v). val_ok (stun_attr_kind ty) v) as"

definition present :: "(16 word \<times> stun_val option) list \<Rightarrow> (16 word \<times> stun_val) list" where
  "present as = concat (map (\<lambda>(ty, v). case v of None \<Rightarrow> [] | Some v \<Rightarrow> [(ty, v)]) as)"

text \<open>Writing something, or doing nothing for nothing.\<close>

definition wrote :: "mbuf \<Rightarrow> byte list \<Rightarrow> mbuf \<Rightarrow> bool" where
  "wrote mb bs mb' \<longleftrightarrow> written mb bs mb' \<or> bs = [] \<and> mb' = mb"

lemma wrote_trans: "wrote mb as mb1 \<Longrightarrow> written mb1 bs mb2 \<Longrightarrow> wrote mb (as @ bs) mb2"
  by (auto simp: wrote_def intro: written_trans)

lemma wrote_pos: "wrote mb bs mb' \<Longrightarrow> mb_pos mb' = mb_pos mb + length bs"
  and wrote_wf: "wrote mb bs mb' \<Longrightarrow> mbuf_wf mb \<Longrightarrow> mbuf_wf mb'"
  by (auto simp: wrote_def written_def)

lemma wrote_header:
  assumes "wrote (mb\<lparr>mb_pos := mb_pos mb + length h\<rparr>) bs mb1" "written (mb1\<lparr>mb_pos := mb_pos mb\<rparr>) h mb2"
  shows "written mb (h @ bs) (mb2\<lparr>mb_pos := mb_pos mb + length h + length bs\<rparr>)"
  using assms written_header [OF _ assms(2)] by (auto simp: wrote_def) (simp add: written_def)

lemma stun_attrs_encode_wrote:
  assumes "mem_ok al" "wrote mb bs mb1" "mbuf_wf mb" "attrs_ok (present as)"
    "mb_pos mb + length bs + length (attrs_wire pad tid (present as)) < 2 ^ 31"
  shows "\<exists>mb2. stun_attrs_encode al tid pad as (0, mb1) = Some (0, mb2) \<and> wrote mb (bs @ attrs_wire pad tid (present as)) mb2"
  using assms
proof (induction as arbitrary: bs mb1)
  case (Cons a as)
  obtain ty v where a: "a = (ty, v)" by fastforce
  show ?case
  proof (cases v)
    case None
    then show ?thesis using Cons a by (simp add: present_def)
  next
    case (Some w)
    have p: "present (a # as) = (ty, w) # present as" using a Some by (simp add: present_def)
    have "\<exists>mb'. stun_attr_encode al mb1 ty w (Some tid) pad = Some (0, mb') \<and> written mb1 (attr_wire pad (Some tid) ty w) mb'"
      by (rule stun_attr_encode_written [OF Cons.prems(1)])
        (use Cons.prems p wrote_pos [OF Cons.prems(2)] wrote_wf [OF Cons.prems(2)] in \<open>auto simp: attrs_ok_def\<close>)
    then obtain mb2 where 2: "stun_attr_encode al mb1 ty w (Some tid) pad = Some (0, mb2)" "written mb1 (attr_wire pad (Some tid) ty w) mb2" by blast
    from Cons.IH [OF Cons.prems(1) wrote_trans [OF Cons.prems(2) 2(2)] Cons.prems(3)] Cons.prems(4,5) 2(1) a Some p
    show ?thesis by (auto simp: attrs_ok_def)
  qed
qed (simp add: present_def)

lemma stun_hdr_encode_emits:
  assumes "mbuf_wf mb" "mb_pos mb + 20 < 2 ^ 31" "hdr_typed hdr"
  shows "emits al mb (hdr_wire hdr) (stun_hdr_encode al mb hdr)"
proof -
  have "emits al mb (((be16 (sh_type hdr) @ be16 (sh_len hdr)) @ be32 (sh_cookie hdr)) @ sh_tid hdr) (stun_hdr_encode al mb hdr)"
    unfolding stun_hdr_encode_def hdr_typed_mask [OF assms(3)]
    by (intro emits_err_or mbuf_write_uN_emits mbuf_write_mem_emits) (use assms in \<open>auto simp: hdr_typed_def\<close>)
  then show ?thesis by (simp add: hdr_wire_def)
qed

lemma STUN_TYPE_typed: "STUN_TYPE meth cls AND 0xc000 = 0"
  by (simp add: STUN_TYPE_def bit.conj_disj_distrib2 push_bit_and and.assoc)

text \<open>
  The method and the class inside of a type.  The class is read with one mask behind two shifts, so
  bits 4 and 6 of the method show up in it.
\<close>

lemma bits16: "n < 16 \<Longrightarrow> n \<in> {0, 1, 2, 3, 4, 5, 6, 7, 8, 9, 10, 11, 12, 13, 14, 15 :: nat}"
  unfolding insert_iff empty_iff by arith

lemma STUN_METHOD_TYPE: "STUN_METHOD (STUN_TYPE meth cls) = meth AND 0xfff"
proof (rule bit_word_eqI)
  fix n :: nat assume "n < LENGTH(16)"
  then have "n \<in> {0, 1, 2, 3, 4, 5, 6, 7, 8, 9, 10, 11, 12, 13, 14, 15}" using bits16 by simp
  then show "bit (STUN_METHOD (STUN_TYPE meth cls)) n = bit (meth AND 0xfff) n"
    by (elim insertE emptyE) (simp_all add: STUN_METHOD_def STUN_TYPE_def bit_simps del: push_bit_Suc)
qed

lemma STUN_CLASS_TYPE:
  "STUN_CLASS (STUN_TYPE meth cls) = (ucast cls AND 3) OR (drop_bit 6 meth AND 1) OR (drop_bit 3 meth AND 2)"
proof (rule bit_word_eqI)
  fix n :: nat assume "n < LENGTH(16)"
  then have "n \<in> {0, 1, 2, 3, 4, 5, 6, 7, 8, 9, 10, 11, 12, 13, 14, 15}" using bits16 by simp
  then show "bit (STUN_CLASS (STUN_TYPE meth cls)) n = bit ((ucast cls AND 3) OR (drop_bit 6 meth AND 1) OR (drop_bit 3 meth AND 2)) n"
    by (elim insertE emptyE) (auto simp: STUN_CLASS_def STUN_TYPE_def bit_simps simp del: push_bit_Suc)
qed

lemma mbuf_rest_written:
  assumes "written mb bs mb'" "mb_pos mb = mb_end mb"
  shows "mbuf_rest (mb'\<lparr>mb_pos := mb_pos mb\<rparr>) = Some bs"
proof -
  have e: "mb_end mb' = mb_pos mb + length bs" "mbuf_wf mb'" "take (length bs) (drop (mb_pos mb) (mb_buf mb')) = bs"
    using assms by (auto simp: written_def)
  then show ?thesis by (auto simp: mbuf_rest_def mbuf_get_left_def mem_read_def mbuf_wf_def)
qed

lemma written_rewrite:
  assumes "written mb (h @ bs) mb1" "written (mb1\<lparr>mb_pos := mb_pos mb\<rparr>) h' mb2" "length h' = length h"
  shows "written mb (h' @ bs) (mb2\<lparr>mb_pos := mb_pos mb + length h + length bs\<rparr>)"
proof -
  note a = assms(1) [unfolded written_iff_nth] and b = assms(2) [unfolded written_iff_nth]
  have "mb_buf mb2 ! (mb_pos mb + i) = (h' @ bs) ! i" if i: "i < length (h' @ bs)" for i
  proof (cases "i < length h'")
    case True
    then show ?thesis using b by (simp add: nth_append)
  next
    case False
    then have "mb_buf mb2 ! (mb_pos mb + i) = mb_buf mb1 ! (mb_pos mb + i)" using b a i assms(3) by (auto simp: mbuf_wf_def)
    also have "\<dots> = (h @ bs) ! i" using a i assms(3) by simp
    finally show ?thesis using False assms(3) by (simp add: nth_append)
  qed
  moreover have "mb_buf mb2 ! i = mb_buf mb ! i" if "i < mb_size mb" "i < mb_pos mb \<or> mb_pos mb + length (h' @ bs) \<le> i" for i
    using a b that assms(3) by auto
  ultimately show ?thesis using a b assms(3) by (auto simp: written_iff_nth mbuf_wf_def)
qed

lemma attr_wire_tid: "stun_attr_kind ty \<noteq> K_xaddr \<Longrightarrow> attr_wire pad tid ty v = attr_wire pad tid' ty v"
  by (auto simp: attr_wire_def val_wire_def split: stun_val.splits)

lemma kind_simps [simp]: "stun_attr_kind STUN_ATTR_MSG_INTEGRITY = K_mi" "stun_attr_kind STUN_ATTR_FINGERPRINT = K_u32"
  "stun_attr_kind STUN_ATTR_ERR_CODE = K_err"
  by (simp_all add: stun_attr_kind_def)

lemma attr_wire_mi: "length m = 20 \<Longrightarrow> length (attr_wire pad tid STUN_ATTR_MSG_INTEGRITY (SV_mi m)) = 24"
  and attr_wire_fp: "length (attr_wire pad tid STUN_ATTR_FINGERPRINT (SV_u32 w)) = 8"
  by (simp_all add: attr_wire_def val_wire_def val_fill_def padding_def)

lemma stun_add_mi_written:
  assumes "mem_ok al" "mb_pos mb = mb_end mb" "written mb (hdr_wire hdr @ body) m3" "hdr_typed hdr"
    "unat (sh_len hdr) = length body + 24" "length (hmac key (hdr_wire hdr @ body)) = 20" "mb_pos mb < 2 ^ 30"
  shows "\<exists>m4. stun_add_mi hmac al key pad (mb_pos mb) hdr (0, m3) = Some (0, m4) \<and>
    written mb (hdr_wire hdr @ body @ attr_wire pad tid STUN_ATTR_MSG_INTEGRITY (SV_mi (hmac key (hdr_wire hdr @ body)))) m4"
proof -
  let ?m = "SV_mi (hmac key (hdr_wire hdr @ body))"
  have n: "length (hdr_wire hdr) = 20" by (rule hdr_wire_length [OF assms(4)])
  have l: "unat (sh_len hdr) < 65536" using unsigned_less [of "sh_len hdr"] by simp
  have p: "mb_pos m3 = mb_pos mb + 20 + length body" using written_pos [OF assms(3)] n by simp
  have "\<exists>m4. stun_attr_encode al m3 STUN_ATTR_MSG_INTEGRITY ?m None pad = Some (0, m4) \<and> written m3 (attr_wire pad None STUN_ATTR_MSG_INTEGRITY ?m) m4"
    by (rule stun_attr_encode_written [OF assms(1) written_wf [OF assms(3)]])
      (use assms(6,7) p l assms(5) attr_wire_mi [OF assms(6), of pad None] in \<open>auto simp: val_ok_def\<close>)
  then obtain m4 where 4: "stun_attr_encode al m3 STUN_ATTR_MSG_INTEGRITY ?m None pad = Some (0, m4)"
    "written m3 (attr_wire pad None STUN_ATTR_MSG_INTEGRITY ?m) m4" by blast
  have q: "m3\<lparr>mb_pos := mb_pos mb + 20 + length body\<rparr> = m3" using p by simp
  have "stun_add_mi hmac al key pad (mb_pos mb) hdr (0, m3) = Some (0, m4)"
    using 4(1) mbuf_rest_written [OF assms(3,2)] assms(5,7) l q by (simp add: stun_add_mi_def Let_def ac_simps)
  moreover have "written mb (hdr_wire hdr @ body @ attr_wire pad tid STUN_ATTR_MSG_INTEGRITY ?m) m4"
    using written_trans [OF assms(3) 4(2)] attr_wire_tid [of STUN_ATTR_MSG_INTEGRITY pad None ?m tid] by simp
  ultimately show ?thesis by blast
qed

lemma stun_add_fp_written:
  assumes "mem_ok al" "mb_pos mb = mb_end mb" "written mb (hdr_wire hdr @ body) m4" "hdr_typed hdr"
    "hdr1 = hdr\<lparr>sh_len := of_nat (length body + 8)\<rparr>" "hdr_typed hdr1" "length body + 8 < 65536" "mb_pos mb < 2 ^ 30"
  shows "\<exists>m5. stun_add_fp al pad (mb_pos mb) hdr (0, m4) = Some (0, m5) \<and>
    written mb (hdr_wire hdr1 @ body @ attr_wire pad tid STUN_ATTR_FINGERPRINT (SV_u32 (fingerprint (hdr_wire hdr1 @ body)))) m5"
proof -
  let ?m = "SV_u32 (fingerprint (hdr_wire hdr1 @ body))"
  have n: "length (hdr_wire hdr) = 20" "length (hdr_wire hdr1) = 20" using hdr_wire_length assms(4,6) by auto
  have p: "mb_pos m4 = mb_pos mb + 20 + length body" using written_pos [OF assms(3)] n by simp
  have "szadd (szsub (szsub (mb_pos m4) (mb_pos mb)) 20) 8 = length body + 8" using p assms(7,8) by simp
  then have h1: "hdr\<lparr>sh_len := of_nat (szadd (szsub (szsub (mb_pos m4) (mb_pos mb)) 20) 8)\<rparr> = hdr1" using assms(5) by simp
  have "emits al (m4\<lparr>mb_pos := mb_pos mb\<rparr>) (hdr_wire hdr1) (stun_hdr_encode al (m4\<lparr>mb_pos := mb_pos mb\<rparr>) hdr1)"
    by (rule stun_hdr_encode_emits) (use assms(6,8) written_wf [OF assms(3)] in auto)
  from emits_ex [OF assms(1) this] obtain mh where h: "stun_hdr_encode al (m4\<lparr>mb_pos := mb_pos mb\<rparr>) hdr1 = (0, mh)"
    "written (m4\<lparr>mb_pos := mb_pos mb\<rparr>) (hdr_wire hdr1) mh" by blast
  define m where "m = mh\<lparr>mb_pos := mb_pos mb + 20 + length body\<rparr>"
  have w: "written mb (hdr_wire hdr1 @ body) m" using written_rewrite [OF assms(3) h(2)] n by (simp add: m_def)
  have "\<exists>m5. stun_attr_encode al m STUN_ATTR_FINGERPRINT ?m None pad = Some (0, m5) \<and> written m (attr_wire pad None STUN_ATTR_FINGERPRINT ?m) m5"
    by (rule stun_attr_encode_written [OF assms(1) written_wf [OF w]])
      (use assms(7,8) in \<open>auto simp: val_ok_def attr_wire_fp m_def\<close>)
  then obtain m5 where 5: "stun_attr_encode al m STUN_ATTR_FINGERPRINT ?m None pad = Some (0, m5)"
    "written m (attr_wire pad None STUN_ATTR_FINGERPRINT ?m) m5" by blast
  have u: "unat (sh_len hdr1) = length body + 8" using assms(5,7) by (simp add: unat_of_nat del: of_nat_add)
  have r: "mbuf_rest (mh\<lparr>mb_pos := mb_pos mb\<rparr>) = Some (hdr_wire hdr1 @ body)"
    using mbuf_rest_written [OF w assms(2)] by (simp add: m_def)
  have "stun_add_fp al pad (mb_pos mb) hdr (0, m4) = Some (0, m5)"
    using 5(1) r h(1) u assms(8,7) unfolding stun_add_fp_def Let_def snd_conv h1
    by (simp add: err_or_def m_def ac_simps)
  moreover have "written mb (hdr_wire hdr1 @ body @ attr_wire pad tid STUN_ATTR_FINGERPRINT ?m) m5"
    using written_trans [OF w 5(2)] attr_wire_tid [of STUN_ATTR_FINGERPRINT pad None ?m tid] by simp
  ultimately show ?thesis by blast
qed

lemma stun_attrs_decodes:
  assumes "mem_ok al" "length tid = 12" "attrs_ok as" "readable mb" "mb_left mb = attrs_wire pad tid as"
    "length (attrs_wire pad tid as) < fuel" "length (attrs_wire pad tid as) < 65536"
  shows "\<exists>mb'. stun_attrs_decode al tid 0 fuel ua attrs mb = (Inr (attrs @ map (\<lambda>(ty, v). \<lparr>sa_type = ty, sa_v = v\<rparr>) as, ua), mb')"
  using assms(3-7)
proof (induction as arbitrary: mb fuel attrs)
  case Nil
  then show ?case
    by (cases fuel) (auto simp: dec_bind_def dec_left_def dec_return_def mbuf_get_left_len [OF readable_wf])
next
  case (Cons a as)
  obtain ty v where a: "a = (ty, v)" by fastforce
  obtain f where f: "fuel = Suc f" using Cons.prems(4) by (cases fuel) auto
  let ?w = "attr_wire pad (Some tid) ty v"
  have l: "mb_left mb = ?w @ attrs_wire pad tid as" using Cons.prems(3) a by simp
  have "decodes (stun_attr_decode al tid ua) ?w (\<lparr>sa_type = ty, sa_v = v\<rparr>, ua)"
    by (rule stun_attr_decodes) (use assms(1,2) Cons.prems a in \<open>auto simp: attrs_ok_def\<close>)
  from decodesD [OF this Cons.prems(2) l]
  have d: "stun_attr_decode al tid ua mb = (Inr (\<lparr>sa_type = ty, sa_v = v\<rparr>, ua), mb_adv mb (length ?w))" .
  have left: "\<not> szsub (mbuf_get_left mb) 0 < 4"
    using attr_wire_length [of pad "Some tid" ty v] l mbuf_get_left_len [OF readable_wf [OF Cons.prems(2)]] left_bound [OF readable_wf [OF Cons.prems(2)]]
    by simp
  have "\<exists>mb'. stun_attrs_decode al tid 0 f ua (attrs @ [\<lparr>sa_type = ty, sa_v = v\<rparr>]) (mb_adv mb (length ?w)) =
      (Inr ((attrs @ [\<lparr>sa_type = ty, sa_v = v\<rparr>]) @ map (\<lambda>(ty, v). \<lparr>sa_type = ty, sa_v = v\<rparr>) as, ua), mb')"
    by (rule Cons.IH) (use Cons.prems a f l readable_adv [OF Cons.prems(2), of "length ?w"] attr_wire_length [of pad "Some tid" ty v] in \<open>auto simp: attrs_ok_def\<close>)
  then show ?case using d left f a by (auto simp: dec_bind_def dec_left_def)
qed

lemma hdr_decodes:
  assumes "readable mb" "mb_left mb = hdr_wire hdr @ rest" "hdr_typed hdr" "unat (sh_len hdr) \<le> length rest"
  shows "stun_hdr_decode mb = (Inr hdr, mb_adv mb 20)"
proof -
  have t: "sh_type hdr AND 0xc000 = 0" "sh_len hdr AND 3 = 0" "length (sh_tid hdr) = 12" using assms(3) by (auto simp: hdr_typed_def)
  have r: "readable (mb_adv mb 2)" "readable (mb_adv mb 4)" "readable (mb_adv mb 8)" "readable (mb_adv mb 20)"
    using readable_adv [OF assms(1)] assms(2) hdr_wire_length [OF assms(3)] by auto
  have l: "mb_left mb = be16 (sh_type hdr) @ be16 (sh_len hdr) @ be32 (sh_cookie hdr) @ sh_tid hdr @ rest"
    using assms(2) by (simp add: hdr_wire_def)
  then have l2: "mb_left (mb_adv mb 2) = be16 (sh_len hdr) @ be32 (sh_cookie hdr) @ sh_tid hdr @ rest"
    "mb_left (mb_adv mb 4) = be32 (sh_cookie hdr) @ sh_tid hdr @ rest" "mb_left (mb_adv mb 8) = sh_tid hdr @ rest"
    "mb_left (mb_adv mb 20) = rest" using t(3) by simp_all
  have 1: "get_be16 mb = (Inr (sh_type hdr), mb_adv mb 2)" using decodesD [OF decodes_get(2) assms(1) l] by simp
  have 2: "get_be16 (mb_adv mb 2) = (Inr (sh_len hdr), mb_adv mb 4)" using decodesD [OF decodes_get(2) r(1) l2(1)] by simp
  have 3: "get_be32 (mb_adv mb 4) = (Inr (sh_cookie hdr), mb_adv mb 8)" using decodesD [OF decodes_get(3) r(2) l2(2)] by simp
  have 4: "get_mem 12 (mb_adv mb 8) = (Inr (sh_tid hdr), mb_adv mb 20)" using decodesD [OF decodes_mem [OF t(3)] r(3) l2(3)] t(3) by simp
  have "mbuf_get_left mb = 20 + length rest" "mbuf_get_left (mb_adv mb 20) = length rest"
    using mbuf_get_left_len [OF readable_wf [OF assms(1)]] mbuf_get_left_len [OF readable_wf [OF r(4)]] l2(4) assms(2) hdr_wire_length [OF assms(3)] by auto
  then show ?thesis
    unfolding stun_hdr_decode_def dec_bind_def dec_need_def dec_return_def using 1 2 3 4 t assms(4) by simp
qed

lemma stun_msg_decodes:
  assumes "mem_ok al" "readable mb" "mb_left mb = hdr_wire hdr @ attrs_wire pad (sh_tid hdr) as" "hdr_typed hdr"
    "unat (sh_len hdr) = length (attrs_wire pad (sh_tid hdr) as)" "attrs_ok as"
  shows "stun_msg_decode al ua mb = (Inr (\<lparr>sm_hdr = hdr, sm_attrl = map (\<lambda>(ty, v). \<lparr>sa_type = ty, sa_v = v\<rparr>) as,
    sm_mb = mb, sm_start = mb_pos mb\<rparr>, map_option (\<lambda>_. []) ua), mb)"
proof -
  let ?w = "attrs_wire pad (sh_tid hdr) as"
  have h: "stun_hdr_decode mb = (Inr hdr, mb_adv mb 20)" by (rule hdr_decodes [OF assms(2-4)]) (simp add: assms(5))
  have n: "length (hdr_wire hdr) = 20" by (rule hdr_wire_length [OF assms(4)])
  have r: "readable (mb_adv mb 20)" "mb_left (mb_adv mb 20) = ?w" using readable_adv [OF assms(2), of 20] assms(3) n by auto
  have "unat (sh_len hdr) < 65536" using unsigned_less [of "sh_len hdr"] by simp
  then have l: "length ?w < 65536" using assms(5) by simp
  obtain mb' where d: "stun_attrs_decode al (sh_tid hdr) 0 (Suc (length ?w)) (map_option (\<lambda>_. []) ua) [] (mb_adv mb 20) =
      (Inr (map (\<lambda>(ty, v). \<lparr>sa_type = ty, sa_v = v\<rparr>) as, map_option (\<lambda>_. []) ua), mb')"
    using stun_attrs_decodes [OF assms(1) _ assms(6) r, of "Suc (length ?w)" "map_option (\<lambda>_. []) ua" "[]"] l assms(4)
    by (auto simp: hdr_typed_def)
  obtain a where a: "mem_alloc al STUN_MSG_SIZEOF = Some a" using mem_alloc_total [OF assms(1), of STUN_MSG_SIZEOF] by (auto simp: MEM_SIZE_MAX_def)
  have left: "mbuf_get_left (mb_adv mb 20) = length ?w" using mbuf_get_left_len [OF readable_wf [OF r(1)]] by (simp only: r(2))
  obtain r' mb2 where m: "stun_msg_decode al ua mb = (r', mb2)" by fastforce
  have "r' = Inr (\<lparr>sm_hdr = hdr, sm_attrl = map (\<lambda>(ty, v). \<lparr>sa_type = ty, sa_v = v\<rparr>) as,
    sm_mb = mb2, sm_start = mb_pos mb\<rparr>, map_option (\<lambda>_. []) ua)"
    using m h a d left assms(5) unfolding stun_msg_decode_def
    by (auto simp: dec_bind_def dec_alloc_def dec_left_def dec_return_def Let_def simp del: stun_attrs_decode.simps)
  then show ?thesis using m stun_msg_decode_step(1) [OF assms(2) m] by simp
qed

section \<open>Encoding a message\<close>

text \<open>The header of a message with \<open>n\<close> bytes of attributes, and the attributes that the encoder adds.\<close>

definition hdr_of :: "16 word \<Rightarrow> byte \<Rightarrow> byte list \<Rightarrow> nat \<Rightarrow> stun_hdr" where
  "hdr_of meth cls tid n = \<lparr>sh_type = STUN_TYPE meth cls, sh_len = of_nat n, sh_cookie = STUN_MAGIC_COOKIE, sh_tid = tid\<rparr>"

definition with_mi ::
  "(byte list \<Rightarrow> byte list \<Rightarrow> byte list) \<Rightarrow> (nat \<Rightarrow> stun_hdr) \<Rightarrow> byte \<Rightarrow> byte list \<Rightarrow> byte list option \<Rightarrow> (16 word \<times> stun_val) list \<Rightarrow> (16 word \<times> stun_val) list" where
  "with_mi hmac H pad tid key as =
     (case key of None \<Rightarrow> as
      | Some k \<Rightarrow> let bs = attrs_wire pad tid as in as @ [(STUN_ATTR_MSG_INTEGRITY, SV_mi (hmac k (hdr_wire (H (length bs + 24)) @ bs)))])"

definition with_fp :: "(nat \<Rightarrow> stun_hdr) \<Rightarrow> byte \<Rightarrow> byte list \<Rightarrow> bool \<Rightarrow> (16 word \<times> stun_val) list \<Rightarrow> (16 word \<times> stun_val) list" where
  "with_fp H pad tid fp as =
     (if fp then let bs = attrs_wire pad tid as in as @ [(STUN_ATTR_FINGERPRINT, SV_u32 (fingerprint (hdr_wire (H (length bs + 8)) @ bs)))] else as)"

definition with_ec :: "(16 word \<times> byte list) option \<Rightarrow> (16 word \<times> stun_val option) list \<Rightarrow> (16 word \<times> stun_val) list" where
  "with_ec ec as = (case ec of None \<Rightarrow> [] | Some (code, reason) \<Rightarrow> [(STUN_ATTR_ERR_CODE, SV_err code reason)]) @ present as"

lemma attrs_wire_mod4: "length (attrs_wire pad tid as) mod 4 = 0"
proof (induction as)
  case (Cons a as)
  obtain ty v where a: "a = (ty, v)" by fastforce
  define n where "n = length (val_wire (stun_attr_kind ty) (Some tid) v @ val_fill v)"
  have "length (attr_wire pad (Some tid) ty v) = 4 + (n + length (padding pad n))" by (simp add: attr_wire_def Let_def n_def)
  then have "length (attr_wire pad (Some tid) ty v) mod 4 = 0" using length_padding(1) [of n pad] by simp
  then show ?case using Cons a by (simp add: mod_add_eq [symmetric])
qed simp

lemma hdr_of_typed: "length tid = 12 \<Longrightarrow> n < 65536 \<Longrightarrow> n mod 4 = 0 \<Longrightarrow> hdr_typed (hdr_of meth cls tid n) \<and> unat (sh_len (hdr_of meth cls tid n)) = n"
  by (simp add: hdr_typed_def hdr_of_def STUN_TYPE_typed and_3_unat unat_of_nat)

lemma with_mi_length:
  assumes "\<And>k m. length (hmac k m) = 20"
  shows "length (attrs_wire pad tid (with_mi hmac H pad tid key as)) = length (attrs_wire pad tid as) + (if key = None then 0 else 24)"
  using assms by (auto simp: with_mi_def Let_def attr_wire_mi split: option.splits)

lemma with_fp_length: "length (attrs_wire pad tid (with_fp H pad tid fp as)) = length (attrs_wire pad tid as) + (if fp then 8 else 0)"
  by (simp add: with_fp_def Let_def attr_wire_fp)

lemma stun_attrs_written:
  assumes "mem_ok al" "mbuf_wf mb" "attrs_ok (with_ec ec as)" "mb_pos mb + length (attrs_wire pad tid (with_ec ec as)) < 2 ^ 31"
  shows "\<exists>r0 mb1. (case ec of None \<Rightarrow> Some (0, mb) | Some (code, reason) \<Rightarrow> stun_attr_encode al mb STUN_ATTR_ERR_CODE (SV_err code reason) None pad) = Some r0 \<and>
    stun_attrs_encode al tid pad as r0 = Some (0, mb1) \<and> wrote mb (attrs_wire pad tid (with_ec ec as)) mb1"
proof (cases ec)
  case None
  have "wrote mb [] mb" by (simp add: wrote_def)
  from stun_attrs_encode_wrote [OF assms(1) this assms(2), of as pad tid] assms(3,4) None show ?thesis by (auto simp: with_ec_def)
next
  case (Some x)
  obtain code reason where x: "x = (code, reason)" by fastforce
  let ?v = "SV_err code reason"
  have t: "attr_wire pad (Some tid) STUN_ATTR_ERR_CODE ?v = attr_wire pad None STUN_ATTR_ERR_CODE ?v" by (rule attr_wire_tid) simp
  have ok: "val_ok K_err ?v" "attrs_ok (present as)"
    and l: "mb_pos mb + length (attr_wire pad None STUN_ATTR_ERR_CODE ?v) + length (attrs_wire pad tid (present as)) < 2 ^ 31"
    using assms(3,4) Some x t by (auto simp: with_ec_def attrs_ok_def)
  obtain mb1 where 1: "stun_attr_encode al mb STUN_ATTR_ERR_CODE ?v None pad = Some (0, mb1)"
    "written mb (attr_wire pad None STUN_ATTR_ERR_CODE ?v) mb1"
    using stun_attr_encode_written [OF assms(1,2), of STUN_ATTR_ERR_CODE ?v pad None] ok l by auto
  then have "wrote mb (attr_wire pad None STUN_ATTR_ERR_CODE ?v) mb1" by (simp add: wrote_def)
  from stun_attrs_encode_wrote [OF assms(1) this assms(2) ok(2) l] 1(1) show ?thesis using Some x t by (auto simp: with_ec_def)
qed

lemma stun_msg_vencode_written:
  assumes "mem_ok al" "mbuf_wf mb" "mb_pos mb = mb_end mb" "mb_pos mb < 2 ^ 30" "length tid = 12" "\<And>k m. length (hmac k m) = 20"
    "attrs_ok (with_ec ec as)" "length (attrs_wire pad tid (with_ec ec as)) + 32 < 65536"
    "H = hdr_of meth cls tid" "as5 = with_fp H pad tid fp (with_mi hmac H pad tid key (with_ec ec as))"
  shows "\<exists>mb'. stun_msg_vencode hmac al mb meth cls tid ec key fp pad as = Some (0, mb') \<and>
    written mb (hdr_wire (H (length (attrs_wire pad tid as5))) @ attrs_wire pad tid as5) mb'"
proof -
  define body where "body = attrs_wire pad tid (with_ec ec as)"
  define as4 where "as4 = with_mi hmac H pad tid key (with_ec ec as)"
  define n where "n = length body + (if key = None then 0 else 24)"
  let ?mb0 = "mb\<lparr>mb_pos := mb_pos mb + 20\<rparr>"
  have b: "length body + 32 < 65536" using assms(8) by (simp add: body_def)
  have n4: "n mod 4 = 0" "n < 65536" using attrs_wire_mod4 [of pad tid "with_ec ec as"] b by (auto simp: n_def body_def)
  have H: "hdr_typed (H n)" "unat (sh_len (H n)) = n" using hdr_of_typed [OF assms(5) n4(2,1)] assms(9) by auto
  have l4: "length (attrs_wire pad tid as4) = n" using with_mi_length [of hmac, OF assms(6)] by (simp add: as4_def n_def body_def)
  obtain r0 m1 where 1: "(case ec of None \<Rightarrow> Some (0, ?mb0) | Some (code, reason) \<Rightarrow> stun_attr_encode al ?mb0 STUN_ATTR_ERR_CODE (SV_err code reason) None pad) = Some r0"
    "stun_attrs_encode al tid pad as r0 = Some (0, m1)" "wrote ?mb0 body m1"
    using stun_attrs_written [OF assms(1) _ assms(7), of ?mb0 pad tid] assms(2,4,8) by (auto simp: body_def)
  have p1: "mb_pos m1 = mb_pos mb + 20 + length body" "mbuf_wf m1" using wrote_pos [OF 1(3)] wrote_wf [OF 1(3)] assms(2) by auto
  have "emits al (m1\<lparr>mb_pos := mb_pos mb\<rparr>) (hdr_wire (H n)) (stun_hdr_encode al (m1\<lparr>mb_pos := mb_pos mb\<rparr>) (H n))"
    by (rule stun_hdr_encode_emits) (use p1 assms(4) H in auto)
  from emits_ex [OF assms(1) this] obtain m2 where 2: "stun_hdr_encode al (m1\<lparr>mb_pos := mb_pos mb\<rparr>) (H n) = (0, m2)"
    "written (m1\<lparr>mb_pos := mb_pos mb\<rparr>) (hdr_wire (H n)) m2" by blast
  have hl: "length (hdr_wire (H n)) = 20" by (rule hdr_wire_length [OF H(1)])
  define m3 where "m3 = m2\<lparr>mb_pos := mb_pos mb + 20 + length body\<rparr>"
  have 3: "written mb (hdr_wire (H n) @ body) m3"
    using wrote_header [of mb "hdr_wire (H n)" body m1 m2] 1(3) 2(2) hl by (simp add: m3_def)
  have "\<exists>m4. (case key of None \<Rightarrow> Some (0, m3) | Some k \<Rightarrow> stun_add_mi hmac al k pad (mb_pos mb) (H n) (0, m3)) = Some (0, m4) \<and>
      written mb (hdr_wire (H n) @ attrs_wire pad tid as4) m4"
  proof (cases key)
    case (Some k)
    then show ?thesis
      using stun_add_mi_written [where hmac = hmac and key = k and pad = pad and tid = "Some tid", OF assms(1,3) 3 H(1) _ assms(6) assms(4)] H(2)
      by (simp add: as4_def with_mi_def n_def body_def Let_def)
  qed (use 3 in \<open>simp add: as4_def with_mi_def body_def\<close>)
  then obtain m4 where 4: "(case key of None \<Rightarrow> Some (0, m3) | Some k \<Rightarrow> stun_add_mi hmac al k pad (mb_pos mb) (H n) (0, m3)) = Some (0, m4)"
      "written mb (hdr_wire (H n) @ attrs_wire pad tid as4) m4" by blast
  have "\<exists>m5. (if fp then stun_add_fp al pad (mb_pos mb) (H n) (0, m4) else Some (0, m4)) = Some (0, m5) \<and>
      written mb (hdr_wire (H (length (attrs_wire pad tid as5))) @ attrs_wire pad tid as5) m5"
  proof (cases fp)
    case True
    have h5: "H (n + 8) = (H n)\<lparr>sh_len := of_nat (length (attrs_wire pad tid as4) + 8)\<rparr>" using assms(9) l4 by (simp add: hdr_of_def)
    have "(n + 8) mod 4 = 0" "n + 8 < 65536" using n4(1) b by (presburger, simp add: n_def)
    then have t5: "hdr_typed (H (n + 8))" using hdr_of_typed [OF assms(5)] assms(9) by simp
    show ?thesis
      using stun_add_fp_written [where pad = pad and tid = "Some tid", OF assms(1,3) 4(2) H(1) h5 t5 _ assms(4)] l4 b True
      by (simp add: assms(10) with_fp_def as4_def [symmetric] attr_wire_fp n_def Let_def split: if_splits)
  qed (use 4 l4 in \<open>simp add: assms(10) with_fp_def as4_def\<close>)
  then obtain m5 where 5: "(if fp then stun_add_fp al pad (mb_pos mb) (H n) (0, m4) else Some (0, m4)) = Some (0, m5)"
      "written mb (hdr_wire (H (length (attrs_wire pad tid as5))) @ attrs_wire pad tid as5) m5" by blast
  have len: "szadd (szsub (szsub (mb_pos m1) (mb_pos mb)) 20) (if key \<noteq> None then 24 else 0) = n" using p1(1) assms(4) b by (simp add: n_def)
  have hdr: "\<lparr>sh_type = STUN_TYPE meth cls, sh_len = of_nat n, sh_cookie = STUN_MAGIC_COOKIE, sh_tid = tid\<rparr> = H n" using assms(9) by (simp add: hdr_of_def)
  have m3: "m2\<lparr>mb_pos := szsub (szadd (mb_pos m2) (unat (sh_len (H n)))) (if key \<noteq> None then 24 else 0)\<rparr> = m3"
    using written_pos [OF 2(2)] hl H(2) assms(4) b by (simp add: m3_def n_def)
  have e2: "err_or (0, m1) (\<lambda>mb'. stun_hdr_encode al (mb'\<lparr>mb_pos := mb_pos mb\<rparr>) (H n)) = (0, m2)" using 2(1) by (simp add: err_or_def)
  have mb0: "szadd (mb_pos mb) 20 = mb_pos mb + 20" using assms(4) by simp
  have "stun_msg_vencode hmac al mb meth cls tid ec key fp pad as = Some (0, m5)"
    unfolding stun_msg_vencode_def Let_def mb0 1(1,2) Option.bind.bind_lunit snd_conv fst_conv len hdr e2 m3 4(1) 5(1) ..
  then show ?thesis using 5(2) by blast
qed

text \<open>What the receiver finds in a message that was encoded with a key or a fingerprint.\<close>

lemma stun_find_added:
  assumes "list_all (\<lambda>(ty, v). ty \<noteq> STUN_ATTR_MSG_INTEGRITY \<and> ty \<noteq> STUN_ATTR_FINGERPRINT) as"
    "sm_attrl msg = map (\<lambda>(ty, v). \<lparr>sa_type = ty, sa_v = v\<rparr>) (with_fp H pad tid fp (with_mi hmac H pad tid key as))"
  shows "stun_msg_attr msg STUN_ATTR_FINGERPRINT =
      (if fp then let bs = attrs_wire pad tid (with_mi hmac H pad tid key as)
         in Some \<lparr>sa_type = STUN_ATTR_FINGERPRINT, sa_v = SV_u32 (fingerprint (hdr_wire (H (length bs + 8)) @ bs))\<rparr> else None)"
    "stun_msg_attr msg STUN_ATTR_MSG_INTEGRITY =
      (case key of None \<Rightarrow> None
       | Some k \<Rightarrow> let bs = attrs_wire pad tid as
           in Some \<lparr>sa_type = STUN_ATTR_MSG_INTEGRITY, sa_v = SV_mi (hmac k (hdr_wire (H (length bs + 24)) @ bs))\<rparr>)"
proof -
  have n: "find (\<lambda>a. sa_type a = ty) (map (\<lambda>(ty, v). \<lparr>sa_type = ty, sa_v = v\<rparr>) as) = None"
    if "ty = STUN_ATTR_MSG_INTEGRITY \<or> ty = STUN_ATTR_FINGERPRINT" for ty
    using assms(1) that by (auto simp: find_None_iff list_all_iff)
  have a: "find p (xs @ ys) = (case find p xs of None \<Rightarrow> find p ys | Some x \<Rightarrow> Some x)" for p and xs ys :: "stun_attr list"
    by (induction xs) auto
  show "stun_msg_attr msg STUN_ATTR_FINGERPRINT =
      (if fp then let bs = attrs_wire pad tid (with_mi hmac H pad tid key as)
         in Some \<lparr>sa_type = STUN_ATTR_FINGERPRINT, sa_v = SV_u32 (fingerprint (hdr_wire (H (length bs + 8)) @ bs))\<rparr> else None)"
    "stun_msg_attr msg STUN_ATTR_MSG_INTEGRITY =
      (case key of None \<Rightarrow> None
       | Some k \<Rightarrow> let bs = attrs_wire pad tid as
           in Some \<lparr>sa_type = STUN_ATTR_MSG_INTEGRITY, sa_v = SV_mi (hmac k (hdr_wire (H (length bs + 24)) @ bs))\<rparr>)"
    using n by (auto simp: stun_msg_attr_def assms(2) with_fp_def with_mi_def a Let_def split: option.splits)
qed

text \<open>The bytes that are protected by the integrity attribute of such a message are the ones that the sender hashed.\<close>

lemma mi_input_sent:
  assumes "length tid = 12" "\<And>k m. length (hmac k m) = 20" "key = Some k" "H = hdr_of meth cls tid"
    "as4 = with_mi hmac H pad tid key as" "as5 = with_fp H pad tid fp as4" "length (attrs_wire pad tid as) + 32 < 65536"
    "mb_left (sm_mb msg) = hdr_wire (H (length (attrs_wire pad tid as5))) @ attrs_wire pad tid as5"
    "sm_hdr msg = H (length (attrs_wire pad tid as5))" "(stun_msg_attr msg STUN_ATTR_FINGERPRINT = None) = (\<not> fp)"
  shows "mi_input msg = hdr_wire (H (length (attrs_wire pad tid as) + 24)) @ attrs_wire pad tid as"
proof -
  let ?n = "length (attrs_wire pad tid as)"
  have l4: "length (attrs_wire pad tid as4) = ?n + 24" using with_mi_length [of hmac, OF assms(2)] assms(3,5) by simp
  have l5: "length (attrs_wire pad tid as5) = ?n + 24 + (if fp then 8 else 0)" using with_fp_length l4 assms(6) by simp
  obtain xs where as4: "attrs_wire pad tid as4 = attrs_wire pad tid as @ xs" using assms(3,5) by (simp add: with_mi_def Let_def)
  obtain ys where as5: "attrs_wire pad tid as5 = attrs_wire pad tid as4 @ ys" using assms(6) by (cases fp) (auto simp: with_fp_def Let_def)
  have H: "H (?n + 24) = (sm_hdr msg)\<lparr>sh_len := sh_len (sm_hdr msg) - (if stun_msg_attr msg STUN_ATTR_FINGERPRINT = None then 0 else 8)\<rparr>"
    using assms(4,9,10) l5 by (simp add: hdr_of_def)
  have w: "length (hdr_wire (H m)) = 20" for m using assms(1,4) by (simp add: hdr_wire_def hdr_of_def)
  have u: "unat (sh_len (H (?n + 24))) = ?n + 24" using assms(4,7) by (simp add: hdr_of_def unat_of_nat del: of_nat_add)
  show ?thesis unfolding mi_input_def Let_def H [symmetric] u assms(8) using w as4 as5 by simp
qed

text \<open>
  C20.  STUN messages survive the wire.  With memory available, a message encoded behind the data of a
  buffer, with an optional error code, any list of attributes that can be sent, and optionally a key
  and a fingerprint, is written without an error; \<^verbatim>\<open>stun_msg_decode\<close> on those bytes gives the
  method, the cookie and the transaction identifier, the class with bits 4 and 6 of the method mixed
  into it (no method in use has them), the same attributes in the same order, then the
  integrity attribute and the fingerprint where they were asked for, and nothing unknown; the
  receiver's \<^verbatim>\<open>stun_msg_chk_mi\<close> with the same key and \<^verbatim>\<open>stun_msg_chk_fingerprint\<close> accept it.
\<close>

theorem stun_msg_roundtrip:
  assumes "mem_ok al" "mbuf_wf mb" "mb_pos mb = mb_end mb" "mb_pos mb < 2 ^ 30" "length tid = 12" "\<And>k m. length (hmac k m) = 20"
    "attrs_ok (with_ec ec as)" "list_all (\<lambda>(ty, v). ty \<noteq> STUN_ATTR_MSG_INTEGRITY \<and> ty \<noteq> STUN_ATTR_FINGERPRINT) (with_ec ec as)"
    "length (attrs_wire pad tid (with_ec ec as)) + 32 < 65536"
  shows "\<exists>mb' msg. stun_msg_vencode hmac al mb meth cls tid ec key fp pad as = Some (0, mb') \<and>
    stun_msg_decode al (Some []) (mb'\<lparr>mb_pos := mb_pos mb\<rparr>) = (Inr (msg, Some []), mb'\<lparr>mb_pos := mb_pos mb\<rparr>) \<and>
    stun_msg_method msg = meth AND 0xfff \<and>
    stun_msg_class msg = (ucast cls AND 3) OR (drop_bit 6 meth AND 1) OR (drop_bit 3 meth AND 2) \<and>
    stun_msg_mcookie msg \<and> sh_tid (sm_hdr msg) = tid \<and>
    take (length (with_ec ec as)) (sm_attrl msg) = map (\<lambda>(ty, v). \<lparr>sa_type = ty, sa_v = v\<rparr>) (with_ec ec as) \<and>
    map sa_type (drop (length (with_ec ec as)) (sm_attrl msg)) =
      (if key = None then [] else [STUN_ATTR_MSG_INTEGRITY]) @ (if fp then [STUN_ATTR_FINGERPRINT] else []) \<and>
    (\<forall>k. key = Some k \<longrightarrow> stun_msg_chk_mi hmac al k msg = (0, msg)) \<and>
    (fp \<longrightarrow> stun_msg_chk_fingerprint msg = (0, msg))"
proof -
  define H where "H = hdr_of meth cls tid"
  define as4 where "as4 = with_mi hmac H pad tid key (with_ec ec as)"
  define as5 where "as5 = with_fp H pad tid fp as4"
  let ?w = "attrs_wire pad tid as5"
  obtain mb' where e: "stun_msg_vencode hmac al mb meth cls tid ec key fp pad as = Some (0, mb')"
    and w: "written mb (hdr_wire (H (length ?w)) @ ?w) mb'"
    using stun_msg_vencode_written [where hmac = hmac and key = key and fp = fp, OF assms(1-7,9) H_def as5_def [unfolded as4_def]] by blast
  define m where "m = mb'\<lparr>mb_pos := mb_pos mb\<rparr>"
  have r: "readable m" using w by (auto simp: written_def readable_def m_def)
  have left: "mb_left m = hdr_wire (H (length ?w)) @ ?w"
    using written_left [OF w] written_end [OF w] written_pos [OF w] assms(3) by (simp add: m_def)
  have l4: "length (attrs_wire pad tid as4) = length (attrs_wire pad tid (with_ec ec as)) + (if key = None then 0 else 24)"
    using with_mi_length [of hmac, OF assms(6)] by (simp add: as4_def)
  have l5: "length ?w = length (attrs_wire pad tid as4) + (if fp then 8 else 0)" using with_fp_length by (simp add: as5_def)
  have lw: "length ?w < 65536" using l4 l5 assms(9) by simp
  note typed = hdr_of_typed [OF assms(5) lw attrs_wire_mod4, of meth cls, folded H_def]
  have tid: "sh_tid (H (length ?w)) = tid" by (simp add: H_def hdr_of_def)
  have ok: "attrs_ok as5"
    using assms(6,7) by (auto simp: as5_def as4_def with_fp_def with_mi_def attrs_ok_def val_ok_def Let_def split: option.splits)
  define msg where "msg = \<lparr>sm_hdr = H (length ?w), sm_attrl = map (\<lambda>(ty, v). \<lparr>sa_type = ty, sa_v = v\<rparr>) as5, sm_mb = m, sm_start = mb_pos m\<rparr>"
  have d: "stun_msg_decode al (Some []) m = (Inr (msg, Some []), m)"
    using stun_msg_decodes [OF assms(1) r, of "H (length ?w)" pad as5 "Some []"] left typed tid ok by (simp add: msg_def)
  have t: "msg_typed msg" using stun_msg_decode_step(3) [OF r d refl] by simp
  have sel: "sm_hdr msg = H (length ?w)" "sm_mb msg = m" "sm_attrl msg = map (\<lambda>(ty, v). \<lparr>sa_type = ty, sa_v = v\<rparr>) as5" by (simp_all add: msg_def)
  note f = stun_find_added [OF assms(8) sel(3) [unfolded as5_def as4_def]]
  have fpn: "(stun_msg_attr msg STUN_ATTR_FINGERPRINT = None) = (\<not> fp)" using f(1) by (simp add: Let_def)
  have mi: "stun_msg_chk_mi hmac al k msg = (0, msg)" if k: "key = Some k" for k
    using stun_msg_chk_mi_spec [OF t, of hmac al k] f(2) k
      mi_input_sent [OF assms(5) assms(6) k H_def as4_def as5_def assms(9) left [folded sel(2)] sel(1) fpn] by (simp add: Let_def)
  have chk: "stun_msg_chk_fingerprint msg = (0, msg)" if fp
  proof -
    have "take (12 + unat (sh_len (sm_hdr msg))) (mb_left (sm_mb msg)) = hdr_wire (H (length (attrs_wire pad tid as4) + 8)) @ attrs_wire pad tid as4"
      using that typed l5 left hdr_wire_length [OF conjunct1 [OF typed]] by (simp add: sel as5_def with_fp_def Let_def)
    then show ?thesis using stun_msg_chk_fingerprint_spec [OF t] f(1) that by (simp add: Let_def as4_def [symmetric])
  qed
  have types: "map sa_type (drop (length (with_ec ec as)) (sm_attrl msg)) =
      (if key = None then [] else [STUN_ATTR_MSG_INTEGRITY]) @ (if fp then [STUN_ATTR_FINGERPRINT] else [])"
    and take: "take (length (with_ec ec as)) (sm_attrl msg) = map (\<lambda>(ty, v). \<lparr>sa_type = ty, sa_v = v\<rparr>) (with_ec ec as)"
    by (auto simp: sel as5_def as4_def with_fp_def with_mi_def Let_def split: option.splits)
  have "stun_msg_method msg = meth AND 0xfff"
    "stun_msg_class msg = (ucast cls AND 3) OR (drop_bit 6 meth AND 1) OR (drop_bit 3 meth AND 2)"
    "stun_msg_mcookie msg" "sh_tid (sm_hdr msg) = tid"
    by (simp_all add: stun_msg_method_def stun_msg_class_def stun_msg_type_def stun_msg_mcookie_def sel H_def hdr_of_def
        STUN_METHOD_TYPE STUN_CLASS_TYPE)
  then show ?thesis using e d take types mi chk by (auto simp: m_def)
qed

definition ex_hmac :: "byte list \<Rightarrow> byte list \<Rightarrow> byte list" where
  "ex_hmac k m = replicate 20 (sum_list k + sum_list m)"

definition ex_attrs :: "(16 word \<times> stun_val option) list" where
  "ex_attrs = [(0x8022, Some (SV_str [0x72, 0x65])), (0x0020, Some (SV_sa (sa_set_in 0x7f000001 5060))), (0x0024, None)]"

theorem stun_msg_roundtrip_witness:
  "\<exists>mb' msg. stun_msg_vencode ex_hmac (\<lambda>n. Some (\<lambda>i. 0)) mbuf_init 1 2 (replicate 12 7) None (Some [1, 2]) True 0 ex_attrs = Some (0, mb') \<and>
    stun_msg_decode (\<lambda>n. Some (\<lambda>i. 0)) (Some []) (mb'\<lparr>mb_pos := 0\<rparr>) = (Inr (msg, Some []), mb'\<lparr>mb_pos := 0\<rparr>) \<and>
    stun_msg_class msg = 2 \<and> map (\<lambda>a. unat (sa_type a)) (take (Suc (Suc 0)) (sm_attrl msg)) = [0x8022, 0x0020] \<and>
    stun_msg_chk_mi ex_hmac (\<lambda>n. Some (\<lambda>i. 0)) [1, 2] msg = (0, msg) \<and> stun_msg_chk_fingerprint msg = (0, msg)"
proof -
  let ?al = "\<lambda>n :: nat. Some (\<lambda>i :: nat. 0 :: byte)" and ?tid = "replicate 12 7 :: byte list"
  have al: "mem_ok ?al" by (simp add: mem_ok_def)
  have w: "with_ec None ex_attrs = [(0x8022, SV_str [0x72, 0x65]), (0x0020, SV_sa (sa_set_in 0x7f000001 5060))]"
    by (simp add: with_ec_def present_def ex_attrs_def)
  have k: "stun_attr_kind 0x8022 = K_str" "stun_attr_kind 0x0020 = K_xaddr" by (simp_all add: stun_attr_kind_def)
  have ok: "attrs_ok (with_ec None ex_attrs)" by (simp add: w attrs_ok_def k val_ok_def)
  have l: "length (attrs_wire 0 ?tid (with_ec None ex_attrs)) + 32 < 65536"
    by (simp add: w attr_wire_def val_wire_def val_fill_def k addr_wire_def padding_def)
  have h: "length (ex_hmac a b) = 20" for a b by (simp add: ex_hmac_def)
  show ?thesis
    using stun_msg_roundtrip [where hmac = ex_hmac and key = "Some [1, 2]" and fp = True and meth = 1 and cls = 2,
        OF al mbuf_wf_init _ _ _ h ok _ l]
    by (elim meta_impE exE) (auto simp: w)
qed

end
