(* ===== verification/Dns_Name.thy ===== *)
theory Dns_Name
  imports Wire Hash
begin

text \<open>
  Domain names of the DNS (\<^verbatim>\<open>src/dns/dname.c\<close>) with the compression by pointers to names that were
  written before.  A name is the bytes of a C string without the zero.  The table of names is the
  hash table as a list in the order of the insertions, with the bucket mask applied to the keys, as
  the lemmas on hash tables justify.
\<close>

section \<open>Names in the table\<close>

abbreviation (input) DOT :: byte where "DOT \<equiv> 46"
abbreviation (input) COMP_MASK :: byte where "COMP_MASK \<equiv> 0xc0"
abbreviation (input) OFFSET_MASK :: "16 word" where "OFFSET_MASK \<equiv> 0x3fff"
abbreviation (input) COMP_LOOP :: nat where "COMP_LOOP \<equiv> 255"

text \<open>Comparison without case, in the C locale: is the result zero?\<close>

definition lower :: "byte \<Rightarrow> byte" where
  "lower c = (if 65 \<le> c \<and> c \<le> 90 then c + 32 else c)"

definition str_caseeq :: "byte list \<Rightarrow> byte list \<Rightarrow> bool" where
  "str_caseeq s1 s2 \<longleftrightarrow> map lower s1 = map lower s2"

record dname =
  dn_pos :: nat
  dn_name :: "byte list"

text \<open>An element in the table has the key under which it was appended.\<close>

record dname_tab =
  dt_bsize :: "32 word"
  dt_list :: "(32 word \<times> dname) list"

definition str_key :: "byte list \<Rightarrow> 32 word" where
  "str_key name = (case hash_joaat_str_ci (name @ [0]) of None \<Rightarrow> 0 | Some h \<Rightarrow> h)"

abbreviation (input) DNAME_SIZEOF :: nat where "DNAME_SIZEOF \<equiv> 48"

definition dname_append :: "alloc \<Rightarrow> dname_tab option \<Rightarrow> byte list \<Rightarrow> nat \<Rightarrow> dname_tab option" where
  "dname_append al ht name pos =
     (case ht of
        None \<Rightarrow> None
      | Some t \<Rightarrow>
          if pos > unat OFFSET_MASK \<or> name = [] then Some t
          else if mem_alloc al DNAME_SIZEOF = None then Some t
          else if mem_alloc al (szadd (length name) 1) = None then Some t
          else Some (t\<lparr>dt_list := dt_list t @ [(str_key name, \<lparr>dn_pos = pos, dn_name = name\<rparr>)]\<rparr>))"

definition dname_lookup :: "dname_tab option \<Rightarrow> byte list \<Rightarrow> dname option" where
  "dname_lookup ht name =
     (case ht of
        None \<Rightarrow> None
      | Some t \<Rightarrow>
          map_option snd (find (\<lambda>(k, dn). k AND (dt_bsize t - 1) = str_key name AND (dt_bsize t - 1) \<and> str_caseeq (dn_name dn) name) (dt_list t)))"

section \<open>Encoding\<close>

definition dname_encode_pointer :: "alloc \<Rightarrow> mbuf \<Rightarrow> nat \<Rightarrow> errno \<times> mbuf" where
  "dname_encode_pointer al mb pos = mbuf_write_u16 al mb (htons (of_nat pos OR 0xc000))"

text \<open>\<^verbatim>\<open>mb->buf[pos] = v\<close>; outside of the block it is a fault.\<close>

definition buf_set :: "mbuf \<Rightarrow> nat \<Rightarrow> byte \<Rightarrow> mbuf option" where
  "buf_set mb pos v = map_option (\<lambda>b. mb\<lparr>mb_buf := b\<rparr>) (mem_write (mb_buf mb) pos [v])"

text \<open>
  The loop over the characters; \<open>pos\<close> is the place of the length of the label that is being
  written.
\<close>

fun dname_loop :: "alloc \<Rightarrow> nat \<Rightarrow> bool \<Rightarrow> nat \<Rightarrow> byte list \<Rightarrow> mbuf \<Rightarrow> dname_tab option \<Rightarrow> errno \<times> mbuf \<times> dname_tab option" where
  "dname_loop al start compr pos [] mb ht =
     (let lablen = szsub (szsub (mb_pos mb) pos) 1
      in if lablen = 0 then (0, mb, ht)
         else case buf_set mb pos (of_nat lablen) of
                None \<Rightarrow> (FAULT, mb, ht)
              | Some mb1 \<Rightarrow> let (err, mb2) = mbuf_write_u8 al mb1 0 in (err, mb2, ht))"
| "dname_loop al start compr pos (c # cs) mb ht =
     (let lablen = szsub (szsub (mb_pos mb) pos) 1
      in if c = DOT then
           if lablen = 0 then (EINVAL, mb, ht)
           else case buf_set mb pos (of_nat lablen) of
                  None \<Rightarrow> (FAULT, mb, ht)
                | Some mb1 \<Rightarrow>
                    (case (dname_lookup ht cs, compr) of
                       (Some dn, True) \<Rightarrow> let (err, mb2) = dname_encode_pointer al mb1 (dn_pos dn) in (err, mb2, ht)
                     | (found, _) \<Rightarrow>
                         let pos' = mb_pos mb1;
                             ht1 = (if found = None then dname_append al ht cs (szsub pos' start) else ht);
                             (err, mb2) = mbuf_write_u8 al mb1 0
                         in if err \<noteq> 0 then (err, mb2, ht1) else dname_loop al start compr pos' cs mb2 ht1)
         else
           let (err, mb1) = mbuf_write_u8 al mb c
           in if err \<noteq> 0 then (err, mb1, ht) else dname_loop al start compr pos cs mb1 ht)"

definition dns_dname_encode ::
  "alloc \<Rightarrow> mbuf \<Rightarrow> byte list \<Rightarrow> dname_tab option \<Rightarrow> nat \<Rightarrow> bool \<Rightarrow> errno \<times> mbuf \<times> dname_tab option" where
  "dns_dname_encode al mb name ht start compr =
     (case (dname_lookup ht name, compr) of
        (Some dn, True) \<Rightarrow> let (err, mb1) = dname_encode_pointer al mb (dn_pos dn) in (err, mb1, ht)
      | (found, _) \<Rightarrow>
          let pos = mb_pos mb;
              ht1 = (if found = None then dname_append al ht name (szsub pos start) else ht);
              (err, mb1) = mbuf_write_u8 al mb 0
          in if name = [DOT] \<or> err \<noteq> 0 then (err, mb1, ht1) else dname_loop al start compr pos name mb1 ht1)"

section \<open>Decoding\<close>

text \<open>
  The loop of the decoder: the characters collected in the array of 256 bytes, the number of
  pointers that were followed, and where to go on behind the first of them.  Every round follows a
  pointer or adds to the array, both of which are bounded.  The result is a C string, so it ends at a
  zero byte inside of a label.
\<close>

function dname_decode_loop :: "alloc \<Rightarrow> nat \<Rightarrow> byte list \<Rightarrow> nat \<Rightarrow> nat option \<Rightarrow> mbuf \<Rightarrow> (errno + byte list) \<times> mbuf" where
  "dname_decode_loop al start buf loopc compr mb =
     (if mb_pos mb < mb_end mb then
        case mem_read (mb_buf mb) (mb_pos mb) 1 of
          None \<Rightarrow> (Inl FAULT, mb)
        | Some bs \<Rightarrow>
            let len = hd bs;
                mb1 = mb\<lparr>mb_pos := mb_pos mb + 1\<rparr>
            in if len = 0 then
                 let mb2 = (case compr of None \<Rightarrow> mb1 | Some p \<Rightarrow> mb1\<lparr>mb_pos := p\<rparr>)
                 in (if mem_alloc al (length buf + 1) = None then Inl ENOMEM else Inr (takeWhile (\<lambda>c. c \<noteq> 0) buf), mb2)
               else if len AND COMP_MASK = COMP_MASK then
                 if loopc > COMP_LOOP then (Inl EINVAL, mb1)
                 else if mbuf_get_left mb < 2 then (Inl EINVAL, mb)
                 else let (w, mb2) = mbuf_read_u16 mb;
                          offset = ntohs w AND OFFSET_MASK
                      in dname_decode_loop al start buf (Suc loopc) (if compr = None then Some (mb_pos mb2) else compr)
                           (mb2\<lparr>mb_pos := szadd (unat offset) start\<rparr>)
               else if unat len > mbuf_get_left mb1 then (Inl EINVAL, mb1)
               else if unat len + length buf + 2 > 256 then (Inl EINVAL, mb1)
               else case mem_read (mb_buf mb1) (mb_pos mb1) (unat len) of
                      None \<Rightarrow> (Inl FAULT, mb1)
                    | Some label \<Rightarrow>
                        dname_decode_loop al start ((if buf = [] then [] else buf @ [DOT]) @ label) loopc compr
                          (mb1\<lparr>mb_pos := mb_pos mb1 + unat len\<rparr>)
      else (Inl EINVAL, mb))"
  by pat_completeness auto
termination
proof (relation "measure (\<lambda>(al, start, buf, loopc, compr, mb). (257 - loopc) + (256 - length buf))", goal_cases)
  case (3 al start buf loopc compr mb bs len mb1 label)
  then show ?case by (auto simp: mem_read_def unat_gt_0 split: if_splits)
qed auto

declare dname_decode_loop.simps [simp del]

definition dns_dname_decode :: "alloc \<Rightarrow> nat \<Rightarrow> byte list dec" where
  "dns_dname_decode al start = dname_decode_loop al start [] 0 None"

section \<open>Character strings\<close>

definition dns_cstr_encode :: "alloc \<Rightarrow> mbuf \<Rightarrow> byte list \<Rightarrow> errno \<times> mbuf" where
  "dns_cstr_encode al mb str =
     (let len = of_nat (length str) :: byte
      in err_or (mbuf_write_u8 al mb len) (\<lambda>mb. mbuf_write_mem al mb (take (unat len) str)))"

definition dns_cstr_decode :: "alloc \<Rightarrow> byte list dec" where
  "dns_cstr_decode al =
     dec_bind (dec_need 1 EINVAL) (\<lambda>_.
     dec_bind get_u8 (\<lambda>len.
     dec_bind (dec_need (unat len) EBADMSG) (\<lambda>_.
     (\<lambda>mb. case mbuf_strdup al mb (unat len) of (e, s, mb1) \<Rightarrow> (if e \<noteq> 0 then Inl e else Inr (takeWhile (\<lambda>c. c \<noteq> 0) s), mb1)))))"


section \<open>Safety\<close>

text \<open>
  An operation that either fails or advances inside of the data.  The decoder of names may leave the
  position anywhere when it fails.
\<close>

definition dec_sane :: "'a dec \<Rightarrow> bool" where
  "dec_sane d \<longleftrightarrow> (\<forall>mb. readable mb \<longrightarrow> fst (d mb) \<noteq> Inl FAULT \<and>
     (\<forall>x mb'. d mb = (Inr x, mb') \<longrightarrow> (\<exists>n \<le> length (mb_left mb). mb' = mb_adv mb n)))"

lemma dec_saneD:
  assumes "dec_sane d" "readable mb" "d mb = (r, mb')"
  shows "r \<noteq> Inl FAULT" "r = Inr x \<Longrightarrow> \<exists>n \<le> length (mb_left mb). mb' = mb_adv mb n \<and> readable mb'"
  using assms readable_adv [OF assms(2)] unfolding dec_sane_def by force+

lemma mem_read_ok: "mbuf_wf mb \<Longrightarrow> p + n \<le> mb_end mb \<Longrightarrow> \<exists>bs. mem_read (mb_buf mb) p n = Some bs \<and> length bs = n"
  by (auto simp: mem_read_def mbuf_wf_def)

lemma mbuf_read_u16_sel:
  assumes "mbuf_wf mb" "2 \<le> mbuf_get_left mb"
  shows "snd (mbuf_read_u16 mb) = mb\<lparr>mb_pos := mb_pos mb + 2\<rparr>"
  using mbuf_read_u16_left [OF assms(1)] assms mbuf_get_left_len [OF assms(1)] by (simp add: mb_adv_def)

text \<open>The rounds of the loop.\<close>

lemma dname_decode_end: "\<not> mb_pos mb < mb_end mb \<Longrightarrow> dname_decode_loop al start buf loopc compr mb = (Inl EINVAL, mb)"
  by (subst dname_decode_loop.simps) simp

lemma dname_decode_zero:
  assumes "mb_pos mb < mb_end mb" "mem_read (mb_buf mb) (mb_pos mb) 1 = Some [0]"
  shows "dname_decode_loop al start buf loopc compr mb =
    (if mem_alloc al (length buf + 1) = None then Inl ENOMEM else Inr (takeWhile (\<lambda>c. c \<noteq> 0) buf),
     mb\<lparr>mb_pos := case compr of None \<Rightarrow> mb_pos mb + 1 | Some p \<Rightarrow> p\<rparr>)"
  using assms by (subst dname_decode_loop.simps) (simp split: option.splits)

lemma dname_decode_pointer:
  assumes "mb_pos mb < mb_end mb" "mem_read (mb_buf mb) (mb_pos mb) 1 = Some [len]" "len AND COMP_MASK = COMP_MASK"
    "mbuf_wf mb" "w = unle16 (take 2 (mb_left mb))"
  shows "dname_decode_loop al start buf loopc compr mb =
    (if loopc > COMP_LOOP then (Inl EINVAL, mb\<lparr>mb_pos := mb_pos mb + 1\<rparr>)
     else if length (mb_left mb) < 2 then (Inl EINVAL, mb)
     else dname_decode_loop al start buf (Suc loopc) (if compr = None then Some (mb_pos mb + 2) else compr)
            (mb\<lparr>mb_pos := szadd (unat (ntohs w AND OFFSET_MASK)) start\<rparr>))"
proof -
  have "len \<noteq> 0" using assms(3) by auto
  then show ?thesis
    using assms(1-3,5) mbuf_read_u16_left [OF assms(4)] mbuf_get_left_len [OF assms(4)]
    by (subst dname_decode_loop.simps) (simp add: Let_def mb_adv_def)
qed

lemma dname_decode_label:
  assumes "mb_pos mb < mb_end mb" "mem_read (mb_buf mb) (mb_pos mb) 1 = Some [len]" "len AND COMP_MASK \<noteq> COMP_MASK" "len \<noteq> 0"
    "mbuf_wf mb"
  shows "dname_decode_loop al start buf loopc compr mb =
    (let mb1 = mb\<lparr>mb_pos := mb_pos mb + 1\<rparr>
     in if unat len > length (mb_left mb1) \<or> unat len + length buf + 2 > 256 then (Inl EINVAL, mb1)
        else dname_decode_loop al start ((if buf = [] then [] else buf @ [DOT]) @ take (unat len) (mb_left mb1)) loopc compr
               (mb\<lparr>mb_pos := mb_pos mb + 1 + unat len\<rparr>))"
proof -
  let ?mb1 = "mb\<lparr>mb_pos := mb_pos mb + 1\<rparr>"
  have wf: "mbuf_wf ?mb1" using assms(5) by simp
  have "mem_read (mb_buf mb) (Suc (mb_pos mb)) (unat len) = Some (take (unat len) (mb_left ?mb1))"
    if "unat len \<le> length (mb_left ?mb1)"
  proof -
    have "mb_pos mb + 1 + unat len \<le> mb_end mb"
      using that assms(1) length_mb_left [OF wf] by (auto simp: mbuf_get_left_def split: if_splits)
    then show ?thesis using mem_read_data [OF wf, of "Suc (mb_pos mb)" "unat len"] by (simp add: mb_left_data)
  qed
  then show ?thesis
    using assms(1-4) mbuf_get_left_len [OF wf]
    by (subst dname_decode_loop.simps) (simp add: Let_def)
qed

lemma mem_read_one:
  assumes "mbuf_wf mb" "mb_pos mb < mb_end mb"
  shows "\<exists>len. mem_read (mb_buf mb) (mb_pos mb) 1 = Some [len]"
  using mem_read_ok [OF assms(1), of "mb_pos mb" 1] assms(2) by (auto simp: length_Suc_conv)

lemma dname_decode_loop_sane:
  assumes "mbuf_wf mb" "\<And>p. compr = Some p \<Longrightarrow> p \<le> mb_end mb" "length buf \<le> 255"
  shows "fst (dname_decode_loop al start buf loopc compr mb) \<noteq> Inl FAULT \<and>
    (\<forall>x mb'. dname_decode_loop al start buf loopc compr mb = (Inr x, mb') \<longrightarrow> length x \<le> 255 \<and> 0 \<notin> set x \<and>
       (\<exists>q. mb' = mb\<lparr>mb_pos := q\<rparr> \<and> q \<le> mb_end mb \<and> (case compr of None \<Rightarrow> mb_pos mb < q | Some p \<Rightarrow> q = p)))"
  using assms
proof (induction "(257 - loopc) + (256 - length buf)" arbitrary: buf loopc compr mb rule: less_induct)
  case less
  show ?case
  proof (cases "mb_pos mb < mb_end mb")
    case True
    obtain len where len: "mem_read (mb_buf mb) (mb_pos mb) 1 = Some [len]" using mem_read_one [OF less(2) True] by blast
    consider (zero) "len = 0" | (pointer) "len AND COMP_MASK = COMP_MASK" | (label) "len \<noteq> 0" "len AND COMP_MASK \<noteq> COMP_MASK" by blast
    then show ?thesis
    proof cases
      case zero
      then show ?thesis using True less(3,4) dname_decode_zero [OF True len [unfolded zero]] length_takeWhile_le [of "\<lambda>c. c \<noteq> 0" buf]
        by (auto dest: set_takeWhileD split: option.splits)
    next
      case pointer
      note eq = dname_decode_pointer [OF True len pointer less(2) refl]
      show ?thesis
      proof (cases "loopc > COMP_LOOP \<or> length (mb_left mb) < 2")
        case False
        let ?mb = "mb\<lparr>mb_pos := szadd (unat (ntohs (unle16 (take 2 (mb_left mb))) AND OFFSET_MASK)) start\<rparr>"
        let ?c = "if compr = None then Some (mb_pos mb + 2) else compr"
        have "mb_pos mb + 2 \<le> mb_end mb" using False length_mb_left [OF less(2)] by (auto simp: mbuf_get_left_def split: if_splits)
        then have c: "p \<le> mb_end mb" if "?c = Some p" for p using that less(3) by (auto split: if_splits)
        have "fst (dname_decode_loop al start buf (Suc loopc) ?c ?mb) \<noteq> Inl FAULT \<and>
          (\<forall>x mb'. dname_decode_loop al start buf (Suc loopc) ?c ?mb = (Inr x, mb') \<longrightarrow> length x \<le> 255 \<and> 0 \<notin> set x \<and>
            (\<exists>q. mb' = ?mb\<lparr>mb_pos := q\<rparr> \<and> q \<le> mb_end ?mb \<and> (case ?c of None \<Rightarrow> mb_pos ?mb < q | Some p \<Rightarrow> q = p)))"
          by (rule less(1)) (use False less(2,4) c in auto)
        then show ?thesis using eq False by (cases compr) auto
      qed (use eq in auto)
    next
      case label
      let ?mb1 = "mb\<lparr>mb_pos := mb_pos mb + 1\<rparr>"
      note eq = dname_decode_label [OF True len label(2,1) less(2), unfolded Let_def]
      show ?thesis
      proof (cases "unat len > length (mb_left ?mb1) \<or> unat len + length buf + 2 > 256")
        case False
        let ?mb = "mb\<lparr>mb_pos := mb_pos mb + 1 + unat len\<rparr>"
        let ?b = "(if buf = [] then [] else buf @ [DOT]) @ take (unat len) (mb_left ?mb1)"
        have n: "0 < unat len" using label(1) by (simp add: unat_gt_0)
        have "fst (dname_decode_loop al start ?b loopc compr ?mb) \<noteq> Inl FAULT \<and>
          (\<forall>x mb'. dname_decode_loop al start ?b loopc compr ?mb = (Inr x, mb') \<longrightarrow> length x \<le> 255 \<and> 0 \<notin> set x \<and>
            (\<exists>q. mb' = ?mb\<lparr>mb_pos := q\<rparr> \<and> q \<le> mb_end ?mb \<and> (case compr of None \<Rightarrow> mb_pos ?mb < q | Some p \<Rightarrow> q = p)))"
          by (rule less(1)) (use False less(2,3) n in auto)
        then show ?thesis using eq False by (cases compr) fastforce+
      qed (use eq in auto)
    qed
  qed (simp add: dname_decode_end)
qed

lemma dns_dname_decode_sane: "dec_sane (dns_dname_decode al start)"
  unfolding dec_sane_def
proof (intro allI impI conjI)
  fix mb assume r: "readable mb"
  note d = dname_decode_loop_sane [OF readable_wf [OF r], of None "[]" al start 0]
  show "fst (dns_dname_decode al start mb) \<noteq> Inl FAULT" using d by (simp add: dns_dname_decode_def)
  fix x mb' assume "dns_dname_decode al start mb = (Inr x, mb')"
  then obtain q where "mb' = mb\<lparr>mb_pos := q\<rparr>" "q \<le> mb_end mb" "mb_pos mb < q" using d by (auto simp: dns_dname_decode_def)
  then show "\<exists>n \<le> length (mb_left mb). mb' = mb_adv mb n"
    using length_mb_left [OF readable_wf [OF r]] by (intro exI [of _ "q - mb_pos mb"]) (auto simp: mb_adv_def mbuf_get_left_def)
qed

section \<open>Names in the data\<close>

text \<open>
  \<open>name_at D start p ls j q\<close>: at position \<open>p\<close> of the data \<open>D\<close> of a message that begins at \<open>start\<close> there
  are the labels \<open>ls\<close>, behind \<open>j\<close> pointers, and what follows is at \<open>q\<close>.
\<close>

inductive name_at :: "byte list \<Rightarrow> nat \<Rightarrow> nat \<Rightarrow> byte list list \<Rightarrow> nat \<Rightarrow> nat \<Rightarrow> bool" for D :: "byte list" and start :: nat where
  name_end: "take 1 (drop p D) = [0] \<Longrightarrow> name_at D start p [] 0 (p + 1)"
| name_label: "l \<noteq> [] \<Longrightarrow> length l < 192 \<Longrightarrow> take (1 + length l) (drop p D) = of_nat (length l) # l \<Longrightarrow>
    name_at D start (p + 1 + length l) ls j q \<Longrightarrow> name_at D start p (l # ls) j q"
| name_ptr: "off \<le> 0x3fff \<Longrightarrow> take 2 (drop p D) = be16 (of_nat off OR 0xc000) \<Longrightarrow>
    name_at D start (start + off) ls j q \<Longrightarrow> name_at D start p ls (Suc j) (p + 2)"

lemma take_drop_append: "take n (drop p D) = xs \<Longrightarrow> length xs = n \<Longrightarrow> take n (drop p (D @ E)) = xs"
  by (auto simp: min_def split: if_splits)

lemma name_at_append: "name_at D start p ls j q \<Longrightarrow> name_at (D @ E) start p ls j q"
proof (induction rule: name_at.induct)
  case (name_end p)
  then show ?case by (intro name_at.name_end take_drop_append) auto
next
  case (name_label l p ls j q)
  then show ?case by (intro name_at.name_label take_drop_append) auto
next
  case (name_ptr off p ls j q)
  then show ?case using name_at.name_ptr [of off p "D @ E" start ls j q] take_drop_append [OF name_ptr(2)] by simp
qed

definition join_dot :: "byte list \<Rightarrow> byte list list \<Rightarrow> byte list" where
  "join_dot buf ls = foldl (\<lambda>b l. (if b = [] then [] else b @ [DOT]) @ l) buf ls"

lemma join_dot_simps [simp]: "join_dot buf [] = buf"
  "join_dot buf (l # ls) = join_dot ((if buf = [] then [] else buf @ [DOT]) @ l) ls"
  by (simp_all add: join_dot_def)

lemma length_join_dot: "length buf \<le> length (join_dot buf ls)"
proof (induction ls arbitrary: buf)
  case (Cons l ls)
  show ?case using Cons [of "(if buf = [] then [] else buf @ [DOT]) @ l"] by (cases "buf = []") auto
qed simp

lemma at_data:
  assumes "mbuf_wf mb" "take n (drop (mb_pos mb) (mb_data mb)) = xs" "length xs = n" "0 < n"
  shows "mb_pos mb + n \<le> mb_end mb" "take n (mb_left mb) = xs"
proof -
  show "mb_pos mb + n \<le> mb_end mb"
    using assms length_mb_data [OF assms(1)] by (auto simp: min_def split: if_splits)
  show "take n (mb_left mb) = xs" using assms(2) by (simp add: mb_left_data)
qed

lemma pointer_offset:
  assumes "off \<le> 0x3fff"
  shows "unat (ntohs (unle16 (be16 (of_nat off OR 0xc000))) AND OFFSET_MASK) = off"
proof -
  have "(of_nat off OR 0xc000 :: 16 word) AND 0x3fff = of_nat off AND 0x3fff"
    by (simp add: bit.conj_disj_distrib2)
  also have "\<dots> = of_nat off"
  proof -
    have "(of_nat off :: 16 word) AND mask 14 = take_bit 14 (of_nat off)" by (simp only: take_bit_eq_mask)
    moreover have "take_bit 14 (of_nat off :: 16 word) = of_nat off"
      using assms by (simp add: unsigned_take_bit_eq word_unat_eq_iff unat_of_nat take_bit_nat_eq_self)
    ultimately show ?thesis by (simp add: mask_eq_exp_minus_1)
  qed
  finally show ?thesis using assms by (simp add: unat_of_nat)
qed

lemma comp_byte: "hd (be16 (w OR 0xc000)) AND COMP_MASK = COMP_MASK"
  by (rule bit_word_eqI) (auto simp: be16_def bit_simps)

lemma label_byte: "n < 192 \<Longrightarrow> (of_nat n :: byte) AND COMP_MASK \<noteq> COMP_MASK"
proof
  assume n: "n < 192" and c: "(of_nat n :: byte) AND COMP_MASK = COMP_MASK"
  have "(of_nat n :: byte) AND COMP_MASK \<le> of_nat n" by (rule word_and_le2)
  then have "192 \<le> (of_nat n :: byte)" using c by simp
  then show False using n by (simp add: word_le_nat_alt unat_of_nat)
qed

lemma dname_decode_at:
  assumes "name_at D start p ls j q" "mbuf_wf mb" "mb_data mb = D" "mb_pos mb = p" "loopc + j \<le> 256"
    "length (join_dot buf ls) \<le> 254" "mem_ok al" "start < 2 ^ 32"
  shows "dname_decode_loop al start buf loopc compr mb =
    (Inr (takeWhile (\<lambda>c. c \<noteq> 0) (join_dot buf ls)), mb\<lparr>mb_pos := case compr of None \<Rightarrow> q | Some p' \<Rightarrow> p'\<rparr>)"
  using assms
proof (induction arbitrary: mb buf loopc compr rule: name_at.induct)
  case (name_end p)
  have a: "mb_pos mb + 1 \<le> mb_end mb" "take 1 (mb_left mb) = [0]" using at_data [of mb 1 "[0]"] name_end by auto
  then have r: "mem_read (mb_buf mb) (mb_pos mb) 1 = Some [0]"
    using mem_read_data [OF name_end(2), of "mb_pos mb" 1] by (simp add: mb_left_data)
  have "mem_alloc al (length buf + 1) \<noteq> None"
    using mem_alloc_total [OF name_end(7), of "length buf + 1"] name_end(6) by (auto simp: MEM_SIZE_MAX_def)
  then show ?case using dname_decode_zero [OF _ r] a name_end by auto
next
  case (name_label l p ls j q)
  let ?len = "of_nat (length l) :: byte" and ?mb1 = "mb\<lparr>mb_pos := mb_pos mb + 1\<rparr>"
  let ?b = "(if buf = [] then [] else buf @ [DOT]) @ l"
  have u: "unat ?len = length l" using name_label(2) by (simp add: unat_of_nat)
  have a: "mb_pos mb + (1 + length l) \<le> mb_end mb" "take (1 + length l) (mb_left mb) = ?len # l"
    using at_data [of mb "1 + length l" "?len # l"] name_label by auto
  have r: "mem_read (mb_buf mb) (mb_pos mb) 1 = Some [?len]"
    using mem_read_data [OF name_label(6), of "mb_pos mb" 1] a take_take [of 1 "1 + length l" "mb_left mb"] by (simp add: mb_left_data)
  have d: "mb_left ?mb1 = drop 1 (mb_left mb)" by (simp add: mb_left_data)
  have "take (length l) (drop 1 (mb_left mb)) = l" using arg_cong [OF a(2), of "drop 1"] by (simp add: drop_take)
  then have l: "take (length l) (mb_left ?mb1) = l" "length l \<le> length (mb_left ?mb1)"
    using a(1) length_mb_data [OF name_label(6)] unfolding d by (auto simp: mb_left_data)
  have z: "?len \<noteq> 0" using u name_label(1) by (metis length_0_conv unat_0)
  have b: "length ?b \<le> 254" using length_join_dot [of ?b ls] name_label(10) by simp
  have "dname_decode_loop al start buf loopc compr mb = dname_decode_loop al start ?b loopc compr (mb\<lparr>mb_pos := mb_pos mb + 1 + length l\<rparr>)"
    using dname_decode_label [OF _ r label_byte [OF name_label(2)] z name_label(6)] a l u b by (cases "buf = []") (auto simp: Let_def)
  also have "\<dots> = (Inr (takeWhile (\<lambda>c. c \<noteq> 0) (join_dot ?b ls)), (mb\<lparr>mb_pos := mb_pos mb + 1 + length l\<rparr>)\<lparr>mb_pos := case compr of None \<Rightarrow> q | Some p' \<Rightarrow> p'\<rparr>)"
    by (rule name_label.IH) (use name_label.prems in auto)
  finally show ?case by simp
next
  case (name_ptr off p ls j q)
  let ?w = "be16 (of_nat off OR 0xc000)"
  have a: "mb_pos mb + 2 \<le> mb_end mb" "take 2 (mb_left mb) = ?w"
    using at_data [of mb 2 ?w] name_ptr by auto
  have "take 1 (mb_left mb) = [hd ?w]" using arg_cong [OF a(2), of "take 1"] by (simp add: be16_def)
  then have r: "mem_read (mb_buf mb) (mb_pos mb) 1 = Some [hd ?w]"
    using mem_read_data [OF name_ptr(5), of "mb_pos mb" 1] a by (simp add: mb_left_data)
  have l: "\<not> length (mb_left mb) < 2" using a length_mb_left [OF name_ptr(5)] by (auto simp: mbuf_get_left_def)
  have o: "szadd (unat (ntohs (unle16 (take 2 (mb_left mb))) AND OFFSET_MASK)) start = start + off"
    using a(2) pointer_offset [OF name_ptr(1)] name_ptr(1,11) by simp
  have "dname_decode_loop al start buf loopc compr mb =
      dname_decode_loop al start buf (Suc loopc) (if compr = None then Some (mb_pos mb + 2) else compr) (mb\<lparr>mb_pos := start + off\<rparr>)"
    using dname_decode_pointer [OF _ r comp_byte name_ptr(5) refl, of al start buf loopc compr] a(1) l o name_ptr(8) by simp
  also have "\<dots> = (Inr (takeWhile (\<lambda>c. c \<noteq> 0) (join_dot buf ls)), (mb\<lparr>mb_pos := start + off\<rparr>)\<lparr>mb_pos :=
      case if compr = None then Some (mb_pos mb + 2) else compr of None \<Rightarrow> q | Some p' \<Rightarrow> p'\<rparr>)"
    by (rule name_ptr.IH) (use name_ptr.prems in auto)
  finally show ?case using name_ptr(7) by (cases compr) auto
qed

section \<open>Encoded names\<close>

text \<open>The labels of a name, with the characters of the first one collected in front.\<close>

fun split_dot :: "byte list \<Rightarrow> byte list \<Rightarrow> byte list list" where
  "split_dot acc [] = (if acc = [] then [] else [acc])"
| "split_dot acc (c # cs) = (if c = DOT then acc # split_dot [] cs else split_dot (acc @ [c]) cs)"

definition labs_ok :: "byte list list \<Rightarrow> bool" where
  "labs_ok ls \<longleftrightarrow> list_all (\<lambda>l. l \<noteq> [] \<and> length l < 192) ls"

definition labs_ci :: "byte list list \<Rightarrow> byte list list \<Rightarrow> bool" where
  "labs_ci ls ms \<longleftrightarrow> map (map lower) ls = map (map lower) ms"

lemma lower_dot: "lower c = DOT \<longleftrightarrow> c = DOT"
  by (auto simp: lower_def word_le_nat_alt word_unat_eq_iff unat_word_ariths split: if_splits)

lemma split_dot_lower: "map (map lower) (split_dot acc cs) = split_dot (map lower acc) (map lower cs)"
  by (induction cs arbitrary: acc) (auto simp: lower_dot)

lemma split_dot_ci: "str_caseeq a b \<Longrightarrow> labs_ci (split_dot [] a) (split_dot [] b)"
  by (simp add: str_caseeq_def labs_ci_def split_dot_lower)

text \<open>The labels of a whole name: the root has none.\<close>

definition labels :: "byte list \<Rightarrow> byte list list" where
  "labels name = (if name = [DOT] then [] else split_dot [] name)"

lemma map_lower_dot: "map lower a = map lower b \<Longrightarrow> a = [DOT] \<longleftrightarrow> b = [DOT]"
  by (cases a; cases b) (auto simp: lower_dot, metis lower_dot, metis lower_dot)

lemma labels_ci: "str_caseeq a b \<Longrightarrow> labs_ci (labels a) (labels b)"
  using split_dot_ci [of a b] map_lower_dot [of a b] by (auto simp: str_caseeq_def labels_def labs_ci_def)

lemma labels_suffix: "labs_ok (split_dot [] cs) \<Longrightarrow> labels cs = split_dot [] cs"
  by (auto simp: labels_def labs_ok_def)

text \<open>A buffer that is at its end, with the given data.\<close>

definition holds :: "mbuf \<Rightarrow> byte list \<Rightarrow> bool" where
  "holds mb D \<longleftrightarrow> mbuf_wf mb \<and> mb_pos mb = mb_end mb \<and> mb_data mb = D"

lemma holds_pos: "holds mb D \<Longrightarrow> mb_pos mb = length D"
  using length_mb_data by (auto simp: holds_def)

lemma holds_write:
  assumes "mem_ok al" "holds mb D" "length D + length bs < 2 ^ 31"
  shows "\<exists>mb'. mbuf_write_mem al mb bs = (0, mb') \<and> holds mb' (D @ bs)"
proof -
  have w: "mbuf_wf mb" "mb\<lparr>mb_pos := mb_end mb\<rparr> = mb" "mb_end mb = length D"
    using assms(2) length_mb_data by (auto simp: holds_def)
  from mbuf_append [OF assms(1) w(1), of bs] assms(2,3) w(2,3) show ?thesis by (metis holds_def)
qed

lemma holds_u8:
  assumes "mem_ok al" "holds mb D" "length D + 1 < 2 ^ 31"
  shows "\<exists>mb'. mbuf_write_u8 al mb v = (0, mb') \<and> holds mb' (D @ [v])"
  using holds_write [OF assms(1,2), of "[v]"] assms(3) by (simp add: mbuf_write_u8_def)

lemma holds_set:
  assumes "holds mb D" "p < length D"
  shows "\<exists>mb'. buf_set mb p v = Some mb' \<and> holds mb' (D [p := v])"
proof -
  have w: "mbuf_wf mb" "mb_pos mb = mb_end mb" "take (mb_end mb) (mb_buf mb) = D" using assms(1) by (auto simp: holds_def mb_data_def)
  have p: "p < mb_end mb" "mb_end mb \<le> length (mb_buf mb)" using assms(2) w by (auto simp: mbuf_wf_def)
  then have "mem_write (mb_buf mb) p [v] = Some ((mb_buf mb) [p := v])" by (simp add: mem_write_def upd_conv_take_nth_drop)
  moreover have "take (mb_end mb) ((mb_buf mb) [p := v]) = D [p := v]" using w(3) p by (simp add: take_update_swap)
  ultimately show ?thesis using w(1,2) by (auto simp: buf_set_def holds_def mb_data_def mbuf_wf_def)
qed

definition ents :: "dname_tab option \<Rightarrow> dname list" where
  "ents ht = (case ht of None \<Rightarrow> [] | Some t \<Rightarrow> map snd (dt_list t))"

text \<open>An entry of the table points to its name in the data.\<close>

definition ent_ok :: "byte list \<Rightarrow> nat \<Rightarrow> dname \<Rightarrow> bool" where
  "ent_ok D start e \<longleftrightarrow> dn_pos e \<le> 0x3fff \<and>
     (\<exists>ls j q. name_at D start (start + dn_pos e) ls j q \<and> labs_ci ls (labels (dn_name e)) \<and> j \<le> length ls)"

lemma ent_ok_append: "ent_ok D start e \<Longrightarrow> ent_ok (D @ E) start e"
  unfolding ent_ok_def using name_at_append by blast

lemma find_mem: "find P xs = Some x \<Longrightarrow> x \<in> set xs \<and> P x"
  by (induction xs) (auto split: if_splits)

lemma dname_lookup_ents: "dname_lookup ht name = Some dn \<Longrightarrow> dn \<in> set (ents ht) \<and> str_caseeq (dn_name dn) name"
  by (force simp: dname_lookup_def ents_def dest!: find_mem split: option.splits)

lemma dname_append_ents:
  "ents (dname_append al ht name pos) = ents ht \<or>
   pos \<le> 0x3fff \<and> ents (dname_append al ht name pos) = ents ht @ [\<lparr>dn_pos = pos, dn_name = name\<rparr>]"
  by (auto simp: dname_append_def ents_def split: option.splits)

lemma dname_append_cases:
  assumes "ht1 = (if dname_lookup ht name = None then dname_append al ht name pos else ht)"
  shows "\<exists>Q. ents ht1 = ents ht @ Q \<and> (Q = [] \<or> Q = [\<lparr>dn_pos = pos, dn_name = name\<rparr>] \<and> pos \<le> 0x3fff)"
  using dname_append_ents [of al ht name pos] assms by auto

text \<open>
  The bytes that the loop writes behind position \<open>pos\<close> when it has collected \<open>acc\<close>, and the table
  afterwards.  Nothing of this depends on the data in front.
\<close>

fun dname_bytes :: "alloc \<Rightarrow> nat \<Rightarrow> bool \<Rightarrow> nat \<Rightarrow> byte list \<Rightarrow> byte list \<Rightarrow> dname_tab option \<Rightarrow> byte list \<times> dname_tab option" where
  "dname_bytes al start compr pos acc [] ht = ((if acc = [] then [0] else of_nat (length acc) # acc @ [0]), ht)"
| "dname_bytes al start compr pos acc (c # cs) ht =
     (if c = DOT then
        let pos' = pos + 1 + length acc;
            (W, ht') =
              (case (dname_lookup ht cs, compr) of
                 (Some dn, True) \<Rightarrow> (be16 (of_nat (dn_pos dn) OR 0xc000), ht)
               | (found, _) \<Rightarrow> dname_bytes al start compr pos' [] cs (if found = None then dname_append al ht cs (pos' - start) else ht))
        in (of_nat (length acc) # acc @ W, ht')
      else dname_bytes al start compr pos (acc @ [c]) cs ht)"

lemma dname_bytes_dot:
  assumes "c = DOT" "dname_lookup ht cs = Some dn" compr
  shows "dname_bytes al start compr pos acc (c # cs) ht = (of_nat (length acc) # acc @ be16 (of_nat (dn_pos dn) OR 0xc000), ht)"
  using assms by simp

lemma dname_bytes_label:
  assumes "c = DOT" "dname_lookup ht cs = None \<or> \<not> compr"
    "dname_bytes al start compr (pos + 1 + length acc) [] cs
       (if dname_lookup ht cs = None then dname_append al ht cs (pos + 1 + length acc - start) else ht) = (W, ht')"
  shows "dname_bytes al start compr pos acc (c # cs) ht = (of_nat (length acc) # acc @ W, ht')"
  using assms by (cases "dname_lookup ht cs"; cases compr) (auto simp: Let_def)

lemma dname_loop_writes:
  assumes "mem_ok al" "holds mb (D @ 0 # acc)" "start \<le> length D" "labs_ok (split_dot acc cs)"
    "length D + length acc + length cs + 4 < 2 ^ 31" "dname_bytes al start compr (length D) acc cs ht = (W, ht')"
  shows "\<exists>mb'. dname_loop al start compr (length D) cs mb ht = (0, mb', ht') \<and> holds mb' (D @ W) \<and> length W \<le> length acc + length cs + 2"
  using assms(2-6)
proof (induction cs arbitrary: acc D mb ht W)
  case Nil
  have p: "szsub (szsub (mb_pos mb) (length D)) 1 = length acc" using holds_pos [OF Nil(1)] Nil(4) by simp
  let ?len = "of_nat (length acc) :: byte"
  obtain mb1 where 1: "buf_set mb (length D) ?len = Some mb1" "holds mb1 (D @ ?len # acc)"
    using holds_set [OF Nil(1), of "length D" ?len] by (auto simp: list_update_append)
  obtain mb2 where 2: "mbuf_write_u8 al mb1 0 = (0, mb2)" "holds mb2 (D @ (?len # acc @ [0]))"
    using holds_u8 [OF assms(1) 1(2), of 0] Nil(4) by auto
  show ?case using Nil p 1 2 by (cases "acc = []") auto
next
  case (Cons c cs)
  have p: "szsub (szsub (mb_pos mb) (length D)) 1 = length acc" using holds_pos [OF Cons(2)] Cons(5) by simp
  show ?case
  proof (cases "c = DOT")
    case False
    obtain mb1 where 1: "mbuf_write_u8 al mb c = (0, mb1)" "holds mb1 (D @ 0 # (acc @ [c]))"
      using holds_u8 [OF assms(1) Cons(2), of c] Cons(5) by auto
    then show ?thesis using Cons.IH [OF 1(2)] Cons.prems False p by (auto simp: Let_def)
  next
    case True
    let ?len = "of_nat (length acc) :: byte"
    have l: "acc \<noteq> []" "length acc < 192" "labs_ok (split_dot [] cs)" using Cons(4) True by (simp_all add: labs_ok_def)
    obtain mb1 where 1: "buf_set mb (length D) ?len = Some mb1" "holds mb1 (D @ ?len # acc)"
      using holds_set [OF Cons(2), of "length D" ?len] by (auto simp: list_update_append)
    have pos: "mb_pos mb1 = length D + 1 + length acc" using holds_pos [OF 1(2)] by simp
    show ?thesis
    proof (cases "dname_lookup ht cs = None \<or> \<not> compr")
      case False
      then obtain dn where dn: "dname_lookup ht cs = Some dn" and c: compr by auto
      let ?w = "be16 (of_nat (dn_pos dn) OR 0xc000)"
      obtain mb2 where 2: "mbuf_write_mem al mb1 ?w = (0, mb2)" "holds mb2 ((D @ ?len # acc) @ ?w)"
        using holds_write [OF assms(1) 1(2), of ?w] Cons(5) by auto
      have "dname_encode_pointer al mb1 (dn_pos dn) = (0, mb2)" using 2(1) by (simp add: dname_encode_pointer_def mbuf_write_u16_def)
      then show ?thesis using 1 2(2) p dn c True l(1) Cons(6) by (auto simp: Let_def)
    next
      case fresh: True
      define ht1 where "ht1 = (if dname_lookup ht cs = None then dname_append al ht cs (length D + 1 + length acc - start) else ht)"
      obtain mb2 where 2: "mbuf_write_u8 al mb1 0 = (0, mb2)" "holds mb2 ((D @ ?len # acc) @ 0 # [])"
        using holds_u8 [OF assms(1) 1(2), of 0] Cons(5) by auto
      obtain V h where V: "dname_bytes al start compr (length D + 1 + length acc) [] cs ht1 = (V, h)" by fastforce
      then have W: "W = ?len # acc @ V" "h = ht'" using dname_bytes_label [OF True fresh, of al start "length D" acc V h] Cons(6) by (auto simp: ht1_def)
      obtain mb' where r: "dname_loop al start compr (length (D @ ?len # acc)) cs mb2 ht1 = (0, mb', ht')" "holds mb' ((D @ ?len # acc) @ V)"
          "length V \<le> length cs + 2"
        using Cons.IH [OF 2(2), of ht1 V] Cons.prems(2,4) l(3) V W(2) by auto
      have "dname_loop al start compr (length D) (c # cs) mb ht = (0, mb', ht')"
        using fresh True 1(1) 2(1) r(1) [unfolded ht1_def] p l(1) pos Cons(3,5) by (cases "dname_lookup ht cs"; cases compr) (auto simp: Let_def)
      then show ?thesis using r(2,3) W(1) by auto
    qed
  qed
qed

text \<open>
  The entries \<open>P\<close> belong to the name that is being written: their names are too long to be found.
\<close>

lemma dname_bytes_named:
  assumes "dname_bytes al start compr (length D) acc cs ht = (W, ht')" "start \<le> length D" "ents ht = T @ P"
    "\<And>e. e \<in> set T \<Longrightarrow> ent_ok D start e" "\<And>e. e \<in> set P \<Longrightarrow> length cs \<le> length (dn_name e)" "labs_ok (split_dot acc cs)"
  shows "\<exists>ls j N. name_at (D @ W) start (length D) ls j (length (D @ W)) \<and> labs_ci ls (split_dot acc cs) \<and> j \<le> length ls \<and>
    ents ht' = T @ P @ N \<and> (\<forall>e \<in> set N. ent_ok (D @ W) start e)"
  using assms
proof (induction cs arbitrary: acc D ht P W)
  case Nil
  let ?len = "of_nat (length acc) :: byte"
  show ?case
  proof (cases "acc = []")
    case True
    have "name_at (D @ [0]) start (length D) [] 0 (length D + 1)" by (rule name_end) simp
    then show ?thesis using True Nil by (intro exI [of _ "[]"] exI [of _ 0] exI [of _ "[]"]) (auto simp: labs_ci_def)
  next
    case False
    have l: "length acc < 192" using Nil(6) False by (simp add: labs_ok_def)
    have "name_at (D @ ?len # acc @ [0]) start (length D + 1 + length acc) [] 0 (length D + 1 + length acc + 1)"
      by (rule name_end) simp
    from name_label [OF False l _ this] have "name_at (D @ ?len # acc @ [0]) start (length D) [acc] 0 (length D + length acc + 2)" by simp
    then show ?thesis using False Nil by (intro exI [of _ "[acc]"] exI [of _ 0] exI [of _ "[]"]) (auto simp: labs_ci_def)
  qed
next
  case (Cons c cs)
  show ?case
  proof (cases "c = DOT")
    case False
    have "\<exists>ls j N. name_at (D @ W) start (length D) ls j (length (D @ W)) \<and> labs_ci ls (split_dot (acc @ [c]) cs) \<and> j \<le> length ls \<and>
      ents ht' = T @ P @ N \<and> (\<forall>e \<in> set N. ent_ok (D @ W) start e)"
      by (rule Cons.IH) (use Cons.prems False in \<open>auto simp: Suc_le_eq intro: less_imp_le\<close>)
    then show ?thesis using False by simp
  next
    case True
    let ?len = "of_nat (length acc) :: byte" and ?D = "D @ of_nat (length acc) # acc"
    have l: "acc \<noteq> []" "length acc < 192" "labs_ok (split_dot [] cs)" using Cons(7) True by (simp_all add: labs_ok_def)
    have label: "name_at (?D @ V) start (length D) (acc # ls) j q" if "name_at (?D @ V) start (length ?D) ls j q" for V ls j q
      using name_label [OF l(1,2), of "length D" "?D @ V" start ls j q] that by simp
    show ?thesis
    proof (cases "dname_lookup ht cs = None \<or> \<not> compr")
      case False
      then obtain dn where dn: "dname_lookup ht cs = Some dn" and c: compr by auto
      have e: "dn \<in> set (T @ P)" "str_caseeq (dn_name dn) cs" using dname_lookup_ents [OF dn] Cons(4) by auto
      then have "length (dn_name dn) = length cs" by (metis str_caseeq_def length_map)
      then have "dn \<in> set T" using e(1) Cons(6) [of dn] by auto
      then obtain ls j q where n: "dn_pos dn \<le> 0x3fff" "name_at D start (start + dn_pos dn) ls j q"
          "labs_ci ls (labels (dn_name dn))" "j \<le> length ls"
        using Cons(5) unfolding ent_ok_def by blast
      let ?w = "be16 (of_nat (dn_pos dn) OR 0xc000)"
      have W: "W = ?len # acc @ ?w" "ht' = ht" using dname_bytes_dot [OF True dn c, of al start "length D" acc] Cons(2) by auto
      have "name_at (?D @ ?w) start (start + dn_pos dn) ls j q" using name_at_append [OF n(2), of "?len # acc @ ?w"] by simp
      then have "name_at (?D @ ?w) start (length ?D) ls (Suc j) (length ?D + 2)"
        by (intro name_ptr [OF n(1)]) simp_all
      from label [OF this] have "name_at (D @ W) start (length D) (acc # ls) (Suc j) (length (D @ W))" unfolding W by simp
      moreover have "labs_ci (acc # ls) (split_dot acc (c # cs))" using True n(3) labels_ci [OF e(2)] labels_suffix [OF l(3)] by (simp add: labs_ci_def)
      ultimately show ?thesis using n(4) Cons(4) W(2)
        by (intro exI [of _ "acc # ls"] exI [of _ "Suc j"] exI [of _ "[]"]) auto
    next
      case fresh: True
      define ht1 where "ht1 = (if dname_lookup ht cs = None then dname_append al ht cs (length D + 1 + length acc - start) else ht)"
      let ?e = "\<lparr>dn_pos = length ?D - start, dn_name = cs\<rparr>"
      obtain Q where Q: "ents ht1 = T @ P @ Q" "Q = [] \<or> Q = [?e] \<and> length ?D - start \<le> 0x3fff"
        using dname_append_cases [OF ht1_def] Cons(4) by auto
      obtain V h where V: "dname_bytes al start compr (length ?D) [] cs ht1 = (V, h)" by fastforce
      then have W: "W = ?len # acc @ V" "h = ht'" using dname_bytes_label [OF True fresh, of al start "length D" acc V h] Cons(2) by (auto simp: ht1_def)
      have "\<exists>ls j N. name_at (?D @ V) start (length ?D) ls j (length (?D @ V)) \<and> labs_ci ls (split_dot [] cs) \<and> j \<le> length ls \<and>
        ents ht' = T @ (P @ Q) @ N \<and> (\<forall>e \<in> set N. ent_ok (?D @ V) start e)"
      proof (rule Cons.IH [OF V [unfolded W(2)]])
        show "ents ht1 = T @ P @ Q" by (rule Q(1))
        show "ent_ok ?D start e" if "e \<in> set T" for e using ent_ok_append Cons(5) that by blast
        show "length cs \<le> length (dn_name e)" if "e \<in> set (P @ Q)" for e using that Cons(6) [of e] Q(2) by auto
      qed (use Cons(3) l(3) in auto)
      then obtain ls j N where r: "name_at (?D @ V) start (length ?D) ls j (length (?D @ V))" "labs_ci ls (split_dot [] cs)" "j \<le> length ls"
        "ents ht' = T @ (P @ Q) @ N" "\<forall>e \<in> set N. ent_ok (?D @ V) start e" by auto
      have "start + (length ?D - start) = length ?D" using Cons(3) by simp
      then have "ent_ok (?D @ V) start ?e" if "length ?D - start \<le> 0x3fff" using that r(1-3) labels_suffix [OF l(3)] by (auto simp: ent_ok_def)
      then have "\<forall>e \<in> set (Q @ N). ent_ok (D @ W) start e" using Q(2) r(5) unfolding W(1) by auto
      moreover have "labs_ci (acc # ls) (split_dot acc (c # cs))" using True r(2) by (simp add: labs_ci_def)
      ultimately show ?thesis using r(3,4) label [OF r(1)] unfolding W(1)
        by (intro exI [of _ "acc # ls"] exI [of _ j] exI [of _ "Q @ N"]) auto
    qed
  qed
qed

section \<open>Whole names\<close>

text \<open>
  Names that survive: no label is empty or so long that its length reads as a pointer, there is no zero
  byte, and the name fits the array of the decoder.  The name that is read back has no dot at the end.
\<close>

definition dname_canon :: "byte list \<Rightarrow> byte list" where
  "dname_canon name = join_dot [] (labels name)"

definition dname_ok :: "byte list \<Rightarrow> bool" where
  "dname_ok name \<longleftrightarrow> labs_ok (labels name) \<and> 0 \<notin> set name \<and> length name \<le> 255 \<and> length (dname_canon name) \<le> 254"

definition name_in :: "byte list \<Rightarrow> nat \<Rightarrow> nat \<Rightarrow> byte list \<Rightarrow> nat \<Rightarrow> bool" where
  "name_in D start p name q \<longleftrightarrow> (\<exists>ls j. name_at D start p ls j q \<and> labs_ci ls (labels name) \<and> j \<le> Suc (length ls))"

lemma name_in_append: "name_in D start p name q \<Longrightarrow> name_in (D @ E) start p name q"
  unfolding name_in_def using name_at_append by blast

definition tab_ok :: "byte list \<Rightarrow> nat \<Rightarrow> dname_tab option \<Rightarrow> bool" where
  "tab_ok D start ht \<longleftrightarrow> (\<forall>e \<in> set (ents ht). ent_ok D start e)"

lemma tab_ok_append: "tab_ok D start ht \<Longrightarrow> tab_ok (D @ E) start ht"
  unfolding tab_ok_def using ent_ok_append by blast

definition dname_whole :: "alloc \<Rightarrow> nat \<Rightarrow> bool \<Rightarrow> nat \<Rightarrow> byte list \<Rightarrow> dname_tab option \<Rightarrow> byte list \<times> dname_tab option" where
  "dname_whole al start compr pos name ht =
     (case (dname_lookup ht name, compr) of
        (Some dn, True) \<Rightarrow> (be16 (of_nat (dn_pos dn) OR 0xc000), ht)
      | (found, _) \<Rightarrow>
          let ht1 = (if found = None then dname_append al ht name (pos - start) else ht)
          in if name = [DOT] then ([0], ht1) else dname_bytes al start compr pos [] name ht1)"

lemma dname_whole_pointer:
  "dname_lookup ht name = Some dn \<Longrightarrow> compr \<Longrightarrow> dname_whole al start compr pos name ht = (be16 (of_nat (dn_pos dn) OR 0xc000), ht)"
  by (simp add: dname_whole_def)

lemma dname_whole_fresh:
  assumes "dname_lookup ht name = None \<or> \<not> compr"
    "ht1 = (if dname_lookup ht name = None then dname_append al ht name (pos - start) else ht)"
  shows "dname_whole al start compr pos name ht = (if name = [DOT] then ([0], ht1) else dname_bytes al start compr pos [] name ht1)"
  using assms by (cases "dname_lookup ht name"; cases compr) (auto simp: dname_whole_def Let_def)

lemma dns_dname_encode_writes:
  assumes "mem_ok al" "holds mb D" "start \<le> length D" "labs_ok (labels name)"
    "length D + length name + 8 < 2 ^ 31" "dname_whole al start compr (length D) name ht = (W, ht')"
  shows "\<exists>mb'. dns_dname_encode al mb name ht start compr = (0, mb', ht') \<and> holds mb' (D @ W) \<and> length W \<le> length name + 2"
proof (cases "dname_lookup ht name = None \<or> \<not> compr")
  case False
  then obtain dn where dn: "dname_lookup ht name = Some dn" and c: compr by auto
  let ?w = "be16 (of_nat (dn_pos dn) OR 0xc000)"
  obtain mb2 where 2: "mbuf_write_mem al mb ?w = (0, mb2)" "holds mb2 (D @ ?w)"
    using holds_write [OF assms(1,2), of ?w] assms(5) by auto
  have "dname_encode_pointer al mb (dn_pos dn) = (0, mb2)" using 2(1) by (simp add: dname_encode_pointer_def mbuf_write_u16_def)
  then show ?thesis using 2(2) dn c dname_whole_pointer [OF dn c, of al start "length D"] assms(6) by (auto simp: dns_dname_encode_def)
next
  case True
  define ht1 where "ht1 = (if dname_lookup ht name = None then dname_append al ht name (length D - start) else ht)"
  obtain mb1 where 1: "mbuf_write_u8 al mb 0 = (0, mb1)" "holds mb1 (D @ 0 # [])"
    using holds_u8 [OF assms(1,2), of 0] assms(5) by auto
  have enc: "dns_dname_encode al mb name ht start compr =
      (if name = [DOT] then (0, mb1, ht1) else dname_loop al start compr (length D) name mb1 ht1)"
    using True 1(1) holds_pos [OF assms(2)] assms(3,5)
    by (cases "dname_lookup ht name"; cases compr) (auto simp: dns_dname_encode_def ht1_def Let_def)
  show ?thesis
  proof (cases "name = [DOT]")
    case root: True
    then show ?thesis using enc 1(2) dname_whole_fresh [OF True ht1_def] assms(6) by auto
  next
    case False
    then show ?thesis
      using dname_loop_writes [OF assms(1) 1(2) assms(3), of name compr ht1 W ht'] dname_whole_fresh [OF True ht1_def] assms(4-6) enc
      by (simp add: labels_def)
  qed
qed

lemma dname_whole_named:
  assumes "dname_whole al start compr (length D) name ht = (W, ht')" "start \<le> length D" "tab_ok D start ht" "labs_ok (labels name)"
  shows "name_in (D @ W) start (length D) name (length (D @ W)) \<and> tab_ok (D @ W) start ht'"
proof (cases "dname_lookup ht name = None \<or> \<not> compr")
  case False
  then obtain dn where dn: "dname_lookup ht name = Some dn" and c: compr by auto
  obtain ls j q where n: "dn_pos dn \<le> 0x3fff" "name_at D start (start + dn_pos dn) ls j q" "labs_ci ls (labels (dn_name dn))" "j \<le> length ls"
    using dname_lookup_ents [OF dn] assms(3) unfolding tab_ok_def ent_ok_def by blast
  let ?w = "be16 (of_nat (dn_pos dn) OR 0xc000)"
  have W: "W = ?w" "ht' = ht" using dname_whole_pointer [OF dn c, of al start "length D"] assms(1) by auto
  have "name_at (D @ ?w) start (length D) ls (Suc j) (length D + 2)"
    by (rule name_ptr [OF n(1) _ name_at_append [OF n(2)]]) simp
  moreover have "labs_ci ls (labels name)" using n(3) labels_ci [of "dn_name dn" name] dname_lookup_ents [OF dn] by (simp add: labs_ci_def)
  ultimately show ?thesis unfolding W name_in_def using n(4) tab_ok_append [OF assms(3)] by auto
next
  case True
  define ht1 where "ht1 = (if dname_lookup ht name = None then dname_append al ht name (length D - start) else ht)"
  let ?e = "\<lparr>dn_pos = length D - start, dn_name = name\<rparr>"
  obtain Q where Q: "ents ht1 = ents ht @ Q" "Q = [] \<or> Q = [?e] \<and> length D - start \<le> 0x3fff"
    using dname_append_cases [OF ht1_def] by blast
  have "\<exists>ls j N. name_at (D @ W) start (length D) ls j (length (D @ W)) \<and> labs_ci ls (labels name) \<and> j \<le> length ls \<and>
    ents ht' = ents ht @ Q @ N \<and> (\<forall>e \<in> set N. ent_ok (D @ W) start e)"
  proof (cases "name = [DOT]")
    case root: True
    have "name_at (D @ [0]) start (length D) [] 0 (length D + 1)" by (rule name_end) simp
    then show ?thesis using root Q(1) dname_whole_fresh [OF True ht1_def] assms(1)
      by (intro exI [of _ "[]"] exI [of _ 0] exI [of _ "[]"]) (auto simp: labels_def labs_ci_def)
  next
    case False
    then have lab: "labels name = split_dot [] name" by (simp add: labels_def)
    show ?thesis unfolding lab
    proof (rule dname_bytes_named)
      show "dname_bytes al start compr (length D) [] name ht1 = (W, ht')" using dname_whole_fresh [OF True ht1_def] assms(1) False by simp
      show "ent_ok D start e" if "e \<in> set (ents ht)" for e using that assms(3) by (simp add: tab_ok_def)
      show "length name \<le> length (dn_name e)" if "e \<in> set Q" for e using that Q(2) by auto
    qed (use assms(2,4) Q(1) lab in auto)
  qed
  then obtain ls j N where r: "name_at (D @ W) start (length D) ls j (length (D @ W))" "labs_ci ls (labels name)" "j \<le> length ls"
    "ents ht' = ents ht @ Q @ N" "\<forall>e \<in> set N. ent_ok (D @ W) start e" by blast
  have "ent_ok (D @ W) start ?e" if "length D - start \<le> 0x3fff" using that r(1-3) assms(2) by (auto simp: ent_ok_def)
  then have "tab_ok (D @ W) start ht'" using Q r(4,5) tab_ok_append [OF assms(3), of W] by (auto simp: tab_ok_def)
  then show ?thesis unfolding name_in_def using r(1-3) le_SucI by blast
qed

lemma map_lower_join: "map lower (join_dot buf ls) = join_dot (map lower buf) (map (map lower) ls)"
  by (induction ls arbitrary: buf) (auto simp: lower_def)

lemma labs_ci_join: "labs_ci ls ms \<Longrightarrow> str_caseeq (join_dot [] ls) (join_dot [] ms)"
  by (simp add: labs_ci_def str_caseeq_def map_lower_join)

lemma lower_zero: "lower c = 0 \<longleftrightarrow> c = 0"
  by (auto simp: lower_def word_le_nat_alt word_unat_eq_iff unat_word_ariths split: if_splits)

lemma zero_in_lower: "0 \<in> set (map lower xs) \<longleftrightarrow> 0 \<in> set xs"
  using lower_zero by force

lemma zero_in_join: "0 \<in> set (join_dot buf ls) \<Longrightarrow> 0 \<in> set buf \<or> list_ex (\<lambda>l. 0 \<in> set l) ls"
proof (induction ls arbitrary: buf)
  case (Cons l ls)
  then show ?case using Cons.IH [of "(if buf = [] then [] else buf @ [DOT]) @ l"] by (cases "buf = []") auto
qed simp

lemma zero_in_split: "list_ex (\<lambda>l. 0 \<in> set l) (split_dot acc cs) \<Longrightarrow> 0 \<in> set acc \<or> 0 \<in> set cs"
proof (induction cs arbitrary: acc)
  case (Cons c cs)
  then show ?case using Cons.IH [of "[]"] Cons.IH [of "acc @ [c]"] by (cases "c = DOT") auto
qed (simp split: if_splits)

lemma labs_length: "labs_ok ls \<Longrightarrow> length buf + length ls \<le> length (join_dot buf ls)"
proof (induction ls arbitrary: buf)
  case (Cons l ls)
  then show ?case using Cons.IH [of "(if buf = [] then [] else buf @ [DOT]) @ l"] by (cases l) (auto simp: labs_ok_def)
qed simp

lemma dname_canon_nonul: "0 \<notin> set name \<Longrightarrow> 0 \<notin> set (dname_canon name)"
  using zero_in_join [of "[]" "labels name"] zero_in_split [of "[]" name] by (auto simp: dname_canon_def labels_def split: if_splits)

text \<open>The decoder gives a name of the data back, up to case.\<close>

lemma dns_dname_decode_in:
  assumes "name_in D start p name q" "dname_ok name" "mbuf_wf mb" "mb_data mb = D" "mb_pos mb = p" "mem_ok al" "start < 2 ^ 32"
  shows "\<exists>n. dns_dname_decode al start mb = (Inr n, mb\<lparr>mb_pos := q\<rparr>) \<and> str_caseeq n (dname_canon name)"
proof -
  obtain ls j where n: "name_at D start p ls j q" "labs_ci ls (labels name)" "j \<le> Suc (length ls)" using assms(1) unfolding name_in_def by blast
  have ci: "str_caseeq (join_dot [] ls) (dname_canon name)" using labs_ci_join [OF n(2)] by (simp add: dname_canon_def)
  then have len: "length (join_dot [] ls) = length (dname_canon name)" by (metis str_caseeq_def length_map)
  have "length ls = length (labels name)" using n(2) by (metis labs_ci_def length_map)
  moreover have "length (labels name) \<le> length (dname_canon name)" using labs_length [of "labels name" "[]"] assms(2) by (simp add: dname_ok_def dname_canon_def)
  ultimately have j: "0 + j \<le> 256" using n(3) assms(2) by (simp add: dname_ok_def)
  have "0 \<notin> set (dname_canon name)" using dname_canon_nonul [of name] assms(2) by (simp add: dname_ok_def)
  then have "0 \<notin> set (join_dot [] ls)"
    using ci zero_in_lower [of "join_dot [] ls"] zero_in_lower [of "dname_canon name"] by (simp only: str_caseeq_def not_False_eq_True)
  then have "takeWhile (\<lambda>c. c \<noteq> 0) (join_dot [] ls) = join_dot [] ls" by (intro takeWhile_eq_all_conv [THEN iffD2]) auto
  then have t: "takeWhile (\<lambda>c. c \<noteq> 0) (join_dot [] ls) = join_dot [] ls" .
  have "dns_dname_decode al start mb = (Inr (takeWhile (\<lambda>c. c \<noteq> 0) (join_dot [] ls)), mb\<lparr>mb_pos := q\<rparr>)"
    using dname_decode_at [OF n(1) assms(3-5) j _ assms(6,7), of "[]" None] assms(2) len by (simp add: dns_dname_decode_def dname_ok_def)
  then show ?thesis unfolding t using ci by blast
qed

end
