(* ===== verification/Dns.thy ===== *)
theory Dns
  imports Dns_Name
begin

text \<open>
  Headers and resource records of the DNS (\<^verbatim>\<open>src/dns/hdr.c\<close>, \<^verbatim>\<open>src/dns/rr.c\<close>).  The union of a record is a
  datatype with one constructor for every member; a record whose member is not the one of its type is a
  fault when it is accessed.
\<close>

section \<open>Headers\<close>

record dnshdr =
  dh_id :: "16 word"
  dh_qr :: bool
  dh_opcode :: byte
  dh_aa :: bool
  dh_tc :: bool
  dh_rd :: bool
  dh_ra :: bool
  dh_z :: byte
  dh_rcode :: byte
  dh_nq :: "16 word"
  dh_nans :: "16 word"
  dh_nauth :: "16 word"
  dh_nadd :: "16 word"

definition dns_hdr_flags :: "dnshdr \<Rightarrow> 16 word" where
  "dns_hdr_flags hdr =
     push_bit 15 (of_bool (dh_qr hdr)) OR push_bit 11 (ucast (dh_opcode hdr)) OR push_bit 10 (of_bool (dh_aa hdr)) OR
     push_bit 9 (of_bool (dh_tc hdr)) OR push_bit 8 (of_bool (dh_rd hdr)) OR push_bit 7 (of_bool (dh_ra hdr)) OR
     push_bit 4 (ucast (dh_z hdr)) OR ucast (dh_rcode hdr)"

definition dns_hdr_encode :: "alloc \<Rightarrow> mbuf \<Rightarrow> dnshdr \<Rightarrow> errno \<times> mbuf" where
  "dns_hdr_encode al mb hdr =
     err_or (err_or (err_or (err_or (err_or
       (mbuf_write_u16 al mb (htons (dh_id hdr)))
       (\<lambda>mb. mbuf_write_u16 al mb (htons (dns_hdr_flags hdr))))
       (\<lambda>mb. mbuf_write_u16 al mb (htons (dh_nq hdr))))
       (\<lambda>mb. mbuf_write_u16 al mb (htons (dh_nans hdr))))
       (\<lambda>mb. mbuf_write_u16 al mb (htons (dh_nauth hdr))))
       (\<lambda>mb. mbuf_write_u16 al mb (htons (dh_nadd hdr)))"

abbreviation (input) DNS_HEADER_SIZE :: nat where "DNS_HEADER_SIZE \<equiv> 12"

definition dns_hdr_decode :: "dnshdr dec" where
  "dns_hdr_decode =
     dec_bind (dec_need DNS_HEADER_SIZE EINVAL) (\<lambda>_.
     dec_bind get_be16 (\<lambda>i.
     dec_bind get_be16 (\<lambda>flags.
     dec_bind get_be16 (\<lambda>nq.
     dec_bind get_be16 (\<lambda>nans.
     dec_bind get_be16 (\<lambda>nauth.
     dec_bind get_be16 (\<lambda>nadd.
     dec_return
       \<lparr>dh_id = i, dh_qr = (0x1 AND drop_bit 15 flags \<noteq> 0), dh_opcode = ucast (0xf AND drop_bit 11 flags),
        dh_aa = (0x1 AND drop_bit 10 flags \<noteq> 0), dh_tc = (0x1 AND drop_bit 9 flags \<noteq> 0),
        dh_rd = (0x1 AND drop_bit 8 flags \<noteq> 0), dh_ra = (0x1 AND drop_bit 7 flags \<noteq> 0),
        dh_z = ucast (0x7 AND drop_bit 4 flags), dh_rcode = ucast (0xf AND flags),
        dh_nq = nq, dh_nans = nans, dh_nauth = nauth, dh_nadd = nadd\<rparr>)))))))"

section \<open>Records\<close>

abbreviation (input) DNS_TYPE_A :: "16 word" where "DNS_TYPE_A \<equiv> 0x01"
abbreviation (input) DNS_TYPE_NS :: "16 word" where "DNS_TYPE_NS \<equiv> 0x02"
abbreviation (input) DNS_TYPE_CNAME :: "16 word" where "DNS_TYPE_CNAME \<equiv> 0x05"
abbreviation (input) DNS_TYPE_SOA :: "16 word" where "DNS_TYPE_SOA \<equiv> 0x06"
abbreviation (input) DNS_TYPE_PTR :: "16 word" where "DNS_TYPE_PTR \<equiv> 0x0c"
abbreviation (input) DNS_TYPE_MX :: "16 word" where "DNS_TYPE_MX \<equiv> 0x0f"
abbreviation (input) DNS_TYPE_TXT :: "16 word" where "DNS_TYPE_TXT \<equiv> 0x10"
abbreviation (input) DNS_TYPE_AAAA :: "16 word" where "DNS_TYPE_AAAA \<equiv> 0x1c"
abbreviation (input) DNS_TYPE_SRV :: "16 word" where "DNS_TYPE_SRV \<equiv> 0x21"
abbreviation (input) DNS_TYPE_NAPTR :: "16 word" where "DNS_TYPE_NAPTR \<equiv> 0x23"
abbreviation (input) DNS_QTYPE_ANY :: "16 word" where "DNS_QTYPE_ANY \<equiv> 0xff"
abbreviation (input) DNS_QCLASS_ANY :: "16 word" where "DNS_QCLASS_ANY \<equiv> 0xff"

datatype rdata =
    Rd_none
  | Rd_a (a_addr: "32 word")
  | Rd_ns (nsdname: "byte list")
  | Rd_cname (cname: "byte list")
  | Rd_soa (mname: "byte list") (rname: "byte list") (serial: "32 word") (refresh: "32 word") (retry: "32 word")
      (expire: "32 word") (ttlmin: "32 word")
  | Rd_ptr (ptrdname: "byte list")
  | Rd_mx (mx_pref: "16 word") (exchange: "byte list")
  | Rd_txt (txt_data: "byte list")
  | Rd_aaaa (aaaa_addr: "byte list")
  | Rd_srv (pri: "16 word") (weight: "16 word") (srv_port: "16 word") (target: "byte list")
  | Rd_naptr (naptr_order: "16 word") (naptr_pref: "16 word") (naptr_flags: "byte list") (services: "byte list")
      (regexp: "byte list") (replace: "byte list")

record dnsrr =
  rr_name :: "byte list"
  rr_type :: "16 word"
  rr_dnsclass :: "16 word"
  rr_ttl :: int
  rr_rdlen :: "16 word"
  rr_rdata :: rdata

text \<open>The type that belongs to a member of the union.\<close>

definition rdata_type :: "rdata \<Rightarrow> 16 word option" where
  "rdata_type rd = (case rd of
      Rd_none \<Rightarrow> None | Rd_a _ \<Rightarrow> Some DNS_TYPE_A | Rd_ns _ \<Rightarrow> Some DNS_TYPE_NS | Rd_cname _ \<Rightarrow> Some DNS_TYPE_CNAME
    | Rd_soa _ _ _ _ _ _ _ \<Rightarrow> Some DNS_TYPE_SOA | Rd_ptr _ \<Rightarrow> Some DNS_TYPE_PTR | Rd_mx _ _ \<Rightarrow> Some DNS_TYPE_MX
    | Rd_txt _ \<Rightarrow> Some DNS_TYPE_TXT | Rd_aaaa _ \<Rightarrow> Some DNS_TYPE_AAAA | Rd_srv _ _ _ _ \<Rightarrow> Some DNS_TYPE_SRV
    | Rd_naptr _ _ _ _ _ _ \<Rightarrow> Some DNS_TYPE_NAPTR)"

definition dns_types :: "16 word list" where
  "dns_types = [DNS_TYPE_A, DNS_TYPE_NS, DNS_TYPE_CNAME, DNS_TYPE_SOA, DNS_TYPE_PTR, DNS_TYPE_MX, DNS_TYPE_TXT,
     DNS_TYPE_AAAA, DNS_TYPE_SRV, DNS_TYPE_NAPTR]"

definition rdata_typed :: "16 word \<Rightarrow> rdata \<Rightarrow> bool" where
  "rdata_typed ty rd \<longleftrightarrow> (case rdata_type rd of None \<Rightarrow> ty \<notin> set dns_types | Some t \<Rightarrow> ty = t)"

section \<open>Encoding\<close>

text \<open>Steps of the encoder, which carry the table of names, joined by \<^verbatim>\<open>err |= \<dots>\<close>.\<close>

type_synonym denc = "mbuf \<Rightarrow> dname_tab option \<Rightarrow> errno \<times> mbuf \<times> dname_tab option"

definition den_or :: "denc \<Rightarrow> denc \<Rightarrow> denc" where
  "den_or f g = (\<lambda>mb ht. case f mb ht of (e1, mb1, ht1) \<Rightarrow> (case g mb1 ht1 of (e2, mb2, ht2) \<Rightarrow> (e1 OR e2, mb2, ht2)))"

definition den_put :: "(mbuf \<Rightarrow> errno \<times> mbuf) \<Rightarrow> denc" where
  "den_put f = (\<lambda>mb ht. case f mb of (e, mb1) \<Rightarrow> (e, mb1, ht))"

definition den_u16 :: "alloc \<Rightarrow> 16 word \<Rightarrow> denc" where
  "den_u16 al v = den_put (\<lambda>mb. mbuf_write_u16 al mb (htons v))"

definition den_u32 :: "alloc \<Rightarrow> 32 word \<Rightarrow> denc" where
  "den_u32 al v = den_put (\<lambda>mb. mbuf_write_u32 al mb (htonl v))"

definition den_name :: "alloc \<Rightarrow> nat \<Rightarrow> bool \<Rightarrow> byte list \<Rightarrow> denc" where
  "den_name al start compr name = (\<lambda>mb ht. dns_dname_encode al mb name ht start compr)"

definition den_cstr :: "alloc \<Rightarrow> byte list \<Rightarrow> denc" where
  "den_cstr al s = den_put (\<lambda>mb. dns_cstr_encode al mb s)"

text \<open>
  The text is cut into strings.  The length of a string is the length of the rest \<^emph>\<open>modulo\<close> 256, as
  the conversion to a byte comes before the minimum.
\<close>

partial_function (option) dns_txt_loop :: "alloc \<Rightarrow> byte list \<Rightarrow> errno \<Rightarrow> mbuf \<Rightarrow> (errno \<times> mbuf) option" where
  "dns_txt_loop al s err mb =
     (let slen = unat (of_nat (length s) :: byte);
          (e1, mb1) = mbuf_write_u8 al mb (of_nat slen);
          (e2, mb2) = mbuf_write_mem al mb1 (take slen s);
          rest = drop slen s
      in if rest \<noteq> [] then dns_txt_loop al rest (err OR e1 OR e2) mb2 else Some (err OR e1 OR e2, mb2))"

text \<open>The switch over the type; \<open>None\<close> when it does not return.\<close>

definition dns_rdata_encode :: "alloc \<Rightarrow> nat \<Rightarrow> rdata \<Rightarrow> mbuf \<Rightarrow> dname_tab option \<Rightarrow> (errno \<times> mbuf \<times> dname_tab option) option" where
  "dns_rdata_encode al start rd mb ht =
     (case rd of
        Rd_none \<Rightarrow> Some (EINVAL, mb, ht)
      | Rd_a addr \<Rightarrow> Some (den_u32 al addr mb ht)
      | Rd_ns name \<Rightarrow> Some (den_name al start True name mb ht)
      | Rd_cname name \<Rightarrow> Some (den_name al start True name mb ht)
      | Rd_soa mn rn s rf rt ex tm \<Rightarrow>
          Some (den_or (den_or (den_or (den_or (den_or (den_or
            (den_name al start True mn) (den_name al start True rn)) (den_u32 al s)) (den_u32 al rf)) (den_u32 al rt))
            (den_u32 al ex)) (den_u32 al tm) mb ht)
      | Rd_ptr name \<Rightarrow> Some (den_name al start True name mb ht)
      | Rd_mx p name \<Rightarrow> Some (den_or (den_u16 al p) (den_name al start True name) mb ht)
      | Rd_txt s \<Rightarrow> map_option (\<lambda>(e, mb1). (e, mb1, ht)) (dns_txt_loop al s 0 mb)
      | Rd_aaaa addr \<Rightarrow> Some (den_put (\<lambda>mb. mbuf_write_mem al mb addr) mb ht)
      | Rd_srv p w port name \<Rightarrow>
          Some (den_or (den_or (den_or (den_u16 al p) (den_u16 al w)) (den_u16 al port)) (den_name al start False name) mb ht)
      | Rd_naptr ord p fl sv re rp \<Rightarrow>
          Some (den_or (den_or (den_or (den_or (den_or
            (den_u16 al ord) (den_u16 al p)) (den_cstr al fl)) (den_cstr al sv)) (den_cstr al re)) (den_name al start False rp) mb ht))"

definition dns_rr_encode ::
  "alloc \<Rightarrow> mbuf \<Rightarrow> dnsrr \<Rightarrow> int \<Rightarrow> dname_tab option \<Rightarrow> nat \<Rightarrow> (errno \<times> mbuf \<times> dname_tab option) option" where
  "dns_rr_encode al mb rr ttl_offs ht start =
     (let ttl = (word_of_int (if rr_ttl rr > ttl_offs then rr_ttl rr - ttl_offs else 0) :: 32 word);
          (e1, mb1, ht1) =
            den_or (den_or (den_or (den_or (den_name al start True (rr_name rr))
              (den_u16 al (rr_type rr))) (den_u16 al (rr_dnsclass rr))) (den_u32 al ttl)) (den_u16 al (rr_rdlen rr)) mb ht;
          start_rdata = mb_pos mb1
      in if \<not> rdata_typed (rr_type rr) (rr_rdata rr) then Some (FAULT, mb1, ht1)
         else case dns_rdata_encode al start (rr_rdata rr) mb1 ht1 of
                None \<Rightarrow> None
              | Some (e2, mb2, ht2) \<Rightarrow>
                  let err = (if rr_rdata rr = Rd_none then e2 else e1 OR e2);
                      len = szsub (mb_pos mb2) start_rdata
                  in if len > 0xffff then Some (EOVERFLOW, mb2, ht2)
                     else let (e3, mb3) = mbuf_write_u16 al (mb2\<lparr>mb_pos := szsub start_rdata 2\<rparr>) (htons (of_nat len))
                          in Some (err OR e3, mb3\<lparr>mb_pos := szadd (mb_pos mb3) len\<rparr>, ht2))"

section \<open>Decoding\<close>

abbreviation (input) DNSRR_SIZEOF :: nat where "DNSRR_SIZEOF \<equiv> 136"

text \<open>The strings of a text are joined in a block of \<open>bsz\<close> bytes.\<close>

function dns_txt_decode :: "nat \<Rightarrow> nat \<Rightarrow> byte list \<Rightarrow> byte list dec" where
  "dns_txt_decode bsz rdlen acc =
     (if rdlen = 0 then if length acc < bsz then dec_return (takeWhile (\<lambda>c. c \<noteq> 0) acc) else dec_fail FAULT
      else dec_bind get_u8 (\<lambda>len.
           if unat len > rdlen - 1 then dec_fail EINVAL
           else dec_bind (get_mem (unat len)) (\<lambda>bs.
                if length acc + unat len > bsz then dec_fail FAULT
                else dns_txt_decode bsz (rdlen - 1 - unat len) (acc @ bs))))"
  by pat_completeness auto
termination
  by (relation "measure (\<lambda>(bsz, rdlen, acc). rdlen)") auto

declare dns_txt_decode.simps [simp del]

definition dec_skip :: "nat \<Rightarrow> unit dec" where
  "dec_skip n = (\<lambda>mb. (Inr (), mb\<lparr>mb_pos := szadd (mb_pos mb) n\<rparr>))"

definition dns_rdata_decode :: "alloc \<Rightarrow> nat \<Rightarrow> 16 word \<Rightarrow> nat \<Rightarrow> rdata dec" where
  "dns_rdata_decode al start ty rdlen =
     (if ty = DNS_TYPE_A then
        if rdlen \<noteq> 4 then dec_fail EINVAL else dec_bind get_be32 (\<lambda>addr. dec_return (Rd_a addr))
      else if ty = DNS_TYPE_NS then dec_bind (dns_dname_decode al start) (\<lambda>name. dec_return (Rd_ns name))
      else if ty = DNS_TYPE_CNAME then dec_bind (dns_dname_decode al start) (\<lambda>name. dec_return (Rd_cname name))
      else if ty = DNS_TYPE_SOA then
        dec_bind (dns_dname_decode al start) (\<lambda>mn.
        dec_bind (dns_dname_decode al start) (\<lambda>rn.
        dec_bind (dec_need 20 EINVAL) (\<lambda>_.
        dec_bind get_be32 (\<lambda>s. dec_bind get_be32 (\<lambda>rf. dec_bind get_be32 (\<lambda>rt. dec_bind get_be32 (\<lambda>ex. dec_bind get_be32 (\<lambda>tm.
        dec_return (Rd_soa mn rn s rf rt ex tm)))))))))
      else if ty = DNS_TYPE_PTR then dec_bind (dns_dname_decode al start) (\<lambda>name. dec_return (Rd_ptr name))
      else if ty = DNS_TYPE_MX then
        dec_bind (dec_need 2 EINVAL) (\<lambda>_.
        dec_bind get_be16 (\<lambda>p.
        dec_bind (dns_dname_decode al start) (\<lambda>name. dec_return (Rd_mx p name))))
      else if ty = DNS_TYPE_TXT then
        dec_bind (dec_alloc al (rdlen + 1)) (\<lambda>_.
        dec_bind (dns_txt_decode (rdlen + 1) rdlen []) (\<lambda>s. dec_return (Rd_txt s)))
      else if ty = DNS_TYPE_AAAA then
        if rdlen \<noteq> 16 then dec_fail EINVAL else dec_bind (get_mem 16) (\<lambda>addr. dec_return (Rd_aaaa addr))
      else if ty = DNS_TYPE_SRV then
        dec_bind (dec_need 6 EINVAL) (\<lambda>_.
        dec_bind get_be16 (\<lambda>p. dec_bind get_be16 (\<lambda>w. dec_bind get_be16 (\<lambda>port.
        dec_bind (dns_dname_decode al start) (\<lambda>name. dec_return (Rd_srv p w port name))))))
      else if ty = DNS_TYPE_NAPTR then
        dec_bind (dec_need 4 EINVAL) (\<lambda>_.
        dec_bind get_be16 (\<lambda>ord. dec_bind get_be16 (\<lambda>p.
        dec_bind (dns_cstr_decode al) (\<lambda>fl.
        dec_bind (dns_cstr_decode al) (\<lambda>sv.
        dec_bind (dns_cstr_decode al) (\<lambda>re.
        dec_bind (dns_dname_decode al start) (\<lambda>rp. dec_return (Rd_naptr ord p fl sv re rp))))))))
      else dec_bind (dec_skip rdlen) (\<lambda>_. dec_return Rd_none))"

definition dns_rr_decode :: "alloc \<Rightarrow> nat \<Rightarrow> dnsrr dec" where
  "dns_rr_decode al start =
     dec_bind (dec_alloc al DNSRR_SIZEOF) (\<lambda>_.
     dec_bind (dns_dname_decode al start) (\<lambda>name.
     dec_bind (dec_need 10 EINVAL) (\<lambda>_.
     dec_bind get_be16 (\<lambda>ty.
     dec_bind get_be16 (\<lambda>cl.
     dec_bind get_be32 (\<lambda>ttl.
     dec_bind get_be16 (\<lambda>rdlen.
     dec_bind (dec_need (unat rdlen) EINVAL) (\<lambda>_.
     dec_bind (dns_rdata_decode al start ty (unat rdlen)) (\<lambda>rd.
     dec_return \<lparr>rr_name = name, rr_type = ty, rr_dnsclass = cl, rr_ttl = uint ttl, rr_rdlen = rdlen, rr_rdata = rd\<rparr>)))))))))"

section \<open>Comparison\<close>

definition rdata_cmp :: "rdata \<Rightarrow> rdata \<Rightarrow> bool" where
  "rdata_cmp rd1 rd2 \<longleftrightarrow>
     (case rd1 of
        Rd_a x \<Rightarrow> (case rd2 of Rd_a y \<Rightarrow> x = y | _ \<Rightarrow> False)
      | Rd_ns x \<Rightarrow> (case rd2 of Rd_ns y \<Rightarrow> str_caseeq x y | _ \<Rightarrow> False)
      | Rd_cname x \<Rightarrow> (case rd2 of Rd_cname y \<Rightarrow> str_caseeq x y | _ \<Rightarrow> False)
      | Rd_soa m1 r1 s1 f1 t1 e1 l1 \<Rightarrow>
          (case rd2 of
             Rd_soa m2 r2 s2 f2 t2 e2 l2 \<Rightarrow>
               str_caseeq m1 m2 \<and> str_caseeq r1 r2 \<and> s1 = s2 \<and> f1 = f2 \<and> t1 = t2 \<and> e1 = e2 \<and> l1 = l2
           | _ \<Rightarrow> False)
      | Rd_ptr x \<Rightarrow> (case rd2 of Rd_ptr y \<Rightarrow> str_caseeq x y | _ \<Rightarrow> False)
      | Rd_mx p1 x \<Rightarrow> (case rd2 of Rd_mx p2 y \<Rightarrow> p1 = p2 \<and> str_caseeq x y | _ \<Rightarrow> False)
      | Rd_txt x \<Rightarrow> (case rd2 of Rd_txt y \<Rightarrow> str_caseeq x y | _ \<Rightarrow> False)
      | Rd_aaaa x \<Rightarrow> (case rd2 of Rd_aaaa y \<Rightarrow> x = y | _ \<Rightarrow> False)
      | Rd_srv p1 w1 t1 x \<Rightarrow>
          (case rd2 of Rd_srv p2 w2 t2 y \<Rightarrow> p1 = p2 \<and> w1 = w2 \<and> t1 = t2 \<and> str_caseeq x y | _ \<Rightarrow> False)
      | Rd_naptr o1 p1 f1 s1 x1 y1 \<Rightarrow>
          (case rd2 of
             Rd_naptr o2 p2 f2 s2 x2 y2 \<Rightarrow>
               o1 = o2 \<and> p1 = p2 \<and> str_caseeq f1 f2 \<and> str_caseeq s1 s2 \<and> str_caseeq x1 x2 \<and> str_caseeq y1 y2
           | _ \<Rightarrow> False)
      | Rd_none \<Rightarrow> False)"

text \<open>Two different records; a record is equal to itself whatever it holds.\<close>

definition dns_rr_cmp :: "dnsrr \<Rightarrow> dnsrr \<Rightarrow> bool \<Rightarrow> bool" where
  "dns_rr_cmp rr1 rr2 rdata \<longleftrightarrow>
     rr_type rr1 = rr_type rr2 \<and> rr_dnsclass rr1 = rr_dnsclass rr2 \<and> str_caseeq (rr_name rr1) (rr_name rr2) \<and>
     (rdata \<longrightarrow> rdata_cmp (rr_rdata rr1) (rr_rdata rr2))"

end
