(* ===== verification/Dns_Safety.thy ===== *)
theory Dns_Safety
  imports Dns "HOL-Library.Code_Target_Numeral"
begin

text \<open>
  Decoding of any message: the decoder of records stays inside of the data and of the blocks that it
  allocates, it ends, and an accepted record holds what belongs to its type.
\<close>

section \<open>Decoders that may move back\<close>

definition dec_sane_at :: "'a dec \<Rightarrow> mbuf \<Rightarrow> bool" where
  "dec_sane_at d mb \<longleftrightarrow> fst (d mb) \<noteq> Inl FAULT \<and>
     (\<forall>x mb'. d mb = (Inr x, mb') \<longrightarrow> (\<exists>n \<le> length (mb_left mb). mb' = mb_adv mb n))"

named_theorems sane_intros \<open>decoders that end inside of the data\<close>

lemma dec_saneI: "(\<And>mb. readable mb \<Longrightarrow> dec_sane_at d mb) \<Longrightarrow> dec_sane d"
  by (simp add: dec_sane_def dec_sane_at_def)

lemma dec_sane_atD: "dec_sane d \<Longrightarrow> readable mb \<Longrightarrow> dec_sane_at d mb"
  by (simp add: dec_sane_def dec_sane_at_def)

lemma dec_sane_safe: "dec_safe d \<Longrightarrow> dec_sane d"
  by (fastforce simp: dec_safe_def dec_safe_at_def dec_sane_def)

lemma dec_sane_at_bind:
  assumes "readable mb" "dec_sane_at d mb"
    "\<And>x n. d mb = (Inr x, mb_adv mb n) \<Longrightarrow> n \<le> length (mb_left mb) \<Longrightarrow> readable (mb_adv mb n) \<Longrightarrow> dec_sane_at (f x) (mb_adv mb n)"
  shows "dec_sane_at (dec_bind d f) mb"
proof (cases "d mb")
  case (Pair r mb1)
  show ?thesis
  proof (cases r)
    case (Inl e)
    then show ?thesis using assms(2) Pair by (auto simp: dec_sane_at_def dec_bind_def)
  next
    case (Inr x)
    then obtain n where n: "n \<le> length (mb_left mb)" "mb1 = mb_adv mb n" using assms(2) Pair by (auto simp: dec_sane_at_def)
    then have s: "dec_sane_at (f x) mb1" using assms(3) [of x n] Pair Inr readable_adv [OF assms(1) n(1)] by simp
    show ?thesis unfolding dec_sane_at_def
    proof (intro conjI allI impI)
      show "fst (dec_bind d f mb) \<noteq> Inl FAULT" using s Pair Inr by (simp add: dec_bind_def dec_sane_at_def)
      fix y mb' assume "dec_bind d f mb = (Inr y, mb')"
      then obtain m where "m \<le> length (mb_left mb1)" "mb' = mb_adv mb1 m" using s Pair Inr by (auto simp: dec_bind_def dec_sane_at_def)
      then show "\<exists>n \<le> length (mb_left mb). mb' = mb_adv mb n" using n by (intro exI [of _ "n + m"]) auto
    qed
  qed
qed

lemma dec_sane_bind [sane_intros]: "dec_sane d \<Longrightarrow> (\<And>x. dec_sane (f x)) \<Longrightarrow> dec_sane (dec_bind d f)"
  by (rule dec_saneI) (blast intro: dec_sane_at_bind dec_sane_atD)

lemma dec_sane_basic [sane_intros]:
  "dec_sane (dec_return x)" "e \<noteq> FAULT \<Longrightarrow> dec_sane (dec_fail e)" "e \<noteq> FAULT \<Longrightarrow> dec_sane (dec_need n e)"
  "dec_sane get_u8" "dec_sane get_be16" "dec_sane get_be32" "dec_sane (get_mem n)" "dec_sane (dec_alloc al n)"
  by (simp_all add: dec_sane_safe dec_safe_basic dec_safe_get dec_safe_mem dec_safe_alloc)

lemma dec_sane_if [sane_intros]: "(b \<Longrightarrow> dec_sane d) \<Longrightarrow> (\<not> b \<Longrightarrow> dec_sane e) \<Longrightarrow> dec_sane (if b then d else e)"
  by simp

lemma dec_sane_name [sane_intros]: "dec_sane (dns_dname_decode al start)"
  by (rule dns_dname_decode_sane)

lemma dec_sane_cstr [sane_intros]: "dec_sane (dns_cstr_decode al)"
proof -
  have "dec_sane (\<lambda>mb. case mbuf_strdup al mb n of (e, s, mb1) \<Rightarrow> (if e \<noteq> 0 then Inl e else Inr (takeWhile (\<lambda>c. c \<noteq> 0) s), mb1))" for n
  proof (rule dec_saneI)
    fix mb assume r: "readable mb"
    have "dec_sane_at (\<lambda>mb. case mbuf_read_mem mb n of (e, s, mb1) \<Rightarrow> (if e \<noteq> 0 then Inl e else Inr (takeWhile (\<lambda>c. c \<noteq> 0) s), mb1)) mb"
      using mbuf_read_mem_readable [OF r, of n] by (cases "n \<le> length (mb_left mb)") (auto simp: dec_sane_at_def)
    then show "dec_sane_at (\<lambda>mb. case mbuf_strdup al mb n of (e, s, mb1) \<Rightarrow> (if e \<noteq> 0 then Inl e else Inr (takeWhile (\<lambda>c. c \<noteq> 0) s), mb1)) mb"
      by (cases "mem_alloc al (szadd n 1)") (simp_all add: mbuf_strdup_def dec_sane_at_def)
  qed
  then have "dec_sane (dec_bind (dec_need 1 EINVAL) (\<lambda>_. dec_bind get_u8 (\<lambda>len. dec_bind (dec_need (unat len) EBADMSG) (\<lambda>_ mb.
      case mbuf_strdup al mb (unat len) of (e, s, mb1) \<Rightarrow> (if e \<noteq> 0 then Inl e else Inr (takeWhile (\<lambda>c. c \<noteq> 0) s), mb1)))))"
    by (intro dec_sane_bind dec_sane_basic) simp_all
  then show ?thesis by (simp only: dns_cstr_decode_def)
qed

section \<open>Records\<close>

lemma dec_sane_txt: "length acc + rdlen < bsz \<Longrightarrow> dec_sane (dns_txt_decode bsz rdlen acc)"
proof (induction bsz rdlen acc rule: dns_txt_decode.induct)
  case (1 bsz rdlen acc)
  show ?case
  proof (cases "rdlen = 0")
    case True
    then show ?thesis using 1(2) by (subst dns_txt_decode.simps) (simp add: sane_intros)
  next
    case False
    have "dec_sane (dec_bind (get_mem (unat len)) (\<lambda>bs. if length acc + unat len > bsz then dec_fail FAULT
        else dns_txt_decode bsz (rdlen - 1 - unat len) (acc @ bs)))" if l: "\<not> unat len > rdlen - 1" for len :: byte
    proof (rule dec_saneI, rule dec_sane_at_bind)
      fix mb assume r: "readable mb"
      show "readable mb" by fact
      show "dec_sane_at (get_mem (unat len)) mb" by (intro dec_sane_atD sane_intros r)
      fix bs n assume g: "get_mem (unat len) mb = (Inr bs, mb_adv mb n)" and rn: "readable (mb_adv mb n)"
      have b: "length bs = unat len" using get_mem_length [OF r g] by simp
      have "dec_sane (dns_txt_decode bsz (rdlen - 1 - unat len) (acc @ bs))"
        by (rule 1(1)) (use False l b 1(2) in auto)
      then show "dec_sane_at (if length acc + unat len > bsz then dec_fail FAULT
          else dns_txt_decode bsz (rdlen - 1 - unat len) (acc @ bs)) (mb_adv mb n)"
        using l 1(2) False dec_sane_atD [OF _ rn] by auto
    qed
    then have "dec_sane (if unat len > rdlen - 1 then dec_fail EINVAL
        else dec_bind (get_mem (unat len)) (\<lambda>bs. if length acc + unat len > bsz then dec_fail FAULT
          else dns_txt_decode bsz (rdlen - 1 - unat len) (acc @ bs)))" for len :: byte
      by (cases "unat len > rdlen - 1") (simp_all only: if_True if_False, simp add: sane_intros)
    then show ?thesis using False by (subst dns_txt_decode.simps) (simp only: if_False dec_sane_bind [OF dec_sane_basic(4)])
  qed
qed

lemma dns_rdata_sane_at:
  assumes "readable mb" "rdlen \<le> length (mb_left mb)"
  shows "dec_sane_at (dns_rdata_decode al start ty rdlen) mb"
proof (cases "ty \<in> set dns_types")
  case True
  have "dec_sane (dns_rdata_decode al start ty rdlen)"
  proof -
    have "dec_sane (dns_txt_decode (Suc rdlen) rdlen [])" by (rule dec_sane_txt) simp
    moreover have "ty = 0x01 \<or> ty = 0x02 \<or> ty = 0x05 \<or> ty = 0x06 \<or> ty = 0x0c \<or> ty = 0x0f \<or> ty = 0x10 \<or> ty = 0x1c \<or> ty = 0x21 \<or> ty = 0x23"
      using True by (simp add: dns_types_def)
    ultimately show ?thesis by (elim disjE) (simp_all add: dns_rdata_decode_def sane_intros)
  qed
  then show ?thesis by (rule dec_sane_atD [OF _ assms(1)])
next
  case False
  have "mb_pos mb + rdlen < 2 ^ 64"
    using assms length_mb_left [OF readable_wf [OF assms(1)]] by (auto simp: readable_def mbuf_wf_def MEM_SIZE_MAX_def mbuf_get_left_def split: if_splits)
  then have "dec_skip rdlen mb = (Inr (), mb_adv mb rdlen)" by (simp add: dec_skip_def mb_adv_def)
  then have "dec_sane_at (dec_skip rdlen) mb" using assms(2) by (auto simp: dec_sane_at_def)
  then have "dec_sane_at (dec_bind (dec_skip rdlen) (\<lambda>_. dec_return Rd_none)) mb"
    by (rule dec_sane_at_bind [OF assms(1)]) (rule dec_sane_atD [OF dec_sane_basic(1)])
  then show ?thesis using False by (simp add: dns_rdata_decode_def dns_types_def)
qed

lemma dec_need_left: "readable mb \<Longrightarrow> dec_need n e mb = (Inr u, mb') \<Longrightarrow> mb' = mb \<and> n \<le> length (mb_left mb)"
  by (auto simp: dec_need_Inr mbuf_get_left_len [OF readable_wf])

lemma dns_rr_decode_sane: "dec_sane (dns_rr_decode al start)"
proof -
  have tail: "dec_sane (dec_bind (dec_need n EINVAL) (\<lambda>_. dec_bind (dns_rdata_decode al start ty n) f))"
    if "\<And>x. dec_sane (f x)" for n ty and f :: "rdata \<Rightarrow> dnsrr dec"
  proof (rule dec_saneI, rule dec_sane_at_bind)
    fix mb assume r: "readable mb"
    show "readable mb" by fact
    show "dec_sane_at (dec_need n EINVAL) mb" by (intro dec_sane_atD sane_intros r) simp
    fix x k assume "dec_need n EINVAL mb = (Inr x, mb_adv mb k)"
    from dec_need_left [OF r this] have m: "mb_adv mb k = mb" "n \<le> length (mb_left mb)" by auto
    show "dec_sane_at (dec_bind (dns_rdata_decode al start ty n) f) (mb_adv mb k)" unfolding m(1)
      by (intro dec_sane_at_bind r dns_rdata_sane_at m(2) dec_sane_atD [OF that])
  qed
  note b = dec_sane_bind [OF dec_sane_basic(8)] dec_sane_bind [OF dec_sane_name] dec_sane_bind [OF dec_sane_basic(3) [of EINVAL 10]]
    dec_sane_bind [OF dec_sane_basic(5)] dec_sane_bind [OF dec_sane_basic(6)]
  show ?thesis unfolding dns_rr_decode_def by (intro b tail dec_sane_basic(1)) simp
qed

section \<open>Accepted records\<close>

text \<open>Strings are C strings that fit the arrays of the decoders; the address of an AAAA record is complete.\<close>

definition dns_string :: "byte list \<Rightarrow> bool" where
  "dns_string s \<longleftrightarrow> length s \<le> 255 \<and> 0 \<notin> set s"

definition rdata_wf :: "rdata \<Rightarrow> bool" where
  "rdata_wf rd = (case rd of
      Rd_none \<Rightarrow> True | Rd_a _ \<Rightarrow> True | Rd_ns n \<Rightarrow> dns_string n | Rd_cname n \<Rightarrow> dns_string n
    | Rd_soa m n _ _ _ _ _ \<Rightarrow> dns_string m \<and> dns_string n | Rd_ptr n \<Rightarrow> dns_string n | Rd_mx _ n \<Rightarrow> dns_string n
    | Rd_txt t \<Rightarrow> 0 \<notin> set t | Rd_aaaa a \<Rightarrow> length a = 16 | Rd_srv _ _ _ n \<Rightarrow> dns_string n
    | Rd_naptr _ _ f s r n \<Rightarrow> dns_string f \<and> dns_string s \<and> dns_string r \<and> dns_string n)"

definition dnsrr_wf :: "dnsrr \<Rightarrow> bool" where
  "dnsrr_wf rr \<longleftrightarrow> dns_string (rr_name rr) \<and> rdata_typed (rr_type rr) (rr_rdata rr) \<and> rdata_wf (rr_rdata rr) \<and>
     0 \<le> rr_ttl rr \<and> rr_ttl rr < 2 ^ 32"

definition dec_yields :: "'a dec \<Rightarrow> ('a \<Rightarrow> bool) \<Rightarrow> bool" where
  "dec_yields d Q \<longleftrightarrow> (\<forall>mb x mb'. readable mb \<longrightarrow> d mb = (Inr x, mb') \<longrightarrow> Q x)"

lemma dec_yieldsI: "(\<And>mb x mb'. readable mb \<Longrightarrow> d mb = (Inr x, mb') \<Longrightarrow> Q x) \<Longrightarrow> dec_yields d Q"
  by (auto simp: dec_yields_def)

lemma dec_yields_bind:
  assumes "dec_sane d" "dec_yields d Q" "\<And>x. Q x \<Longrightarrow> dec_yields (f x) R"
  shows "dec_yields (dec_bind d f) R"
proof (rule dec_yieldsI)
  fix mb y mb2 assume r: "readable mb" and "dec_bind d f mb = (Inr y, mb2)"
  then obtain x mb1 where d: "d mb = (Inr x, mb1)" and f: "f x mb1 = (Inr y, mb2)" by (auto simp: dec_bind_Inr)
  have "readable mb1" using dec_saneD(2) [OF assms(1) r d] by auto
  moreover have "Q x" using assms(2) r d by (auto simp: dec_yields_def)
  ultimately show "R y" using assms(3) f by (auto simp: dec_yields_def)
qed

lemma dec_yields_any: "dec_sane d \<Longrightarrow> (\<And>x. dec_yields (f x) R) \<Longrightarrow> dec_yields (dec_bind d f) R"
  by (rule dec_yields_bind [where Q = "\<lambda>_. True"]) (auto simp: dec_yields_def)

lemma dec_yields_return: "Q x \<Longrightarrow> dec_yields (dec_return x) Q"
  by (auto simp: dec_yields_def dec_return_def)

lemma dec_yields_fail: "dec_yields (dec_fail e) Q"
  by (auto simp: dec_yields_def dec_fail_def)

lemma dname_yields: "dec_yields (dns_dname_decode al start) dns_string"
proof (rule dec_yieldsI)
  fix mb x mb' assume r: "readable mb" and d: "dns_dname_decode al start mb = (Inr x, mb')"
  show "dns_string x" using dname_decode_loop_sane [OF readable_wf [OF r], of None "[]" al start 0] d
    by (auto simp: dns_dname_decode_def dns_string_def)
qed

lemma takeWhile_string: "length s \<le> 255 \<Longrightarrow> dns_string (takeWhile (\<lambda>c. c \<noteq> 0) s)"
  using length_takeWhile_le [of "\<lambda>c. c \<noteq> 0" s] by (auto simp: dns_string_def dest: set_takeWhileD)

lemma cstr_yields: "dec_yields (dns_cstr_decode al) dns_string"
proof (rule dec_yieldsI)
  fix mb x mb' assume "dns_cstr_decode al mb = (Inr x, mb')"
  then obtain mb1 len where "(case mbuf_strdup al mb1 (unat (len :: byte)) of (e, s, mb2) \<Rightarrow>
      (if e \<noteq> 0 then Inl e else Inr (takeWhile (\<lambda>c. c \<noteq> 0) s), mb2)) = (Inr x, mb')"
    unfolding dns_cstr_decode_def dec_bind_Inr by blast
  then obtain e s where s: "mbuf_strdup al mb1 (unat len) = (e, s, mb')" "e = 0" "x = takeWhile (\<lambda>c. c \<noteq> 0) s"
    by (cases "mbuf_strdup al mb1 (unat len)") (auto split: if_splits)
  then have "length s = unat len"
    by (auto simp: mbuf_strdup_def mbuf_read_mem_def mem_read_def split: option.splits if_splits)
  moreover have "unat len < 256" using unsigned_less [of len] by simp
  ultimately show "dns_string x" unfolding s(3) by (intro takeWhile_string) simp
qed

lemma txt_yields: "dns_txt_decode bsz rdlen acc mb = (Inr s, mb') \<Longrightarrow> 0 \<notin> set s"
proof (induction bsz rdlen acc arbitrary: mb rule: dns_txt_decode.induct)
  case (1 bsz rdlen acc)
  show ?case
  proof (cases "rdlen = 0")
    case True
    then show ?thesis using 1(2) by (subst (asm) dns_txt_decode.simps) (auto simp: dec_return_Inr dec_fail_def dest: set_takeWhileD split: if_splits)
  next
    case False
    from 1(2) obtain len mb1 where l: "(if unat (len :: byte) > rdlen - 1 then dec_fail EINVAL else dec_bind (get_mem (unat len)) (\<lambda>bs.
        if length acc + unat len > bsz then dec_fail FAULT else dns_txt_decode bsz (rdlen - 1 - unat len) (acc @ bs))) mb1 = (Inr s, mb')"
      using False by (subst (asm) dns_txt_decode.simps) (simp only: if_False dec_bind_Inr, blast)
    then have n: "\<not> unat len > rdlen - 1" by (auto simp: dec_fail_def split: if_splits)
    then obtain bs mb2 where "(if length acc + unat len > bsz then dec_fail FAULT else dns_txt_decode bsz (rdlen - 1 - unat len) (acc @ bs)) mb2 = (Inr s, mb')"
      using l by (simp only: if_False dec_bind_Inr) blast
    then show ?thesis using 1(1) [OF False n, of bs mb2] by (cases "length acc + unat len > bsz") (auto simp: dec_fail_def)
  qed
qed

lemmas dns_yields = dec_yields_bind [OF dec_sane_name dname_yields] dec_yields_bind [OF dec_sane_cstr cstr_yields]
  dec_yields_any [OF dec_sane_basic(3)] dec_yields_any [OF dec_sane_basic(5)] dec_yields_any [OF dec_sane_basic(6)]
  dec_yields_any [OF dec_sane_basic(8)] dec_yields_fail dec_yields_return

lemma dns_rdata_decode_yields: "dec_yields (dns_rdata_decode al start ty rdlen) (\<lambda>rd. rdata_typed ty rd \<and> rdata_wf rd)"
proof (cases "ty \<in> set dns_types")
  case True
  have t: "dec_yields (dec_bind (dns_txt_decode (Suc rdlen) rdlen []) (\<lambda>s. dec_return (Rd_txt s))) (\<lambda>rd. rdata_typed 16 rd \<and> rdata_wf rd)"
    using txt_yields by (auto intro!: dec_yieldsI simp: dec_bind_Inr dec_return_Inr rdata_typed_def rdata_type_def rdata_wf_def)
  have a: "dec_yields (dec_bind (get_mem 16) (\<lambda>a. dec_return (Rd_aaaa a))) (\<lambda>rd. rdata_typed 28 rd \<and> rdata_wf rd)"
    using get_mem_length by (auto intro!: dec_yieldsI simp: dec_bind_Inr dec_return_Inr rdata_typed_def rdata_type_def rdata_wf_def)
  have "ty = 0x01 \<or> ty = 0x02 \<or> ty = 0x05 \<or> ty = 0x06 \<or> ty = 0x0c \<or> ty = 0x0f \<or> ty = 0x10 \<or> ty = 0x1c \<or> ty = 0x21 \<or> ty = 0x23"
    using True by (simp add: dns_types_def)
  then show ?thesis
    by (elim disjE) (simp_all add: dns_rdata_decode_def dns_yields rdata_typed_def rdata_type_def rdata_wf_def t [unfolded rdata_typed_def rdata_type_def rdata_wf_def] a [unfolded rdata_typed_def rdata_type_def rdata_wf_def])
next
  case False
  then show ?thesis
    by (auto intro!: dec_yieldsI simp: dns_rdata_decode_def dns_types_def dec_bind_Inr dec_return_Inr rdata_typed_def rdata_type_def rdata_wf_def)
qed

lemma dns_rr_decode_wf:
  assumes "readable mb" "dns_rr_decode al start mb = (Inr rr, mb')"
  shows "dnsrr_wf rr"
proof -
  have need: "dec_yields (dec_bind (dns_rdata_decode al start ty n) f) Q"
    if "\<And>rd. rdata_typed ty rd \<Longrightarrow> rdata_wf rd \<Longrightarrow> \<exists>x. f rd = dec_return x \<and> Q x" for ty n and f :: "rdata \<Rightarrow> dnsrr dec" and Q
  proof (rule dec_yieldsI)
    fix mb x mb' assume r: "readable mb" and "dec_bind (dns_rdata_decode al start ty n) f mb = (Inr x, mb')"
    then obtain rd mb1 where d: "dns_rdata_decode al start ty n mb = (Inr rd, mb1)" "f rd mb1 = (Inr x, mb')" by (auto simp: dec_bind_Inr)
    then have "rdata_typed ty rd \<and> rdata_wf rd" using dns_rdata_decode_yields [of al start ty n] r unfolding dec_yields_def by blast
    then show "Q x" using that [of rd] d(2) by (auto simp: dec_return_Inr)
  qed
  have "uint ttl < 2 ^ 32" for ttl :: "32 word" using unsigned_less [of ttl] by simp
  then have "dec_yields (dns_rr_decode al start) dnsrr_wf" unfolding dns_rr_decode_def
    by (intro dns_yields need) (auto simp: dnsrr_wf_def)
  then show ?thesis using assms by (auto simp: dec_yields_def)
qed

text \<open>
  C22.  Decoding a resource record from any message, with compression pointers that lead anywhere,
  returns without an access outside of the data of the message or of the block for the text.  An accepted
  record is well formed: the member of the union belongs to the type, names and character strings are C
  strings that fit their arrays, and the position has moved inside of the data.
\<close>

theorem dns_rr_decode_safe:
  assumes "readable mb" "dns_rr_decode al start mb = (r, mb')"
  shows "r \<noteq> Inl FAULT \<and> (\<forall>rr. r = Inr rr \<longrightarrow> dnsrr_wf rr \<and> (\<exists>n \<le> length (mb_left mb). mb' = mb_adv mb n))"
  using dec_saneD [OF dns_rr_decode_sane assms] dns_rr_decode_wf [OF assms(1)] assms(2) by blast

abbreviation (input) dns_example :: mbuf where
  "dns_example \<equiv> \<lparr>mb_buf = [3, 97, 98, 99, 0, 0xc0, 0, 0, 1, 0, 1, 0, 0, 0, 60, 0, 4, 192, 0, 2, 1], mb_size = 21, mb_pos = 5, mb_end = 21, mb_shared = False\<rparr>"

theorem dns_rr_decode_safe_witness:
  "case dns_rr_decode (\<lambda>n. Some (\<lambda>i. 0)) 0 dns_example of
     (Inr rr, mb') \<Rightarrow> dnsrr_wf rr \<and> rr_name rr = [97, 98, 99] \<and> rr_rdata rr = Rd_a 0xc0000201 \<and> mb_pos mb' = 21
   | (Inl e, mb') \<Rightarrow> False"
proof -
  obtain r mb' where d: "dns_rr_decode (\<lambda>n. Some (\<lambda>i. 0)) 0 dns_example = (r, mb')" by fastforce
  have "readable dns_example" by (simp add: readable_def mbuf_wf_def MEM_SIZE_MAX_def)
  note t = dns_rr_decode_safe [OF this d]
  have "map_prod (map_sum id (\<lambda>rr. (rr_name rr, rr_rdata rr))) mb_pos (dns_rr_decode (\<lambda>n. Some (\<lambda>i. 0)) 0 dns_example) =
    (Inr ([97, 98, 99], Rd_a 0xc0000201), 21)" by code_simp
  then show ?thesis using t d by (cases r) auto
qed

end
