(* ===== verification/Dns_Roundtrip.thy ===== *)
theory Dns_Roundtrip
  imports Dns_Safety
begin

text \<open>
  What the encoder of resource records writes, compressed with a table of names that all records of a
  message share, is what the decoder reads.  The encoder goes back to patch the length of each record, so
  the facts on the bytes that it appends hold for any data in front of them.
\<close>

section \<open>Appending\<close>

definition enc_ok :: "nat \<Rightarrow> nat \<Rightarrow> denc \<Rightarrow> (byte list \<Rightarrow> byte list \<Rightarrow> bool) \<Rightarrow> bool" where
  "enc_ok start n f P \<longleftrightarrow> (\<forall>mb D ht. holds mb D \<longrightarrow> start \<le> length D \<longrightarrow> length D + n + 16 < 2 ^ 31 \<longrightarrow>
     (\<exists>mb' ht' W. f mb ht = (0, mb', ht') \<and> holds mb' (D @ W) \<and> length W \<le> n \<and>
        (\<forall>D'. length D' = length D \<longrightarrow> tab_ok D' start ht \<longrightarrow> tab_ok (D' @ W) start ht' \<and> P D' W)))"

lemma enc_okD:
  assumes "enc_ok start n f P" "holds mb D" "start \<le> length D" "length D + n + 16 < 2 ^ 31"
  obtains mb' ht' W where "f mb ht = (0, mb', ht')" "holds mb' (D @ W)" "length W \<le> n"
    "\<And>D'. length D' = length D \<Longrightarrow> tab_ok D' start ht \<Longrightarrow> tab_ok (D' @ W) start ht'"
    "\<And>D'. length D' = length D \<Longrightarrow> tab_ok D' start ht \<Longrightarrow> P D' W"
  using assms unfolding enc_ok_def by blast

lemma enc_ok_mono: "enc_ok start n f P \<Longrightarrow> n \<le> m \<Longrightarrow> (\<And>D W. P D W \<Longrightarrow> Q D W) \<Longrightarrow> enc_ok start m f Q"
proof -
  assume a: "enc_ok start n f P" "n \<le> m" "\<And>D W. P D W \<Longrightarrow> Q D W"
  show "enc_ok start m f Q"
    unfolding enc_ok_def
  proof (intro allI impI)
    fix mb D ht assume h: "holds mb D" "start \<le> length D" "length D + m + 16 < 2 ^ 31"
    obtain mb' ht' W where "f mb ht = (0, mb', ht')" "holds mb' (D @ W)" "length W \<le> n"
      "\<And>D'. length D' = length D \<Longrightarrow> tab_ok D' start ht \<Longrightarrow> tab_ok (D' @ W) start ht'"
      "\<And>D'. length D' = length D \<Longrightarrow> tab_ok D' start ht \<Longrightarrow> P D' W"
      by (rule enc_okD [OF a(1) h(1,2), of ht]) (use h(3) a(2) in auto)
    then show "\<exists>mb' ht' W. f mb ht = (0, mb', ht') \<and> holds mb' (D @ W) \<and> length W \<le> m \<and>
        (\<forall>D'. length D' = length D \<longrightarrow> tab_ok D' start ht \<longrightarrow> tab_ok (D' @ W) start ht' \<and> Q D' W)"
      using a(2,3) by (intro exI [of _ mb'] exI [of _ ht'] exI [of _ W]) auto
  qed
qed

lemma enc_ok_or:
  assumes "enc_ok start n f P" "enc_ok start m g Q"
  shows "enc_ok start (n + m) (den_or f g) (\<lambda>D W. \<exists>V U. W = V @ U \<and> P D V \<and> Q (D @ V) U)"
  unfolding enc_ok_def
proof (intro allI impI)
  fix mb D ht assume h: "holds mb D" "start \<le> length D" "length D + (n + m) + 16 < 2 ^ 31"
  obtain mb1 ht1 V where 1: "f mb ht = (0, mb1, ht1)" "holds mb1 (D @ V)" "length V \<le> n"
    "\<And>D'. length D' = length D \<Longrightarrow> tab_ok D' start ht \<Longrightarrow> tab_ok (D' @ V) start ht1"
    "\<And>D'. length D' = length D \<Longrightarrow> tab_ok D' start ht \<Longrightarrow> P D' V"
    by (rule enc_okD [OF assms(1) h(1,2), of ht]) (use h(3) in auto)
  obtain mb2 ht2 U where 2: "g mb1 ht1 = (0, mb2, ht2)" "holds mb2 ((D @ V) @ U)" "length U \<le> m"
    "\<And>D'. length D' = length (D @ V) \<Longrightarrow> tab_ok D' start ht1 \<Longrightarrow> tab_ok (D' @ U) start ht2"
    "\<And>D'. length D' = length (D @ V) \<Longrightarrow> tab_ok D' start ht1 \<Longrightarrow> Q D' U"
    by (rule enc_okD [OF assms(2) 1(2), of ht1]) (use h(2,3) 1(3) in auto)
  have "tab_ok (D' @ V @ U) start ht2 \<and> (\<exists>V' U'. V @ U = V' @ U' \<and> P D' V' \<and> Q (D' @ V') U')"
    if "length D' = length D" "tab_ok D' start ht" for D'
    using 1(4,5) [OF that] 2(4,5) [of "D' @ V"] that(1) by auto
  then show "\<exists>mb' ht' W. den_or f g mb ht = (0, mb', ht') \<and> holds mb' (D @ W) \<and> length W \<le> n + m \<and>
     (\<forall>D'. length D' = length D \<longrightarrow> tab_ok D' start ht \<longrightarrow> tab_ok (D' @ W) start ht' \<and> (\<exists>V U. W = V @ U \<and> P D' V \<and> Q (D' @ V) U))"
    using 1(1,3) 2(1,2,3) by (intro exI [of _ mb2] exI [of _ ht2] exI [of _ "V @ U"]) (simp add: den_or_def)
qed

lemma den_or_runs: "f mb ht = (0, mb1, ht1) \<Longrightarrow> g mb1 ht1 = (0, mb2, ht2) \<Longrightarrow> den_or f g mb ht = (0, mb2, ht2)"
  by (simp add: den_or_def)

lemma den_or_assoc: "den_or (den_or f g) h = den_or f (den_or g h)"
  by (auto simp: den_or_def fun_eq_iff or.assoc split: prod.splits)

lemma enc_ok_put:
  assumes "mem_ok al" "\<And>mb. f mb = mbuf_write_mem al mb bs"
  shows "enc_ok start (length bs) (den_put f) (\<lambda>D W. W = bs)"
  unfolding enc_ok_def
proof (intro allI impI)
  fix mb D ht assume h: "holds mb D" "start \<le> length D" "length D + length bs + 16 < 2 ^ 31"
  obtain mb' where "mbuf_write_mem al mb bs = (0, mb')" "holds mb' (D @ bs)" using holds_write [OF assms(1) h(1), of bs] h(3) by auto
  then show "\<exists>mb' ht' W. den_put f mb ht = (0, mb', ht') \<and> holds mb' (D @ W) \<and> length W \<le> length bs \<and>
     (\<forall>D'. length D' = length D \<longrightarrow> tab_ok D' start ht \<longrightarrow> tab_ok (D' @ W) start ht' \<and> W = bs)"
    using assms(2) tab_ok_append by (auto simp: den_put_def)
qed

lemma enc_ok_u16: "mem_ok al \<Longrightarrow> enc_ok start 2 (den_u16 al v) (\<lambda>D W. W = be16 v)"
  using enc_ok_put [of al "\<lambda>mb. mbuf_write_u16 al mb (htons v)" "be16 v" start] by (simp add: den_u16_def mbuf_write_u16_def)

lemma enc_ok_u32: "mem_ok al \<Longrightarrow> enc_ok start 4 (den_u32 al v) (\<lambda>D W. W = be32 v)"
  using enc_ok_put [of al "\<lambda>mb. mbuf_write_u32 al mb (htonl v)" "be32 v" start] by (simp add: den_u32_def mbuf_write_u32_def)

lemma enc_ok_name:
  assumes "mem_ok al" "dname_ok name"
  shows "enc_ok start 257 (den_name al start compr name) (\<lambda>D W. name_in (D @ W) start (length D) name (length (D @ W)))"
  unfolding enc_ok_def
proof (intro allI impI)
  fix mb D ht assume h: "holds mb D" "start \<le> length D" "length D + 257 + 16 < 2 ^ 31"
  have n: "labs_ok (labels name)" "length name \<le> 255" using assms(2) by (auto simp: dname_ok_def)
  obtain W ht' where W: "dname_whole al start compr (length D) name ht = (W, ht')" by fastforce
  obtain mb' where "dns_dname_encode al mb name ht start compr = (0, mb', ht')" "holds mb' (D @ W)" "length W \<le> length name + 2"
    using dns_dname_encode_writes [OF assms(1) h(1,2) n(1) _ W] h(3) n(2) by auto
  moreover have "tab_ok (D' @ W) start ht' \<and> name_in (D' @ W) start (length D') name (length (D' @ W))"
    if "length D' = length D" "tab_ok D' start ht" for D'
    using dname_whole_named [of al start compr D' name ht W ht'] W that h(2) n(1) by auto
  ultimately show "\<exists>mb' ht' W. den_name al start compr name mb ht = (0, mb', ht') \<and> holds mb' (D @ W) \<and> length W \<le> 257 \<and>
     (\<forall>D'. length D' = length D \<longrightarrow> tab_ok D' start ht \<longrightarrow> tab_ok (D' @ W) start ht' \<and> name_in (D' @ W) start (length D') name (length (D' @ W)))"
    using n(2) by (auto simp: den_name_def)
qed

section \<open>Reading back\<close>

definition dec_at :: "'a dec \<Rightarrow> byte list \<Rightarrow> nat \<Rightarrow> nat \<Rightarrow> ('a \<Rightarrow> bool) \<Rightarrow> bool" where
  "dec_at d D p q R \<longleftrightarrow> (\<forall>mb E. mbuf_wf mb \<longrightarrow> mb_data mb = D @ E \<longrightarrow> mb_pos mb = p \<longrightarrow> (\<exists>x. d mb = (Inr x, mb\<lparr>mb_pos := q\<rparr>) \<and> R x))"

lemma dec_at_append: "dec_at d D p q R \<Longrightarrow> dec_at d (D @ E) p q R"
  by (auto simp: dec_at_def)

lemma dec_at_return: "R x \<Longrightarrow> q = p \<Longrightarrow> dec_at (dec_return x) D p q R"
  by (auto simp: dec_at_def dec_return_def)

lemma dec_at_bind:
  assumes "dec_at d D p q R" "\<And>x. R x \<Longrightarrow> dec_at (f x) D q r S"
  shows "dec_at (dec_bind d f) D p r S"
  unfolding dec_at_def
proof (intro allI impI)
  fix mb E assume m: "mbuf_wf mb" "mb_data mb = D @ E" "mb_pos mb = p"
  obtain x where x: "d mb = (Inr x, mb\<lparr>mb_pos := q\<rparr>)" "R x" using assms(1) m unfolding dec_at_def by blast
  have "mbuf_wf (mb\<lparr>mb_pos := q\<rparr>)" "mb_data (mb\<lparr>mb_pos := q\<rparr>) = D @ E" "mb_pos (mb\<lparr>mb_pos := q\<rparr>) = q"
    using m by (simp_all add: mb_data_def)
  then obtain y where "f x (mb\<lparr>mb_pos := q\<rparr>) = (Inr y, (mb\<lparr>mb_pos := q\<rparr>)\<lparr>mb_pos := r\<rparr>)" "S y"
    using assms(2) [OF x(2)] unfolding dec_at_def by blast
  then show "\<exists>y. dec_bind d f mb = (Inr y, mb\<lparr>mb_pos := r\<rparr>) \<and> S y" using x(1) by (auto simp: dec_bind_def)
qed

lemma dec_at_decodes:
  assumes "decodes d bs x" "take (length bs) (drop p D) = bs" "p + length bs \<le> length D"
  shows "dec_at d D p (p + length bs) ((=) x)"
  unfolding dec_at_def
proof (intro allI impI)
  fix mb E assume m: "mbuf_wf mb" "mb_data mb = D @ E" "mb_pos mb = p"
  have "readable mb" using m assms(3) length_mb_data [OF m(1)] by (auto simp: readable_def)
  moreover have "mb_left mb = bs @ drop (length bs) (drop p D) @ E"
    using m(2,3) assms(2,3) append_take_drop_id [of "length bs" "drop p D"] by (simp add: mb_left_data)
  ultimately have "d mb = (Inr x, mb_adv mb (length bs))" by (rule decodesD [OF assms(1)])
  then show "\<exists>y. d mb = (Inr y, mb\<lparr>mb_pos := p + length bs\<rparr>) \<and> x = y" using m(3) by (simp add: mb_adv_def)
qed

lemma dec_at_need:
  assumes "p + n \<le> length D" "dec_at (f ()) D p q R"
  shows "dec_at (dec_bind (dec_need n e) f) D p q R"
proof (rule dec_at_bind [where R = "\<lambda>_. True" and q = p])
  show "dec_at (dec_need n e) D p p (\<lambda>_. True)"
    unfolding dec_at_def
  proof (intro allI impI)
    fix mb E assume m: "mbuf_wf mb" "mb_data mb = D @ E" "mb_pos mb = p"
    have "\<not> mbuf_get_left mb < n" using assms(1) m length_mb_data [OF m(1)] by (auto simp: mbuf_get_left_def)
    then show "\<exists>x. dec_need n e mb = (Inr x, mb\<lparr>mb_pos := p\<rparr>) \<and> True" using m(3) by (simp add: dec_need_def)
  qed
qed (use assms(2) in simp)

lemma dec_at_alloc:
  assumes "mem_ok al" "n \<le> MEM_SIZE_MAX" "dec_at (f ()) D p q R"
  shows "dec_at (dec_bind (dec_alloc al n) f) D p q R"
proof (rule dec_at_bind [where R = "\<lambda>_. True" and q = p])
  show "dec_at (dec_alloc al n) D p p (\<lambda>_. True)"
    unfolding dec_at_def dec_alloc_def
  proof (intro allI impI)
    fix mb :: mbuf and E assume "mb_pos mb = p"
    moreover obtain b where "mem_alloc al n = Some b" using mem_alloc_total [OF assms(1,2)] by blast
    ultimately show "\<exists>x. (case mem_alloc al n of None \<Rightarrow> Inl ENOMEM | Some _ \<Rightarrow> Inr (), mb) = (Inr x, mb\<lparr>mb_pos := p\<rparr>) \<and> True" by simp
  qed
qed (use assms(3) in simp)

lemma dec_at_name:
  assumes "name_in D start p name q" "dname_ok name" "mem_ok al" "start < 2 ^ 32"
  shows "dec_at (dns_dname_decode al start) D p q (\<lambda>n. str_caseeq n (dname_canon name))"
  unfolding dec_at_def using dns_dname_decode_in [OF name_in_append [OF assms(1)] assms(2) _ _ _ assms(3,4)] by blast

lemma dec_at_bytes:
  assumes "decodes d bs x" "D = A @ bs @ B" "p = length A" "dec_at (f x) D (length A + length bs) r R"
  shows "dec_at (dec_bind d f) D p r R"
  by (rule dec_at_bind [OF dec_at_decodes [OF assms(1)]]) (use assms in auto)

lemma dec_at_name_bind:
  assumes "name_in D start p name q" "dname_ok name" "mem_ok al" "start < 2 ^ 32"
    "\<And>n. str_caseeq n (dname_canon name) \<Longrightarrow> dec_at (f n) D q r R"
  shows "dec_at (dec_bind (dns_dname_decode al start) f) D p r R"
  by (rule dec_at_bind [OF dec_at_name [OF assms(1-4)]]) (rule assms(5))

section \<open>Character strings and texts\<close>

lemma den_put_or: "den_put (\<lambda>mb. err_or (f mb) g) = den_or (den_put f) (den_put g)"
  by (auto simp: den_put_def den_or_def err_or_def fun_eq_iff split: prod.splits)

lemma string_length: "length s \<le> 255 \<Longrightarrow> unat (of_nat (length s) :: byte) = length s"
  by (simp add: unat_of_nat)

lemma enc_ok_cstr:
  assumes "mem_ok al" "dns_string s"
  shows "enc_ok start 256 (den_cstr al s) (\<lambda>D W. W = of_nat (length s) # s)"
proof -
  have l: "length s \<le> 255" using assms(2) by (simp add: dns_string_def)
  have "den_cstr al s = den_or (den_put (\<lambda>mb. mbuf_write_u8 al mb (of_nat (length s)))) (den_put (\<lambda>mb. mbuf_write_mem al mb s))"
    using l by (simp add: den_cstr_def dns_cstr_encode_def string_length Let_def den_put_or)
  moreover have "enc_ok start (1 + length s) \<dots> (\<lambda>D W. \<exists>V U. W = V @ U \<and> V = [of_nat (length s)] \<and> U = s)"
    using enc_ok_or [OF enc_ok_put [OF assms(1), where bs = "[of_nat (length s)]" and f = "\<lambda>mb. mbuf_write_u8 al mb (of_nat (length s))"]
        enc_ok_put [OF assms(1), where bs = s and f = "\<lambda>mb. mbuf_write_mem al mb s"]]
    by (simp add: mbuf_write_u8_def)
  ultimately show ?thesis using l by (auto elim!: enc_ok_mono)
qed

lemma read_mem_exact: "readable mb \<Longrightarrow> mb_left mb = bs @ rest \<Longrightarrow> mbuf_read_mem mb (length bs) = (0, bs, mb_adv mb (length bs))"
  by (simp add: mbuf_read_mem_readable)

lemma takeWhile_nonul: "0 \<notin> set s \<Longrightarrow> takeWhile (\<lambda>c. c \<noteq> 0) s = s"
  by (auto simp: takeWhile_eq_all_conv)

lemma decodes_cstr:
  assumes "mem_ok al" "dns_string s"
  shows "decodes (dns_cstr_decode al) (of_nat (length s) # s) s"
proof -
  have l: "length s \<le> 255" "0 \<notin> set s" using assms(2) by (auto simp: dns_string_def)
  have "decodes (\<lambda>mb. case mbuf_strdup al mb (length s) of (e, s, mb1) \<Rightarrow> (if e \<noteq> 0 then Inl e else Inr (takeWhile (\<lambda>c. c \<noteq> 0) s), mb1)) s s"
  proof (rule decodesI)
    fix mb rest assume r: "readable mb" "mb_left mb = s @ rest"
    obtain b where "mem_alloc al (szadd (length s) 1) = Some b"
      using mem_alloc_total [OF assms(1), of "szadd (length s) 1"] l(1) by (auto simp: MEM_SIZE_MAX_def)
    then show "(case mbuf_strdup al mb (length s) of (e, s, mb1) \<Rightarrow> (if e \<noteq> 0 then Inl e else Inr (takeWhile (\<lambda>c. c \<noteq> 0) s), mb1)) = (Inr s, mb_adv mb (length s))"
      using read_mem_exact [OF r] takeWhile_nonul [OF l(2)] by (simp add: mbuf_strdup_def)
  qed
  then have d: "decodes (\<lambda>mb. case mbuf_strdup al mb (unat (of_nat (length s) :: byte)) of (e, s, mb1) \<Rightarrow>
      (if e \<noteq> 0 then Inl e else Inr (takeWhile (\<lambda>c. c \<noteq> 0) s), mb1)) s s" by (simp only: string_length [OF l(1)])
  have "decodes (dns_cstr_decode al) ([of_nat (length s)] @ s) s"
    unfolding dns_cstr_decode_def
    by (rule decodes_need, simp, rule decodes_bind [OF decodes_get(1)], rule decodes_need [OF _ d]) (simp add: string_length [OF l(1)])
  then show ?thesis by simp
qed

lemma dns_txt_short: "length s \<le> 255 \<Longrightarrow> map_option (\<lambda>(e, mb1). (e, mb1, ht)) (dns_txt_loop al s 0 mb) = Some (den_cstr al s mb ht)"
  by (subst dns_txt_loop.simps)
     (auto simp: Let_def string_length den_cstr_def dns_cstr_encode_def den_put_def err_or_def split: prod.splits)

lemma decodes_txt:
  assumes "dns_string s"
  shows "decodes (dns_txt_decode (length s + 2) (length s + 1) []) (of_nat (length s) # s) s"
proof -
  have l: "length s \<le> 255" "0 \<notin> set s" using assms by (auto simp: dns_string_def)
  have e: "dns_txt_decode (Suc (Suc (length s))) 0 s = dec_return s"
    by (subst dns_txt_decode.simps) (simp add: takeWhile_nonul [OF l(2)])
  have "decodes (dec_bind (get_mem (unat (of_nat (length s) :: byte))) (\<lambda>bs. if length [] + unat (of_nat (length s) :: byte) > length s + 2 then dec_fail FAULT
      else dns_txt_decode (length s + 2) (length s + 1 - 1 - unat (of_nat (length s) :: byte)) ([] @ bs))) (s @ []) s"
    by (rule decodes_bind [where x = s]) (auto simp: string_length [OF l(1)] e decodes_mem decodes_return)
  then have "decodes (dec_bind get_u8 (\<lambda>len. if unat len > length s + 1 - 1 then dec_fail EINVAL else dec_bind (get_mem (unat len)) (\<lambda>bs.
      if length [] + unat len > length s + 2 then dec_fail FAULT
      else dns_txt_decode (length s + 2) (length s + 1 - 1 - unat len) ([] @ bs)))) ([of_nat (length s)] @ s @ []) s"
    by (intro decodes_bind [OF decodes_get(1)]) (simp add: string_length [OF l(1)])
  then show ?thesis by (subst dns_txt_decode.simps) simp
qed

section \<open>Data of the records\<close>

text \<open>The data that can be encoded, and what is read back: names have no dot at the end.\<close>

definition rdata_ok :: "rdata \<Rightarrow> bool" where
  "rdata_ok rd = (case rd of
      Rd_none \<Rightarrow> False | Rd_a _ \<Rightarrow> True | Rd_ns n \<Rightarrow> dname_ok n | Rd_cname n \<Rightarrow> dname_ok n
    | Rd_soa m n _ _ _ _ _ \<Rightarrow> dname_ok m \<and> dname_ok n | Rd_ptr n \<Rightarrow> dname_ok n | Rd_mx _ n \<Rightarrow> dname_ok n
    | Rd_txt t \<Rightarrow> dns_string t | Rd_aaaa a \<Rightarrow> length a = 16 | Rd_srv _ _ _ n \<Rightarrow> dname_ok n
    | Rd_naptr _ _ f s r n \<Rightarrow> dns_string f \<and> dns_string s \<and> dns_string r \<and> dname_ok n)"

definition rdata_canon :: "rdata \<Rightarrow> rdata" where
  "rdata_canon rd = (case rd of
      Rd_ns n \<Rightarrow> Rd_ns (dname_canon n) | Rd_cname n \<Rightarrow> Rd_cname (dname_canon n)
    | Rd_soa m n s rf rt ex tm \<Rightarrow> Rd_soa (dname_canon m) (dname_canon n) s rf rt ex tm
    | Rd_ptr n \<Rightarrow> Rd_ptr (dname_canon n) | Rd_mx p n \<Rightarrow> Rd_mx p (dname_canon n)
    | Rd_srv p w port n \<Rightarrow> Rd_srv p w port (dname_canon n)
    | Rd_naptr ord p f s r n \<Rightarrow> Rd_naptr ord p f s r (dname_canon n)
    | _ \<Rightarrow> rd)"

text \<open>An encoder of the data, and what the decoder reads where the data was written.\<close>

definition rdata_reads :: "alloc \<Rightarrow> nat \<Rightarrow> rdata \<Rightarrow> byte list \<Rightarrow> byte list \<Rightarrow> bool" where
  "rdata_reads al start rd D W \<longleftrightarrow>
     dec_at (dns_rdata_decode al start (the (rdata_type rd)) (length W)) (D @ W) (length D) (length (D @ W)) (\<lambda>rd'. rdata_cmp rd' (rdata_canon rd))"

lemma str_caseeq_refl [simp]: "str_caseeq s s"
  by (simp add: str_caseeq_def)

lemmas rdata_simps = rdata_reads_def rdata_type_def dns_rdata_decode_def rdata_cmp_def rdata_canon_def

lemma reads_a: "rdata_reads al start (Rd_a v) D (be32 v)"
  by (simp add: rdata_simps) (rule dec_at_bytes [OF decodes_get(3), where A = D and B = "[]"], auto intro!: dec_at_return)

lemma reads_name:
  assumes "mem_ok al" "start < 2 ^ 32" "dname_ok n" "name_in (D @ W) start (length D) n (length (D @ W))"
  shows "rdata_reads al start (Rd_ns n) D W" "rdata_reads al start (Rd_cname n) D W" "rdata_reads al start (Rd_ptr n) D W"
  using assms by (auto simp: rdata_simps intro!: dec_at_name_bind dec_at_return)

lemma reads_soa:
  assumes "mem_ok al" "start < 2 ^ 32" "dname_ok m" "dname_ok n"
    "name_in (D @ V) start (length D) m (length (D @ V))" "name_in (D @ V @ U) start (length (D @ V)) n (length (D @ V @ U))"
  shows "rdata_reads al start (Rd_soa m n s rf rt ex tm) D (V @ U @ be32 s @ be32 rf @ be32 rt @ be32 ex @ be32 tm)"
proof -
  let ?B = "be32 s @ be32 rf @ be32 rt @ be32 ex @ be32 tm" and ?A = "D @ V @ U"
  have fixed: "dec_at (dec_bind (dec_need 20 EINVAL) (\<lambda>_. dec_bind get_be32 (\<lambda>s. dec_bind get_be32 (\<lambda>rf. dec_bind get_be32 (\<lambda>rt.
      dec_bind get_be32 (\<lambda>ex. dec_bind get_be32 (\<lambda>tm. dec_return (Rd_soa m' n' s rf rt ex tm)))))))) (?A @ ?B) (length ?A) (length (?A @ ?B))
      ((=) (Rd_soa m' n' s rf rt ex tm))" for m' n'
  proof -
    have "decodes (dec_bind (dec_need 20 EINVAL) (\<lambda>_. dec_bind get_be32 (\<lambda>s. dec_bind get_be32 (\<lambda>rf. dec_bind get_be32 (\<lambda>rt.
      dec_bind get_be32 (\<lambda>ex. dec_bind get_be32 (\<lambda>tm. dec_return (Rd_soa m' n' s rf rt ex tm)))))))) (?B @ []) (Rd_soa m' n' s rf rt ex tm)"
      unfolding append_assoc by (rule decodes_need, simp, (rule decodes_bind, rule decodes_get(3))+, rule decodes_return)
    from dec_at_decodes [OF this, of "length ?A" "?A @ ?B"] show ?thesis by (simp add: add.assoc)
  qed
  have 1: "name_in (?A @ ?B) start (length D) m (length (D @ V))" using name_in_append [OF assms(5), of "U @ ?B"] by simp
  have 2: "name_in (?A @ ?B) start (length (D @ V)) n (length ?A)" using name_in_append [OF assms(6), of ?B] by simp
  have "dec_at (dec_bind (dns_dname_decode al start) (\<lambda>mn. dec_bind (dns_dname_decode al start) (\<lambda>rn. dec_bind (dec_need 20 EINVAL) (\<lambda>_.
      dec_bind get_be32 (\<lambda>s. dec_bind get_be32 (\<lambda>rf. dec_bind get_be32 (\<lambda>rt. dec_bind get_be32 (\<lambda>ex. dec_bind get_be32 (\<lambda>tm.
      dec_return (Rd_soa mn rn s rf rt ex tm)))))))))) (?A @ ?B) (length D) (length (?A @ ?B)) (\<lambda>rd. rdata_cmp rd (rdata_canon (Rd_soa m n s rf rt ex tm)))"
  proof (rule dec_at_name_bind [OF 1 assms(3,1,2)], rule dec_at_name_bind [OF 2 assms(4,1,2)])
    fix m' n' assume "str_caseeq m' (dname_canon m)" "str_caseeq n' (dname_canon n)"
    then have "rdata_cmp (Rd_soa m' n' s rf rt ex tm) (rdata_canon (Rd_soa m n s rf rt ex tm))" by (simp add: rdata_simps)
    then show "dec_at (dec_bind (dec_need 20 EINVAL) (\<lambda>_. dec_bind get_be32 (\<lambda>s. dec_bind get_be32 (\<lambda>rf. dec_bind get_be32 (\<lambda>rt.
      dec_bind get_be32 (\<lambda>ex. dec_bind get_be32 (\<lambda>tm. dec_return (Rd_soa m' n' s rf rt ex tm)))))))) (?A @ ?B) (length ?A) (length (?A @ ?B))
      (\<lambda>rd. rdata_cmp rd (rdata_canon (Rd_soa m n s rf rt ex tm)))"
      using fixed [of m' n'] unfolding dec_at_def by blast
  qed
  then show ?thesis by (simp add: rdata_reads_def rdata_type_def dns_rdata_decode_def)
qed

lemma reads_mx:
  assumes "mem_ok al" "start < 2 ^ 32" "dname_ok n" "name_in (D @ be16 p @ U) start (length (D @ be16 p)) n (length (D @ be16 p @ U))"
  shows "rdata_reads al start (Rd_mx p n) D (be16 p @ U)"
  using assms by (auto simp: rdata_simps intro!: dec_at_need dec_at_bytes [OF decodes_get(2), where A = D] dec_at_name_bind dec_at_return)

lemma reads_srv:
  assumes "mem_ok al" "start < 2 ^ 32" "dname_ok n"
    "name_in (D @ be16 p @ be16 w @ be16 port @ U) start (length D + 6) n (length (D @ be16 p @ be16 w @ be16 port @ U))"
  shows "rdata_reads al start (Rd_srv p w port n) D (be16 p @ be16 w @ be16 port @ U)"
  unfolding rdata_simps using assms
  apply simp
  apply (rule dec_at_need, simp)
  apply (rule dec_at_bytes [OF decodes_get(2), where A = D], simp, simp)
  apply (rule dec_at_bytes [OF decodes_get(2), where A = "D @ be16 p"], simp, simp)
  apply (rule dec_at_bytes [OF decodes_get(2), where A = "D @ be16 p @ be16 w"], simp, simp)
  apply (rule dec_at_name_bind [OF _ assms(3,1,2)])
   apply (simp add: ac_simps)
  apply (auto intro!: dec_at_return)
  done

lemma reads_naptr:
  assumes "mem_ok al" "start < 2 ^ 32" "dname_ok n" "dns_string f" "dns_string s" "dns_string r"
    "B = be16 ord @ be16 p @ (of_nat (length f) # f) @ (of_nat (length s) # s) @ (of_nat (length r) # r)"
    "name_in (D @ B @ U) start (length (D @ B)) n (length (D @ B @ U))"
  shows "rdata_reads al start (Rd_naptr ord p f s r n) D (B @ U)"
proof -
  let ?f = "of_nat (length f) # f" and ?s = "of_nat (length s) # s" and ?r = "of_nat (length r) # r"
  note c = decodes_cstr [OF assms(1)]
  show ?thesis unfolding rdata_simps using assms
    apply simp
    apply (rule dec_at_need, simp)
    apply (rule dec_at_bytes [OF decodes_get(2), where A = D], simp, simp)
    apply (rule dec_at_bytes [OF decodes_get(2), where A = "D @ be16 ord"], simp, simp)
    apply (rule dec_at_bytes [OF c [OF assms(4)], where A = "D @ be16 ord @ be16 p"], simp, simp)
    apply (rule dec_at_bytes [OF c [OF assms(5)], where A = "D @ be16 ord @ be16 p @ ?f"], simp, simp)
    apply (rule dec_at_bytes [OF c [OF assms(6)], where A = "D @ be16 ord @ be16 p @ ?f @ ?s"], simp, simp)
    apply (rule dec_at_name_bind [OF _ assms(3,1,2)])
     apply (simp add: ac_simps)
    apply (auto intro!: dec_at_return)
    done
qed

lemma reads_txt:
  assumes "mem_ok al" "dns_string s"
  shows "rdata_reads al start (Rd_txt s) D (of_nat (length s) # s)"
proof -
  have "length s \<le> 255" using assms(2) by (simp add: dns_string_def)
  then show ?thesis
    by (simp add: rdata_simps)
       (rule dec_at_alloc [OF assms(1)], simp add: MEM_SIZE_MAX_def,
        rule dec_at_bytes [OF decodes_txt [OF assms(2), simplified], where A = D and B = "[]"], auto intro!: dec_at_return)
qed

lemma reads_aaaa: "length a = 16 \<Longrightarrow> rdata_reads al start (Rd_aaaa a) D a"
  by (simp add: rdata_simps) (rule dec_at_bytes [OF decodes_mem, where A = D and B = "[]"], auto intro!: dec_at_return)

lemma enc_ok_seq:
  assumes "enc_ok start n f P" "enc_ok start m g Q" "\<And>D V U. P D V \<Longrightarrow> Q (D @ V) U \<Longrightarrow> R D (V @ U)" "n + m \<le> k"
  shows "enc_ok start k (den_or f g) R"
  by (rule enc_ok_mono [OF enc_ok_or [OF assms(1,2)] assms(4)]) (use assms(3) in blast)

lemma encodes_soa:
  assumes "mem_ok al" "start < 2 ^ 32" "dname_ok m" "dname_ok n"
  shows "enc_ok start 1100 (den_or (den_or (den_or (den_or (den_or (den_or (den_name al start True m) (den_name al start True n))
    (den_u32 al s)) (den_u32 al rf)) (den_u32 al rt)) (den_u32 al ex)) (den_u32 al tm)) (rdata_reads al start (Rd_soa m n s rf rt ex tm))"
proof -
  let ?P = "\<lambda>D W. \<exists>V U. W = V @ U \<and> name_in (D @ V) start (length D) m (length (D @ V)) \<and> name_in (D @ V @ U) start (length (D @ V)) n (length (D @ V @ U))"
  have names: "enc_ok start 514 (den_or (den_name al start True m) (den_name al start True n)) ?P"
    by (rule enc_ok_seq [OF enc_ok_name [OF assms(1,3)] enc_ok_name [OF assms(1,4)]]) auto
  note u = enc_ok_u32 [OF assms(1), of start]
  have "enc_ok start 518 (den_or (den_or (den_name al start True m) (den_name al start True n)) (den_u32 al s)) (\<lambda>D W. \<exists>X. ?P D X \<and> W = X @ be32 s)"
    by (rule enc_ok_seq [OF names u]) auto
  from enc_ok_seq [OF this u [of rf], of "\<lambda>D W. \<exists>X. ?P D X \<and> W = X @ be32 s @ be32 rf" 522]
  have "enc_ok start 522 (den_or (den_or (den_or (den_name al start True m) (den_name al start True n)) (den_u32 al s)) (den_u32 al rf))
    (\<lambda>D W. \<exists>X. ?P D X \<and> W = X @ be32 s @ be32 rf)" by fastforce
  from enc_ok_seq [OF this u [of rt], of "\<lambda>D W. \<exists>X. ?P D X \<and> W = X @ be32 s @ be32 rf @ be32 rt" 526]
  have "enc_ok start 526 (den_or (den_or (den_or (den_or (den_name al start True m) (den_name al start True n)) (den_u32 al s)) (den_u32 al rf)) (den_u32 al rt))
    (\<lambda>D W. \<exists>X. ?P D X \<and> W = X @ be32 s @ be32 rf @ be32 rt)" by fastforce
  from enc_ok_seq [OF this u [of ex], of "\<lambda>D W. \<exists>X. ?P D X \<and> W = X @ be32 s @ be32 rf @ be32 rt @ be32 ex" 530]
  have "enc_ok start 530 (den_or (den_or (den_or (den_or (den_or (den_name al start True m) (den_name al start True n)) (den_u32 al s)) (den_u32 al rf)) (den_u32 al rt)) (den_u32 al ex))
    (\<lambda>D W. \<exists>X. ?P D X \<and> W = X @ be32 s @ be32 rf @ be32 rt @ be32 ex)" by fastforce
  then show ?thesis
    by (rule enc_ok_seq [OF _ u [of tm]]) (use reads_soa [OF assms] in auto)
qed

lemma encodes_srv:
  assumes "mem_ok al" "start < 2 ^ 32" "dname_ok n"
  shows "enc_ok start 1100 (den_or (den_or (den_or (den_u16 al p) (den_u16 al w)) (den_u16 al port)) (den_name al start False n))
    (rdata_reads al start (Rd_srv p w port n))"
proof -
  note u = enc_ok_u16 [OF assms(1), of start]
  have "enc_ok start 4 (den_or (den_u16 al p) (den_u16 al w)) (\<lambda>D W. W = be16 p @ be16 w)" by (rule enc_ok_seq [OF u u]) auto
  from enc_ok_seq [OF this u [of port], of "\<lambda>D W. W = be16 p @ be16 w @ be16 port" 6]
  have "enc_ok start 6 (den_or (den_or (den_u16 al p) (den_u16 al w)) (den_u16 al port)) (\<lambda>D W. W = be16 p @ be16 w @ be16 port)" by simp
  then show ?thesis
  proof (rule enc_ok_seq [OF _ enc_ok_name [OF assms(1,3)]])
    fix D V U assume V: "V = be16 p @ be16 w @ be16 port"
      and n: "name_in ((D @ V) @ U) start (length (D @ V)) n (length ((D @ V) @ U))"
    have "name_in (D @ be16 p @ be16 w @ be16 port @ U) start (length D + 6) n (length (D @ be16 p @ be16 w @ be16 port @ U))"
      using n unfolding V by (simp add: numeral_eq_Suc)
    from reads_srv [OF assms this] show "rdata_reads al start (Rd_srv p w port n) D (V @ U)" unfolding V by simp
  qed simp
qed

lemma encodes_naptr:
  assumes "mem_ok al" "start < 2 ^ 32" "dname_ok n" "dns_string f" "dns_string s" "dns_string r"
  shows "enc_ok start 1100 (den_or (den_or (den_or (den_or (den_or (den_u16 al ord) (den_u16 al p)) (den_cstr al f)) (den_cstr al s)) (den_cstr al r))
    (den_name al start False n)) (rdata_reads al start (Rd_naptr ord p f s r n))"
proof -
  let ?f = "of_nat (length f) # f" and ?s = "of_nat (length s) # s" and ?r = "of_nat (length r) # r"
  note u = enc_ok_u16 [OF assms(1), of start] and c = enc_ok_cstr [OF assms(1)]
  have 1: "enc_ok start 4 (den_or (den_u16 al ord) (den_u16 al p)) (\<lambda>D W. W = be16 ord @ be16 p)" by (rule enc_ok_seq [OF u u]) auto
  have 2: "enc_ok start 260 (den_or (den_or (den_u16 al ord) (den_u16 al p)) (den_cstr al f)) (\<lambda>D W. W = be16 ord @ be16 p @ ?f)"
    by (rule enc_ok_seq [OF 1 c [OF assms(4)]]) auto
  have 3: "enc_ok start 516 (den_or (den_or (den_or (den_u16 al ord) (den_u16 al p)) (den_cstr al f)) (den_cstr al s)) (\<lambda>D W. W = be16 ord @ be16 p @ ?f @ ?s)"
    by (rule enc_ok_seq [OF 2 c [OF assms(5)]]) auto
  have 4: "enc_ok start 772 (den_or (den_or (den_or (den_or (den_u16 al ord) (den_u16 al p)) (den_cstr al f)) (den_cstr al s)) (den_cstr al r))
      (\<lambda>D W. W = be16 ord @ be16 p @ ?f @ ?s @ ?r)"
    by (rule enc_ok_seq [OF 3 c [OF assms(6)]]) auto
  show ?thesis
  proof (rule enc_ok_seq [OF 4 enc_ok_name [OF assms(1,3)]])
    fix D V U assume V: "V = be16 ord @ be16 p @ ?f @ ?s @ ?r" and n: "name_in ((D @ V) @ U) start (length (D @ V)) n (length ((D @ V) @ U))"
    from reads_naptr [OF assms V, of D U] n show "rdata_reads al start (Rd_naptr ord p f s r n) D (V @ U)" by simp
  qed simp
qed

lemma rdata_encodes:
  assumes "mem_ok al" "start < 2 ^ 32" "rdata_ok rd"
  shows "\<exists>f. (\<forall>mb ht. dns_rdata_encode al start rd mb ht = Some (f mb ht)) \<and> enc_ok start 1100 f (rdata_reads al start rd)"
proof (cases rd)
  case Rd_none
  then show ?thesis using assms(3) by (simp add: rdata_ok_def)
next
  case (Rd_a v)
  have "enc_ok start 1100 (den_u32 al v) (rdata_reads al start rd)"
    by (rule enc_ok_mono [OF enc_ok_u32 [OF assms(1)]]) (auto simp: Rd_a reads_a)
  then show ?thesis using Rd_a by (auto simp: dns_rdata_encode_def)
next
  case (Rd_ns n)
  then have "enc_ok start 1100 (den_name al start True n) (rdata_reads al start rd)"
    using enc_ok_mono [OF enc_ok_name [OF assms(1)], of n 1100] reads_name(1) [OF assms(1,2)] assms(3) by (simp add: rdata_ok_def)
  then show ?thesis using Rd_ns by (auto simp: dns_rdata_encode_def)
next
  case (Rd_cname n)
  then have "enc_ok start 1100 (den_name al start True n) (rdata_reads al start rd)"
    using enc_ok_mono [OF enc_ok_name [OF assms(1)], of n 1100] reads_name(2) [OF assms(1,2)] assms(3) by (simp add: rdata_ok_def)
  then show ?thesis using Rd_cname by (auto simp: dns_rdata_encode_def)
next
  case (Rd_soa m n s rf rt ex tm)
  then show ?thesis using encodes_soa [OF assms(1,2)] assms(3) unfolding dns_rdata_encode_def by (auto simp: rdata_ok_def)
next
  case (Rd_ptr n)
  then have "enc_ok start 1100 (den_name al start True n) (rdata_reads al start rd)"
    using enc_ok_mono [OF enc_ok_name [OF assms(1)], of n 1100] reads_name(3) [OF assms(1,2)] assms(3) by (simp add: rdata_ok_def)
  then show ?thesis using Rd_ptr by (auto simp: dns_rdata_encode_def)
next
  case (Rd_mx p n)
  then have n: "dname_ok n" using assms(3) by (simp add: rdata_ok_def)
  have "enc_ok start 1100 (den_or (den_u16 al p) (den_name al start True n)) (rdata_reads al start rd)"
    by (rule enc_ok_seq [OF enc_ok_u16 [OF assms(1)] enc_ok_name [OF assms(1) n]]) (use reads_mx [OF assms(1,2) n] Rd_mx in auto)
  then show ?thesis using Rd_mx by (auto simp: dns_rdata_encode_def)
next
  case (Rd_txt s)
  then have s: "dns_string s" using assms(3) by (simp add: rdata_ok_def)
  have "enc_ok start 1100 (den_cstr al s) (rdata_reads al start rd)"
    by (rule enc_ok_mono [OF enc_ok_cstr [OF assms(1) s]]) (auto simp: Rd_txt reads_txt [OF assms(1) s])
  moreover have "dns_rdata_encode al start rd mb ht = Some (den_cstr al s mb ht)" for mb ht
    using Rd_txt dns_txt_short [of s ht al mb] s by (simp add: dns_rdata_encode_def dns_string_def)
  ultimately show ?thesis by blast
next
  case (Rd_aaaa a)
  then have a: "length a = 16" using assms(3) by (simp add: rdata_ok_def)
  have "enc_ok start 1100 (den_put (\<lambda>mb. mbuf_write_mem al mb a)) (rdata_reads al start rd)"
    by (rule enc_ok_mono [OF enc_ok_put [OF assms(1) refl]]) (auto simp: Rd_aaaa a reads_aaaa [OF a])
  then show ?thesis using Rd_aaaa by (auto simp: dns_rdata_encode_def)
next
  case (Rd_srv p w port n)
  then show ?thesis using encodes_srv [OF assms(1,2)] assms(3) unfolding dns_rdata_encode_def by (auto simp: rdata_ok_def)
next
  case (Rd_naptr ord p f s r n)
  then show ?thesis using encodes_naptr [OF assms(1,2)] assms(3) unfolding dns_rdata_encode_def by (auto simp: rdata_ok_def)
qed

section \<open>Records\<close>

definition rr_ok :: "dnsrr \<Rightarrow> int \<Rightarrow> bool" where
  "rr_ok rr ttl_offs \<longleftrightarrow> dname_ok (rr_name rr) \<and> rdata_typed (rr_type rr) (rr_rdata rr) \<and> rdata_ok (rr_rdata rr) \<and> rr_ttl rr - ttl_offs < 2 ^ 32"

definition rr_canon :: "dnsrr \<Rightarrow> dnsrr" where
  "rr_canon rr = rr\<lparr>rr_name := dname_canon (rr_name rr), rr_rdata := rdata_canon (rr_rdata rr)\<rparr>"

definition rr_same :: "int \<Rightarrow> dnsrr \<Rightarrow> dnsrr \<Rightarrow> bool" where
  "rr_same ttl_offs rr' rr \<longleftrightarrow> dns_rr_cmp rr' (rr_canon rr) True \<and> rr_ttl rr' = max 0 (rr_ttl rr - ttl_offs)"

lemma holds_patch:
  assumes "mem_ok al" "holds mb (A @ B @ C)" "length bs = length B" "length (A @ B @ C) < 2 ^ 31"
  shows "\<exists>mb'. mbuf_write_mem al (mb\<lparr>mb_pos := length A\<rparr>) bs = (0, mb') \<and> mb_pos mb' = length A + length B \<and>
    holds (mb'\<lparr>mb_pos := length (A @ B @ C)\<rparr>) (A @ bs @ C)"
proof -
  have h: "mbuf_wf mb" "mb_end mb = length (A @ B @ C)" "mb_data mb = A @ B @ C"
    using assms(2) length_mb_data [of mb] by (auto simp: holds_def)
  let ?mb = "mb\<lparr>mb_pos := length A\<rparr>"
  obtain mb' where w: "mbuf_write_mem al ?mb bs = (0, mb')" "written ?mb bs mb'"
    using emits_ex [OF assms(1) mbuf_write_mem_emits, of ?mb bs] h(1) assms(3,4) by auto
  note wn = w(2) [unfolded written_iff_nth]
  have e: "mb_end mb' = length (A @ B @ C)" using wn h(2) assms(3) by simp
  have sz: "mb_end mb \<le> length (mb_buf mb)" "mb_size mb = length (mb_buf mb)" "mb_end mb' \<le> length (mb_buf mb')"
    using h(1) wn by (auto simp: mbuf_wf_def)
  have "mb_data mb' = A @ bs @ C"
  proof (rule nth_equalityI)
    show "length (mb_data mb') = length (A @ bs @ C)" using length_mb_data wn e assms(3) by simp
    fix i assume "i < length (mb_data mb')"
    then have i: "i < length (A @ B @ C)" using length_mb_data wn e by simp
    have new: "mb_data mb' ! i = mb_buf mb' ! i" using i e by (simp add: mb_data_def)
    have "take (mb_end mb) (mb_buf mb) ! i = (A @ B @ C) ! i" using h(3) by (simp add: mb_data_def)
    then have old: "mb_buf mb ! i = (A @ B @ C) ! i" using i h(2) by simp
    consider "i < length A" | "length A \<le> i" "i < length A + length B" | "length A + length B \<le> i" by linarith
    then show "mb_data mb' ! i = (A @ bs @ C) ! i"
    proof cases
      case 2
      then have "mb_buf mb' ! i = bs ! (i - length A)" using written_nth [OF w(2), of "i - length A"] assms(3) by simp
      moreover have "i - length A < length bs" using 2 assms(3) by simp
      ultimately show ?thesis using 2 new by (simp add: nth_append)
    qed (use new old wn i h(2) sz assms(3) in \<open>auto simp: nth_append\<close>)
  qed
  then show ?thesis using w wn e assms(3) by (intro exI [of _ mb']) (auto simp: holds_def mb_data_def)
qed

lemma dns_rr_reads:
  assumes "mem_ok al" "start < 2 ^ 32" "dname_ok n" "name_in (D @ V) start (length D) n (length (D @ V))" "rdata_type rd = Some ty"
    "length U \<le> 1100" "rdata_reads al start rd (D @ V @ be16 ty @ be16 cl @ be32 ttl @ be16 (of_nat (length U))) U"
  shows "dec_at (dns_rr_decode al start) (D @ V @ be16 ty @ be16 cl @ be32 ttl @ be16 (of_nat (length U)) @ U) (length D)
    (length (D @ V @ be16 ty @ be16 cl @ be32 ttl @ be16 (of_nat (length U)) @ U))
    (\<lambda>rr. str_caseeq (rr_name rr) (dname_canon n) \<and> rr_type rr = ty \<and> rr_dnsclass rr = cl \<and> rr_ttl rr = uint ttl \<and> rdata_cmp (rr_rdata rr) (rdata_canon rd))"
proof -
  let ?l = "of_nat (length U) :: 16 word"
  have l: "unat ?l = length U" using assms(6) by (simp add: unat_of_nat)
  let ?D = "D @ V @ be16 ty @ be16 cl @ be32 ttl @ be16 ?l @ U"
  have n: "name_in ?D start (length D) n (length (D @ V))"
    using name_in_append [OF assms(4), of "be16 ty @ be16 cl @ be32 ttl @ be16 ?l @ U"] by simp
  have r: "dec_at (dns_rdata_decode al start ty (unat ?l)) ?D (length D + length V + 10) (length ?D) (\<lambda>rd'. rdata_cmp rd' (rdata_canon rd))"
    using assms(5,7) by (simp add: rdata_reads_def l numeral_eq_Suc)
  show ?thesis unfolding dns_rr_decode_def
    apply (rule dec_at_alloc [OF assms(1)], simp add: MEM_SIZE_MAX_def)
    apply (rule dec_at_name_bind [OF n assms(3,1,2)])
    apply (rule dec_at_need, simp)
    apply (rule dec_at_bytes [OF decodes_get(2), where A = "D @ V"], simp, simp)
    apply (rule dec_at_bytes [OF decodes_get(2), where A = "D @ V @ be16 ty"], simp, simp)
    apply (rule dec_at_bytes [OF decodes_get(3), where A = "D @ V @ be16 ty @ be16 cl"], simp, simp)
    apply (rule dec_at_bytes [OF decodes_get(2), where A = "D @ V @ be16 ty @ be16 cl @ be32 ttl"], simp, simp)
    apply (rule dec_at_need, simp add: l)
    apply (rule dec_at_bind [where q = "length ?D"])
     apply (use r in \<open>simp add: numeral_eq_Suc\<close>)
    apply (rule dec_at_return, simp_all)
    done
qed

text \<open>The fixed fields behind the name do not touch the table.\<close>

lemma dns_head_runs:
  assumes "mem_ok al" "dname_ok n" "holds mb D" "start \<le> length D" "tab_ok D start ht" "length D + 300 < 2 ^ 31"
  obtains mb1 ht1 V where
    "den_or (den_or (den_or (den_or (den_name al start True n) (den_u16 al ty)) (den_u16 al cl)) (den_u32 al ttl)) (den_u16 al l) mb ht = (0, mb1, ht1)"
    "holds mb1 (D @ V @ be16 ty @ be16 cl @ be32 ttl @ be16 l)" "length V \<le> 257" "tab_ok (D @ V) start ht1"
    "name_in (D @ V) start (length D) n (length (D @ V))"
proof -
  obtain mb0 ht1 V where 0: "den_name al start True n mb ht = (0, mb0, ht1)" "holds mb0 (D @ V)" "length V \<le> 257"
    "\<And>D'. length D' = length D \<Longrightarrow> tab_ok D' start ht \<Longrightarrow> tab_ok (D' @ V) start ht1"
    "\<And>D'. length D' = length D \<Longrightarrow> tab_ok D' start ht \<Longrightarrow> name_in (D' @ V) start (length D') n (length (D' @ V))"
    by (rule enc_okD [OF enc_ok_name [OF assms(1,2)] assms(3,4), of True ht]) (use assms(6) in auto)
  let ?f = "den_or (den_u16 al ty) (den_or (den_u16 al cl) (den_or (den_u32 al ttl) (den_u16 al l)))"
  note u = enc_ok_u16 [OF assms(1), of start]
  have "enc_ok start 6 (den_or (den_u32 al ttl) (den_u16 al l)) (\<lambda>D W. W = be32 ttl @ be16 l)"
    by (rule enc_ok_seq [OF enc_ok_u32 [OF assms(1)] u]) auto
  then have "enc_ok start 8 (den_or (den_u16 al cl) (den_or (den_u32 al ttl) (den_u16 al l))) (\<lambda>D W. W = be16 cl @ be32 ttl @ be16 l)"
    by (rule enc_ok_seq [OF u]) auto
  then have f: "enc_ok start 10 ?f (\<lambda>D W. W = be16 ty @ be16 cl @ be32 ttl @ be16 l)"
    by (rule enc_ok_seq [OF u]) auto
  obtain mb1 ht2 W where 1: "?f mb0 ht1 = (0, mb1, ht2)" "holds mb1 ((D @ V) @ W)"
    "\<And>D'. length D' = length (D @ V) \<Longrightarrow> tab_ok D' start ht1 \<Longrightarrow> W = be16 ty @ be16 cl @ be32 ttl @ be16 l"
    by (rule enc_okD [OF f 0(2), of ht1]) (use assms(4,6) 0(3) in auto)
  have "ht2 = ht1" using 1(1) by (auto simp: den_or_def den_u16_def den_u32_def den_put_def split: prod.splits)
  moreover have "W = be16 ty @ be16 cl @ be32 ttl @ be16 l" using 1(3) [of "D @ V"] 0(4) [OF refl assms(5)] by simp
  moreover have "den_or (den_or (den_or (den_or (den_name al start True n) (den_u16 al ty)) (den_u16 al cl)) (den_u32 al ttl)) (den_u16 al l) mb ht = (0, mb1, ht2)"
    unfolding den_or_assoc by (rule den_or_runs) (rule 0(1), rule 1(1))
  ultimately show thesis using that 0(3) 0(4,5) [OF refl assms(5)] 1(2) by simp
qed

lemma dns_rr_encodes:
  assumes "mem_ok al" "start < 2 ^ 32" "rr_ok rr offs" "holds mb D" "start \<le> length D" "tab_ok D start ht" "length D + 1400 < 2 ^ 31"
  shows "\<exists>mb' ht' W. dns_rr_encode al mb rr offs ht start = Some (0, mb', ht') \<and> holds mb' (D @ W) \<and> length W \<le> 1370 \<and>
    tab_ok (D @ W) start ht' \<and> dec_at (dns_rr_decode al start) (D @ W) (length D) (length (D @ W)) (\<lambda>rr'. rr_same offs rr' rr)"
proof -
  let ?ttl = "word_of_int (if rr_ttl rr > offs then rr_ttl rr - offs else 0) :: 32 word"
  let ?ty = "rr_type rr" and ?cl = "rr_dnsclass rr" and ?rd = "rr_rdata rr"
  have ok: "dname_ok (rr_name rr)" "rdata_typed ?ty ?rd" "rdata_ok ?rd" "rr_ttl rr - offs < 2 ^ 32" using assms(3) by (auto simp: rr_ok_def)
  have none: "?rd \<noteq> Rd_none" using ok(3) by (auto simp: rdata_ok_def)
  then have ty: "rdata_type ?rd = Some ?ty" using ok(2) by (cases ?rd) (auto simp: rdata_typed_def rdata_type_def)
  have sz: "length D + 300 < 2 ^ 31" using assms(7) by simp
  obtain mb1 ht1 V where 1: "den_or (den_or (den_or (den_or (den_name al start True (rr_name rr)) (den_u16 al ?ty)) (den_u16 al ?cl)) (den_u32 al ?ttl))
      (den_u16 al (rr_rdlen rr)) mb ht = (0, mb1, ht1)"
    "holds mb1 (D @ V @ be16 ?ty @ be16 ?cl @ be32 ?ttl @ be16 (rr_rdlen rr))" "length V \<le> 257" "tab_ok (D @ V) start ht1"
    "name_in (D @ V) start (length D) (rr_name rr) (length (D @ V))"
    by (rule dns_head_runs [OF assms(1) ok(1) assms(4-6) sz])
  let ?A = "D @ V @ be16 ?ty @ be16 ?cl @ be32 ?ttl"
  obtain f where f: "\<And>mb ht. dns_rdata_encode al start ?rd mb ht = Some (f mb ht)" "enc_ok start 1100 f (rdata_reads al start ?rd)"
    using rdata_encodes [OF assms(1,2) ok(3)] by blast
  obtain mb2 ht2 U where 2: "f mb1 ht1 = (0, mb2, ht2)" "holds mb2 ((?A @ be16 (rr_rdlen rr)) @ U)" "length U \<le> 1100"
    "\<And>D'. length D' = length (?A @ be16 (rr_rdlen rr)) \<Longrightarrow> tab_ok D' start ht1 \<Longrightarrow> tab_ok (D' @ U) start ht2"
    "\<And>D'. length D' = length (?A @ be16 (rr_rdlen rr)) \<Longrightarrow> tab_ok D' start ht1 \<Longrightarrow> rdata_reads al start ?rd D' U"
    by (rule enc_okD [OF f(2), of mb1 "?A @ be16 (rr_rdlen rr)" ht1]) (use 1(2,3) assms(5,7) in auto)
  let ?l = "of_nat (length U) :: 16 word" and ?W = "V @ be16 ?ty @ be16 ?cl @ be32 ?ttl @ be16 (of_nat (length U)) @ U"
  have pos: "mb_pos mb1 = length ?A + 2" "mb_pos mb2 = length ?A + 2 + length U" using holds_pos [OF 1(2)] holds_pos [OF 2(2)] by simp_all
  obtain mb3 where 3: "mbuf_write_mem al (mb2\<lparr>mb_pos := length ?A\<rparr>) (be16 ?l) = (0, mb3)" "mb_pos mb3 = length ?A + 2"
    "holds (mb3\<lparr>mb_pos := length ?A + 2 + length U\<rparr>) (D @ ?W)"
    using holds_patch [OF assms(1), of mb2 ?A "be16 (rr_rdlen rr)" U "be16 ?l"] 2(2,3) 1(3) assms(7) by (auto simp: ac_simps)
  have t: "tab_ok (?A @ be16 ?l) start ht1" using tab_ok_append [OF 1(4), of "be16 ?ty @ be16 ?cl @ be32 ?ttl @ be16 ?l"] by simp
  have "dns_rr_encode al mb rr offs ht start = Some (0, mb3\<lparr>mb_pos := length ?A + 2 + length U\<rparr>, ht2)"
  proof -
    have a: "length ?A + 2 + length U < 2 ^ 31" using 1(3) 2(3) assms(7) by simp
    then have "szsub (length ?A + 2 + length U) (length ?A + 2) = length U" "szsub (length ?A + 2) 2 = length ?A"
      "szadd (length ?A + 2) (length U) = length ?A + 2 + length U" by simp_all
    then show ?thesis
      unfolding dns_rr_encode_def Let_def 1(1) prod.case f(1) 2(1) pos option.case
      using ok(2) none 3(1,2) 2(3) by (simp add: mbuf_write_u16_def)
  qed
  moreover have "tab_ok (D @ ?W) start ht2" using 2(4) [of "?A @ be16 ?l"] t by simp
  moreover have "dec_at (dns_rr_decode al start) (D @ ?W) (length D) (length (D @ ?W)) (\<lambda>rr'. rr_same offs rr' rr)"
  proof -
    have "rdata_reads al start ?rd (?A @ be16 ?l) U" using 2(5) [of "?A @ be16 ?l"] t by simp
    note r = dns_rr_reads [OF assms(1,2) ok(1) 1(5) ty 2(3), of ?cl ?ttl, simplified append_assoc, OF this [simplified append_assoc]]
    have "uint ?ttl = max 0 (rr_ttl rr - offs)" using ok(4) by (simp add: uint_word_of_int)
    then show ?thesis using r unfolding dec_at_def rr_same_def dns_rr_cmp_def rr_canon_def by fastforce
  qed
  ultimately show ?thesis using 3(3) 1(3) 2(3) by (intro exI conjI) auto
qed

section \<open>Messages\<close>

text \<open>Several records one after the other, with one table of names; the first error ends it.\<close>

fun dns_rrs_encode :: "alloc \<Rightarrow> nat \<Rightarrow> int \<Rightarrow> dnsrr list \<Rightarrow> mbuf \<Rightarrow> dname_tab option \<Rightarrow> (errno \<times> mbuf \<times> dname_tab option) option" where
  "dns_rrs_encode al start offs [] mb ht = Some (0, mb, ht)"
| "dns_rrs_encode al start offs (rr # rrs) mb ht =
     (case dns_rr_encode al mb rr offs ht start of
        None \<Rightarrow> None
      | Some (e, mb1, ht1) \<Rightarrow> if e \<noteq> 0 then Some (e, mb1, ht1) else dns_rrs_encode al start offs rrs mb1 ht1)"

lemma dns_rrs_encodes:
  assumes "mem_ok al" "start < 2 ^ 32" "list_all (\<lambda>rr. rr_ok rr offs) rrs" "holds mb D" "start \<le> length D" "tab_ok D start ht"
    "length D + 1400 * (length rrs + 1) < 2 ^ 31"
  shows "\<exists>mb' ht' W. dns_rrs_encode al start offs rrs mb ht = Some (0, mb', ht') \<and> holds mb' (D @ W) \<and> tab_ok (D @ W) start ht' \<and>
    dec_at (dec_many (length rrs) (dns_rr_decode al start)) (D @ W) (length D) (length (D @ W)) (\<lambda>rrs'. list_all2 (rr_same offs) rrs' rrs)"
  using assms(3-)
proof (induction rrs arbitrary: mb D ht)
  case Nil
  then show ?case by (intro exI [of _ mb] exI [of _ ht] exI [of _ "[]"]) (auto intro!: dec_at_return)
next
  case (Cons rr rrs)
  have ok: "rr_ok rr offs" "list_all (\<lambda>rr. rr_ok rr offs) rrs" using Cons(2) by auto
  obtain mb1 ht1 V where 1: "dns_rr_encode al mb rr offs ht start = Some (0, mb1, ht1)" "holds mb1 (D @ V)" "length V \<le> 1370"
    "tab_ok (D @ V) start ht1" "dec_at (dns_rr_decode al start) (D @ V) (length D) (length (D @ V)) (\<lambda>rr'. rr_same offs rr' rr)"
    using dns_rr_encodes [OF assms(1,2) ok(1) Cons(3-5)] Cons(6) by auto
  obtain mb2 ht2 U where 2: "dns_rrs_encode al start offs rrs mb1 ht1 = Some (0, mb2, ht2)" "holds mb2 ((D @ V) @ U)" "tab_ok ((D @ V) @ U) start ht2"
    "dec_at (dec_many (length rrs) (dns_rr_decode al start)) ((D @ V) @ U) (length (D @ V)) (length ((D @ V) @ U)) (\<lambda>rrs'. list_all2 (rr_same offs) rrs' rrs)"
    using Cons.IH [OF ok(2) 1(2) _ 1(4)] Cons.prems(3,5) 1(3) by auto
  have "dec_at (dec_many (length (rr # rrs)) (dns_rr_decode al start)) ((D @ V) @ U) (length D) (length ((D @ V) @ U)) (\<lambda>rrs'. list_all2 (rr_same offs) rrs' (rr # rrs))"
    unfolding list.size(4) add_Suc_right Nat.add_0_right dec_many.simps
    by (rule dec_at_bind [OF dec_at_append [OF 1(5)]], rule dec_at_bind [OF 2(4)]) (auto intro!: dec_at_return)
  then show ?case using 1(1) 2(1-3) by (intro exI [of _ mb2] exI [of _ ht2] exI [of _ "V @ U"]) simp
qed

text \<open>
  C21.  Any sequence of resource records, of every type that can be encoded, written behind the header of a
  message with one compression table for all names, is encoded without error and decoded to the same
  sequence: the types, classes and data are those of the records, with names and strings equal up to
  case and without a dot at the end, and the lifetime is what was left of it.  The compression never
  refers to a wrong name, and the length fields that are patched afterwards do not disturb it.
\<close>

theorem dns_records_roundtrip:
  assumes "mem_ok al" "list_all (\<lambda>rr. rr_ok rr offs) rrs" "holds mb D" "start \<le> length D" "length D + 1400 * (length rrs + 1) < 2 ^ 31"
    "dt_list t = []"
  shows "\<exists>mb' ht' rrs'. dns_rrs_encode al start offs rrs mb (Some t) = Some (0, mb', ht') \<and>
    dec_many (length rrs) (dns_rr_decode al start) (mb'\<lparr>mb_pos := length D\<rparr>) = (Inr rrs', mb') \<and> list_all2 (rr_same offs) rrs' rrs"
proof -
  have s: "start < 2 ^ 32" using assms(4,5) by simp
  have "tab_ok D start (Some t)" using assms(6) by (simp add: tab_ok_def ents_def)
  then obtain mb' ht' W where r: "dns_rrs_encode al start offs rrs mb (Some t) = Some (0, mb', ht')" "holds mb' (D @ W)"
    "dec_at (dec_many (length rrs) (dns_rr_decode al start)) (D @ W) (length D) (length (D @ W)) (\<lambda>rrs'. list_all2 (rr_same offs) rrs' rrs)"
    using dns_rrs_encodes [OF assms(1) s assms(2-4) _ assms(5)] by blast
  have "mbuf_wf (mb'\<lparr>mb_pos := length D\<rparr>)" "mb_data (mb'\<lparr>mb_pos := length D\<rparr>) = (D @ W) @ []" "mb_pos (mb'\<lparr>mb_pos := length D\<rparr>) = length D"
    using r(2) by (auto simp: holds_def mb_data_def)
  then obtain rrs' where "dec_many (length rrs) (dns_rr_decode al start) (mb'\<lparr>mb_pos := length D\<rparr>) =
      (Inr rrs', (mb'\<lparr>mb_pos := length D\<rparr>)\<lparr>mb_pos := length (D @ W)\<rparr>)" "list_all2 (rr_same offs) rrs' rrs"
    using r(3) unfolding dec_at_def by blast
  moreover have "(mb'\<lparr>mb_pos := length D\<rparr>)\<lparr>mb_pos := length (D @ W)\<rparr> = mb'" using holds_pos [OF r(2)] by simp
  ultimately show ?thesis using r(1) by auto
qed

definition example_records :: "dnsrr list" where
  "example_records =
     [\<lparr>rr_name = [97, 46, 98], rr_type = 33, rr_dnsclass = 1, rr_ttl = 90, rr_rdlen = 0, rr_rdata = Rd_srv 1 2 5060 [99, 46, 97, 46, 98]\<rparr>,
      \<lparr>rr_name = [67, 46, 65, 46, 66, 46], rr_type = 1, rr_dnsclass = 1, rr_ttl = 20, rr_rdlen = 0, rr_rdata = Rd_a 0xc0000201\<rparr>]"

lemma example_records_ok: "list_all (\<lambda>rr. rr_ok rr 30) example_records" "length example_records = 2"
  by (simp_all add: example_records_def rr_ok_def dname_ok_def labels_def labs_ok_def dname_canon_def rdata_typed_def rdata_type_def rdata_ok_def)

theorem dns_records_roundtrip_witness:
  "\<exists>mb' ht' rrs'. dns_rrs_encode (\<lambda>n. Some (\<lambda>i. 0)) 0 30 example_records mbuf_init (Some \<lparr>dt_bsize = 16, dt_list = []\<rparr>) = Some (0, mb', ht') \<and>
    dec_many 2 (dns_rr_decode (\<lambda>n. Some (\<lambda>i. 0)) 0) (mb'\<lparr>mb_pos := 0\<rparr>) = (Inr rrs', mb') \<and> list_all2 (rr_same 30) rrs' example_records"
proof -
  have "mem_ok (\<lambda>n. Some (\<lambda>i. 0))" "holds mbuf_init []"
    by (simp_all add: mem_ok_def holds_def mbuf_init_def mbuf_wf_def mb_data_def MEM_SIZE_MAX_def)
  from dns_records_roundtrip [OF this(1) example_records_ok(1) this(2), of 0 "\<lparr>dt_bsize = 16, dt_list = []\<rparr>"]
  show ?thesis unfolding example_records_ok(2) by (simp del: dec_many.simps dns_rrs_encode.simps)
qed

section \<open>Headers\<close>

lemma bit_small: "unat w < 2 ^ k \<Longrightarrow> k \<le> i \<Longrightarrow> \<not> bit (w :: byte) i"
proof
  assume a: "unat w < 2 ^ k" "k \<le> i" "bit w i"
  have "(2 :: nat) ^ k \<le> 2 ^ i" using a(2) by simp
  then have "unat w < 2 ^ i" using a(1) by (rule order.strict_trans2 [rotated])
  then have "unat w div 2 ^ i = 0" by (rule div_less)
  then have "\<not> bit (unat w) i" by (simp add: bit_iff_odd)
  moreover have "i < 8" using bit_imp_le_length [OF a(3)] by simp
  ultimately show False using a(3) by (simp add: bit_unsigned_iff)
qed

lemma dns_hdr_flags_read:
  assumes "dh_opcode hdr < 16" "dh_z hdr < 8" "dh_rcode hdr < 16"
  shows "ucast (0xf AND drop_bit 11 (dns_hdr_flags hdr)) = dh_opcode hdr" "ucast (0x7 AND drop_bit 4 (dns_hdr_flags hdr)) = dh_z hdr"
    "ucast (0xf AND dns_hdr_flags hdr) = dh_rcode hdr"
    "(0x1 AND drop_bit 15 (dns_hdr_flags hdr) \<noteq> 0) = dh_qr hdr" "(0x1 AND drop_bit 10 (dns_hdr_flags hdr) \<noteq> 0) = dh_aa hdr"
    "(0x1 AND drop_bit 9 (dns_hdr_flags hdr) \<noteq> 0) = dh_tc hdr" "(0x1 AND drop_bit 8 (dns_hdr_flags hdr) \<noteq> 0) = dh_rd hdr"
    "(0x1 AND drop_bit 7 (dns_hdr_flags hdr) \<noteq> 0) = dh_ra hdr"
proof -
  have o: "\<not> bit (dh_opcode hdr) i" if "4 \<le> i" for i using bit_small [of "dh_opcode hdr" 4 i] assms(1) that by (simp add: word_less_nat_alt)
  have z: "\<not> bit (dh_z hdr) i" if "3 \<le> i" for i using bit_small [of "dh_z hdr" 3 i] assms(2) that by (simp add: word_less_nat_alt)
  have r: "\<not> bit (dh_rcode hdr) i" if "4 \<le> i" for i using bit_small [of "dh_rcode hdr" 4 i] assms(3) that by (simp add: word_less_nat_alt)
  let ?f = "dns_hdr_flags hdr"
  have fl: "bit ?f n = (if n < 4 then bit (dh_rcode hdr) n else if n < 7 then bit (dh_z hdr) (n - 4) else if n = 7 then dh_ra hdr
      else if n = 8 then dh_rd hdr else if n = 9 then dh_tc hdr else if n = 10 then dh_aa hdr
      else if n < 15 then bit (dh_opcode hdr) (n - 11) else dh_qr hdr)" if "n < 16" for n
    using that o [of "n - 11"] z [of "n - 4"] r [of n] by (auto simp: dns_hdr_flags_def bit_simps)
  have m: "bit (0xf :: byte) n = (n < 4)" "bit (0x7 :: byte) n = (n < 3)" if "n < 8" for n
    using that bit_mask_iff [where ?'a = byte, of 4 n] bit_mask_iff [where ?'a = byte, of 3 n] by (auto simp: mask_eq_exp_minus_1)
  show "ucast (0xf AND drop_bit 11 ?f) = dh_opcode hdr"
  proof (rule bit_word_eqI)
    fix n assume "n < LENGTH(8)"
    then show "bit (ucast (0xf AND drop_bit 11 ?f) :: byte) n = bit (dh_opcode hdr) n" using o [of n] fl [of "11 + n"] m(1) [of n] by (auto simp: bit_simps)
  qed
  show "ucast (0x7 AND drop_bit 4 ?f) = dh_z hdr"
  proof (rule bit_word_eqI)
    fix n assume "n < LENGTH(8)"
    then show "bit (ucast (0x7 AND drop_bit 4 ?f) :: byte) n = bit (dh_z hdr) n" using z [of n] fl [of "4 + n"] m(2) [of n] by (auto simp: bit_simps)
  qed
  show "ucast (0xf AND ?f) = dh_rcode hdr"
  proof (rule bit_word_eqI)
    fix n assume "n < LENGTH(8)"
    then show "bit (ucast (0xf AND ?f) :: byte) n = bit (dh_rcode hdr) n" using r [of n] fl [of n] m(1) [of n] by (auto simp: bit_simps)
  qed
  have f: "(0x1 AND drop_bit n w \<noteq> 0) = bit w n" for n and w :: "16 word"
    by (simp add: one_and_eq bit_iff_odd_drop_bit odd_iff_mod_2_eq_one)
  show "(0x1 AND drop_bit 15 ?f \<noteq> 0) = dh_qr hdr" "(0x1 AND drop_bit 10 ?f \<noteq> 0) = dh_aa hdr"
    "(0x1 AND drop_bit 9 ?f \<noteq> 0) = dh_tc hdr" "(0x1 AND drop_bit 8 ?f \<noteq> 0) = dh_rd hdr" "(0x1 AND drop_bit 7 ?f \<noteq> 0) = dh_ra hdr"
    unfolding f by (simp_all add: fl)
qed

definition dnshdr_wire :: "dnshdr \<Rightarrow> byte list" where
  "dnshdr_wire hdr = ((((be16 (dh_id hdr) @ be16 (dns_hdr_flags hdr)) @ be16 (dh_nq hdr)) @ be16 (dh_nans hdr)) @ be16 (dh_nauth hdr)) @ be16 (dh_nadd hdr)"

definition dnshdr_ok :: "dnshdr \<Rightarrow> bool" where
  "dnshdr_ok hdr \<longleftrightarrow> dh_opcode hdr < 16 \<and> dh_z hdr < 8 \<and> dh_rcode hdr < 16"

interpretation dns_hdr: wire_codec dns_hdr_encode dns_hdr_decode dnshdr_wire dnshdr_ok
proof
  fix mb hdr al
  assume "mbuf_wf mb" "mb_pos mb + length (dnshdr_wire hdr) < 2 ^ 31"
  then show "emits al mb (dnshdr_wire hdr) (dns_hdr_encode al mb hdr)"
    unfolding dns_hdr_encode_def dnshdr_wire_def by (intro emits_err_or mbuf_write_uN_emits) auto
next
  fix hdr assume ok: "dnshdr_ok hdr"
  have "dec_return
       \<lparr>dh_id = dh_id hdr, dh_qr = (0x1 AND drop_bit 15 (dns_hdr_flags hdr) \<noteq> 0), dh_opcode = ucast (0xf AND drop_bit 11 (dns_hdr_flags hdr)),
        dh_aa = (0x1 AND drop_bit 10 (dns_hdr_flags hdr) \<noteq> 0), dh_tc = (0x1 AND drop_bit 9 (dns_hdr_flags hdr) \<noteq> 0),
        dh_rd = (0x1 AND drop_bit 8 (dns_hdr_flags hdr) \<noteq> 0), dh_ra = (0x1 AND drop_bit 7 (dns_hdr_flags hdr) \<noteq> 0),
        dh_z = ucast (0x7 AND drop_bit 4 (dns_hdr_flags hdr)), dh_rcode = ucast (0xf AND (dns_hdr_flags hdr)),
        dh_nq = dh_nq hdr, dh_nans = dh_nans hdr, dh_nauth = dh_nauth hdr, dh_nadd = dh_nadd hdr\<rparr> = (dec_return hdr :: dnshdr dec)"
    by (intro arg_cong [where f = dec_return] dnshdr.equality)
       (use dns_hdr_flags_read [of hdr] ok in \<open>simp_all add: dnshdr_ok_def\<close>)
  note r = decodes_return [of hdr, folded this]
  have "decodes dns_hdr_decode (be16 (dh_id hdr) @ be16 (dns_hdr_flags hdr) @ be16 (dh_nq hdr) @ be16 (dh_nans hdr) @ be16 (dh_nauth hdr) @ be16 (dh_nadd hdr) @ []) hdr"
    unfolding dns_hdr_decode_def by (rule decodes_need, simp, (rule decodes_bind, rule decodes_get(2))+, rule r)
  then show "decodes dns_hdr_decode (dnshdr_wire hdr) hdr" by (simp add: dnshdr_wire_def)
qed

section \<open>Long texts\<close>

lemma dns_txt_loop_returns: "dns_txt_loop al s err mb = Some r \<Longrightarrow> length s < 256"
proof (induction al s err mb r rule: dns_txt_loop.raw_induct [rotated, consumes 1, case_names 1])
  case (1 dns_txt_loop al s err mb r)
  let ?n = "unat (of_nat (length s) :: byte)"
  have n: "?n = length s mod 256" by (simp add: unat_of_nat)
  show ?case
  proof (rule ccontr)
    assume "\<not> length s < 256"
    then have l: "drop ?n s \<noteq> []" unfolding n by (simp add: less_le_trans [of _ 256])
    obtain e1 mb1 where w1: "mbuf_write_u8 al mb (of_nat ?n) = (e1, mb1)" by fastforce
    obtain e2 mb2 where w2: "mbuf_write_mem al mb1 (take ?n s) = (e2, mb2)" by fastforce
    have "dns_txt_loop al (drop ?n s) (err OR e1 OR e2) mb2 = Some r"
      using 1(2) l w1 w2 by (simp add: Let_def del: drop_eq_Nil)
    from 1(1) [OF this] have "length s - ?n < 256" by simp
    moreover have "256 \<le> length s - length s mod 256"
    proof (rule dvd_imp_le)
      show "256 dvd length s - length s mod 256" by (rule dvd_minus_mod)
      show "0 < length s - length s mod 256" using \<open>\<not> length s < 256\<close> by (simp add: less_le_trans [of _ 256])
    qed
    ultimately show False unfolding n by simp
  qed
qed

text \<open>
  C25.  Encoding a text record does not return when the text has 256 characters or more: the length of
  the next string is the length of the rest modulo 256, which stays zero from then on.  Every text of
  fewer characters is one string.
\<close>

theorem dns_txt_encode_returns:
  assumes "rr_type rr = 16" "rr_rdata rr = Rd_txt s"
  shows "(\<exists>r. dns_rr_encode al mb rr offs ht start = Some r) \<longleftrightarrow> length s < 256"
proof -
  obtain e1 mb1 ht1 where h: "den_or (den_or (den_or (den_or (den_name al start True (rr_name rr)) (den_u16 al (rr_type rr))) (den_u16 al (rr_dnsclass rr)))
      (den_u32 al (word_of_int (if rr_ttl rr > offs then rr_ttl rr - offs else 0)))) (den_u16 al (rr_rdlen rr)) mb ht = (e1, mb1, ht1)"
    by (meson prod_cases3)
  have t: "rdata_typed (rr_type rr) (rr_rdata rr)" using assms by (simp add: rdata_typed_def rdata_type_def)
  have "dns_rr_encode al mb rr offs ht start = None \<longleftrightarrow> dns_txt_loop al s 0 mb1 = None"
    unfolding dns_rr_encode_def Let_def h prod.case
    using t assms(2) by (auto simp: dns_rdata_encode_def split: option.splits prod.splits if_splits)
  moreover have "dns_txt_loop al s 0 mb1 \<noteq> None" if "length s < 256"
    using dns_txt_short [of s ht1 al mb1] that by auto
  moreover have "length s < 256" if "dns_txt_loop al s 0 mb1 = Some r" for r by (rule dns_txt_loop_returns [OF that])
  ultimately show ?thesis by (metis not_None_eq)
qed

theorem dns_txt_encode_returns_witness:
  "dns_rr_encode (\<lambda>n. Some (\<lambda>i. 0)) mbuf_init \<lparr>rr_name = [97], rr_type = 16, rr_dnsclass = 1, rr_ttl = 0, rr_rdlen = 0, rr_rdata = Rd_txt (replicate 256 97)\<rparr> 0 None 0 = None \<and>
   (\<exists>r. dns_rr_encode (\<lambda>n. Some (\<lambda>i. 0)) mbuf_init \<lparr>rr_name = [97], rr_type = 16, rr_dnsclass = 1, rr_ttl = 0, rr_rdlen = 0, rr_rdata = Rd_txt (replicate 255 97)\<rparr> 0 None 0 = Some r)"
proof -
  let ?rr = "\<lambda>n. \<lparr>rr_name = [97], rr_type = 16, rr_dnsclass = 1, rr_ttl = 0, rr_rdlen = 0, rr_rdata = Rd_txt (replicate n 97)\<rparr>"
  have "(\<exists>r. dns_rr_encode (\<lambda>n. Some (\<lambda>i. 0)) mbuf_init (?rr n) 0 None 0 = Some r) \<longleftrightarrow> n < 256" for n
    using dns_txt_encode_returns [of "?rr n" "replicate n 97"] by simp
  from this [of 256] this [of 255] show ?thesis by (cases "dns_rr_encode (\<lambda>n. Some (\<lambda>i. 0)) mbuf_init (?rr 256) 0 None 0") auto
qed

end
