(* ===== verification/Dns_List.thy ===== *)
theory Dns_List
  imports Dns "HOL-Library.Product_Lexorder"
begin

text \<open>
  Lists of resource records (\<^verbatim>\<open>src/dns/rrlist.c\<close>): sorting by preference, and the search that follows
  aliases.  Sorting is \<^verbatim>\<open>list_sort\<close> on the linked list with the handlers of this file; \<open>rrd\<close> is the record that a
  list element points to.
\<close>

section \<open>Sorting\<close>

definition sidx :: "dnsrr \<Rightarrow> 32 word \<Rightarrow> 32 word" where
  "sidx rr key =
     (if rr_type rr = DNS_TYPE_A then a_addr (rr_rdata rr) XOR key
      else if rr_type rr = DNS_TYPE_AAAA then
        let a = aaaa_addr (rr_rdata rr)
        in unle32 (take 4 a) XOR unle32 (take 4 (drop 4 a)) XOR unle32 (take 4 (drop 8 a)) XOR unle32 (take 4 (drop 12 a)) XOR key
      else if rr_type rr = DNS_TYPE_SRV then
        ((the (hash_fast_str (Some (target (rr_rdata rr) @ [0]))) AND 0xfff) XOR key) + ucast (weight (rr_rdata rr))
      else 0)"

definition std_sort_handler :: "16 word \<Rightarrow> 32 word \<Rightarrow> dnsrr \<Rightarrow> dnsrr \<Rightarrow> bool" where
  "std_sort_handler ty key rr1 rr2 =
     (if ty \<noteq> rr_type rr1 then ty \<noteq> rr_type rr2
      else if ty \<noteq> rr_type rr2 then True
      else if ty = DNS_TYPE_MX then mx_pref (rr_rdata rr1) \<le> mx_pref (rr_rdata rr2)
      else if ty = DNS_TYPE_SRV then
        if pri (rr_rdata rr1) = pri (rr_rdata rr2) then sidx rr1 key \<ge> sidx rr2 key
        else pri (rr_rdata rr1) < pri (rr_rdata rr2)
      else if ty = DNS_TYPE_NAPTR then
        if naptr_order (rr_rdata rr1) = naptr_order (rr_rdata rr2) then naptr_pref (rr_rdata rr1) \<le> naptr_pref (rr_rdata rr2)
        else naptr_order (rr_rdata rr1) < naptr_order (rr_rdata rr2)
      else True)"

definition addr_sort_handler :: "32 word \<Rightarrow> dnsrr \<Rightarrow> dnsrr \<Rightarrow> bool" where
  "addr_sort_handler key rr1 rr2 \<longleftrightarrow> sidx rr1 key \<ge> sidx rr2 key"

definition dns_rrlist_sort :: "(addr \<Rightarrow> dnsrr) \<Rightarrow> store \<Rightarrow> addr \<Rightarrow> 16 word \<Rightarrow> nat \<Rightarrow> store option" where
  "dns_rrlist_sort rrd st rrl ty key = list_sort (\<lambda>le1 le2. std_sort_handler ty (drop_bit 5 (of_nat key)) (rrd le1) (rrd le2)) st rrl"

definition dns_rrlist_sort_addr :: "(addr \<Rightarrow> dnsrr) \<Rightarrow> store \<Rightarrow> addr \<Rightarrow> nat \<Rightarrow> store option" where
  "dns_rrlist_sort_addr rrd st rrl key = list_sort (\<lambda>le1 le2. addr_sort_handler (drop_bit 5 (of_nat key)) (rrd le1) (rrd le2)) st rrl"

section \<open>Search\<close>

abbreviation (input) CNAME_RECURSE_MAX :: nat where "CNAME_RECURSE_MAX \<equiv> 16"

text \<open>
  The loop over the rest of the list; the handler has a state, its argument, and tells whether to
  stop.  A call for an alias begins at the head of the list, if the depth allows it.
\<close>

definition rr_skips :: "byte list option \<Rightarrow> 16 word \<Rightarrow> 16 word \<Rightarrow> 16 word \<Rightarrow> bool \<Rightarrow> dnsrr \<Rightarrow> bool" where
  "rr_skips name type1 type2 dnsclass recurse rr \<longleftrightarrow>
     (case name of None \<Rightarrow> False | Some n \<Rightarrow> \<not> str_caseeq n (rr_name rr)) \<or>
     type1 \<noteq> DNS_QTYPE_ANY \<and> type2 \<noteq> DNS_QTYPE_ANY \<and> rr_type rr \<noteq> type1 \<and> rr_type rr \<noteq> type2 \<and>
       (rr_type rr \<noteq> DNS_TYPE_CNAME \<or> \<not> recurse) \<or>
     dnsclass \<noteq> DNS_QCLASS_ANY \<and> rr_dnsclass rr \<noteq> dnsclass"

function rrlist_loop ::
  "dnsrr list \<Rightarrow> 16 word \<Rightarrow> 16 word \<Rightarrow> 16 word \<Rightarrow> bool \<Rightarrow> ('s \<Rightarrow> dnsrr \<Rightarrow> bool \<times> 's) option \<Rightarrow>
   byte list option \<Rightarrow> nat \<Rightarrow> dnsrr list \<Rightarrow> 's \<Rightarrow> dnsrr option \<times> 's" where
  "rrlist_loop rrl type1 type2 dnsclass recurse rrlh name depth [] s = (None, s)"
| "rrlist_loop rrl type1 type2 dnsclass recurse rrlh name depth (rr # le) s =
     (if rr_skips name type1 type2 dnsclass recurse rr then
        rrlist_loop rrl type1 type2 dnsclass recurse rrlh name depth le s
      else
        case (case rrlh of None \<Rightarrow> (True, s) | Some h \<Rightarrow> h s rr) of
          (True, s1) \<Rightarrow> (Some rr, s1)
        | (False, s1) \<Rightarrow>
            if recurse \<and> DNS_QTYPE_ANY \<noteq> type1 \<and> DNS_QTYPE_ANY \<noteq> type2 \<and>
               DNS_TYPE_CNAME \<noteq> type1 \<and> DNS_TYPE_CNAME \<noteq> type2 \<and> DNS_TYPE_CNAME = rr_type rr then
              (case (if Suc depth > CNAME_RECURSE_MAX then (None, s1)
                     else rrlist_loop rrl type1 type2 dnsclass recurse rrlh (Some (cname (rr_rdata rr))) (Suc depth) rrl s1) of
                 (Some r, s2) \<Rightarrow> (Some r, s2)
               | (None, s2) \<Rightarrow> rrlist_loop rrl type1 type2 dnsclass recurse rrlh name (Suc depth) le s2)
            else rrlist_loop rrl type1 type2 dnsclass recurse rrlh name depth le s1)"
  by pat_completeness auto
termination
  by (relation "measures [\<lambda>(rrl, t1, t2, c, r, h, n, depth, le, s). 17 - depth, \<lambda>(rrl, t1, t2, c, r, h, n, depth, le, s). length le]") auto

definition rrlist_apply ::
  "dnsrr list \<Rightarrow> byte list option \<Rightarrow> 16 word \<Rightarrow> 16 word \<Rightarrow> 16 word \<Rightarrow> bool \<Rightarrow> nat \<Rightarrow> ('s \<Rightarrow> dnsrr \<Rightarrow> bool \<times> 's) option \<Rightarrow> 's \<Rightarrow> dnsrr option \<times> 's" where
  "rrlist_apply rrl name type1 type2 dnsclass recurse depth rrlh s =
     (if depth > CNAME_RECURSE_MAX then (None, s) else rrlist_loop rrl type1 type2 dnsclass recurse rrlh name depth rrl s)"

definition dns_rrlist_apply ::
  "dnsrr list \<Rightarrow> byte list option \<Rightarrow> 16 word \<Rightarrow> 16 word \<Rightarrow> bool \<Rightarrow> ('s \<Rightarrow> dnsrr \<Rightarrow> bool \<times> 's) option \<Rightarrow> 's \<Rightarrow> dnsrr option \<times> 's" where
  "dns_rrlist_apply rrl name type dnsclass recurse rrlh s = rrlist_apply rrl name type type dnsclass recurse 0 rrlh s"

definition dns_rrlist_apply2 ::
  "dnsrr list \<Rightarrow> byte list option \<Rightarrow> 16 word \<Rightarrow> 16 word \<Rightarrow> 16 word \<Rightarrow> bool \<Rightarrow> ('s \<Rightarrow> dnsrr \<Rightarrow> bool \<times> 's) option \<Rightarrow> 's \<Rightarrow> dnsrr option \<times> 's" where
  "dns_rrlist_apply2 rrl name type1 type2 dnsclass recurse rrlh s = rrlist_apply rrl name type1 type2 dnsclass recurse 0 rrlh s"

definition find_handler :: "16 word \<Rightarrow> dnsrr \<Rightarrow> bool \<times> 16 word" where
  "find_handler type rr = (rr_type rr = type, type)"

definition dns_rrlist_find :: "dnsrr list \<Rightarrow> byte list option \<Rightarrow> 16 word \<Rightarrow> 16 word \<Rightarrow> bool \<Rightarrow> dnsrr option" where
  "dns_rrlist_find rrl name type dnsclass recurse = fst (rrlist_apply rrl name type type dnsclass recurse 0 (Some find_handler) type)"

section \<open>Order of the records\<close>

text \<open>
  The rank of a record when a list is sorted for a type: other types come last; mail exchangers go by
  preference, services by priority and then by the largest index, pointers by order and preference.
\<close>

definition rr_rank :: "16 word \<Rightarrow> 32 word \<Rightarrow> dnsrr \<Rightarrow> nat \<times> nat \<times> nat" where
  "rr_rank ty key rr =
     (if rr_type rr \<noteq> ty then (1, 0, 0)
      else if ty = DNS_TYPE_MX then (0, unat (mx_pref (rr_rdata rr)), 0)
      else if ty = DNS_TYPE_SRV then (0, unat (pri (rr_rdata rr)), unat (NOT (sidx rr key)))
      else if ty = DNS_TYPE_NAPTR then (0, unat (naptr_order (rr_rdata rr)), unat (naptr_pref (rr_rdata rr)))
      else (0, 0, 0))"

lemma not_le_word: "NOT x \<le> NOT y \<longleftrightarrow> y \<le> (x :: 'a :: len word)"
proof -
  have "uint (NOT z) = 2 ^ LENGTH('a) - 1 - uint z" for z :: "'a word"
  proof -
    have "NOT z = - 1 - z" by (simp add: not_eq_complement)
    moreover have "z \<le> - 1" by simp
    ultimately show ?thesis by (simp add: uint_sub_lem [THEN iffD1] word_le_def [symmetric] unsigned_minus_1_eq_mask mask_eq_exp_minus_1)
  qed
  then show ?thesis by (simp add: word_le_def)
qed

lemma std_sort_rank: "std_sort_handler ty key rr1 rr2 \<longleftrightarrow> rr_rank ty key rr1 \<le> rr_rank ty key rr2"
  by (auto simp: std_sort_handler_def rr_rank_def less_eq_prod_def word_le_nat_alt [symmetric] word_less_nat_alt [symmetric] not_le_word unsigned_word_eqI split: if_splits)

lemma transp_rank: "transp (\<lambda>x y. (f x :: 'a :: order) \<le> f y)"
  by (auto intro: transpI order_trans)

lemma transp_rank_rev: "transp (\<lambda>x y. (f y :: 'a :: order) \<le> f x)"
  by (auto intro: transpI order_trans)

text \<open>
  C24.  Sorting a list of records always returns, for every type and key and whatever the list holds.  The
  result has the same elements, in the order of their ranks, and for addresses in descending order of the
  index.
\<close>

theorem dns_rrlist_sort_correct:
  assumes "store_wf st f"
  shows "(\<exists>st' ys. dns_rrlist_sort rrd st l ty key = Some st' \<and> store_wf st' (f(l := ys)) \<and> mset ys = mset (f l) \<and>
      sorted (map (rr_rank ty (drop_bit 5 (of_nat key)) \<circ> rrd) ys)) \<and>
    (\<exists>st' ys. dns_rrlist_sort_addr rrd st l key = Some st' \<and> store_wf st' (f(l := ys)) \<and> mset ys = mset (f l) \<and>
      sorted (rev (map (\<lambda>le. sidx (rrd le) (drop_bit 5 (of_nat key))) ys)))"
proof (intro conjI)
  let ?k = "drop_bit 5 (of_nat key) :: 32 word"
  obtain st' ys where "list_sort (\<lambda>x y. rr_rank ty ?k (rrd x) \<le> rr_rank ty ?k (rrd y)) st l = Some st'" "store_wf st' (f(l := ys))" "mset ys = mset (f l)"
    "sorted_wrt (\<lambda>x y. rr_rank ty ?k (rrd x) \<le> rr_rank ty ?k (rrd y)) ys"
    using list_sort_wf [OF assms refl _ transp_rank [of "\<lambda>x. rr_rank ty ?k (rrd x)"], of l] linear by blast
  then show "\<exists>st' ys. dns_rrlist_sort rrd st l ty key = Some st' \<and> store_wf st' (f(l := ys)) \<and> mset ys = mset (f l) \<and>
      sorted (map (rr_rank ty ?k \<circ> rrd) ys)"
    by (auto simp: dns_rrlist_sort_def std_sort_rank sorted_map comp_def)
  obtain st' ys where "list_sort (\<lambda>x y. sidx (rrd y) ?k \<le> sidx (rrd x) ?k) st l = Some st'" "store_wf st' (f(l := ys))" "mset ys = mset (f l)"
    "sorted_wrt (\<lambda>x y. sidx (rrd y) ?k \<le> sidx (rrd x) ?k) ys"
    using list_sort_wf [OF assms refl _ transp_rank_rev [of "\<lambda>x. sidx (rrd x) ?k"], of l] linear by blast
  then show "\<exists>st' ys. dns_rrlist_sort_addr rrd st l key = Some st' \<and> store_wf st' (f(l := ys)) \<and> mset ys = mset (f l) \<and>
      sorted (rev (map (\<lambda>le. sidx (rrd le) ?k) ys))"
    by (auto simp: dns_rrlist_sort_addr_def addr_sort_handler_def sorted_wrt_rev sorted_wrt_map)
qed

theorem dns_rrlist_sort_correct_witness:
  "\<exists>st. dns_rrlist_sort (\<lambda>le. \<lparr>rr_name = [], rr_type = 15, rr_dnsclass = 1, rr_ttl = 0, rr_rdlen = 0, rr_rdata = Rd_mx (if le = 1 then 20 else 10) []\<rparr>)
     two_store 0 15 7 = Some st \<and> store_wf st ((\<lambda>_. [])(0 := [2, 1]))"
proof -
  let ?rrd = "\<lambda>le :: addr. \<lparr>rr_name = [], rr_type = 15, rr_dnsclass = 1, rr_ttl = 0, rr_rdlen = 0, rr_rdata = Rd_mx (if le = 1 then 20 else 10) []\<rparr>"
  obtain st ys where s: "dns_rrlist_sort ?rrd two_store 0 15 7 = Some st" "store_wf st (((\<lambda>_. [])(0 := [1, 2]))(0 := ys))" "mset ys = mset [1, 2]"
      "sorted (map (rr_rank 15 (drop_bit 5 (of_nat 7)) \<circ> ?rrd) ys)"
    using dns_rrlist_sort_correct [OF two_store_wf, of ?rrd 0 15 7] by (auto simp: fun_upd_same)
  have "length ys = Suc (Suc 0)" using mset_eq_length [OF s(3)] by simp
  moreover have "set ys = {1, 2}" using mset_eq_setD [OF s(3)] by simp
  ultimately have "ys = [2, 1]" using s(4) by (auto simp: length_Suc_conv doubleton_eq_iff rr_rank_def)
  then show ?thesis using s(1,2) by auto
qed

section \<open>Aliases\<close>

text \<open>\<open>aliased rrl c n a b\<close>: the name \<open>b\<close> is reached from \<open>a\<close> by \<open>n\<close> aliases of the list.  No name is every name.\<close>

definition name_matches :: "byte list option \<Rightarrow> dnsrr \<Rightarrow> bool" where
  "name_matches name rr \<longleftrightarrow> (case name of None \<Rightarrow> True | Some n \<Rightarrow> str_caseeq n (rr_name rr))"

definition class_matches :: "16 word \<Rightarrow> dnsrr \<Rightarrow> bool" where
  "class_matches dnsclass rr \<longleftrightarrow> dnsclass = DNS_QCLASS_ANY \<or> rr_dnsclass rr = dnsclass"

inductive aliased :: "dnsrr list \<Rightarrow> 16 word \<Rightarrow> nat \<Rightarrow> byte list option \<Rightarrow> byte list option \<Rightarrow> bool" for rrl c where
  alias_none: "aliased rrl c 0 a a"
| alias_more: "rr \<in> set rrl \<Longrightarrow> rr_type rr = DNS_TYPE_CNAME \<Longrightarrow> name_matches a rr \<Longrightarrow> class_matches c rr \<Longrightarrow>
    aliased rrl c n (Some (cname (rr_rdata rr))) b \<Longrightarrow> aliased rrl c (Suc n) a b"

lemma not_skips:
  "\<not> rr_skips name type type c recurse rr \<Longrightarrow>
   name_matches name rr \<and> class_matches c rr \<and> (type = DNS_QTYPE_ANY \<or> rr_type rr = type \<or> rr_type rr = DNS_TYPE_CNAME \<and> recurse)"
  by (auto simp: rr_skips_def name_matches_def class_matches_def split: option.splits)

lemma find_loop_Cons:
  "rrlist_loop rrl t t c recurse (Some find_handler) name depth (rr # le) t =
     (if rr_skips name t t c recurse rr then rrlist_loop rrl t t c recurse (Some find_handler) name depth le t
      else if rr_type rr = t then (Some rr, t)
      else if recurse \<and> t \<noteq> DNS_QTYPE_ANY \<and> rr_type rr = DNS_TYPE_CNAME then
        (case (if depth \<ge> 16 then (None, t)
               else rrlist_loop rrl t t c recurse (Some find_handler) (Some (cname (rr_rdata rr))) (Suc depth) rrl t) of
           (Some r, s2) \<Rightarrow> (Some r, s2)
         | (None, s2) \<Rightarrow> rrlist_loop rrl t t c recurse (Some find_handler) name (Suc depth) le s2)
      else rrlist_loop rrl t t c recurse (Some find_handler) name depth le t)"
  by (auto simp: find_handler_def split: option.splits)

definition found :: "dnsrr list \<Rightarrow> 16 word \<Rightarrow> 16 word \<Rightarrow> byte list option \<Rightarrow> nat \<Rightarrow> dnsrr \<Rightarrow> bool" where
  "found rrl t c name k rr \<longleftrightarrow> rr \<in> set rrl \<and> rr_type rr = t \<and> class_matches c rr \<and> (\<exists>n \<le> k. \<exists>a. aliased rrl c n name a \<and> name_matches a rr)"

lemma found_mono: "found rrl t c name k rr \<Longrightarrow> k \<le> k' \<Longrightarrow> found rrl t c name k' rr"
  unfolding found_def using le_trans by blast

lemma found_alias:
  assumes "found rrl t c (Some (cname (rr_rdata rr))) k r" "rr \<in> set rrl" "rr_type rr = DNS_TYPE_CNAME" "name_matches name rr" "class_matches c rr"
  shows "found rrl t c name (Suc k) r"
  using assms unfolding found_def by (meson Suc_le_mono alias_more)

lemma find_loop_sound:
  assumes "set le \<subseteq> set rrl" "m = 17 - depth"
  shows "case rrlist_loop rrl t t c recurse (Some find_handler) name depth le t of
    (r, s) \<Rightarrow> s = t \<and> (case r of None \<Rightarrow> True | Some rr \<Rightarrow> found rrl t c name (16 - depth) rr)"
  using assms
proof (induction m arbitrary: depth name le rule: less_induct)
  case (less m)
  note outer = less(1)
  show ?case using less(2,3)
  proof (induction le arbitrary: depth)
    case (Cons rr le)
    let ?loop = "\<lambda>name depth le. rrlist_loop rrl t t c recurse (Some find_handler) name depth le t"
    have in_rrl: "rr \<in> set rrl" "set le \<subseteq> set rrl" using Cons(2) by auto
    show ?case
    proof (cases "rr_skips name t t c recurse rr")
      case True
      then show ?thesis using Cons.IH [OF in_rrl(2) Cons(3)] by (simp add: find_loop_Cons del: rrlist_loop.simps)
    next
      case False
      note m = not_skips [OF False]
      show ?thesis
      proof (cases "rr_type rr = t \<or> \<not> (recurse \<and> t \<noteq> DNS_QTYPE_ANY \<and> rr_type rr = DNS_TYPE_CNAME)")
        case True
        then have "found rrl t c name (16 - depth) rr" if "rr_type rr = t" using that m in_rrl unfolding found_def by (auto intro: alias_none)
        then show ?thesis using True False Cons.IH [OF in_rrl(2) Cons(3)] by (auto simp: find_loop_Cons simp del: rrlist_loop.simps)
      next
        case other: False
        have rest: "case ?loop name (Suc depth) le of (r, s) \<Rightarrow> s = t \<and> (case r of None \<Rightarrow> True | Some rr \<Rightarrow> found rrl t c name (16 - Suc depth) rr)"
        proof (cases "depth < 17")
          case True
          then show ?thesis using outer [of "17 - Suc depth" le "Suc depth" name] in_rrl(2) Cons(3) by auto
        next
          case False
          then show ?thesis using Cons.IH [of "Suc depth"] in_rrl(2) Cons(3) by simp
        qed
        have inner: "case ?loop (Some (cname (rr_rdata rr))) (Suc depth) rrl of (r, s) \<Rightarrow>
            s = t \<and> (case r of None \<Rightarrow> True | Some r \<Rightarrow> found rrl t c name (16 - depth) r)" if "depth < 16"
        proof -
          have "found rrl t c name (16 - depth) r" if "found rrl t c (Some (cname (rr_rdata rr))) (16 - Suc depth) r" for r
          proof -
            have "Suc (16 - Suc depth) = 16 - depth" using \<open>depth < 16\<close> by simp
            then show ?thesis using found_alias [OF that in_rrl(1), of name] other m by (simp only:) auto
          qed
          then show ?thesis
            using outer [of "17 - Suc depth" rrl "Suc depth" "Some (cname (rr_rdata rr))"] Cons(3) that by (auto split: option.splits)
        qed
        obtain r2 s2 where r2: "?loop name (Suc depth) le = (r2, s2)" by fastforce
        obtain r1 s1 where r1: "?loop (Some (cname (rr_rdata rr))) (Suc depth) rrl = (r1, s1)" by fastforce
        have "found rrl t c name (16 - depth) r" if "r2 = Some r" for r
          using rest found_mono [of rrl t c name "16 - Suc depth" r "16 - depth"] that unfolding r2 by auto
        moreover have n: "rr_type rr \<noteq> t" and rec: "recurse \<and> t \<noteq> DNS_QTYPE_ANY \<and> rr_type rr = DNS_TYPE_CNAME" using other by auto
        have "?loop name depth (rr # le) = (case (if depth \<ge> 16 then (None, t) else (r1, s1)) of
            (Some r, s) \<Rightarrow> (Some r, s) | (None, s) \<Rightarrow> rrlist_loop rrl t t c recurse (Some find_handler) name (Suc depth) le s)"
          unfolding find_loop_Cons if_not_P [OF False] if_not_P [OF n] if_P [OF rec] r1 ..
        ultimately show ?thesis using rest inner r2 unfolding r1 by (cases "depth < 16"; cases r1; cases r2) auto
      qed
    qed
  qed simp
qed

lemma find_loop_complete:
  assumes "rr \<in> set le" "name_matches name rr" "class_matches c rr" "rr_type rr = t" "set le \<subseteq> set rrl"
  shows "fst (rrlist_loop rrl t t c recurse (Some find_handler) name depth le t) \<noteq> None"
  using assms(1,5)
proof (induction le arbitrary: depth)
  case (Cons r le)
  have here: "\<not> rr_skips name t t c recurse rr" using assms(2-4) by (auto simp: rr_skips_def name_matches_def class_matches_def split: option.splits)
  show ?case
  proof (cases "r = rr")
    case True
    then show ?thesis using here assms(4) by (simp add: find_loop_Cons del: rrlist_loop.simps)
  next
    case False
    then have IH: "fst (rrlist_loop rrl t t c recurse (Some find_handler) name d le t) \<noteq> None" for d using Cons by auto
    obtain r1 s1 where r1: "rrlist_loop rrl t t c recurse (Some find_handler) (Some (cname (rr_rdata r))) (Suc depth) rrl t = (r1, s1)" by fastforce
    then have "s1 = t" using find_loop_sound [where le = rrl and rrl = rrl and t = t and c = c and recurse = recurse and name = "Some (cname (rr_rdata r))" and depth = "Suc depth", OF subset_refl refl] by simp
    then show ?thesis using IH [of depth] IH [of "Suc depth"] r1
      by (auto simp: find_loop_Cons simp del: rrlist_loop.simps split: option.splits)
  qed
qed simp

text \<open>A list with at most one alias for each name, as the DNS requires it.\<close>

definition unique_aliases :: "dnsrr list \<Rightarrow> 16 word \<Rightarrow> bool" where
  "unique_aliases rrl c \<longleftrightarrow>
     (\<forall>r1 \<in> set rrl. \<forall>r2 \<in> set rrl. rr_type r1 = DNS_TYPE_CNAME \<and> rr_type r2 = DNS_TYPE_CNAME \<and>
        class_matches c r1 \<and> class_matches c r2 \<and> str_caseeq (rr_name r1) (rr_name r2) \<longrightarrow> cname (rr_rdata r1) = cname (rr_rdata r2))"

lemma find_loop_follows:
  assumes u: "unique_aliases rrl c" and t: "t \<noteq> DNS_QTYPE_ANY" "t \<noteq> DNS_TYPE_CNAME"
    and a: "r \<in> set rrl" "rr_type r = DNS_TYPE_CNAME" "name_matches (Some q) r" "class_matches c r" "depth < 16"
    and follow: "fst (rrlist_loop rrl t t c True (Some find_handler) (Some (cname (rr_rdata r))) (Suc depth) rrl t) \<noteq> None"
  shows "r \<in> set le \<Longrightarrow> set le \<subseteq> set rrl \<Longrightarrow> fst (rrlist_loop rrl t t c True (Some find_handler) (Some q) depth le t) \<noteq> None"
proof (induction le)
  case (Cons x le)
  have skip: "\<not> rr_skips (Some q) t t c True r" using a t by (auto simp: rr_skips_def name_matches_def class_matches_def)
  show ?case
  proof (cases "rr_skips (Some q) t t c True x")
    case True
    then have "r \<in> set le" using skip Cons.prems by auto
    then show ?thesis using True Cons by (simp add: find_loop_Cons del: rrlist_loop.simps)
  next
    case False
    note x = not_skips [OF False]
    show ?thesis
    proof (cases "rr_type x = t")
      case ty: False
      have cn: "rr_type x = DNS_TYPE_CNAME" using x ty t(1) by auto
      have "str_caseeq (rr_name x) (rr_name r)" using x a(3) by (simp add: name_matches_def str_caseeq_def)
      then have same: "cname (rr_rdata x) = cname (rr_rdata r)"
        using u cn x a(1,2,4) Cons.prems(2) unfolding unique_aliases_def by auto
      obtain y s where y: "rrlist_loop rrl t t c True (Some find_handler) (Some (cname (rr_rdata r))) (Suc depth) rrl t = (Some y, s)"
        using follow by (metis fst_conv option.exhaust surj_pair)
      show ?thesis using ty cn a(5) t False by (simp add: find_loop_Cons same y del: rrlist_loop.simps)
    qed (use False in \<open>simp add: find_loop_Cons del: rrlist_loop.simps\<close>)
  qed
qed simp

lemma find_loop_aliased:
  assumes "aliased rrl c n name a" "unique_aliases rrl c" "t \<noteq> DNS_QTYPE_ANY" "t \<noteq> DNS_TYPE_CNAME"
    "rr \<in> set rrl" "rr_type rr = t" "class_matches c rr" "name_matches a rr"
  shows "name = Some q \<Longrightarrow> depth + n \<le> 16 \<Longrightarrow> fst (rrlist_loop rrl t t c True (Some find_handler) name depth rrl t) \<noteq> None"
  using assms(1,8)
proof (induction n name a arbitrary: depth q rule: aliased.induct)
  case (alias_none a)
  then show ?case using find_loop_complete [OF assms(5) _ assms(7,6) subset_refl] by blast
next
  case (alias_more r x n b)
  then show ?case using find_loop_follows [OF assms(2-4), of r q depth rrl] by auto
qed

lemma find_cases:
  "(case dns_rrlist_find rrl name type dnsclass recurse of
      None \<Rightarrow> list_all (\<lambda>rr. \<not> (rr_type rr = type \<and> name_matches name rr \<and> class_matches dnsclass rr)) rrl
    | Some rr \<Rightarrow> found rrl type dnsclass name 16 rr)"
proof -
  obtain r s where r: "rrlist_loop rrl type type dnsclass recurse (Some find_handler) name 0 rrl type = (r, s)" by fastforce
  then have f: "dns_rrlist_find rrl name type dnsclass recurse = r" by (simp add: dns_rrlist_find_def rrlist_apply_def)
  show ?thesis
  proof (cases r)
    case None
    then show ?thesis using f r find_loop_complete [of _ rrl name dnsclass type rrl recurse 0] by (auto simp: list_all_iff)
  next
    case (Some rr)
    then show ?thesis using f r find_loop_sound [where le = rrl and rrl = rrl and t = type and c = dnsclass and recurse = recurse and name = name and depth = 0, OF subset_refl refl]
      by auto
  qed
qed

text \<open>
  C23.  The search for a record ends on every list, also with aliases in a cycle.  For a type other than
  ANY, what it finds is a record of the list with the type and class that were asked for, whose name
  is the name that was asked for or is reached from it by at most 16 aliases; it finds a record
  whenever the list has one under the name itself, and, when it recurses and the list has at most one
  alias for each name, whenever the list has one at the end of a chain of at most 16 aliases.  For the type ANY the interface says that the type
  is not filtered; the code does filter: it finds a record only when one of the list has itself the type number 255 of ANY, and
  finds nothing in a list of ordinary records.
\<close>

theorem dns_rrlist_find_correct:
  "(type \<noteq> DNS_QTYPE_ANY \<longrightarrow>
     (case dns_rrlist_find rrl name type dnsclass recurse of
        None \<Rightarrow> list_all (\<lambda>rr. \<not> (rr_type rr = type \<and> name_matches name rr \<and> class_matches dnsclass rr)) rrl
      | Some rr \<Rightarrow> rr \<in> set rrl \<and> rr_type rr = type \<and> class_matches dnsclass rr \<and>
          (\<exists>n a. n \<le> 16 \<and> aliased rrl dnsclass n name a \<and> name_matches a rr))) \<and>
   (type \<noteq> DNS_QTYPE_ANY \<and> type \<noteq> DNS_TYPE_CNAME \<and> unique_aliases rrl dnsclass \<and> aliased rrl dnsclass n (Some q) a \<and> n \<le> 16 \<and>
      \<not> list_all (\<lambda>rr. \<not> (rr_type rr = type \<and> name_matches a rr \<and> class_matches dnsclass rr)) rrl \<longrightarrow>
      dns_rrlist_find rrl (Some q) type dnsclass True \<noteq> None) \<and>
   (case dns_rrlist_find rrl name DNS_QTYPE_ANY dnsclass recurse of
      None \<Rightarrow> list_all (\<lambda>rr. \<not> (rr_type rr = DNS_QTYPE_ANY \<and> name_matches name rr \<and> class_matches dnsclass rr)) rrl
    | Some rr \<Rightarrow> rr \<in> set rrl \<and> rr_type rr = DNS_QTYPE_ANY) \<and>
   (list_all (\<lambda>rr. rr_type rr \<noteq> DNS_QTYPE_ANY) rrl \<longrightarrow> dns_rrlist_find rrl name DNS_QTYPE_ANY dnsclass recurse = None)"
proof (intro conjI impI)
  show "case dns_rrlist_find rrl name type dnsclass recurse of
        None \<Rightarrow> list_all (\<lambda>rr. \<not> (rr_type rr = type \<and> name_matches name rr \<and> class_matches dnsclass rr)) rrl
      | Some rr \<Rightarrow> rr \<in> set rrl \<and> rr_type rr = type \<and> class_matches dnsclass rr \<and>
          (\<exists>n a. n \<le> 16 \<and> aliased rrl dnsclass n name a \<and> name_matches a rr)"
    using find_cases [where rrl = rrl and name = name and type = type and dnsclass = dnsclass and recurse = recurse] by (auto simp: found_def split: option.splits)
  show "dns_rrlist_find rrl (Some q) type dnsclass True \<noteq> None"
    if "type \<noteq> DNS_QTYPE_ANY \<and> type \<noteq> DNS_TYPE_CNAME \<and> unique_aliases rrl dnsclass \<and> aliased rrl dnsclass n (Some q) a \<and> n \<le> 16 \<and>
      \<not> list_all (\<lambda>rr. \<not> (rr_type rr = type \<and> name_matches a rr \<and> class_matches dnsclass rr)) rrl"
    using that find_loop_aliased [of rrl dnsclass n "Some q" a type _ q 0]
    by (auto simp: dns_rrlist_find_def rrlist_apply_def list_all_iff simp del: rrlist_loop.simps)
  show "case dns_rrlist_find rrl name DNS_QTYPE_ANY dnsclass recurse of
      None \<Rightarrow> list_all (\<lambda>rr. \<not> (rr_type rr = DNS_QTYPE_ANY \<and> name_matches name rr \<and> class_matches dnsclass rr)) rrl
    | Some rr \<Rightarrow> rr \<in> set rrl \<and> rr_type rr = DNS_QTYPE_ANY"
    "list_all (\<lambda>rr. rr_type rr \<noteq> DNS_QTYPE_ANY) rrl \<Longrightarrow> dns_rrlist_find rrl name DNS_QTYPE_ANY dnsclass recurse = None"
    using find_cases [where rrl = rrl and name = name and type = DNS_QTYPE_ANY and dnsclass = dnsclass and recurse = recurse] by (auto simp: found_def list_all_iff split: option.splits)
qed

text \<open>An address behind an alias: found for its type, not found for ANY.\<close>

theorem dns_rrlist_find_correct_witness:
  "\<exists>rr. dns_rrlist_find
     [\<lparr>rr_name = [97], rr_type = 5, rr_dnsclass = 1, rr_ttl = 0, rr_rdlen = 0, rr_rdata = Rd_cname [98]\<rparr>,
      \<lparr>rr_name = [98], rr_type = 1, rr_dnsclass = 1, rr_ttl = 0, rr_rdlen = 0, rr_rdata = Rd_a 9\<rparr>] (Some [97]) 1 1 True = Some rr \<and>
     rr_rdata rr = Rd_a 9 \<and>
   dns_rrlist_find
     [\<lparr>rr_name = [97], rr_type = 5, rr_dnsclass = 1, rr_ttl = 0, rr_rdlen = 0, rr_rdata = Rd_cname [98]\<rparr>,
      \<lparr>rr_name = [98], rr_type = 1, rr_dnsclass = 1, rr_ttl = 0, rr_rdlen = 0, rr_rdata = Rd_a 9\<rparr>] (Some [97]) 255 1 True = None"
proof -
  let ?x = "\<lparr>rr_name = [97], rr_type = 5, rr_dnsclass = 1, rr_ttl = 0, rr_rdlen = 0, rr_rdata = Rd_cname [98]\<rparr>"
  let ?l = "[?x, \<lparr>rr_name = [98], rr_type = 1, rr_dnsclass = 1, rr_ttl = 0, rr_rdlen = 0, rr_rdata = Rd_a 9\<rparr>]"
  have "unique_aliases ?l 1" by (simp add: unique_aliases_def)
  moreover have "aliased ?l 1 (Suc 0) (Some [97]) (Some [98])"
    using alias_more [of ?x ?l "Some [97]" 1 0 "Some [98]"] alias_none
    by (simp add: name_matches_def class_matches_def str_caseeq_def)
  ultimately show ?thesis
    using dns_rrlist_find_correct [where type = 1 and rrl = ?l and name = "Some [97]" and dnsclass = 1 and recurse = True
        and n = "Suc 0" and q = "[97]" and a = "Some [98]"]
    by (cases "dns_rrlist_find ?l (Some [97]) 1 1 True") (auto simp: name_matches_def class_matches_def str_caseeq_def)
qed

end
