(* ===== verification/Spec2Isabelle.thy ===== *)
theory Spec2Isabelle
  imports Prelude Mem Mbuf Rtp Aes Srtp Srtp_Channel Srtp_Security Linked_List Hash Base64 Httpauth
    Reader Wire Rtcp Rtcp_Roundtrip Tmr
    Sip_Trans Sip_Ctrans Sip_Strans Crc32 Sa Stun Stun_Safety Stun_Roundtrip
    Dns_Name Dns Dns_Safety Dns_Roundtrip Dns_List
begin

text \<open>
  A verification library for libre, a C library of real-time communication protocols.

  \<^bold>\<open>The program.\<close>  libre is a set of modules over a common base.  The base is reference-counted
  memory (\<^verbatim>\<open>src/mem\<close>), byte buffers with a position and an end (\<^verbatim>\<open>src/mbuf\<close>), intrusive doubly
  linked lists (\<^verbatim>\<open>src/list\<close>), hash tables over them (\<^verbatim>\<open>src/hash\<close>), timers in a sorted list
  (\<^verbatim>\<open>src/tmr\<close>) and socket addresses (\<^verbatim>\<open>src/sa\<close>).  The protocols use the base: every message is
  written to and read from an mbuf, every session is an element of a hash table, every retransmission
  is a timer.  Between the two are the codecs (\<^verbatim>\<open>src/base64\<close>, \<^verbatim>\<open>src/crc32\<close>) and the wrappers of the
  cryptographic library (\<^verbatim>\<open>src/aes\<close>, \<^verbatim>\<open>src/hmac\<close>).

  \<^bold>\<open>Conventions.\<close>  A byte is an \<open>8 word\<close>, a machine integer a word of its width, and \<open>size_t\<close> a natural
  number whose sums and differences wrap at 64 bits (\<open>szadd\<close>, \<open>szsub\<close> of \<open>Prelude\<close>).  A function that
  returns an error code returns an \<open>errno\<close>; the code \<open>FAULT\<close> stands for an access outside of a block,
  which no C error code can report, so that memory safety of an operation is the theorem that it does
  not return \<open>FAULT\<close>.  The memory allocator is an argument \<open>al\<close>, which may fail for any size; \<open>mem_ok al\<close>
  says that it does not.  The clock, the random numbers, the sending of a packet and the routines of
  OpenSSL are arguments too, and what the code relies on is a hypothesis of the theorem.

  \<^bold>\<open>Theories.\<close>

  \<^item> \<open>Prelude\<close>: error codes, sizes, bytes in both orders, and the lemmas on words and lists that the
    components share.

  \<^item> \<open>Mem\<close> (\<^verbatim>\<open>mem/mem.c\<close>): objects with reference counts in a heap.  Access to an object that is
    gone has no result.  An object lives until its last reference is dropped, and beyond that only when
    its destructor takes a new reference; reallocating a shared object to a smaller size is shown to write
    outside of it.

  \<^item> \<open>Mbuf\<close> (\<^verbatim>\<open>mbuf/mbuf.c\<close>, \<^verbatim>\<open>re_mbuf.h\<close>): the record \<open>mbuf\<close> and all operations on it.  The relation
    \<open>emits\<close> says that an encoder appends given bytes; the encoders of the protocols are shown to satisfy
    it and compose by it.

  \<^item> \<open>Linked_List\<close> (\<^verbatim>\<open>list/list.c\<close>) and \<open>Hash\<close> (\<^verbatim>\<open>hash/hash.c\<close>, \<^verbatim>\<open>hash/func.c\<close>): a store of list
    elements and heads that are addressed by pointers.  Every sequence of operations implements the
    same operations on lists; sorting ends exactly for handlers that order any two elements; the
    lookup in a table finds what a search of all elements finds.

  \<^item> \<open>Tmr\<close> (\<^verbatim>\<open>tmr/tmr.c\<close>): timers over the linked list.  The list is sorted by the deadlines after every
    operation.  Handlers are any functions that start, continue and cancel timers, depending on the state; as long
    as they make no timer due at the time of the poll, polling returns and serves every due timer
    that no earlier handler changed, once and in order.

  \<^item> \<open>Base64\<close>, \<open>Crc32\<close>, \<open>Sa\<close>, \<open>Httpauth\<close> (\<^verbatim>\<open>base64/b64.c\<close>, \<^verbatim>\<open>crc32/crc32.c\<close>, \<^verbatim>\<open>sa/sa.c\<close>,
    \<^verbatim>\<open>httpauth/basic.c\<close>): each is related to a reference definition: the text of RFC 4648, the bitwise
    shift register, the equality of the selected parts of an address, the comparison of credentials.

  \<^item> \<open>Reader\<close> and \<open>Wire\<close>: the error monad in which the decoders are written, with the judgements that a
    decoder stays inside of the data (\<open>dec_safe\<close>) and that it reads back given bytes (\<open>decodes\<close>).

  \<^item> \<open>Rtp\<close>, \<open>Rtcp\<close>, \<open>Rtcp_Roundtrip\<close> (\<^verbatim>\<open>rtp/\<close>): the headers, the statistics of a source, which are
    related to unbounded sequence numbers, and all RTCP packets with their round trip, the feedback
    formats included, and the safety of the receive loop on any datagram.

  \<^item> \<open>Aes\<close>, \<open>Srtp\<close>, \<open>Srtp_Channel\<close>, \<open>Srtp_Security\<close> (\<^verbatim>\<open>aes/openssl\<close>, \<^verbatim>\<open>hmac/openssl\<close>, \<^verbatim>\<open>srtp/\<close>):
    sender and receiver of secure RTP composed over a channel that loses packets, and what any
    sequence of received packets can achieve.

  \<^item> \<open>Sip_Trans\<close>, \<open>Sip_Ctrans\<close>, \<open>Sip_Strans\<close> (\<^verbatim>\<open>sip/ctrans.c\<close>, \<^verbatim>\<open>sip/strans.c\<close>, \<^verbatim>\<open>sip_recv\<close> of
    \<^verbatim>\<open>sip/transp.c\<close>): a transaction is a record in a table, a handler a step, and a run any sequence of
    messages, user calls, timers and transport errors.  The owner of a client transaction may release
    it at any time.  The users of server transactions keep them in handle variables and reply through
    them in any state, so that it is the clearing of the variable by \<^verbatim>\<open>sip_strans_reply\<close> that keeps them from
    replying twice.  Invariants of the runs give the uniqueness of the outcome; the time limit is a
    function of what the transaction did, and its timer is shown to be that.

  \<^item> \<open>Stun\<close>, \<open>Stun_Safety\<close>, \<open>Stun_Roundtrip\<close> (\<^verbatim>\<open>stun/hdr.c\<close>, \<^verbatim>\<open>addr.c\<close>, \<^verbatim>\<open>attr.c\<close>, \<^verbatim>\<open>msg.c\<close>): encoder and
    decoder of STUN messages, with the integrity and fingerprint checks.

  \<^item> \<open>Dns_Name\<close>, \<open>Dns\<close>, \<open>Dns_Safety\<close>, \<open>Dns_Roundtrip\<close> (\<^verbatim>\<open>dns/dname.c\<close>, \<^verbatim>\<open>cstr.c\<close>, \<^verbatim>\<open>hdr.c\<close>, \<^verbatim>\<open>rr.c\<close>): names with
    compression, headers and resource records.  The bytes of a name are computed by a function of the
    table and the position only, so that facts on them survive the patching of the length fields.  The
    decoder ends and stays inside of the data on any message, pointer loops included; a sequence of
    records is read back.

  \<^item> \<open>Dns_List\<close> (\<^verbatim>\<open>dns/rrlist.c\<close>): sorting of records, over the theorem on \<^verbatim>\<open>list_sort\<close>, and the search
    that follows aliases, whose recursion is bounded by the depth and the rest of the list, with what it
    finds and what it cannot miss.

  \<^bold>\<open>Loops.\<close>  A loop over a list or over the rest of a buffer is a structural or measured recursion.  The
  loops that follow pointers of the linked lists run on fuel, the number of elements in the store,
  and return \<open>None\<close> when it is used up; the theorems show that they return.  The padding loops of RTCP and
  STUN and the passes of the sort may run forever in C; they are fuelled or partial functions, and
  the theorems say when they end.

  \<^bold>\<open>Not modelled.\<close>  The sockets and the event loop (\<^verbatim>\<open>udp\<close>, \<^verbatim>\<open>tcp\<close>, \<^verbatim>\<open>main\<close>, \<^verbatim>\<open>net\<close>, \<^verbatim>\<open>unixsock\<close>,
  \<^verbatim>\<open>mqueue\<close>, \<^verbatim>\<open>async\<close>, \<^verbatim>\<open>thread\<close>, \<^verbatim>\<open>sys\<close>) are calls of the operating system.  TLS (\<^verbatim>\<open>tls\<close>), the
  digests (\<^verbatim>\<open>md5\<close>, \<^verbatim>\<open>sha\<close>) and the ciphers are calls of OpenSSL; only the contexts that SRTP uses are
  modelled, with OpenSSL as a parameter.  Printing (the debug functions and the format
  strings of \<^verbatim>\<open>fmt/print.c\<close>) has no effect on the protocols.  The modules that parse text by the
  regular expressions of \<^verbatim>\<open>fmt/regex.c\<close> (\<^verbatim>\<open>sip/msg.c\<close>, \<^verbatim>\<open>sdp\<close>, \<^verbatim>\<open>http\<close>, \<^verbatim>\<open>uri\<close>, the digest
  authentication) and the sessions above the modelled transactions (\<^verbatim>\<open>sipsess\<close>, \<^verbatim>\<open>sipevent\<close>,
  \<^verbatim>\<open>sipreg\<close>, \<^verbatim>\<open>ice\<close>, \<^verbatim>\<open>trice\<close>, \<^verbatim>\<open>turn\<close>, the DNS client) are not part of this development, nor are the
  other protocols and formats (\<^verbatim>\<open>rtmp\<close>, \<^verbatim>\<open>bfcp\<close>, \<^verbatim>\<open>pcp\<close>, \<^verbatim>\<open>websock\<close>, \<^verbatim>\<open>json\<close>, the video payloads), the signal
  processing with floating-point numbers and the conversion of pictures (\<^verbatim>\<open>rem/\<close>).  \<^verbatim>\<open>PROJECT.json\<close> lists
  every part with its reason.
\<close>

end
